(* ===== verification/CF_Prelude.thy ===== *)
theory CF_Prelude
  imports Main "HOL-Library.Multiset" "HOL-Library.Monad_Syntax"
begin

text \<open>
  Shared vocabulary of the CoreFoundation development.

  \<^item> Pointers and function pointers are addresses (\<open>nat\<close>, with \<open>NULL = 0\<close>), so that the
    code's pointer comparisons are comparisons of the model.
  \<^item> Client code reached through a function pointer (a collection's \<open>retain\<close>, \<open>equal\<close> and
    \<open>compare\<close> callbacks) is not part of the repository.  It is a parameter, the record
    \<open>cf_env\<close>: what the function at an address returns.  The calls the library makes to
    \<open>retain\<close> and \<open>release\<close> are the only effects that leave a collection, and every operation
    returns them as a list of \<open>cf_call\<close>, in the order they are made.
  \<^item> A block of memory holding \<open>n\<close> cells is a list of \<open>n\<close> optional values, \<open>None\<close> being a
    cell that \<open>malloc\<close> returned and nobody has written.
  \<^item> An operation that reads or writes memory has an \<open>option\<close> result.  \<open>None\<close> is undefined
    behaviour (an access out of bounds, a read of an unwritten cell, a signed overflow) or the
    library's \<open>HALT\<close>; a theorem that an operation returns \<open>Some\<close> is a memory-safety theorem.
\<close>

section \<open>Pointers, callbacks and the calls made to them\<close>

type_synonym ptr = nat
type_synonym fnptr = nat

abbreviation (input) NULL :: nat where
  "NULL \<equiv> 0"

definition kCFCompareLessThan :: int where
  "kCFCompareLessThan = -1"

definition kCFCompareEqualTo :: int where
  "kCFCompareEqualTo = 0"

definition kCFCompareGreaterThan :: int where
  "kCFCompareGreaterThan = 1"

definition kCFNotFound :: int where
  "kCFNotFound = -1"

lemmas cf_compare_defs = kCFCompareLessThan_def kCFCompareEqualTo_def kCFCompareGreaterThan_def

text \<open>
  \<open>env_alloc\<close> is the allocator's answer to a request for a number of bytes;
  \<open>env_retain f p\<close>, \<open>env_equal f p q\<close> and \<open>env_compare f p q info\<close> are the results of the
  client functions at address \<open>f\<close>.
\<close>

record cf_env =
  env_alloc :: "nat \<Rightarrow> bool"
  env_retain :: "fnptr \<Rightarrow> ptr \<Rightarrow> ptr"
  env_equal :: "fnptr \<Rightarrow> ptr \<Rightarrow> ptr \<Rightarrow> bool"
  env_compare :: "fnptr \<Rightarrow> ptr \<Rightarrow> ptr \<Rightarrow> ptr \<Rightarrow> int"

text \<open>
  Creation of an object of a registered class in the system default allocator: the request is
  for the runtime header (16 bytes) and the fields, rounded up to a multiple of 16.
\<close>

definition CFRuntimeCreateInstance :: "cf_env \<Rightarrow> nat \<Rightarrow> bool" where
  "CFRuntimeCreateInstance env extraBytes = env_alloc env (((16 + extraBytes + 15) div 16) * 16)"

datatype cf_call = Retain ptr | Release ptr

fun retained :: "cf_call list \<Rightarrow> ptr list" where
  "retained [] = []"
| "retained (Retain p # cs) = p # retained cs"
| "retained (Release p # cs) = retained cs"

fun released :: "cf_call list \<Rightarrow> ptr list" where
  "released [] = []"
| "released (Retain p # cs) = released cs"
| "released (Release p # cs) = p # released cs"

lemma retained_append [simp]: "retained (xs @ ys) = retained xs @ retained ys"
  by (induction xs rule: retained.induct) auto

lemma released_append [simp]: "released (xs @ ys) = released xs @ released ys"
  by (induction xs rule: released.induct) auto

lemma retained_map_Retain [simp]: "retained (map Retain xs) = xs"
  by (induction xs) auto

lemma released_map_Retain [simp]: "released (map Retain xs) = []"
  by (induction xs) auto

lemma retained_map_Release [simp]: "retained (map Release xs) = []"
  by (induction xs) auto

lemma released_map_Release [simp]: "released (map Release xs) = xs"
  by (induction xs) auto

section \<open>C arithmetic the containers use\<close>

text \<open>\<open>flsl\<close>: the number of the last (most significant) set bit, counted from one; 0 for 0.\<close>

fun flsl :: "nat \<Rightarrow> nat" where
  "flsl n = (if n = 0 then 0 else Suc (flsl (n div 2)))"

declare flsl.simps [simp del]

lemma flsl_0 [simp]: "flsl 0 = 0"
  by (simp add: flsl.simps)

lemma flsl_pos: "0 < n \<Longrightarrow> flsl n = Suc (flsl (n div 2))"
  by (subst flsl.simps) simp

lemma flsl_upper: "n < 2 ^ flsl n"
proof (induction n rule: flsl.induct)
  case (1 n)
  then show ?case by (cases "n = 0") (auto simp: flsl_pos)
qed

lemma flsl_lower: "0 < n \<Longrightarrow> 2 ^ flsl n \<le> 2 * n"
proof (induction n rule: flsl.induct)
  case (1 n)
  show ?case
  proof (cases "n div 2 = 0")
    case True
    with "1.prems" have "n = 1" by auto
    then show ?thesis by (simp add: flsl_pos)
  next
    case False
    with 1 have "2 ^ flsl (n div 2) \<le> 2 * (n div 2)" by auto
    with "1.prems" show ?thesis by (simp add: flsl_pos)
  qed
qed

lemma flsl_le: "n < 2 ^ k \<Longrightarrow> flsl n \<le> k"
proof (cases "n = 0")
  case False
  assume "n < 2 ^ k"
  with False flsl_lower [of n] have "(2::nat) ^ flsl n < 2 ^ Suc k" by simp
  then have "flsl n < Suc k" by (rule power_less_imp_less_exp [rotated]) simp
  then show ?thesis by simp
qed simp

text \<open>
  \<open>1 << k\<close> at type \<open>int\<close> (32 bits): the result must be representable, so the shift is
  undefined from 31 on.
\<close>

definition int_shl1 :: "nat \<Rightarrow> nat option" where
  "int_shl1 k = (if k < 31 then Some (2 ^ k) else None)"

lemma int_shl1_flsl: "n < 2 ^ 30 \<Longrightarrow> int_shl1 (flsl n) = Some (2 ^ flsl n)"
  using flsl_le [of n 30] by (simp add: int_shl1_def)

lemma int_shl1_flsl_undefined: "2 ^ 30 \<le> n \<Longrightarrow> int_shl1 (flsl n) = None"
proof -
  assume "2 ^ 30 \<le> n"
  with flsl_upper [of n] have "(2::nat) ^ 30 < 2 ^ flsl n" by linarith
  then have "30 < flsl n" by (rule power_less_imp_less_exp [rotated]) simp
  then show ?thesis by (simp add: int_shl1_def)
qed

section \<open>Memory cells\<close>

type_synonym 'a cells = "'a option list"

definition fresh_cells :: "nat \<Rightarrow> 'a cells" where
  "fresh_cells n = replicate n None"

definition ld :: "'a cells \<Rightarrow> nat \<Rightarrow> 'a option" where
  "ld m i = (if i < length m then m ! i else None)"

definition st :: "'a cells \<Rightarrow> nat \<Rightarrow> 'a \<Rightarrow> 'a cells option" where
  "st m i v = (if i < length m then Some (m[i := Some v]) else None)"

text \<open>\<open>memmove\<close> of \<open>n\<close> whole cells (the source may be the destination block itself).\<close>

definition memmove_cells :: "'a cells \<Rightarrow> nat \<Rightarrow> 'a cells \<Rightarrow> nat \<Rightarrow> nat \<Rightarrow> 'a cells option" where
  "memmove_cells dst di src si n =
     (if si + n \<le> length src \<and> di + n \<le> length dst
      then Some (take di dst @ take n (drop si src) @ drop (di + n) dst) else None)"

definition memset_cells :: "'a cells \<Rightarrow> nat \<Rightarrow> 'a \<Rightarrow> nat \<Rightarrow> 'a cells option" where
  "memset_cells dst di v n =
     (if di + n \<le> length dst
      then Some (take di dst @ replicate n (Some v) @ drop (di + n) dst) else None)"

text \<open>\<open>realloc\<close>: the old cells, cut or followed by unwritten ones.\<close>

definition realloc_cells :: "'a cells \<Rightarrow> nat \<Rightarrow> 'a cells" where
  "realloc_cells m n = take n m @ replicate (n - length m) None"

lemma length_fresh_cells [simp]: "length (fresh_cells n) = n"
  by (simp add: fresh_cells_def)

lemma length_realloc_cells [simp]: "length (realloc_cells m n) = n"
  by (simp add: realloc_cells_def)

lemma realloc_cells_grow: "length m \<le> n \<Longrightarrow> realloc_cells m n = m @ replicate (n - length m) None"
  by (simp add: realloc_cells_def)

text \<open>
  The initialised prefix of a block: \<open>holds m xs\<close> says the first \<open>length xs\<close> cells hold \<open>xs\<close>.
\<close>

definition holds :: "'a cells \<Rightarrow> 'a list \<Rightarrow> bool" where
  "holds m xs \<longleftrightarrow> length xs \<le> length m \<and> take (length xs) m = map Some xs"

lemma holds_length: "holds m xs \<Longrightarrow> length xs \<le> length m"
  by (simp add: holds_def)

lemma holds_nth: "holds m xs \<Longrightarrow> i < length xs \<Longrightarrow> m ! i = Some (xs ! i)"
  by (metis holds_def nth_map nth_take)

lemma holds_ld: "holds m xs \<Longrightarrow> i < length xs \<Longrightarrow> ld m i = Some (xs ! i)"
  using holds_nth holds_length by (fastforce simp: ld_def)

lemma holds_iff_nth:
  "holds m xs \<longleftrightarrow> length xs \<le> length m \<and> (\<forall>i < length xs. m ! i = Some (xs ! i))"
  by (auto simp: holds_def list_eq_iff_nth_eq)

lemma holds_st:
  "holds m xs \<Longrightarrow> i < length xs \<Longrightarrow> \<exists>m'. st m i v = Some m' \<and> holds m' (xs[i := v]) \<and> length m' = length m"
  by (auto simp: st_def holds_iff_nth nth_list_update)

lemma holds_st_snoc:
  "holds m xs \<Longrightarrow> length xs < length m \<Longrightarrow>
     \<exists>m'. st m (length xs) v = Some m' \<and> holds m' (xs @ [v]) \<and> length m' = length m"
  by (auto simp: st_def holds_iff_nth nth_append nth_list_update)

lemma holds_append_cells: "holds m xs \<Longrightarrow> holds (m @ m') xs"
  by (simp add: holds_def)

lemma holds_take: "holds m xs \<Longrightarrow> holds m (take n xs)"
  by (auto simp: holds_iff_nth)

lemma holds_butlast: "holds m xs \<Longrightarrow> holds m (butlast xs)"
  by (auto simp: holds_iff_nth nth_butlast)

lemma holds_Nil [simp]: "holds m []"
  by (simp add: holds_def)

lemma holds_map_the: "holds m xs \<Longrightarrow> map the (take (length xs) m) = xs"
  by (simp add: holds_def)

section \<open>Orders given by a comparison\<close>

text \<open>
  What every client of a comparison relies on: \<open>gt\<close> (the test \<open>kCFCompareGreaterThan ==
  compare(a, b)\<close>, or the pointer comparison \<open>a > b\<close>) is the strict part of a total preorder.
\<close>

locale strict_weak_order =
  fixes gt :: "'a \<Rightarrow> 'a \<Rightarrow> bool"
  assumes gt_asym: "gt a b \<Longrightarrow> \<not> gt b a"
    and not_gt_trans: "\<not> gt a b \<Longrightarrow> \<not> gt b c \<Longrightarrow> \<not> gt a c"
begin

lemma not_gt_refl [simp]: "\<not> gt a a"
  using gt_asym by blast

lemma gt_imp_not_gt_rev: "gt a b \<Longrightarrow> \<not> gt b a"
  by (rule gt_asym)

lemma gt_trans: "gt a b \<Longrightarrow> gt b c \<Longrightarrow> gt a c"
  using gt_asym not_gt_trans by blast

lemma gt_not_gt_trans: "\<not> gt a b \<Longrightarrow> gt c b \<Longrightarrow> gt c a"
  using not_gt_trans by blast

end

interpretation ptr_order: strict_weak_order "\<lambda>a b. (b :: ptr) < a"
  by unfold_locales auto

text \<open>A comparison that returns the three documented values and orders its arguments.\<close>

locale comparator =
  fixes cmp :: "'a \<Rightarrow> 'a \<Rightarrow> int"
  assumes cmp_range: "cmp a b \<in> {-1, 0, 1}"
    and cmp_swap: "cmp b a = - cmp a b"
    and cmp_le_trans: "cmp a b \<le> 0 \<Longrightarrow> cmp b c \<le> 0 \<Longrightarrow> cmp a c \<le> 0"
begin

lemma cmp_refl [simp]: "cmp a a = 0"
  using cmp_swap [of a a] by simp

lemma cmp_greater_iff: "cmp a b = 1 \<longleftrightarrow> 0 < cmp a b"
  using cmp_range [of a b] by auto

lemma cmp_total: "cmp a b \<le> 0 \<or> cmp b a \<le> 0"
  using cmp_swap [of a b] by linarith

lemma cmp_less_trans: "cmp a b < 0 \<Longrightarrow> cmp b c \<le> 0 \<Longrightarrow> cmp a c < 0"
proof -
  assume ab: "cmp a b < 0" and bc: "cmp b c \<le> 0"
  have "cmp a c \<noteq> 0"
  proof
    assume "cmp a c = 0"
    with cmp_swap [of c a] have "cmp c a \<le> 0" by simp
    with bc have "cmp b a \<le> 0" by (rule cmp_le_trans)
    with ab cmp_swap [of a b] show False by simp
  qed
  moreover have "cmp a c \<le> 0" using ab bc cmp_le_trans [of a b c] by simp
  ultimately show ?thesis by simp
qed

end

sublocale comparator \<subseteq> greater: strict_weak_order "\<lambda>a b. cmp a b = kCFCompareGreaterThan"
proof
  fix a b c
  show "cmp a b = kCFCompareGreaterThan \<Longrightarrow> cmp b a \<noteq> kCFCompareGreaterThan"
    using cmp_swap [of a b] by (simp add: kCFCompareGreaterThan_def)
  assume ab: "cmp a b \<noteq> kCFCompareGreaterThan" and bc: "cmp b c \<noteq> kCFCompareGreaterThan"
  then have "cmp a b \<le> 0" "cmp b c \<le> 0"
    by (simp_all add: kCFCompareGreaterThan_def cmp_greater_iff)
  then have "cmp a c \<le> 0" by (rule cmp_le_trans)
  then show "cmp a c \<noteq> kCFCompareGreaterThan" by (simp add: kCFCompareGreaterThan_def)
qed

context comparator
begin

lemma greater_swo: "strict_weak_order (\<lambda>a b. cmp a b = kCFCompareGreaterThan)"
  by (rule greater.strict_weak_order_axioms)

end

end
