(* ===== verification/CF_BinaryHeap.thy ===== *)
theory CF_BinaryHeap
  imports CF_Prelude
begin

text \<open>
  \<open>CFBinaryHeap.c\<close>: a binary min-heap of pointers in a growing block of buckets.

  The object is the record \<open>CFBinaryHeap\<close>; each function of the file is one definition with the
  same name (a leading underscore dropped).  The comparison used by the sift loops is the
  callback's, or the order of the addresses when the heap has no \<open>compare\<close> callback.  The
  lemmas show that the heap order, the bucket bookkeeping and the contents (as a multiset)
  are kept by every operation, for any comparison that is a \<open>strict_weak_order\<close>, so that
  taking the values out one by one sorts them.
\<close>

section \<open>The object and its operations\<close>

record CFBinaryHeap =
  hp_count :: nat
  hp_capacity :: nat
  hp_retain :: fnptr
  hp_release :: fnptr
  hp_copyDescription :: fnptr
  hp_compare :: fnptr
  hp_info :: ptr
  hp_variety :: nat
  hp_buckets :: "ptr cells"

record CFBinaryHeapCallBacks =
  hcb_retain :: fnptr
  hcb_release :: fnptr
  hcb_copyDescription :: fnptr
  hcb_compare :: fnptr

definition kCFBinaryHeapMutable :: nat where
  "kCFBinaryHeapMutable = 1"

definition CFBinaryHeapRoundUpCapacity :: "nat \<Rightarrow> nat option" where
  "CFBinaryHeapRoundUpCapacity capacity =
     (if capacity < 4 then Some 4 else int_shl1 (flsl capacity))"

definition CFBinaryHeapNumBucketsForCapacity :: "nat \<Rightarrow> nat" where
  "CFBinaryHeapNumBucketsForCapacity capacity = capacity"

text \<open>The two comparisons of the sift loops: \<open>item <= value\<close> when rising, \<open>a > b\<close> when sinking.\<close>

definition heap_item_le :: "cf_env \<Rightarrow> CFBinaryHeap \<Rightarrow> ptr \<Rightarrow> ptr \<Rightarrow> bool" where
  "heap_item_le env h item v \<longleftrightarrow>
     (hp_compare h = NULL \<and> item \<le> v) \<or>
     (hp_compare h \<noteq> NULL \<and>
      kCFCompareGreaterThan \<noteq> env_compare env (hp_compare h) item v (hp_info h))"

definition heap_item_gt :: "cf_env \<Rightarrow> CFBinaryHeap \<Rightarrow> ptr \<Rightarrow> ptr \<Rightarrow> bool" where
  "heap_item_gt env h a b \<longleftrightarrow>
     (hp_compare h = NULL \<and> a > b) \<or>
     (hp_compare h \<noteq> NULL \<and>
      kCFCompareGreaterThan = env_compare env (hp_compare h) a b (hp_info h))"

definition heap_item_match :: "cf_env \<Rightarrow> CFBinaryHeap \<Rightarrow> ptr \<Rightarrow> ptr \<Rightarrow> bool" where
  "heap_item_match env h v item \<longleftrightarrow>
     v = item \<or>
     (hp_compare h \<noteq> NULL \<and>
      kCFCompareEqualTo = env_compare env (hp_compare h) v item (hp_info h))"

definition CFBinaryHeapGrow :: "cf_env \<Rightarrow> CFBinaryHeap \<Rightarrow> nat \<Rightarrow> CFBinaryHeap option" where
  "CFBinaryHeapGrow env h numNewValues = do {
     capacity \<leftarrow> CFBinaryHeapRoundUpCapacity (hp_count h + numNewValues);
     let n = CFBinaryHeapNumBucketsForCapacity capacity;
     if env_alloc env (n * 8)
     then Some (h\<lparr>hp_capacity := n, hp_buckets := realloc_cells (hp_buckets h) n\<rparr>)
     else None
   }"

text \<open>
  The rising loop of \<open>CFBinaryHeapAddValue\<close>: the hole is at \<open>idx\<close> (the code's \<open>pidx\<close> is not
  read when \<open>idx\<close> is 0).
\<close>

function heap_add_loop ::
  "('a \<Rightarrow> 'a \<Rightarrow> bool) \<Rightarrow> 'a cells \<Rightarrow> nat \<Rightarrow> 'a \<Rightarrow> ('a cells \<times> nat) option" where
  "heap_add_loop le m idx v =
     (if 0 < idx then do {
        item \<leftarrow> ld m ((idx - 1) div 2);
        if le item v then Some (m, idx)
        else do {
          m' \<leftarrow> st m idx item;
          heap_add_loop le m' ((idx - 1) div 2) v
        }
      } else Some (m, idx))"
  by pat_completeness auto
termination
  by (relation "measure (\<lambda>(le, m, idx, v). idx)") auto

declare heap_add_loop.simps [simp del]

definition CFBinaryHeapAddValue ::
  "cf_env \<Rightarrow> CFBinaryHeap \<Rightarrow> ptr \<Rightarrow> (CFBinaryHeap \<times> cf_call list) option" where
  "CFBinaryHeapAddValue env h0 v = do {
     h \<leftarrow> (if hp_variety h0 = kCFBinaryHeapMutable \<and> hp_count h0 = hp_capacity h0
           then CFBinaryHeapGrow env h0 1 else Some h0);
     let cnt = hp_count h;
     (m, idx) \<leftarrow> heap_add_loop (heap_item_le env h) (hp_buckets h) cnt v;
     if hp_retain h \<noteq> NULL then do {
       m' \<leftarrow> st m idx (env_retain env (hp_retain h) v);
       Some (h\<lparr>hp_count := cnt + 1, hp_buckets := m'\<rparr>, [Retain v])
     } else do {
       m' \<leftarrow> st m idx v;
       Some (h\<lparr>hp_count := cnt + 1, hp_buckets := m'\<rparr>, [])
     }
   }"

text \<open>
  The sinking loop of \<open>CFBinaryHeapRemoveMinimumValue\<close>, over the first \<open>n\<close> buckets: the
  smaller child is chosen, the left one on a tie.
\<close>

definition heap_pick_child ::
  "('a \<Rightarrow> 'a \<Rightarrow> bool) \<Rightarrow> nat \<Rightarrow> 'a cells \<Rightarrow> nat \<Rightarrow> (nat \<times> 'a) option" where
  "heap_pick_child gt n m cidx = do {
     item \<leftarrow> ld m cidx;
     if cidx + 1 < n then do {
       item2 \<leftarrow> ld m (cidx + 1);
       if gt item item2 then Some (cidx + 1, item2) else Some (cidx, item)
     } else Some (cidx, item)
   }"

lemma heap_pick_child_index:
  "heap_pick_child gt n m cidx = Some (c, item) \<Longrightarrow> cidx < n \<Longrightarrow> cidx \<le> c \<and> c < n"
  by (auto simp: heap_pick_child_def split: Option.bind_splits if_splits)

function heap_remove_loop ::
  "('a \<Rightarrow> 'a \<Rightarrow> bool) \<Rightarrow> nat \<Rightarrow> 'a cells \<Rightarrow> nat \<Rightarrow> 'a \<Rightarrow> ('a cells \<times> nat) option" where
  "heap_remove_loop gt n m idx val =
     (if 2 * idx + 1 < n then do {
        (cidx, item) \<leftarrow> heap_pick_child gt n m (2 * idx + 1);
        if gt item val then Some (m, idx)
        else do {
          m' \<leftarrow> st m idx item;
          heap_remove_loop gt n m' cidx val
        }
      } else Some (m, idx))"
  by pat_completeness auto
termination
  by (relation "measure (\<lambda>(gt, n, m, idx, val). n - idx)")
    (auto dest!: heap_pick_child_index)

declare heap_remove_loop.simps [simp del]

definition CFBinaryHeapRemoveMinimumValue ::
  "cf_env \<Rightarrow> CFBinaryHeap \<Rightarrow> (CFBinaryHeap \<times> cf_call list) option" where
  "CFBinaryHeapRemoveMinimumValue env h =
     (if hp_count h = 0 then Some (h, [])
      else do {
        let cnt = hp_count h;
        calls \<leftarrow> (if hp_release h \<noteq> NULL
                  then do { p \<leftarrow> ld (hp_buckets h) 0; Some [Release p] } else Some []);
        val \<leftarrow> ld (hp_buckets h) (cnt - 1);
        (m, idx) \<leftarrow> heap_remove_loop (heap_item_gt env h) (cnt - 1) (hp_buckets h) 0 val;
        m' \<leftarrow> st m idx val;
        Some (h\<lparr>hp_count := cnt - 1, hp_buckets := m'\<rparr>, calls)
      })"

fun heap_release_loop :: "ptr cells \<Rightarrow> nat \<Rightarrow> nat \<Rightarrow> cf_call list option" where
  "heap_release_loop m idx 0 = Some []"
| "heap_release_loop m idx (Suc n) = do {
     p \<leftarrow> ld m idx;
     calls \<leftarrow> heap_release_loop m (idx + 1) n;
     Some (Release p # calls)
   }"

definition CFBinaryHeapRemoveAllValues ::
  "CFBinaryHeap \<Rightarrow> (CFBinaryHeap \<times> cf_call list) option" where
  "CFBinaryHeapRemoveAllValues h = do {
     calls \<leftarrow> (if hp_release h \<noteq> NULL
               then heap_release_loop (hp_buckets h) 0 (hp_count h) else Some []);
     Some (h\<lparr>hp_count := 0\<rparr>, calls)
   }"

text \<open>Deallocation (without a garbage collector): the calls made before the storage is freed.\<close>

definition CFBinaryHeapDeallocate :: "CFBinaryHeap \<Rightarrow> cf_call list option" where
  "CFBinaryHeapDeallocate h = do {
     (h', calls) \<leftarrow> CFBinaryHeapRemoveAllValues h;
     Some calls
   }"

definition CFBinaryHeapGetCount :: "CFBinaryHeap \<Rightarrow> nat" where
  "CFBinaryHeapGetCount h = hp_count h"

definition CFBinaryHeapGetMinimum :: "CFBinaryHeap \<Rightarrow> ptr option" where
  "CFBinaryHeapGetMinimum h = (if 0 < hp_count h then ld (hp_buckets h) 0 else Some NULL)"

text \<open>The result is the returned flag and, when it is true, the value stored through the pointer.\<close>

definition CFBinaryHeapGetMinimumIfPresent :: "CFBinaryHeap \<Rightarrow> (bool \<times> ptr option) option" where
  "CFBinaryHeapGetMinimumIfPresent h =
     (if 0 = hp_count h then Some (False, None)
      else do { p \<leftarrow> ld (hp_buckets h) 0; Some (True, Some p) })"

fun heap_count_loop :: "(ptr \<Rightarrow> bool) \<Rightarrow> ptr cells \<Rightarrow> nat \<Rightarrow> nat \<Rightarrow> nat \<Rightarrow> nat option" where
  "heap_count_loop match m idx 0 cnt = Some cnt"
| "heap_count_loop match m idx (Suc n) cnt = do {
     item \<leftarrow> ld m idx;
     heap_count_loop match m (idx + 1) n (if match item then cnt + 1 else cnt)
   }"

definition CFBinaryHeapGetCountOfValue :: "cf_env \<Rightarrow> CFBinaryHeap \<Rightarrow> ptr \<Rightarrow> nat option" where
  "CFBinaryHeapGetCountOfValue env h v =
     heap_count_loop (heap_item_match env h v) (hp_buckets h) 0 (hp_count h) 0"

fun heap_contains_loop :: "(ptr \<Rightarrow> bool) \<Rightarrow> ptr cells \<Rightarrow> nat \<Rightarrow> nat \<Rightarrow> bool option" where
  "heap_contains_loop match m idx 0 = Some False"
| "heap_contains_loop match m idx (Suc n) = do {
     item \<leftarrow> ld m idx;
     if match item then Some True else heap_contains_loop match m (idx + 1) n
   }"

definition CFBinaryHeapContainsValue :: "cf_env \<Rightarrow> CFBinaryHeap \<Rightarrow> ptr \<Rightarrow> bool option" where
  "CFBinaryHeapContainsValue env h v =
     heap_contains_loop (heap_item_match env h v) (hp_buckets h) 0 (hp_count h)"

text \<open>
  Creation.  The fields after the runtime header are 104 bytes; a refused request returns
  \<open>NULL\<close>, here the inner \<open>None\<close>.  The \<open>capacity\<close> argument is only asserted on.
\<close>

fun heap_add_all ::
  "cf_env \<Rightarrow> CFBinaryHeap \<Rightarrow> ptr cells \<Rightarrow> nat \<Rightarrow> nat \<Rightarrow> (CFBinaryHeap \<times> cf_call list) option" where
  "heap_add_all env h vals idx 0 = Some (h, [])"
| "heap_add_all env h vals idx (Suc n) = do {
     v \<leftarrow> ld vals idx;
     (h', c1) \<leftarrow> CFBinaryHeapAddValue env h v;
     (h'', c2) \<leftarrow> heap_add_all env h' vals (idx + 1) n;
     Some (h'', c1 @ c2)
   }"

definition CFBinaryHeapInit ::
  "cf_env \<Rightarrow> nat \<Rightarrow> ptr cells \<Rightarrow> nat \<Rightarrow> CFBinaryHeapCallBacks option \<Rightarrow> ptr option \<Rightarrow>
     (CFBinaryHeap option \<times> cf_call list) option" where
  "CFBinaryHeapInit env flags vals numValues callBacks compareContext =
     (if \<not> CFRuntimeCreateInstance env 104 then Some (None, [])
      else do {
        capacity \<leftarrow> CFBinaryHeapRoundUpCapacity 1;
        let n = CFBinaryHeapNumBucketsForCapacity capacity;
        if \<not> env_alloc env (n * 8) then Some (None, [])
        else do {
          let memory =
            \<lparr> hp_count = 0, hp_capacity = n,
              hp_retain = (case callBacks of None \<Rightarrow> NULL | Some cb \<Rightarrow> hcb_retain cb),
              hp_release = (case callBacks of None \<Rightarrow> NULL | Some cb \<Rightarrow> hcb_release cb),
              hp_copyDescription = (case callBacks of None \<Rightarrow> NULL | Some cb \<Rightarrow> hcb_copyDescription cb),
              hp_compare = (case callBacks of None \<Rightarrow> NULL | Some cb \<Rightarrow> hcb_compare cb),
              hp_info = (case compareContext of None \<Rightarrow> NULL | Some i \<Rightarrow> i),
              hp_variety = kCFBinaryHeapMutable,
              hp_buckets = fresh_cells n \<rparr>;
          (h, calls) \<leftarrow> heap_add_all env memory vals 0 numValues;
          Some (Some (h\<lparr>hp_variety := flags mod 4\<rparr>), calls)
        }
      })"

definition CFBinaryHeapCreate ::
  "cf_env \<Rightarrow> CFBinaryHeapCallBacks option \<Rightarrow> ptr option \<Rightarrow> (CFBinaryHeap option \<times> cf_call list) option" where
  "CFBinaryHeapCreate env callBacks compareContext =
     CFBinaryHeapInit env kCFBinaryHeapMutable [] 0 callBacks compareContext"

definition CFBinaryHeapCreateCopy ::
  "cf_env \<Rightarrow> CFBinaryHeap \<Rightarrow> (CFBinaryHeap option \<times> cf_call list) option" where
  "CFBinaryHeapCreateCopy env h =
     CFBinaryHeapInit env kCFBinaryHeapMutable (hp_buckets h) (hp_count h)
       (Some \<lparr> hcb_retain = hp_retain h, hcb_release = hp_release h,
               hcb_copyDescription = hp_copyDescription h, hcb_compare = hp_compare h \<rparr>)
       (Some (hp_info h))"

lemma RemoveMinimumValue_count:
  "CFBinaryHeapRemoveMinimumValue env h = Some (h', c) \<Longrightarrow> hp_count h' = hp_count h - 1"
  by (auto simp: CFBinaryHeapRemoveMinimumValue_def Let_def split: if_splits Option.bind_splits)

text \<open>
  The drain loop shared by \<open>CFBinaryHeapGetValues\<close> and \<open>CFBinaryHeapApplyFunction\<close>: the values
  in the order they are written to the client's array, or handed to the applier.
\<close>

function heap_drain :: "cf_env \<Rightarrow> CFBinaryHeap \<Rightarrow> (ptr list \<times> CFBinaryHeap \<times> cf_call list) option" where
  "heap_drain env h =
     (if 0 < hp_count h then do {
        v \<leftarrow> CFBinaryHeapGetMinimum h;
        (h', c1) \<leftarrow> CFBinaryHeapRemoveMinimumValue env h;
        (vs, h'', c2) \<leftarrow> heap_drain env h';
        Some (v # vs, h'', c1 @ c2)
      } else Some ([], h, []))"
  by pat_completeness auto
termination
  by (relation "measure (\<lambda>(env, h). hp_count h)") (auto dest!: RemoveMinimumValue_count)

declare heap_drain.simps [simp del]

text \<open>
  \<open>CFRelease(heapCopy)\<close> deallocates the copy, whose only reference it is.  A copy that could
  not be created is read through a null pointer.
\<close>

definition CFBinaryHeapGetValues ::
  "cf_env \<Rightarrow> CFBinaryHeap \<Rightarrow> (ptr list \<times> cf_call list) option" where
  "CFBinaryHeapGetValues env h =
     (if hp_count h = 0 then Some ([], [])
      else do {
        (copy, c1) \<leftarrow> CFBinaryHeapCreateCopy env h;
        heapCopy \<leftarrow> copy;
        (vs, h', c2) \<leftarrow> heap_drain env heapCopy;
        c3 \<leftarrow> CFBinaryHeapDeallocate h';
        Some (vs, c1 @ c2 @ c3)
      })"

text \<open>The applier runs between two steps of the drain; its calls are the values, in order.\<close>

definition CFBinaryHeapApplyFunction ::
  "cf_env \<Rightarrow> CFBinaryHeap \<Rightarrow> (ptr list \<times> cf_call list) option" where
  "CFBinaryHeapApplyFunction env h =
     (if hp_count h = 0 then Some ([], [])
      else do {
        (copy, c1) \<leftarrow> CFBinaryHeapCreateCopy env h;
        heapCopy \<leftarrow> copy;
        (vs, h', c2) \<leftarrow> heap_drain env heapCopy;
        c3 \<leftarrow> CFBinaryHeapDeallocate h';
        Some (vs, c1 @ c2 @ c3)
      })"

fun heap_equal_loop :: "cf_env \<Rightarrow> CFBinaryHeap \<Rightarrow> ptr list \<Rightarrow> ptr list \<Rightarrow> bool" where
  "heap_equal_loop env h (val1 # l1) (val2 # l2) =
     (if val1 \<noteq> val2 then
        if hp_compare h = NULL then False
        else if env_compare env (hp_compare h) val1 val2 (hp_info h) = 0 then False
        else heap_equal_loop env h l1 l2
      else heap_equal_loop env h l1 l2)"
| "heap_equal_loop env h _ _ = True"

definition CFBinaryHeapEqual :: "cf_env \<Rightarrow> CFBinaryHeap \<Rightarrow> CFBinaryHeap \<Rightarrow> bool option" where
  "CFBinaryHeapEqual env heap1 heap2 =
     (if hp_count heap1 \<noteq> hp_count heap2 then Some False
      else if hp_compare heap1 \<noteq> hp_compare heap2 then Some False
      else if hp_count heap1 = 0 then Some True
      else do {
        (list1, c1) \<leftarrow> CFBinaryHeapGetValues env heap1;
        (list2, c2) \<leftarrow> CFBinaryHeapGetValues env heap2;
        Some (heap_equal_loop env heap1 list1 list2)
      })"

definition CFBinaryHeapHash :: "CFBinaryHeap \<Rightarrow> nat" where
  "CFBinaryHeapHash h = hp_count h"

section \<open>Heap order\<close>

definition heap_parent :: "nat \<Rightarrow> nat" where
  "heap_parent i = (i - 1) div 2"

definition heap_ordered :: "('a \<Rightarrow> 'a \<Rightarrow> bool) \<Rightarrow> 'a list \<Rightarrow> bool" where
  "heap_ordered gt xs \<longleftrightarrow>
     (\<forall>i < length xs. 0 < i \<longrightarrow> \<not> gt (xs ! heap_parent i) (xs ! i))"

text \<open>A block that holds a list but for one cell, the hole of the sift loops.\<close>

definition holds_but :: "'a cells \<Rightarrow> nat \<Rightarrow> 'a list \<Rightarrow> bool" where
  "holds_but m h xs \<longleftrightarrow>
     length xs \<le> length m \<and> (\<forall>i < length xs. i \<noteq> h \<longrightarrow> m ! i = Some (xs ! i))"

lemma holds_but_ld: "holds_but m h xs \<Longrightarrow> i < length xs \<Longrightarrow> i \<noteq> h \<Longrightarrow> ld m i = Some (xs ! i)"
  by (auto simp: holds_but_def ld_def)

lemma holds_but_move:
  assumes "holds_but m h xs" "h < length xs" "j < length xs" "h \<noteq> j"
  shows "\<exists>m'. st m h (xs ! j) = Some m' \<and> holds_but m' j (xs[h := xs ! j, j := v]) \<and>
    length m' = length m"
  using assms by (auto simp: holds_but_def st_def nth_list_update)

lemma holds_but_fill:
  assumes "holds_but m h xs" "h < length xs"
  shows "\<exists>m'. st m h v = Some m' \<and> holds m' (xs[h := v]) \<and> length m' = length m"
  using assms by (auto simp: holds_but_def st_def holds_iff_nth nth_list_update)

lemma mset_hole_move:
  assumes "i < length ys" "j < length ys"
  shows "mset (ys[i := ys ! j, j := ys ! i]) = mset ys"
  using assms by (simp add: mset_swap)

lemma heap_parent_less: "0 < i \<Longrightarrow> heap_parent i < i"
  by (simp add: heap_parent_def)

lemma heap_parent_eq_iff: "0 < c \<Longrightarrow> heap_parent c = i \<longleftrightarrow> c = 2 * i + 1 \<or> c = 2 * i + 2"
  by (auto simp: heap_parent_def)

text \<open>
  What the rising loop keeps: all edges but the one above the hole are ordered, and the
  hole's children are not below its parent.
\<close>

definition rising :: "('a \<Rightarrow> 'a \<Rightarrow> bool) \<Rightarrow> nat \<Rightarrow> 'a list \<Rightarrow> bool" where
  "rising gt idx ys \<longleftrightarrow>
     (\<forall>i < length ys. 0 < i \<longrightarrow> i \<noteq> idx \<longrightarrow> \<not> gt (ys ! heap_parent i) (ys ! i)) \<and>
     (0 < idx \<longrightarrow> (\<forall>c < length ys. 0 < c \<longrightarrow> heap_parent c = idx \<longrightarrow>
        \<not> gt (ys ! heap_parent idx) (ys ! c)))"

text \<open>What the sinking loop keeps: all edges but those below the hole are ordered.\<close>

definition sinking :: "('a \<Rightarrow> 'a \<Rightarrow> bool) \<Rightarrow> nat \<Rightarrow> 'a list \<Rightarrow> bool" where
  "sinking gt idx ys \<longleftrightarrow>
     (\<forall>i < length ys. 0 < i \<longrightarrow> heap_parent i \<noteq> idx \<longrightarrow> \<not> gt (ys ! heap_parent i) (ys ! i)) \<and>
     (0 < idx \<longrightarrow> (\<forall>c < length ys. 0 < c \<longrightarrow> heap_parent c = idx \<longrightarrow>
        \<not> gt (ys ! heap_parent idx) (ys ! c)))"

context strict_weak_order
begin

lemma rising_step:
  assumes r: "rising gt idx ys" and i: "0 < idx" "idx < length ys"
    and g: "gt (ys ! heap_parent idx) (ys ! idx)"
  defines "p \<equiv> heap_parent idx"
  shows "rising gt p (ys[idx := ys ! p, p := ys ! idx])"
proof -
  let ?z = "ys[idx := ys ! p, p := ys ! idx]"
  have p: "p < idx" "p < length ys" using i heap_parent_less [of idx] by (auto simp: p_def)
  have up: "\<not> gt (ys ! idx) (ys ! p)" using g gt_asym by (simp add: p_def)
  have edge: "\<not> gt (ys ! heap_parent j) (ys ! j)" if "j < length ys" "0 < j" "j \<noteq> idx" for j
    using r that by (simp add: rising_def)
  have kid: "\<not> gt (ys ! p) (ys ! c)" if "c < length ys" "0 < c" "heap_parent c = idx" for c
    using r that i by (simp add: rising_def p_def)
  have "\<not> gt (?z ! heap_parent j) (?z ! j)" if j: "j < length ys" "0 < j" "j \<noteq> p" for j
  proof (cases "j = idx")
    case True
    then show ?thesis using up p i by (simp add: p_def [symmetric] nth_list_update)
  next
    case False
    have pj: "heap_parent j < length ys" using heap_parent_less [of j] j by simp
    show ?thesis
    proof (cases "heap_parent j = p")
      case True
      then have "\<not> gt (ys ! p) (ys ! j)" using edge [of j] j False by simp
      then show ?thesis using True False j p up not_gt_trans [of "ys ! idx" "ys ! p" "ys ! j"]
        by (simp add: nth_list_update)
    next
      case np: False
      show ?thesis
        using False np j p pj edge [of j] kid [of j]
        by (cases "heap_parent j = idx") (simp_all add: nth_list_update)
    qed
  qed
  moreover have "\<not> gt (?z ! heap_parent p) (?z ! c)"
    if c: "0 < p" "c < length ys" "0 < c" "heap_parent c = p" for c
  proof -
    have pp: "heap_parent p < p" using heap_parent_less [of p] c by simp
    have e: "\<not> gt (ys ! heap_parent p) (ys ! p)" using edge [of p] c p by simp
    show ?thesis
    proof (cases "c = idx")
      case True
      then show ?thesis using e pp p i by (simp add: nth_list_update)
    next
      case False
      then have "\<not> gt (ys ! p) (ys ! c)" using edge [of c] c by simp
      with e have "\<not> gt (ys ! heap_parent p) (ys ! c)" by (rule not_gt_trans)
      moreover have "c \<noteq> p" using c heap_parent_less [of c] by auto
      ultimately show ?thesis using False pp p c by (simp add: nth_list_update)
    qed
  qed
  ultimately show ?thesis by (simp add: rising_def)
qed

lemma rising_done: "rising gt idx ys \<Longrightarrow> (0 < idx \<Longrightarrow> \<not> gt (ys ! heap_parent idx) (ys ! idx)) \<Longrightarrow>
    heap_ordered gt ys"
  by (auto simp: rising_def heap_ordered_def)

lemma heap_add_loop_correct:
  assumes "\<And>a b. le a b \<longleftrightarrow> \<not> gt a b"
    and "holds_but m idx ys" "idx < length ys" "ys ! idx = v" "rising gt idx ys"
  shows "\<exists>m' i zs. heap_add_loop le m idx v = Some (m', i) \<and> holds_but m' i zs \<and> i < length zs \<and>
    zs ! i = v \<and> heap_ordered gt zs \<and> mset zs = mset ys \<and> length m' = length m"
  using assms(2-)
proof (induction idx arbitrary: m ys rule: less_induct)
  case (less idx)
  show ?case
  proof (cases "0 < idx \<and> gt (ys ! heap_parent idx) v")
    case True
    let ?p = "heap_parent idx"
    let ?z = "ys[idx := ys ! ?p, ?p := v]"
    have p: "?p < idx" "?p < length ys" using True heap_parent_less [of idx] less.prems by auto
    obtain m' where m': "st m idx (ys ! ?p) = Some m'" "holds_but m' ?p ?z" "length m' = length m"
      using holds_but_move [of m idx ys ?p v] less.prems p by auto
    have "rising gt ?p ?z" using rising_step [of idx ys] less.prems True by simp
    moreover have "mset ?z = mset ys" using mset_hole_move [of idx ys ?p] less.prems p by simp
    moreover have "heap_add_loop le m idx v = heap_add_loop le m' ?p v"
      using True m'(1) less.prems p holds_but_ld [of m idx ys ?p] assms(1)
      by (subst heap_add_loop.simps) (simp add: heap_parent_def)
    ultimately show ?thesis using less.IH [OF p(1) m'(2)] p m'(3) by simp
  next
    case False
    have "heap_ordered gt ys" using rising_done [OF less.prems(4)] False less.prems(3) by auto
    moreover have "heap_add_loop le m idx v = Some (m, idx)"
      using False less.prems holds_but_ld [of m idx ys "heap_parent idx"] heap_parent_less [of idx] assms(1)
      by (subst heap_add_loop.simps) (auto simp: heap_parent_def)
    ultimately show ?thesis using less.prems by blast
  qed
qed

lemma sinking_step:
  assumes s: "sinking gt idx ys" and c: "0 < c" "c < length ys" "heap_parent c = idx"
    and least: "\<And>j. j < length ys \<Longrightarrow> 0 < j \<Longrightarrow> heap_parent j = idx \<Longrightarrow> \<not> gt (ys ! c) (ys ! j)"
    and le: "\<not> gt (ys ! c) (ys ! idx)"
  shows "sinking gt c (ys[idx := ys ! c, c := ys ! idx])"
proof -
  let ?z = "ys[idx := ys ! c, c := ys ! idx]"
  have i: "idx < c" "idx < length ys" using c heap_parent_less [of c] by auto
  have edge: "\<not> gt (ys ! heap_parent j) (ys ! j)" if "j < length ys" "0 < j" "heap_parent j \<noteq> idx" for j
    using s that by (simp add: sinking_def)
  have kid: "\<not> gt (ys ! heap_parent idx) (ys ! j)"
    if "0 < idx" "j < length ys" "0 < j" "heap_parent j = idx" for j
    using s that by (simp add: sinking_def)
  have "\<not> gt (?z ! heap_parent j) (?z ! j)" if j: "j < length ys" "0 < j" "heap_parent j \<noteq> c" for j
  proof (cases "j = idx")
    case True
    have "heap_parent idx < idx" using heap_parent_less [of idx] j True by simp
    then show ?thesis using True kid [of c] j c i by (simp add: nth_list_update)
  next
    case False
    have pj: "heap_parent j < length ys" using heap_parent_less [of j] j by simp
    show ?thesis using False j c i pj edge [of j] least [of j] le
      by (cases "heap_parent j = idx"; cases "j = c") (simp_all add: nth_list_update)
  qed
  moreover have "\<not> gt (?z ! heap_parent c) (?z ! j)"
    if "j < length ys" "0 < j" "heap_parent j = c" for j
  proof -
    have "c < j" using that heap_parent_less [of j] by simp
    then show ?thesis using that edge [of j] i c by (simp add: nth_list_update)
  qed
  ultimately show ?thesis using i by (simp add: sinking_def)
qed

lemma sinking_done:
  assumes "sinking gt idx ys"
    and "\<And>j. j < length ys \<Longrightarrow> 0 < j \<Longrightarrow> heap_parent j = idx \<Longrightarrow> \<not> gt (ys ! idx) (ys ! j)"
  shows "heap_ordered gt ys"
  unfolding heap_ordered_def
proof (intro allI impI)
  fix i
  assume "i < length ys" "0 < i"
  then show "\<not> gt (ys ! heap_parent i) (ys ! i)"
    using assms by (cases "heap_parent i = idx") (simp_all add: sinking_def)
qed

lemma heap_pick_child_least:
  assumes "holds_but m idx ys" "2 * idx + 1 < length ys"
  shows "\<exists>c. heap_pick_child gt (length ys) m (2 * idx + 1) = Some (c, ys ! c) \<and>
    0 < c \<and> c < length ys \<and> heap_parent c = idx \<and>
    (\<forall>j < length ys. 0 < j \<longrightarrow> heap_parent j = idx \<longrightarrow> \<not> gt (ys ! c) (ys ! j))"
proof -
  let ?c = "2 * idx + 1"
  have l: "ld m ?c = Some (ys ! ?c)" using assms by (intro holds_but_ld) auto
  have r: "?c + 1 < length ys \<Longrightarrow> ld m (?c + 1) = Some (ys ! (?c + 1))"
    using assms by (intro holds_but_ld) auto
  have kids: "j = ?c \<or> j = ?c + 1" if "0 < j" "heap_parent j = idx" for j
    using that heap_parent_eq_iff [of j idx] by auto
  have par: "heap_parent ?c = idx" "heap_parent (?c + 1) = idx" by (simp_all add: heap_parent_def)
  show ?thesis
  proof (cases "?c + 1 < length ys \<and> gt (ys ! ?c) (ys ! (?c + 1))")
    case True
    then have "heap_pick_child gt (length ys) m ?c = Some (?c + 1, ys ! (?c + 1))"
      using l r by (simp add: heap_pick_child_def)
    moreover have "\<not> gt (ys ! (?c + 1)) (ys ! j)" if "0 < j" "heap_parent j = idx" for j
      using kids [OF that] True gt_asym by auto
    ultimately show ?thesis using True par by (intro exI [of _ "?c + 1"]) simp
  next
    case False
    then have "heap_pick_child gt (length ys) m ?c = Some (?c, ys ! ?c)"
      using l r by (auto simp: heap_pick_child_def)
    moreover have "\<not> gt (ys ! ?c) (ys ! j)" if "j < length ys" "0 < j" "heap_parent j = idx" for j
      using kids [OF that(2,3)] that(1) False by auto
    ultimately show ?thesis using assms(2) par by (intro exI [of _ ?c]) simp
  qed
qed

lemma heap_remove_loop_correct:
  assumes "holds_but m idx ys" "idx < length ys" "ys ! idx = v" "sinking gt idx ys"
  shows "\<exists>m' i zs. heap_remove_loop gt (length ys) m idx v = Some (m', i) \<and> holds_but m' i zs \<and>
    i < length zs \<and> zs ! i = v \<and> heap_ordered gt zs \<and> mset zs = mset ys \<and> length m' = length m"
  using assms
proof (induction "length ys - idx" arbitrary: m idx ys rule: less_induct)
  case less
  have stop: "\<exists>m' i zs. Some (m, idx) = Some (m', i) \<and> holds_but m' i zs \<and> i < length zs \<and>
      zs ! i = v \<and> heap_ordered gt zs \<and> mset zs = mset ys \<and> length m' = length m"
    if "\<And>j. j < length ys \<Longrightarrow> 0 < j \<Longrightarrow> heap_parent j = idx \<Longrightarrow> \<not> gt (ys ! idx) (ys ! j)"
    using sinking_done [OF less.prems(4) that] less.prems by blast
  show ?case
  proof (cases "2 * idx + 1 < length ys")
    case True
    then obtain c where pick: "heap_pick_child gt (length ys) m (2 * idx + 1) = Some (c, ys ! c)"
      and c: "0 < c" "c < length ys" "heap_parent c = idx"
      and least: "\<forall>j < length ys. 0 < j \<longrightarrow> heap_parent j = idx \<longrightarrow> \<not> gt (ys ! c) (ys ! j)"
      using heap_pick_child_least less.prems by blast
    show ?thesis
    proof (cases "gt (ys ! c) v")
      case True
      then have v: "\<not> gt v (ys ! c)" by (rule gt_asym)
      have "heap_remove_loop gt (length ys) m idx v = Some (m, idx)"
        using pick True \<open>2 * idx + 1 < length ys\<close> by (subst heap_remove_loop.simps) simp
      moreover have "\<not> gt (ys ! idx) (ys ! j)" if "j < length ys" "0 < j" "heap_parent j = idx" for j
        using not_gt_trans [OF v] least that less.prems(3) by simp
      ultimately show ?thesis using stop by simp
    next
      case False
      let ?z = "ys[idx := ys ! c, c := v]"
      have ic: "idx < c" using c heap_parent_less [of c] by simp
      obtain m' where m': "st m idx (ys ! c) = Some m'" "holds_but m' c ?z" "length m' = length m"
        using holds_but_move [of m idx ys c v] less.prems c ic by auto
      have "sinking gt c ?z" using sinking_step [of idx ys c] least c False less.prems by simp
      moreover have "mset ?z = mset ys" using mset_hole_move [of idx ys c] less.prems c by simp
      moreover have "heap_remove_loop gt (length ys) m idx v = heap_remove_loop gt (length ys) m' c v"
        using True False pick m'(1) by (subst heap_remove_loop.simps) simp
      moreover have "length ?z - c < length ys - idx" using ic c by simp
      ultimately show ?thesis using less.hyps [of ?z c m'] c m' by simp
    qed
  next
    case False
    then have "heap_remove_loop gt (length ys) m idx v = Some (m, idx)"
      by (subst heap_remove_loop.simps) simp
    moreover have "\<not> gt (ys ! idx) (ys ! j)" if "j < length ys" "0 < j" "heap_parent j = idx" for j
      using that False heap_parent_eq_iff [of j idx] by auto
    ultimately show ?thesis using stop by simp
  qed
qed

lemma heap_ordered_root_least:
  assumes "heap_ordered gt xs" "i < length xs"
  shows "\<not> gt (xs ! 0) (xs ! i)"
  using assms(2)
proof (induction i rule: less_induct)
  case (less i)
  show ?case
  proof (cases "i = 0")
    case False
    then have "heap_parent i < i" by (simp add: heap_parent_less)
    then have "\<not> gt (xs ! 0) (xs ! heap_parent i)" using less by simp
    moreover have "\<not> gt (xs ! heap_parent i) (xs ! i)"
      using assms(1) less.prems False by (simp add: heap_ordered_def)
    ultimately show ?thesis by (rule not_gt_trans)
  qed simp
qed

end

section \<open>The invariant of a heap object\<close>

definition heap_elems :: "CFBinaryHeap \<Rightarrow> ptr list" where
  "heap_elems h = map the (take (hp_count h) (hp_buckets h))"

definition heap_wf :: "cf_env \<Rightarrow> CFBinaryHeap \<Rightarrow> bool" where
  "heap_wf env h \<longleftrightarrow>
     hp_variety h = kCFBinaryHeapMutable \<and> hp_capacity h = length (hp_buckets h) \<and>
     holds (hp_buckets h) (heap_elems h) \<and> length (heap_elems h) = hp_count h \<and>
     heap_ordered (heap_item_gt env h) (heap_elems h)"

text \<open>
  What the code relies on of the client's callbacks: a \<open>compare\<close> callback is a comparator, and
  \<open>retain\<close> returns a value that compares as its argument does.
\<close>

definition heap_compare_ok :: "cf_env \<Rightarrow> CFBinaryHeap \<Rightarrow> bool" where
  "heap_compare_ok env h \<longleftrightarrow>
     (hp_compare h \<noteq> NULL \<longrightarrow> comparator (\<lambda>a b. env_compare env (hp_compare h) a b (hp_info h)))"

definition heap_retain_ok :: "cf_env \<Rightarrow> CFBinaryHeap \<Rightarrow> bool" where
  "heap_retain_ok env h \<longleftrightarrow>
     (hp_retain h \<noteq> NULL \<longrightarrow>
       (\<forall>p q. heap_item_gt env h (env_retain env (hp_retain h) p) q = heap_item_gt env h p q \<and>
              heap_item_gt env h q (env_retain env (hp_retain h) p) = heap_item_gt env h q p))"

definition heap_stored :: "cf_env \<Rightarrow> CFBinaryHeap \<Rightarrow> ptr \<Rightarrow> ptr" where
  "heap_stored env h v = (if hp_retain h \<noteq> NULL then env_retain env (hp_retain h) v else v)"

definition heap_retain_calls :: "CFBinaryHeap \<Rightarrow> ptr list \<Rightarrow> cf_call list" where
  "heap_retain_calls h vs = (if hp_retain h \<noteq> NULL then map Retain vs else [])"

definition heap_release_calls :: "CFBinaryHeap \<Rightarrow> ptr list \<Rightarrow> cf_call list" where
  "heap_release_calls h vs = (if hp_release h \<noteq> NULL then map Release vs else [])"

definition same_callbacks :: "CFBinaryHeap \<Rightarrow> CFBinaryHeap \<Rightarrow> bool" where
  "same_callbacks h h' \<longleftrightarrow>
     hp_retain h' = hp_retain h \<and> hp_release h' = hp_release h \<and>
     hp_copyDescription h' = hp_copyDescription h \<and> hp_compare h' = hp_compare h \<and>
     hp_info h' = hp_info h"

lemma same_callbacks_refl [simp]: "same_callbacks h h"
  by (simp add: same_callbacks_def)

lemma same_callbacks_trans: "same_callbacks a b \<Longrightarrow> same_callbacks b c \<Longrightarrow> same_callbacks a c"
  by (simp add: same_callbacks_def)

lemma same_callbacks_cong:
  assumes "same_callbacks h h'"
  shows "heap_item_gt env h' = heap_item_gt env h" "heap_item_le env h' = heap_item_le env h"
    "heap_compare_ok env h' = heap_compare_ok env h" "heap_retain_ok env h' = heap_retain_ok env h"
    "heap_stored env h' = heap_stored env h" "heap_retain_calls h' = heap_retain_calls h"
    "heap_release_calls h' = heap_release_calls h"
proof -
  from assms show gt: "heap_item_gt env h' = heap_item_gt env h"
    by (auto simp: same_callbacks_def heap_item_gt_def fun_eq_iff)
  from assms show "heap_item_le env h' = heap_item_le env h"
    by (auto simp: same_callbacks_def heap_item_le_def fun_eq_iff)
  from assms show "heap_compare_ok env h' = heap_compare_ok env h"
    by (simp add: same_callbacks_def heap_compare_ok_def)
  from assms gt show "heap_retain_ok env h' = heap_retain_ok env h"
    by (simp add: same_callbacks_def heap_retain_ok_def)
  from assms show "heap_stored env h' = heap_stored env h"
    by (auto simp: same_callbacks_def heap_stored_def fun_eq_iff)
  from assms show "heap_retain_calls h' = heap_retain_calls h"
    by (auto simp: same_callbacks_def heap_retain_calls_def fun_eq_iff)
  from assms show "heap_release_calls h' = heap_release_calls h"
    by (auto simp: same_callbacks_def heap_release_calls_def fun_eq_iff)
qed

lemma heap_item_le_iff: "heap_item_le env h a b \<longleftrightarrow> \<not> heap_item_gt env h a b"
  by (auto simp: heap_item_le_def heap_item_gt_def)

lemma heap_order_swo:
  assumes "heap_compare_ok env h"
  shows "strict_weak_order (heap_item_gt env h)"
proof (cases "hp_compare h = NULL")
  case True
  then have "heap_item_gt env h = (\<lambda>a b. b < a)" by (auto simp: heap_item_gt_def fun_eq_iff)
  then show ?thesis using ptr_order.strict_weak_order_axioms by simp
next
  case False
  with assms have "comparator (\<lambda>a b. env_compare env (hp_compare h) a b (hp_info h))"
    by (simp add: heap_compare_ok_def)
  then have "strict_weak_order
      (\<lambda>a b. env_compare env (hp_compare h) a b (hp_info h) = kCFCompareGreaterThan)"
    by (rule comparator.greater_swo)
  moreover have "heap_item_gt env h =
      (\<lambda>a b. env_compare env (hp_compare h) a b (hp_info h) = kCFCompareGreaterThan)"
    using False by (auto simp: heap_item_gt_def fun_eq_iff)
  ultimately show ?thesis by simp
qed

lemma heap_elems_holds: "holds (hp_buckets h) xs \<Longrightarrow> length xs = hp_count h \<Longrightarrow> heap_elems h = xs"
  using holds_map_the by (fastforce simp: heap_elems_def)

lemma heap_wfI:
  assumes "holds (hp_buckets h) xs" "length xs = hp_count h"
    "heap_ordered (heap_item_gt env h) xs" "hp_variety h = kCFBinaryHeapMutable"
    "hp_capacity h = length (hp_buckets h)"
  shows "heap_wf env h" and "heap_elems h = xs"
  using assms heap_elems_holds [OF assms(1,2)] by (simp_all add: heap_wf_def)

section \<open>Growing\<close>

lemma RoundUpCapacity_bounds:
  "CFBinaryHeapRoundUpCapacity n = Some c \<Longrightarrow> n < c \<and> 4 \<le> c \<and> c \<le> max 4 (2 * n)"
proof -
  assume *: "CFBinaryHeapRoundUpCapacity n = Some c"
  show ?thesis
  proof (cases "n < 4")
    case False
    with * have "c = 2 ^ flsl n"
      by (simp add: CFBinaryHeapRoundUpCapacity_def int_shl1_def split: if_splits)
    then show ?thesis using False flsl_upper [of n] flsl_lower [of n] by simp
  qed (use * in \<open>simp add: CFBinaryHeapRoundUpCapacity_def\<close>)
qed

lemma Grow_correct:
  assumes "CFBinaryHeapGrow env h 1 = Some h'" "hp_capacity h = length (hp_buckets h)"
    "hp_count h = hp_capacity h"
  shows "same_callbacks h h'" "hp_count h' = hp_count h" "hp_variety h' = hp_variety h"
    "hp_capacity h' = length (hp_buckets h')" "hp_count h' < hp_capacity h'"
    "holds (hp_buckets h) xs \<Longrightarrow> holds (hp_buckets h') xs"
proof -
  from assms(1) obtain c where c: "CFBinaryHeapRoundUpCapacity (hp_count h + 1) = Some c"
    and h': "h' = h\<lparr>hp_capacity := c, hp_buckets := realloc_cells (hp_buckets h) c\<rparr>"
    by (auto simp: CFBinaryHeapGrow_def CFBinaryHeapNumBucketsForCapacity_def
        split: Option.bind_splits if_splits)
  show "same_callbacks h h'" "hp_count h' = hp_count h" "hp_variety h' = hp_variety h"
    "hp_capacity h' = length (hp_buckets h')"
    by (simp_all add: h' same_callbacks_def)
  have "hp_count h < c" using RoundUpCapacity_bounds [OF c] by simp
  then show "hp_count h' < hp_capacity h'" by (simp add: h')
  from \<open>hp_count h < c\<close> assms show "holds (hp_buckets h) xs \<Longrightarrow> holds (hp_buckets h') xs"
    by (simp add: h' realloc_cells_grow holds_append_cells)
qed

section \<open>Adding a value\<close>

lemma holds_but_snoc: "holds m xs \<Longrightarrow> length xs < length m \<Longrightarrow> holds_but m (length xs) (xs @ [v])"
  by (auto simp: holds_iff_nth holds_but_def nth_append)

lemma rising_snoc: "heap_ordered gt xs \<Longrightarrow> rising gt (length xs) (xs @ [v])"
proof -
  assume o: "heap_ordered gt xs"
  have "\<not> gt ((xs @ [v]) ! heap_parent i) ((xs @ [v]) ! i)" if "i < length xs" "0 < i" for i
    using o that heap_parent_less [of i] by (simp add: heap_ordered_def nth_append)
  moreover have "heap_parent c \<noteq> length xs" if "c < Suc (length xs)" "0 < c" for c
    using that heap_parent_less [of c] by simp
  ultimately show ?thesis by (auto simp: rising_def)
qed

lemma heap_ordered_update_equiv:
  assumes "heap_ordered gt xs" "i < length xs" "\<And>q. gt w q = gt (xs ! i) q" "\<And>q. gt q w = gt q (xs ! i)"
  shows "heap_ordered gt (xs[i := w])"
  unfolding heap_ordered_def
proof (intro allI impI)
  fix j assume j: "j < length (xs[i := w])" "0 < j"
  then have p: "heap_parent j < j" by (simp add: heap_parent_less)
  have "\<not> gt (xs ! heap_parent j) (xs ! j)" using assms(1) j by (simp add: heap_ordered_def)
  then show "\<not> gt (xs[i := w] ! heap_parent j) (xs[i := w] ! j)"
    using assms(2-) j p by (simp add: nth_list_update)
qed

lemma AddValue_room:
  assumes wf: "heap_wf env h" and ok: "heap_compare_ok env h" "heap_retain_ok env h"
    and room: "hp_count h < hp_capacity h"
  shows "\<exists>h'. CFBinaryHeapAddValue env h v = Some (h', heap_retain_calls h [v]) \<and> heap_wf env h' \<and>
    mset (heap_elems h') = add_mset (heap_stored env h v) (mset (heap_elems h)) \<and> same_callbacks h h'"
proof -
  let ?xs = "heap_elems h" and ?gt = "heap_item_gt env h" and ?w = "heap_stored env h v"
  have len: "length ?xs = hp_count h" and cap: "hp_capacity h = length (hp_buckets h)"
    and var: "hp_variety h = kCFBinaryHeapMutable"
    and ord: "heap_ordered ?gt ?xs" and hold: "holds (hp_buckets h) ?xs"
    using wf by (simp_all add: heap_wf_def)
  obtain m i zs where loop: "heap_add_loop (heap_item_le env h) (hp_buckets h) (hp_count h) v = Some (m, i)"
    and m: "holds_but m i zs" "i < length zs" "length m = length (hp_buckets h)"
    and zs: "zs ! i = v" "heap_ordered ?gt zs" "mset zs = mset (?xs @ [v])"
    using strict_weak_order.heap_add_loop_correct [OF heap_order_swo [OF ok(1)],
        of "heap_item_le env h" "hp_buckets h" "length ?xs" "?xs @ [v]" v]
      holds_but_snoc [OF hold, of v] rising_snoc [OF ord, of v] nth_append_length [of ?xs v "[]"] room len cap
    by (auto simp: heap_item_le_iff)
  obtain m' where m': "st m i ?w = Some m'" "holds m' (zs[i := ?w])" "length m' = length m"
    using holds_but_fill [OF m(1,2)] by blast
  let ?h' = "h\<lparr>hp_count := hp_count h + 1, hp_buckets := m'\<rparr>"
  have cb: "same_callbacks h ?h'" by (simp add: same_callbacks_def)
  have "length zs = Suc (hp_count h)" using mset_eq_length [OF zs(3)] len by simp
  moreover have "heap_ordered ?gt (zs[i := ?w])"
    using ok(2) zs by (intro heap_ordered_update_equiv [OF _ m(2)])
      (auto simp: heap_stored_def heap_retain_ok_def)
  ultimately have wf': "heap_wf env ?h'" "heap_elems ?h' = zs[i := ?w]"
    using heap_wfI [of ?h' "zs[i := ?w]" env] m' m var cap same_callbacks_cong(1) [OF cb] by auto
  have "mset (zs[i := ?w]) = add_mset ?w (mset ?xs)"
    using mset_update [OF m(2)] zs by simp
  moreover have "CFBinaryHeapAddValue env h v = Some (?h', heap_retain_calls h [v])"
    using loop m'(1) room
    by (cases "hp_retain h = NULL")
      (simp_all add: CFBinaryHeapAddValue_def heap_stored_def heap_retain_calls_def)
  ultimately show ?thesis using wf' cb by auto
qed

lemma AddValue_grow:
  assumes "hp_variety h = kCFBinaryHeapMutable" "hp_count h = hp_capacity h"
    "CFBinaryHeapGrow env h 1 = Some h1" "hp_count h1 < hp_capacity h1"
  shows "CFBinaryHeapAddValue env h v = CFBinaryHeapAddValue env h1 v"
  using assms by (simp add: CFBinaryHeapAddValue_def)

lemma AddValue_works:
  assumes wf: "heap_wf env h" and ok: "heap_compare_ok env h" "heap_retain_ok env h"
    and room: "hp_count h = hp_capacity h \<Longrightarrow> CFBinaryHeapGrow env h 1 \<noteq> None"
  shows "\<exists>h'. CFBinaryHeapAddValue env h v = Some (h', heap_retain_calls h [v]) \<and> heap_wf env h' \<and>
    mset (heap_elems h') = add_mset (heap_stored env h v) (mset (heap_elems h)) \<and> same_callbacks h h'"
proof (cases "hp_count h = hp_capacity h")
  case True
  with room obtain h1 where g: "CFBinaryHeapGrow env h 1 = Some h1" by auto
  have cap: "hp_capacity h = length (hp_buckets h)" "hp_variety h = kCFBinaryHeapMutable"
    using wf by (simp_all add: heap_wf_def)
  note g' = Grow_correct [OF g cap(1) True]
  have h1: "heap_wf env h1" "heap_elems h1 = heap_elems h"
    using heap_wfI [of h1 "heap_elems h" env] wf g' same_callbacks_cong(1) [OF g'(1)]
    by (simp_all add: heap_wf_def)
  show ?thesis
    using AddValue_room [OF h1(1), of v] g' ok AddValue_grow [OF cap(2) True g] h1(2)
      same_callbacks_cong [OF g'(1)] same_callbacks_trans [OF g'(1)] by auto
next
  case False
  then have "hp_count h < hp_capacity h" using wf holds_length [of "hp_buckets h" "heap_elems h"]
    by (auto simp: heap_wf_def)
  then show ?thesis using AddValue_room [OF wf ok] by simp
qed

section \<open>Removing the minimum\<close>

lemma heap_ordered_butlast: "heap_ordered gt xs \<Longrightarrow> heap_ordered gt (butlast xs)"
  unfolding heap_ordered_def
proof (intro allI impI)
  fix i assume o: "\<forall>i<length xs. 0 < i \<longrightarrow> \<not> gt (xs ! heap_parent i) (xs ! i)"
    and i: "i < length (butlast xs)" "0 < i"
  then show "\<not> gt (butlast xs ! heap_parent i) (butlast xs ! i)"
    using heap_parent_less [of i] by (simp add: nth_butlast)
qed

lemma sinking_root: "heap_ordered gt xs \<Longrightarrow> sinking gt 0 (xs[0 := v])"
  by (auto simp: heap_ordered_def sinking_def nth_list_update)

lemma mset_replace_root: "1 < length xs \<Longrightarrow> mset ((butlast xs)[0 := last xs]) = mset (tl xs)"
proof -
  assume "1 < length xs"
  then obtain a ys where xs: "xs = a # ys" "ys \<noteq> []" by (cases xs) auto
  have "add_mset (last ys) (mset (butlast ys)) = mset ys"
    using arg_cong [OF append_butlast_last_id [OF xs(2)], of mset] by simp
  then show ?thesis using xs by simp
qed

lemma RemoveMinimumValue_works:
  assumes wf: "heap_wf env h" and ok: "heap_compare_ok env h" and ne: "0 < hp_count h"
  shows "\<exists>h'. CFBinaryHeapRemoveMinimumValue env h =
      Some (h', heap_release_calls h [hd (heap_elems h)]) \<and> heap_wf env h' \<and>
    mset (heap_elems h) = add_mset (hd (heap_elems h)) (mset (heap_elems h')) \<and> same_callbacks h h'"
proof -
  let ?xs = "heap_elems h" and ?gt = "heap_item_gt env h" and ?n = "hp_count h - 1"
  have len: "length ?xs = hp_count h" and cap: "hp_capacity h = length (hp_buckets h)"
    and var: "hp_variety h = kCFBinaryHeapMutable"
    and ord: "heap_ordered ?gt ?xs" and hold: "holds (hp_buckets h) ?xs"
    using wf by (simp_all add: heap_wf_def)
  have xs: "?xs \<noteq> []" using len ne by auto
  have l0: "ld (hp_buckets h) 0 = Some (hd ?xs)" using holds_ld [OF hold, of 0] xs
    by (simp add: hd_conv_nth)
  have ln: "ld (hp_buckets h) ?n = Some (last ?xs)" using holds_ld [OF hold, of ?n] xs len ne
    by (simp add: last_conv_nth)
  let ?h' = "\<lambda>m'. h\<lparr>hp_count := ?n, hp_buckets := m'\<rparr>"
  have run: "CFBinaryHeapRemoveMinimumValue env h = Some (?h' m', heap_release_calls h [hd ?xs])"
    if "heap_remove_loop ?gt ?n (hp_buckets h) 0 (last ?xs) = Some (m, i)"
      "st m i (last ?xs) = Some m'" for m i m'
    using that ne l0 ln by (simp add: CFBinaryHeapRemoveMinimumValue_def heap_release_calls_def)
  have cb: "same_callbacks h (?h' m')" for m' by (simp add: same_callbacks_def)
  have fin: ?thesis
    if l: "heap_remove_loop ?gt ?n (hp_buckets h) 0 (last ?xs) = Some (m, i)"
      and s: "st m i (last ?xs) = Some m'" "holds m' zs" "length m' = length (hp_buckets h)"
      and zs: "length zs = ?n" "heap_ordered ?gt zs" "mset zs = mset (tl ?xs)" for m i m' zs
  proof -
    have "heap_wf env (?h' m')" "heap_elems (?h' m') = zs"
      using heap_wfI [of "?h' m'" zs env] s zs var cap same_callbacks_cong(1) [OF cb] by auto
    moreover have "mset ?xs = add_mset (hd ?xs) (mset (tl ?xs))" using xs by (cases ?xs) auto
    ultimately show ?thesis using run [OF l s(1)] cb [of m'] zs(3) by auto
  qed
  show ?thesis
  proof (cases "?n = 0")
    case True
    then have "length (tl ?xs) = 0" using len by simp
    then have "tl ?xs = []" by (rule length_0_conv [THEN iffD1])
    moreover obtain m' where "st (hp_buckets h) 0 (last ?xs) = Some m'" "length m' = length (hp_buckets h)"
      using holds_st [OF hold, of 0] xs by blast
    ultimately show ?thesis using True
      by (intro fin [of "hp_buckets h" 0 m' "[]"]) (simp_all add: heap_remove_loop.simps heap_ordered_def)
  next
    case False
    let ?ys = "(butlast ?xs)[0 := last ?xs]"
    have ylen: "length ?ys = ?n" using len by simp
    have "holds_but (hp_buckets h) 0 ?ys"
      using hold len by (auto simp: holds_but_def holds_iff_nth nth_butlast)
    moreover have "sinking ?gt 0 ?ys" by (rule sinking_root [OF heap_ordered_butlast [OF ord]])
    moreover have "?ys ! 0 = last ?xs" "0 < length ?ys" using False len by auto
    ultimately obtain m i zs where
      l: "heap_remove_loop ?gt (length ?ys) (hp_buckets h) 0 (last ?xs) = Some (m, i)"
      and m: "holds_but m i zs" "i < length zs" "length m = length (hp_buckets h)"
      and zs: "zs ! i = last ?xs" "heap_ordered ?gt zs" "mset zs = mset ?ys"
      using strict_weak_order.heap_remove_loop_correct [OF heap_order_swo [OF ok]] by blast
    obtain m' where "st m i (last ?xs) = Some m'" "holds m' (zs[i := last ?xs])" "length m' = length m"
      using holds_but_fill [OF m(1,2)] by blast
    moreover have "zs[i := last ?xs] = zs" using zs(1) by (metis list_update_id)
    moreover have "mset ?ys = mset (tl ?xs)" using mset_replace_root [of ?xs] False len by simp
    moreover have "length zs = ?n" using mset_eq_length [OF zs(3)] ylen by simp
    ultimately show ?thesis using l m zs ylen by (intro fin [of m i m' zs]) simp_all
  qed
qed

lemma GetMinimum_works:
  assumes "heap_wf env h" "heap_compare_ok env h" "0 < hp_count h"
  shows "CFBinaryHeapGetMinimum h = Some (hd (heap_elems h))"
    and "q \<in># mset (heap_elems h) \<Longrightarrow> \<not> heap_item_gt env h (hd (heap_elems h)) q"
proof -
  have w: "holds (hp_buckets h) (heap_elems h)" "length (heap_elems h) = hp_count h"
    "heap_ordered (heap_item_gt env h) (heap_elems h)"
    using assms(1) by (simp_all add: heap_wf_def)
  have ne: "heap_elems h \<noteq> []" using w(2) assms(3) by auto
  then show "CFBinaryHeapGetMinimum h = Some (hd (heap_elems h))"
    using holds_ld [OF w(1), of 0] assms(3) by (simp add: CFBinaryHeapGetMinimum_def hd_conv_nth)
  assume "q \<in># mset (heap_elems h)"
  then obtain i where "i < length (heap_elems h)" "q = heap_elems h ! i"
    by (auto simp: in_set_conv_nth)
  then show "\<not> heap_item_gt env h (hd (heap_elems h)) q"
    using strict_weak_order.heap_ordered_root_least [OF heap_order_swo [OF assms(2)] w(3)] ne
    by (simp add: hd_conv_nth)
qed

section \<open>Draining, copying, sorting\<close>

lemma heap_drain_works:
  assumes "heap_wf env h" "heap_compare_ok env h"
  shows "\<exists>vs h'. heap_drain env h = Some (vs, h', heap_release_calls h vs) \<and> hp_count h' = 0 \<and>
    mset vs = mset (heap_elems h) \<and> sorted_wrt (\<lambda>a b. \<not> heap_item_gt env h a b) vs"
  using assms
proof (induction "hp_count h" arbitrary: h)
  case 0
  then have "heap_elems h = []" by (simp add: heap_elems_def)
  with 0 show ?case by (subst heap_drain.simps) (simp add: heap_release_calls_def)
next
  case (Suc n)
  have ne: "0 < hp_count h" using Suc.hyps(2) by simp
  obtain h1 where rm: "CFBinaryHeapRemoveMinimumValue env h =
      Some (h1, heap_release_calls h [hd (heap_elems h)])"
    and h1: "heap_wf env h1" "same_callbacks h h1"
    and ms: "mset (heap_elems h) = add_mset (hd (heap_elems h)) (mset (heap_elems h1))"
    using RemoveMinimumValue_works [OF Suc.prems ne] by blast
  have "n = hp_count h1" using RemoveMinimumValue_count [OF rm] Suc.hyps(2) by simp
  moreover have "heap_compare_ok env h1" using Suc.prems(2) same_callbacks_cong(3) [OF h1(2)] by simp
  ultimately obtain vs h' where d: "heap_drain env h1 = Some (vs, h', heap_release_calls h vs)"
    "hp_count h' = 0" "mset vs = mset (heap_elems h1)"
    "sorted_wrt (\<lambda>a b. \<not> heap_item_gt env h a b) vs"
    using Suc.hyps(1) h1 same_callbacks_cong [OF h1(2)] by metis
  note gm = GetMinimum_works [OF Suc.prems ne]
  have "heap_drain env h = Some (hd (heap_elems h) # vs, h', heap_release_calls h (hd (heap_elems h) # vs))"
    using rm d(1) ne gm(1) by (subst heap_drain.simps) (simp add: heap_release_calls_def)
  moreover have "\<not> heap_item_gt env h (hd (heap_elems h)) q" if "q \<in> set vs" for q
  proof (rule gm(2))
    have "q \<in># mset vs" using that by simp
    then show "q \<in># mset (heap_elems h)" using d(3) ms by simp
  qed
  ultimately show ?case using d ms by auto
qed

definition alloc_total :: "cf_env \<Rightarrow> bool" where
  "alloc_total env \<longleftrightarrow> (\<forall>n. env_alloc env n)"

lemma Grow_total: "alloc_total env \<Longrightarrow> hp_count h + 1 < 2 ^ 30 \<Longrightarrow> CFBinaryHeapGrow env h 1 \<noteq> None"
  using int_shl1_flsl [of "hp_count h + 1"]
  by (auto simp: CFBinaryHeapGrow_def CFBinaryHeapRoundUpCapacity_def alloc_total_def Let_def)

lemma heap_wf_count: "heap_wf env h \<Longrightarrow> size (mset (heap_elems h)) = hp_count h"
  by (simp add: heap_wf_def)

lemma heap_add_all_works:
  assumes "heap_wf env h" "heap_compare_ok env h" "heap_retain_ok env h" "alloc_total env"
    and "holds vals ws" "idx + n = length ws" "hp_count h + n < 2 ^ 30"
  shows "\<exists>h'. heap_add_all env h vals idx n = Some (h', heap_retain_calls h (drop idx ws)) \<and>
    heap_wf env h' \<and> same_callbacks h h' \<and>
    mset (heap_elems h') = mset (heap_elems h) + image_mset (heap_stored env h) (mset (drop idx ws))"
  using assms
proof (induction n arbitrary: h idx)
  case 0
  then show ?case by (simp add: heap_retain_calls_def)
next
  case (Suc n)
  have v: "ld vals idx = Some (ws ! idx)" using Suc.prems by (intro holds_ld) auto
  have dr: "drop idx ws = ws ! idx # drop (Suc idx) ws"
    using Suc.prems by (intro Cons_nth_drop_Suc [symmetric]) simp
  obtain h1 where a: "CFBinaryHeapAddValue env h (ws ! idx) = Some (h1, heap_retain_calls h [ws ! idx])"
    and h1: "heap_wf env h1" "same_callbacks h h1"
    and ms: "mset (heap_elems h1) = add_mset (heap_stored env h (ws ! idx)) (mset (heap_elems h))"
    using AddValue_works [OF Suc.prems(1-3)] Grow_total [OF Suc.prems(4)] Suc.prems(7) by fastforce
  have "hp_count h1 = Suc (hp_count h)"
    using heap_wf_count [OF h1(1)] heap_wf_count [OF Suc.prems(1)] ms by simp
  then obtain h' where r: "heap_add_all env h1 vals (Suc idx) n =
        Some (h', heap_retain_calls h (drop (Suc idx) ws))"
    and h': "heap_wf env h'" "same_callbacks h1 h'"
      "mset (heap_elems h') = mset (heap_elems h1) + image_mset (heap_stored env h) (mset (drop (Suc idx) ws))"
    using Suc.IH [of h1 "Suc idx"] Suc.prems h1 same_callbacks_cong [OF h1(2)] by auto
  have "heap_add_all env h vals idx (Suc n) = Some (h', heap_retain_calls h (drop idx ws))"
    using v a r dr by (simp add: heap_retain_calls_def)
  then show ?case using h' same_callbacks_trans [OF h1(2)] ms dr by auto
qed

lemma CreateCopy_works:
  assumes wf: "heap_wf env h" and ok: "heap_compare_ok env h" "heap_retain_ok env h" "alloc_total env"
    and n: "hp_count h < 2 ^ 30"
  shows "\<exists>h'. CFBinaryHeapCreateCopy env h = Some (Some h', heap_retain_calls h (heap_elems h)) \<and>
    heap_wf env h' \<and> same_callbacks h h' \<and>
    mset (heap_elems h') = image_mset (heap_stored env h) (mset (heap_elems h))"
proof -
  let ?m = "\<lparr> hp_count = 0, hp_capacity = 4, hp_retain = hp_retain h, hp_release = hp_release h,
    hp_copyDescription = hp_copyDescription h, hp_compare = hp_compare h, hp_info = hp_info h,
    hp_variety = kCFBinaryHeapMutable, hp_buckets = fresh_cells 4 \<rparr>"
  have cb: "same_callbacks h ?m" by (simp add: same_callbacks_def)
  have w: "heap_wf env ?m" "heap_elems ?m = []"
    by (simp_all add: heap_wf_def heap_elems_def heap_ordered_def)
  have hold: "holds (hp_buckets h) (heap_elems h)" "length (heap_elems h) = hp_count h"
    using wf by (simp_all add: heap_wf_def)
  obtain h' where r: "heap_add_all env ?m (hp_buckets h) 0 (hp_count h) =
        Some (h', heap_retain_calls h (heap_elems h))"
    and h': "heap_wf env h'" "same_callbacks ?m h'"
      "mset (heap_elems h') = image_mset (heap_stored env h) (mset (heap_elems h))"
    using heap_add_all_works [OF w(1), of "hp_buckets h" "heap_elems h" 0 "hp_count h"]
      ok n hold w(2) same_callbacks_cong [OF cb] by auto
  have "h'\<lparr>hp_variety := kCFBinaryHeapMutable mod 4\<rparr> = h'"
    using h'(1) by (simp add: heap_wf_def kCFBinaryHeapMutable_def)
  then have "CFBinaryHeapCreateCopy env h = Some (Some h', heap_retain_calls h (heap_elems h))"
    using r ok(3)
    by (simp add: CFBinaryHeapCreateCopy_def CFBinaryHeapInit_def CFRuntimeCreateInstance_def
        alloc_total_def CFBinaryHeapRoundUpCapacity_def CFBinaryHeapNumBucketsForCapacity_def)
  then show ?thesis using h' same_callbacks_trans [OF cb] by blast
qed

lemma heap_release_loop_works:
  "holds m xs \<Longrightarrow> idx + n = length xs \<Longrightarrow> heap_release_loop m idx n = Some (map Release (drop idx xs))"
proof (induction n arbitrary: idx)
  case (Suc n)
  then have "drop idx xs = xs ! idx # drop (Suc idx) xs"
    by (intro Cons_nth_drop_Suc [symmetric]) simp
  then show ?case using Suc holds_ld [of m xs idx] by simp
qed simp

lemma RemoveAllValues_works:
  assumes "heap_wf env h"
  shows "CFBinaryHeapRemoveAllValues h =
      Some (h\<lparr>hp_count := 0\<rparr>, heap_release_calls h (heap_elems h))"
    and "heap_wf env (h\<lparr>hp_count := 0\<rparr>)"
  using assms heap_release_loop_works [of "hp_buckets h" "heap_elems h" 0 "hp_count h"]
  by (auto simp: CFBinaryHeapRemoveAllValues_def heap_wf_def heap_release_calls_def
      heap_elems_def heap_ordered_def)

lemma GetValues_works:
  assumes wf: "heap_wf env h" and ok: "heap_compare_ok env h" "heap_retain_ok env h" "alloc_total env"
    and n: "hp_count h < 2 ^ 30"
  shows "\<exists>vs. CFBinaryHeapGetValues env h =
      Some (vs, heap_retain_calls h (heap_elems h) @ heap_release_calls h vs) \<and>
    mset vs = image_mset (heap_stored env h) (mset (heap_elems h)) \<and>
    sorted_wrt (\<lambda>a b. \<not> heap_item_gt env h a b) vs"
proof (cases "hp_count h = 0")
  case True
  then have "heap_elems h = []" by (simp add: heap_elems_def)
  with True show ?thesis
    by (simp add: CFBinaryHeapGetValues_def heap_retain_calls_def heap_release_calls_def)
next
  case False
  obtain c where c: "CFBinaryHeapCreateCopy env h = Some (Some c, heap_retain_calls h (heap_elems h))"
    "heap_wf env c" "same_callbacks h c"
    "mset (heap_elems c) = image_mset (heap_stored env h) (mset (heap_elems h))"
    using CreateCopy_works [OF assms] by blast
  note cong = same_callbacks_cong [OF c(3)]
  obtain vs h' where d: "heap_drain env c = Some (vs, h', heap_release_calls h vs)"
    "hp_count h' = 0" "mset vs = mset (heap_elems c)"
    "sorted_wrt (\<lambda>a b. \<not> heap_item_gt env h a b) vs"
    using heap_drain_works [OF c(2)] ok cong by auto
  have "CFBinaryHeapDeallocate h' = Some []"
    using d(2) by (simp add: CFBinaryHeapDeallocate_def CFBinaryHeapRemoveAllValues_def)
  then show ?thesis using c d False by (simp add: CFBinaryHeapGetValues_def)
qed

section \<open>Counting and searching\<close>

lemma heap_count_loop_works:
  "holds m xs \<Longrightarrow> idx + n = length xs \<Longrightarrow>
     heap_count_loop P m idx n cnt = Some (cnt + length (filter P (drop idx xs)))"
proof (induction n arbitrary: idx cnt)
  case (Suc n)
  then have "drop idx xs = xs ! idx # drop (Suc idx) xs"
    by (intro Cons_nth_drop_Suc [symmetric]) simp
  then show ?case using Suc holds_ld [of m xs idx] by simp
qed simp

lemma heap_contains_loop_works:
  "holds m xs \<Longrightarrow> idx + n = length xs \<Longrightarrow>
     heap_contains_loop P m idx n = Some (\<exists>x \<in> set (drop idx xs). P x)"
proof (induction n arbitrary: idx)
  case (Suc n)
  then have "drop idx xs = xs ! idx # drop (Suc idx) xs"
    by (intro Cons_nth_drop_Suc [symmetric]) simp
  then show ?case using Suc holds_ld [of m xs idx] by auto
qed simp

section \<open>Properties\<close>

text \<open>
  The environment of the witnesses: an allocator that grants every request, \<open>retain\<close> returning
  its argument, and a comparison of the addresses, at any function address.
\<close>

definition wit_compare :: "ptr \<Rightarrow> ptr \<Rightarrow> int" where
  "wit_compare a b = (if a < b then -1 else if b < a then 1 else 0)"

interpretation wit_compare: comparator wit_compare
  by unfold_locales (auto simp: wit_compare_def split: if_splits)

definition wit_env :: cf_env where
  "wit_env = \<lparr> env_alloc = (\<lambda>n. True), env_retain = (\<lambda>f p. p), env_equal = (\<lambda>f p q. p = q),
     env_compare = (\<lambda>f p q i. wit_compare p q) \<rparr>"

definition wit_heap :: "ptr list \<Rightarrow> CFBinaryHeap" where
  "wit_heap xs = \<lparr> hp_count = length xs, hp_capacity = 4, hp_retain = 11, hp_release = 12,
     hp_copyDescription = 13, hp_compare = 14, hp_info = 0, hp_variety = kCFBinaryHeapMutable,
     hp_buckets = map Some xs @ replicate (4 - length xs) None \<rparr>"

lemma wit_heap_ok:
  "heap_compare_ok wit_env (wit_heap xs)" "heap_retain_ok wit_env (wit_heap xs)" "alloc_total wit_env"
  using wit_compare.comparator_axioms
  by (simp_all add: heap_compare_ok_def heap_retain_ok_def alloc_total_def wit_env_def wit_heap_def)

lemma wit_heap_fields [simp]:
  "hp_count (wit_heap xs) = length xs" "hp_capacity (wit_heap xs) = 4" "hp_retain (wit_heap xs) = 11"
  "hp_release (wit_heap xs) = 12" "hp_compare (wit_heap xs) = 14" "hp_info (wit_heap xs) = 0"
  by (simp_all add: wit_heap_def)

lemma wit_heap_elems: "length xs \<le> 4 \<Longrightarrow> heap_elems (wit_heap xs) = xs"
  by (simp add: heap_elems_def wit_heap_def)

lemma wit_heap_357: "heap_wf wit_env (wit_heap [3, 7, 5])"
  by code_simp

text \<open>
  C9.  \<open>CFBinaryHeapGetValues\<close> returns the heap's values in ascending order of its comparison:
  the list is a permutation of the (re-retained) contents, no earlier value is greater than a
  later one, no memory is misused, and the references taken for the temporary copy are given
  back: one \<open>retain\<close> call per stored value in bucket order, then one \<open>release\<close> call per value
  of the result, in that order.
\<close>

theorem GetValues_sorted_permutation:
  assumes "heap_wf env h" "heap_compare_ok env h" "heap_retain_ok env h" "alloc_total env"
    and "hp_count h < 2 ^ 30"
  shows "\<exists>vs. CFBinaryHeapGetValues env h =
      Some (vs, heap_retain_calls h (heap_elems h) @ heap_release_calls h vs) \<and>
    mset vs = image_mset (heap_stored env h) (mset (heap_elems h)) \<and>
    sorted_wrt (\<lambda>a b. \<not> heap_item_gt env h a b) vs"
  by (rule GetValues_works [OF assms])

theorem GetValues_sorted_permutation_witness:
  "\<exists>vs. CFBinaryHeapGetValues wit_env (wit_heap [3, 7, 5]) =
      Some (vs, map Retain [3, 7, 5] @ map Release vs) \<and> mset vs = {#3, 5, 7#} \<and>
    sorted_wrt (\<lambda>a b. \<not> heap_item_gt wit_env (wit_heap [3, 7, 5]) a b) vs"
proof -
  have "heap_stored wit_env (wit_heap [3, 7, 5]) = (\<lambda>v. v)"
    by (simp add: heap_stored_def wit_env_def fun_eq_iff)
  moreover have "hp_count (wit_heap [3, 7, 5]) < 2 ^ 30" by simp
  ultimately show ?thesis
    using GetValues_sorted_permutation [OF wit_heap_357 wit_heap_ok]
    by (simp add: wit_heap_elems heap_retain_calls_def heap_release_calls_def add_mset_commute)
qed

text \<open>
  C19.  \<open>CFBinaryHeapAddValue\<close> on a well-formed heap (whose storage can grow if it is full) runs
  without undefined behaviour, makes exactly one \<open>retain\<close> call on the new value (none without a
  callback), keeps the heap well-formed and its callbacks, and adds exactly the retained value.
\<close>

theorem AddValue_correct:
  assumes "heap_wf env h" "heap_compare_ok env h" "heap_retain_ok env h"
    and "hp_count h = hp_capacity h \<Longrightarrow> CFBinaryHeapGrow env h 1 \<noteq> None"
  shows "\<exists>h'. CFBinaryHeapAddValue env h v = Some (h', heap_retain_calls h [v]) \<and> heap_wf env h' \<and>
    mset (heap_elems h') = add_mset (heap_stored env h v) (mset (heap_elems h)) \<and> same_callbacks h h'"
  by (rule AddValue_works [OF assms])

theorem AddValue_correct_witness:
  "\<exists>h'. CFBinaryHeapAddValue wit_env (wit_heap [3, 7, 5]) 4 = Some (h', [Retain 4]) \<and>
    heap_wf wit_env h' \<and> mset (heap_elems h') = {#4, 3, 7, 5#}"
proof -
  have "hp_count (wit_heap [3, 7, 5]) \<noteq> hp_capacity (wit_heap [3, 7, 5])" by simp
  then have "\<exists>h'. CFBinaryHeapAddValue wit_env (wit_heap [3, 7, 5]) 4 =
        Some (h', heap_retain_calls (wit_heap [3, 7, 5]) [4]) \<and> heap_wf wit_env h' \<and>
      mset (heap_elems h') = add_mset (heap_stored wit_env (wit_heap [3, 7, 5]) 4)
        (mset (heap_elems (wit_heap [3, 7, 5]))) \<and> same_callbacks (wit_heap [3, 7, 5]) h'"
    by (intro AddValue_correct [OF wit_heap_357 wit_heap_ok(1,2)]) simp
  then show ?thesis
    by (auto simp: wit_heap_elems heap_retain_calls_def heap_stored_def wit_env_def)
qed

text \<open>
  C20.  On a non-empty well-formed heap \<open>CFBinaryHeapGetMinimum\<close> returns a stored value that no
  stored value is smaller than, and \<open>CFBinaryHeapRemoveMinimumValue\<close> removes exactly one
  occurrence of that value, releases it exactly once, and leaves a well-formed heap.
\<close>

theorem minimum_correct:
  assumes "heap_wf env h" "heap_compare_ok env h" "0 < hp_count h"
  shows "\<exists>v h'. CFBinaryHeapGetMinimum h = Some v \<and>
    (\<forall>q \<in># mset (heap_elems h). \<not> heap_item_gt env h v q) \<and>
    CFBinaryHeapRemoveMinimumValue env h = Some (h', heap_release_calls h [v]) \<and> heap_wf env h' \<and>
    mset (heap_elems h) = add_mset v (mset (heap_elems h')) \<and> same_callbacks h h'"
  using GetMinimum_works [OF assms] RemoveMinimumValue_works [OF assms] by blast

theorem minimum_correct_witness:
  "\<exists>h'. CFBinaryHeapGetMinimum (wit_heap [3, 7, 5]) = Some 3 \<and>
    CFBinaryHeapRemoveMinimumValue wit_env (wit_heap [3, 7, 5]) = Some (h', [Release 3]) \<and>
    heap_wf wit_env h' \<and> mset (heap_elems h') = {#7, 5#}"
proof -
  have "CFBinaryHeapGetMinimum (wit_heap [3, 7, 5]) = Some 3"
    by (simp add: CFBinaryHeapGetMinimum_def wit_heap_def ld_def)
  moreover have "0 < hp_count (wit_heap [3, 7, 5])" by simp
  ultimately show ?thesis
    using minimum_correct [OF wit_heap_357 wit_heap_ok(1)]
    by (auto simp: wit_heap_elems heap_release_calls_def)
qed

text \<open>
  \<open>CFBinaryHeapGetCountOfValue\<close> counts the stored values that are the given pointer or
  compare equal to it, and \<open>CFBinaryHeapContainsValue\<close> is true exactly when that count is
  positive.
\<close>

theorem count_of_value_correct:
  assumes "heap_wf env h"
  shows "CFBinaryHeapGetCountOfValue env h v =
      Some (length (filter (heap_item_match env h v) (heap_elems h))) \<and>
    CFBinaryHeapContainsValue env h v =
      Some (0 < length (filter (heap_item_match env h v) (heap_elems h)))"
  using assms heap_count_loop_works [of "hp_buckets h" "heap_elems h" 0 "hp_count h" _ 0]
    heap_contains_loop_works [of "hp_buckets h" "heap_elems h" 0 "hp_count h"]
  by (auto simp: CFBinaryHeapGetCountOfValue_def CFBinaryHeapContainsValue_def heap_wf_def
      filter_empty_conv)

theorem count_of_value_correct_witness:
  "CFBinaryHeapGetCountOfValue wit_env (wit_heap [3, 7, 5]) 7 = Some 1 \<and>
   CFBinaryHeapContainsValue wit_env (wit_heap [3, 7, 5]) 7 = Some True"
  using count_of_value_correct [OF wit_heap_357, of 7]
  by (simp add: wit_heap_elems heap_item_match_def wit_env_def wit_compare_def kCFCompareEqualTo_def)

text \<open>
  C27.  The storage bookkeeping: for fewer than \<open>2^30\<close> values \<open>__CFBinaryHeapRoundUpCapacity\<close>
  gives a power of two that exceeds the request and at most doubles it (4 at least); from
  \<open>2^30\<close> on the shift \<open>1 << flsl(capacity)\<close>, done at type \<open>int\<close>, overflows.
\<close>

theorem RoundUpCapacity_spec:
  "(if n < 2 ^ 30
    then \<exists>k. CFBinaryHeapRoundUpCapacity n = Some (2 ^ k) \<and> n < 2 ^ k \<and> 2 ^ k \<le> max 4 (2 * n)
    else CFBinaryHeapRoundUpCapacity n = None)"
proof (cases "n < 4")
  case True
  have "(2::nat) ^ 2 = 4" by simp
  with True show ?thesis
    by (auto simp: CFBinaryHeapRoundUpCapacity_def intro!: exI [of _ 2])
next
  case False
  then show ?thesis
    using int_shl1_flsl [of n] int_shl1_flsl_undefined [of n] flsl_upper [of n] flsl_lower [of n]
    by (auto simp: CFBinaryHeapRoundUpCapacity_def intro!: exI [of _ "flsl n"])
qed

text \<open>
  C28.  \<open>__CFBinaryHeapEqual\<close> reads the comparison the wrong way round: two one-element heaps with
  different pointers and the same \<open>compare\<close> callback are reported equal exactly when the
  callback does \<open>not\<close> call the two values equal.  (The heaps have no \<open>retain\<close> callback, so that the
  copies compared hold the same pointers.)
\<close>

theorem Equal_inverted:
  assumes h1: "heap_wf env h1" "heap_elems h1 = [p]" and h2: "heap_wf env h2" "heap_elems h2 = [q]"
    and cb: "hp_compare h1 = hp_compare h2" "hp_compare h1 \<noteq> NULL" and pq: "p \<noteq> q"
    and ok: "heap_compare_ok env h1" "heap_compare_ok env h2" "alloc_total env"
    and nr: "hp_retain h1 = NULL" "hp_retain h2 = NULL"
  shows "CFBinaryHeapEqual env h1 h2 =
    Some (env_compare env (hp_compare h1) p q (hp_info h1) \<noteq> kCFCompareEqualTo)"
proof -
  have r: "heap_retain_ok env h1" "heap_retain_ok env h2" using nr by (simp_all add: heap_retain_ok_def)
  have n: "hp_count h1 = 1" "hp_count h2 = 1" using h1 h2 by (simp_all add: heap_wf_def)
  have "\<exists>c. CFBinaryHeapGetValues env h1 = Some ([p], c)"
    using GetValues_works [OF h1(1) ok(1) r(1) ok(3)] n h1(2) nr by (auto simp: heap_stored_def)
  moreover have "\<exists>c. CFBinaryHeapGetValues env h2 = Some ([q], c)"
    using GetValues_works [OF h2(1) ok(2) r(2) ok(3)] n h2(2) nr by (auto simp: heap_stored_def)
  ultimately show ?thesis
    using n cb pq by (auto simp: CFBinaryHeapEqual_def kCFCompareEqualTo_def)
qed

definition wit_plain :: "ptr \<Rightarrow> CFBinaryHeap" where
  "wit_plain p = (wit_heap [p])\<lparr>hp_retain := NULL\<rparr>"

lemma wit_plain_ok:
  "heap_wf wit_env (wit_plain p)" "heap_elems (wit_plain p) = [p]" "heap_compare_ok wit_env (wit_plain p)"
  using wit_compare.comparator_axioms
  by (simp_all add: heap_wf_def heap_elems_def wit_plain_def wit_heap_def holds_def heap_ordered_def
      heap_compare_ok_def wit_env_def)

theorem Equal_inverted_witness:
  "CFBinaryHeapEqual wit_env (wit_plain 8) (wit_plain 9) = Some True"
  using Equal_inverted [OF wit_plain_ok(1,2) wit_plain_ok(1,2), of 8 9]
    wit_plain_ok(3) [of 8] wit_plain_ok(3) [of 9] wit_heap_ok(3)
  by (simp add: wit_plain_def wit_heap_def wit_env_def wit_compare_def kCFCompareEqualTo_def)

end
