(* ===== verification/CF_Sort.thy ===== *)
theory CF_Sort
  imports CF_Prelude
begin

text \<open>
  \<open>CFSortFunctions.c\<close>: the merge sort of index arrays behind \<open>CFQSortArray\<close> and
  \<open>CFMergeSortArray\<close>, and its concurrent variant.

  An array argument \<open>listp\<close> is a block of cells and the offset \<open>b\<close> of its first element
  (\<open>listp + half_cnt\<close> is \<open>b + half_cnt\<close>); \<open>tmp\<close> is a second block.  The result is the two
  blocks after the call.  The lemmas relate the in-place code to the merge of lists and show
  that the sort is a stable sorting permutation that stays inside its buffers.
\<close>

section \<open>The sequential sort\<close>

text \<open>\<open>while (idx--) listp[idx] = tmp[idx];\<close>\<close>

fun merge_copy_back :: "'a cells \<Rightarrow> nat \<Rightarrow> 'a cells \<Rightarrow> nat \<Rightarrow> 'a cells option" where
  "merge_copy_back m b tmp 0 = Some m"
| "merge_copy_back m b tmp (Suc idx) = do {
     v \<leftarrow> ld tmp idx;
     m' \<leftarrow> st m (b + idx) v;
     merge_copy_back m' b tmp idx
   }"

text \<open>\<open>for (t = cnt1 + cnt2 - 1; idx <= t; t--) listp[t] = listp[t - cnt2];\<close> with \<open>n = t + 1\<close>.\<close>

fun merge_shift_up :: "'a cells \<Rightarrow> nat \<Rightarrow> nat \<Rightarrow> nat \<Rightarrow> nat \<Rightarrow> 'a cells option" where
  "merge_shift_up m b cnt2 idx 0 = Some m"
| "merge_shift_up m b cnt2 idx (Suc t) =
     (if idx \<le> t then do {
        v \<leftarrow> ld m (b + t - cnt2);
        m' \<leftarrow> st m (b + t) v;
        merge_shift_up m' b cnt2 idx t
      } else Some m)"

function merge_loop ::
  "('a \<Rightarrow> 'a \<Rightarrow> int) \<Rightarrow> 'a cells \<Rightarrow> nat \<Rightarrow> nat \<Rightarrow> nat \<Rightarrow> 'a cells \<Rightarrow> nat \<Rightarrow> nat \<Rightarrow> nat \<Rightarrow>
     ('a cells \<times> 'a cells) option" where
  "merge_loop cmp m b cnt1 cnt2 tmp idx idx1 idx2 =
     (if cnt1 \<le> idx1 then do {
        m' \<leftarrow> merge_copy_back m b tmp idx;
        Some (m', tmp)
      } else if cnt1 + cnt2 \<le> idx2 then do {
        m' \<leftarrow> merge_shift_up m b cnt2 idx (cnt1 + cnt2);
        m'' \<leftarrow> merge_copy_back m' b tmp idx;
        Some (m'', tmp)
      } else do {
        v1 \<leftarrow> ld m (b + idx1);
        v2 \<leftarrow> ld m (b + idx2);
        if cmp v1 v2 \<le> 0 then do {
          tmp' \<leftarrow> st tmp idx v1;
          merge_loop cmp m b cnt1 cnt2 tmp' (idx + 1) (idx1 + 1) idx2
        } else do {
          tmp' \<leftarrow> st tmp idx v2;
          merge_loop cmp m b cnt1 cnt2 tmp' (idx + 1) idx1 (idx2 + 1)
        }
      })"
  by pat_completeness auto
termination
  by (relation "measure (\<lambda>(cmp, m, b, cnt1, cnt2, tmp, idx, idx1, idx2).
      (cnt1 - idx1) + (cnt1 + cnt2 - idx2))") auto

declare merge_loop.simps [simp del]

definition CFSimpleMerge ::
  "('a \<Rightarrow> 'a \<Rightarrow> int) \<Rightarrow> 'a cells \<Rightarrow> nat \<Rightarrow> nat \<Rightarrow> nat \<Rightarrow> 'a cells \<Rightarrow> ('a cells \<times> 'a cells) option" where
  "CFSimpleMerge cmp m b cnt1 cnt2 tmp =
     (if cnt1 = 0 \<or> cnt2 = 0 then Some (m, tmp)
      else do {
        ordered \<leftarrow> (if 16 < cnt1 + cnt2 then do {
                       x \<leftarrow> ld m (b + cnt1 - 1);
                       y \<leftarrow> ld m (b + cnt1);
                       Some (cmp x y \<le> 0)
                     } else Some False);
        if ordered then Some (m, tmp)
        else merge_loop cmp m b cnt1 cnt2 tmp 0 0 cnt1
      })"

text \<open>The three-element network: \<open>(v0, v1, v2)\<close> after the conditional exchanges.\<close>

definition sort3 :: "('a \<Rightarrow> 'a \<Rightarrow> int) \<Rightarrow> 'a \<Rightarrow> 'a \<Rightarrow> 'a \<Rightarrow> 'a \<times> 'a \<times> 'a" where
  "sort3 cmp v0 v1 v2 =
     (let (v0, v1) = (if 0 < cmp v0 v1 then (v1, v0) else (v0, v1))
      in if 0 < cmp v1 v2 then
           let (v1, v2) = (v2, v1)
           in if 0 < cmp v0 v1 then (v1, v0, v2) else (v0, v1, v2)
         else (v0, v1, v2))"

fun CFSimpleMergeSort ::
  "('a \<Rightarrow> 'a \<Rightarrow> int) \<Rightarrow> 'a cells \<Rightarrow> nat \<Rightarrow> nat \<Rightarrow> 'a cells \<Rightarrow> ('a cells \<times> 'a cells) option" where
  "CFSimpleMergeSort cmp m b cnt tmp =
     (if cnt < 2 then Some (m, tmp)
      else if cnt = 2 then do {
        v0 \<leftarrow> ld m b;
        v1 \<leftarrow> ld m (b + 1);
        if 0 < cmp v0 v1 then do {
          m1 \<leftarrow> st m b v1;
          m2 \<leftarrow> st m1 (b + 1) v0;
          Some (m2, tmp)
        } else Some (m, tmp)
      } else if cnt = 3 then do {
        v0 \<leftarrow> ld m b;
        v1 \<leftarrow> ld m (b + 1);
        v2 \<leftarrow> ld m (b + 2);
        let (w0, w1, w2) = sort3 cmp v0 v1 v2;
        m1 \<leftarrow> st m b w0;
        m2 \<leftarrow> st m1 (b + 1) w1;
        m3 \<leftarrow> st m2 (b + 2) w2;
        Some (m3, tmp)
      } else do {
        let half_cnt = cnt div 2;
        (m1, tmp1) \<leftarrow> CFSimpleMergeSort cmp m b half_cnt tmp;
        (m2, tmp2) \<leftarrow> CFSimpleMergeSort cmp m1 (b + half_cnt) (cnt - half_cnt) tmp1;
        CFSimpleMerge cmp m2 b half_cnt (cnt - half_cnt) tmp2
      })"

declare CFSimpleMergeSort.simps [simp del]

section \<open>The concurrent sort\<close>

text \<open>
  \<open>__CFSortIndexesNMerge\<close>: of two sorted runs, write the \<open>cnt1\<close> smallest values (not \<open>right\<close>) or
  the \<open>cnt2\<close> largest (\<open>right\<close>) to \<open>tmp\<close>.  The right loop walks pointers that may pass the front
  of their run; they are integers here, and reading before a block is undefined.
\<close>

definition ldi :: "'a cells \<Rightarrow> int \<Rightarrow> 'a option" where
  "ldi m i = (if 0 \<le> i then ld m (nat i) else None)"

fun nmerge_right ::
  "('a \<Rightarrow> 'a \<Rightarrow> int) \<Rightarrow> 'a cells \<Rightarrow> nat \<Rightarrow> 'a cells \<Rightarrow> nat \<Rightarrow> int \<Rightarrow> int \<Rightarrow> 'a cells \<Rightarrow> nat \<Rightarrow> nat \<Rightarrow>
     'a cells option" where
  "nmerge_right cmp s1 b1 s2 b2 p1 p2 tmp d 0 = Some tmp"
| "nmerge_right cmp s1 b1 s2 b2 p1 p2 tmp d (Suc t) =
     (if p2 < 0 then do {
        v \<leftarrow> ldi s1 (int b1 + (p1 - 1));
        tmp' \<leftarrow> st tmp (d + t) v;
        nmerge_right cmp s1 b1 s2 b2 (p1 - 1) p2 tmp' d t
      } else if p1 < 0 then do {
        v \<leftarrow> ldi s2 (int b2 + (p2 - 1));
        tmp' \<leftarrow> st tmp (d + t) v;
        nmerge_right cmp s1 b1 s2 b2 p1 (p2 - 1) tmp' d t
      } else do {
        v1 \<leftarrow> ldi s1 (int b1 + p1);
        v2 \<leftarrow> ldi s2 (int b2 + p2);
        if cmp v1 v2 \<le> 0 then do {
          tmp' \<leftarrow> st tmp (d + t) v2;
          nmerge_right cmp s1 b1 s2 b2 p1 (p2 - 1) tmp' d t
        } else do {
          tmp' \<leftarrow> st tmp (d + t) v1;
          nmerge_right cmp s1 b1 s2 b2 (p1 - 1) p2 tmp' d t
        }
      })"

fun nmerge_left ::
  "('a \<Rightarrow> 'a \<Rightarrow> int) \<Rightarrow> 'a cells \<Rightarrow> nat \<Rightarrow> nat \<Rightarrow> 'a cells \<Rightarrow> nat \<Rightarrow> nat \<Rightarrow> nat \<Rightarrow> nat \<Rightarrow> 'a cells \<Rightarrow> nat \<Rightarrow> nat \<Rightarrow>
     'a cells option" where
  "nmerge_left cmp s1 b1 cnt1 s2 b2 cnt2 i1 i2 tmp d 0 = Some tmp"
| "nmerge_left cmp s1 b1 cnt1 s2 b2 cnt2 i1 i2 tmp d (Suc n) =
     (if cnt2 \<le> i2 then do {
        v \<leftarrow> ld s1 (b1 + i1);
        tmp' \<leftarrow> st tmp d v;
        nmerge_left cmp s1 b1 cnt1 s2 b2 cnt2 (i1 + 1) i2 tmp' (d + 1) n
      } else if cnt1 \<le> i1 then do {
        v \<leftarrow> ld s2 (b2 + i2);
        tmp' \<leftarrow> st tmp d v;
        nmerge_left cmp s1 b1 cnt1 s2 b2 cnt2 i1 (i2 + 1) tmp' (d + 1) n
      } else do {
        v1 \<leftarrow> ld s1 (b1 + i1);
        v2 \<leftarrow> ld s2 (b2 + i2);
        if cmp v1 v2 \<le> 0 then do {
          tmp' \<leftarrow> st tmp d v1;
          nmerge_left cmp s1 b1 cnt1 s2 b2 cnt2 (i1 + 1) i2 tmp' (d + 1) n
        } else do {
          tmp' \<leftarrow> st tmp d v2;
          nmerge_left cmp s1 b1 cnt1 s2 b2 cnt2 i1 (i2 + 1) tmp' (d + 1) n
        }
      })"

definition CFSortIndexesNMerge ::
  "('a \<Rightarrow> 'a \<Rightarrow> int) \<Rightarrow> 'a cells \<Rightarrow> nat \<Rightarrow> nat \<Rightarrow> 'a cells \<Rightarrow> nat \<Rightarrow> nat \<Rightarrow> 'a cells \<Rightarrow> nat \<Rightarrow> bool \<Rightarrow>
     'a cells option" where
  "CFSortIndexesNMerge cmp s1 b1 cnt1 s2 b2 cnt2 tmp d right = do {
     ordered \<leftarrow> (if 16 < cnt1 + cnt2 then do {
                    x \<leftarrow> ldi s1 (int b1 + int cnt1 - 1);
                    y \<leftarrow> ld s2 b2;
                    Some (cmp x y \<le> 0)
                  } else Some False);
     if ordered then
       (if right then memmove_cells tmp d s2 b2 cnt2 else memmove_cells tmp d s1 b1 cnt1)
     else if right then
       nmerge_right cmp s1 b1 s2 b2 (int cnt1 - 1) (int cnt2 - 1) tmp d cnt2
     else nmerge_left cmp s1 b1 cnt1 s2 b2 cnt2 0 0 tmp d cnt1
   }"

text \<open>
  \<open>__CFSortIndexesN\<close>.  The blocks of one \<open>dispatch_apply\<close> write disjoint regions that no other
  block of the same call reads, so they are run in the order of their index.
\<close>

fun sortn_sections ::
  "('a \<Rightarrow> 'a \<Rightarrow> int) \<Rightarrow> nat \<Rightarrow> nat \<Rightarrow> nat \<Rightarrow> nat list \<Rightarrow> 'a cells \<Rightarrow> 'a cells list \<Rightarrow> ('a cells \<times> 'a cells list) option" where
  "sortn_sections cmp sz num_sect last_len [] m tmps = Some (m, tmps)"
| "sortn_sections cmp sz num_sect last_len (sect # ss) m tmps = do {
     let sect_len = (if sect < num_sect - 1 then sz else last_len);
     (m', t') \<leftarrow> CFSimpleMergeSort cmp m (sect * sz) sect_len (tmps ! sect);
     sortn_sections cmp sz num_sect last_len ss m' (tmps[sect := t'])
   }"

fun sortn_even ::
  "('a \<Rightarrow> 'a \<Rightarrow> int) \<Rightarrow> nat \<Rightarrow> nat \<Rightarrow> nat \<Rightarrow> nat list \<Rightarrow> 'a cells \<Rightarrow> 'a cells list \<Rightarrow> 'a cells list option" where
  "sortn_even cmp sz num_sect last_len [] m tmps = Some tmps"
| "sortn_even cmp sz num_sect last_len (sect # ss) m tmps = do {
     let right = odd sect;
     let left_base = sect * sz - (if right then sz else 0);
     let right_base = sect * sz + (if right then 0 else sz);
     let sect2_len = (if sect + 1 + (if right then 0 else 1) = num_sect then last_len else sz);
     t' \<leftarrow> CFSortIndexesNMerge cmp m left_base sz m right_base sect2_len (tmps ! sect) 0 right;
     sortn_even cmp sz num_sect last_len ss m (tmps[sect := t'])
   }"

fun sortn_odd ::
  "('a \<Rightarrow> 'a \<Rightarrow> int) \<Rightarrow> nat \<Rightarrow> nat \<Rightarrow> nat \<Rightarrow> nat list \<Rightarrow> 'a cells list \<Rightarrow> 'a cells \<Rightarrow> 'a cells option" where
  "sortn_odd cmp sz num_sect last_len [] tmps m = Some m"
| "sortn_odd cmp sz num_sect last_len (sect # ss) tmps m = do {
     let right = odd sect;
     let left = tmps ! (sect + (if right then 0 else 1));
     let rgt = tmps ! (sect + (if right then 1 else 2));
     let sect2_len = (if sect + 1 + (if right then 1 else 2) = num_sect then last_len else sz);
     m' \<leftarrow> CFSortIndexesNMerge cmp left 0 sz rgt 0 sect2_len m (sect * sz + sz) right;
     sortn_odd cmp sz num_sect last_len ss tmps m'
   }"

fun sortn_rounds ::
  "('a \<Rightarrow> 'a \<Rightarrow> int) \<Rightarrow> nat \<Rightarrow> nat \<Rightarrow> nat \<Rightarrow> nat \<Rightarrow> 'a cells \<Rightarrow> 'a cells list \<Rightarrow> 'a cells option" where
  "sortn_rounds cmp sz num_sect last_len 0 m tmps = Some m"
| "sortn_rounds cmp sz num_sect last_len (Suc k) m tmps = do {
     let even_phase_cnt = (num_sect div 2) * 2;
     let odd_phase_cnt = ((num_sect - 1) div 2) * 2;
     tmps1 \<leftarrow> sortn_even cmp sz num_sect last_len [0..<even_phase_cnt] m tmps;
     tmps2 \<leftarrow> (if odd num_sect then do {
                  t \<leftarrow> memmove_cells (tmps1 ! (num_sect - 1)) 0 m ((num_sect - 1) * sz) last_len;
                  Some (tmps1[num_sect - 1 := t])
                } else Some tmps1);
     m1 \<leftarrow> sortn_odd cmp sz num_sect last_len [0..<odd_phase_cnt] tmps2 m;
     m2 \<leftarrow> memmove_cells m1 0 (tmps2 ! 0) 0 sz;
     m3 \<leftarrow> (if even num_sect
            then memmove_cells m2 ((num_sect - 1) * sz) (tmps2 ! (num_sect - 1)) 0 last_len
            else Some m2);
     sortn_rounds cmp sz num_sect last_len k m3 tmps2
   }"

definition CFSortIndexesN ::
  "('a \<Rightarrow> 'a \<Rightarrow> int) \<Rightarrow> 'a cells \<Rightarrow> nat \<Rightarrow> nat \<Rightarrow> 'a cells option" where
  "CFSortIndexesN cmp m cnt ncores = do {
     let sz = (((cnt + ncores - 1) div ncores + 15) div 16) * 16;
     let num_sect = (cnt + sz - 1) div sz;
     let last_sect_len = cnt + sz - sz * num_sect;
     (m1, tmps) \<leftarrow> sortn_sections cmp sz num_sect last_sect_len [0..<num_sect] m
                     (replicate num_sect (fresh_cells sz));
     sortn_rounds cmp sz num_sect last_sect_len ((num_sect + 1) div 2) m1 tmps
   }"

section \<open>The entry points\<close>

definition kCFSortConcurrent :: nat where
  "kCFSortConcurrent = 1"

definition kCFSortStable :: nat where
  "kCFSortStable = 16"

text \<open>Whether the concurrent sort is used, and on how many cores.\<close>

definition sort_ncores :: "nat \<Rightarrow> nat \<Rightarrow> nat \<Rightarrow> bool \<times> nat" where
  "sort_ncores processors cnt opts =
     (if odd opts then
        let (conc, ncores) =
          (if cnt < 160 \<or> processors < 2 then (False, processors)
           else if cnt < 640 \<and> 2 < processors then (True, 2)
           else if cnt < 3200 \<and> 4 < processors then (True, 4)
           else if cnt < 16000 \<and> 8 < processors then (True, 8)
           else (True, processors))
        in (conc, if 16 < ncores then 16 else ncores)
      else (False, 0))"

text \<open>\<open>for (; idx < lim; idx++) indexBuffer[idx] = idx;\<close> with \<open>n = lim - idx\<close> iterations.\<close>

fun sort_fill :: "nat cells \<Rightarrow> nat \<Rightarrow> nat \<Rightarrow> nat cells option" where
  "sort_fill m idx 0 = Some m"
| "sort_fill m idx (Suc n) = do {
     m' \<leftarrow> st m idx idx;
     sort_fill m' (idx + 1) n
   }"

fun sort_fill_chunks :: "nat cells \<Rightarrow> nat \<Rightarrow> nat \<Rightarrow> nat list \<Rightarrow> nat cells option" where
  "sort_fill_chunks m cnt sz [] = Some m"
| "sort_fill_chunks m cnt sz (n # ns) = do {
     m' \<leftarrow> sort_fill m (n * sz) (min (n * sz + sz) cnt - n * sz);
     sort_fill_chunks m' cnt sz ns
   }"

definition CFSortIndexes ::
  "nat \<Rightarrow> nat cells \<Rightarrow> nat \<Rightarrow> nat \<Rightarrow> (nat \<Rightarrow> nat \<Rightarrow> int) \<Rightarrow> nat cells option" where
  "CFSortIndexes processors indexBuffer cnt opts cmp =
     (if cnt < 1 then Some indexBuffer
      else if (2 ^ 63 - 1) div 8 < cnt then Some indexBuffer
      else do {
        let (conc, ncores) = sort_ncores processors cnt opts;
        m \<leftarrow> (if cnt \<le> 65536 then sort_fill indexBuffer 0 cnt
              else sort_fill_chunks indexBuffer cnt ((((cnt + 15) div 16) * 16) div 8) [0..<8]);
        if conc then CFSortIndexesN cmp m cnt ncores
        else do {
          (m', tmp) \<leftarrow> CFSimpleMergeSort cmp m 0 cnt (fresh_cells cnt);
          Some m'
        }
      })"

text \<open>
  The array sorts, on whole elements: the comparator is passed the addresses of two elements of
  the unmodified list and reads them there; the sorted copy is built in \<open>store\<close> and moved back.
\<close>

definition read_cells :: "'a cells \<Rightarrow> nat \<Rightarrow> 'a list option" where
  "read_cells m n = those (map (ld m) [0..<n])"

fun sort_gather :: "'a cells \<Rightarrow> nat cells \<Rightarrow> 'a cells \<Rightarrow> nat \<Rightarrow> nat \<Rightarrow> 'a cells option" where
  "sort_gather list indexes store idx 0 = Some store"
| "sort_gather list indexes store idx (Suc n) = do {
     i \<leftarrow> ld indexes idx;
     v \<leftarrow> ld list i;
     store' \<leftarrow> st store idx v;
     sort_gather list indexes store' (idx + 1) n
   }"

definition sort_array :: "nat \<Rightarrow> ('a \<Rightarrow> 'a \<Rightarrow> int) \<Rightarrow> 'a cells \<Rightarrow> nat \<Rightarrow> nat \<Rightarrow> 'a cells option" where
  "sort_array opts cmp list cnt elementSize =
     (if cnt < 2 \<or> elementSize < 1 then Some list
      else do {
        vals \<leftarrow> read_cells list cnt;
        indexes \<leftarrow> CFSortIndexes 1 (fresh_cells cnt) cnt opts (\<lambda>a b. cmp (vals ! a) (vals ! b));
        store \<leftarrow> sort_gather list indexes (fresh_cells cnt) 0 cnt;
        memmove_cells list 0 store 0 cnt
      })"

definition CFQSortArray :: "('a \<Rightarrow> 'a \<Rightarrow> int) \<Rightarrow> 'a cells \<Rightarrow> nat \<Rightarrow> nat \<Rightarrow> 'a cells option" where
  "CFQSortArray cmp list cnt elementSize = sort_array 0 cmp list cnt elementSize"

definition CFMergeSortArray :: "('a \<Rightarrow> 'a \<Rightarrow> int) \<Rightarrow> 'a cells \<Rightarrow> nat \<Rightarrow> nat \<Rightarrow> 'a cells option" where
  "CFMergeSortArray cmp list cnt elementSize = sort_array kCFSortStable cmp list cnt elementSize"

section \<open>Merging lists\<close>

fun merge_lists :: "('a \<Rightarrow> 'a \<Rightarrow> int) \<Rightarrow> 'a list \<Rightarrow> 'a list \<Rightarrow> 'a list" where
  "merge_lists cmp [] ys = ys"
| "merge_lists cmp (x # xs) [] = x # xs"
| "merge_lists cmp (x # xs) (y # ys) =
     (if cmp x y \<le> 0 then x # merge_lists cmp xs (y # ys) else y # merge_lists cmp (x # xs) ys)"

lemma merge_lists_Nil2 [simp]: "merge_lists cmp xs [] = xs"
  by (cases xs) auto

lemma mset_merge_lists [simp]: "mset (merge_lists cmp xs ys) = mset xs + mset ys"
  by (induction cmp xs ys rule: merge_lists.induct) auto

lemma set_merge_lists [simp]: "set (merge_lists cmp xs ys) = set xs \<union> set ys"
  by (induction cmp xs ys rule: merge_lists.induct) auto

lemma length_merge_lists [simp]: "length (merge_lists cmp xs ys) = length xs + length ys"
  by (induction cmp xs ys rule: merge_lists.induct) auto

text \<open>What a stable sort promises: a sorted permutation that keeps the order of equal elements.\<close>

definition stably_sorted :: "('a \<Rightarrow> 'a \<Rightarrow> int) \<Rightarrow> 'a list \<Rightarrow> 'a list \<Rightarrow> bool" where
  "stably_sorted cmp xs ys \<longleftrightarrow>
     mset ys = mset xs \<and> sorted_wrt (\<lambda>a b. cmp a b \<le> 0) ys \<and>
     (\<forall>a. filter (\<lambda>x. cmp a x = 0) ys = filter (\<lambda>x. cmp a x = 0) xs)"

lemma list_merge_induct [case_names Nil1 Nil2 Cons]:
  fixes xs ys :: "'a list"
  assumes "\<And>ys. P [] ys" "\<And>x xs. P (x # xs) []"
    and "\<And>x xs y ys. P xs (y # ys) \<Longrightarrow> P (x # xs) ys \<Longrightarrow> P (x # xs) (y # ys)"
  shows "P xs ys"
proof (induction xs arbitrary: ys)
  case (Cons x xs)
  show ?case by (induction ys) (use Cons.IH assms(2,3) in auto)
qed (rule assms(1))

context comparator
begin

lemma sorted_merge_lists:
  "sorted_wrt (\<lambda>a b. cmp a b \<le> 0) xs \<Longrightarrow> sorted_wrt (\<lambda>a b. cmp a b \<le> 0) ys \<Longrightarrow>
     sorted_wrt (\<lambda>a b. cmp a b \<le> 0) (merge_lists cmp xs ys)"
proof (induction xs ys rule: list_merge_induct)
  case (Cons x xs y ys)
  show ?case
  proof (cases "cmp x y \<le> 0")
    case True
    then have "cmp x b \<le> 0" if "b \<in> set ys" for b
      using Cons.prems(2) that cmp_le_trans [of x y b] by auto
    then show ?thesis using True Cons by auto
  next
    case False
    then have yx: "cmp y x \<le> 0" using cmp_total by blast
    then have "cmp y b \<le> 0" if "b \<in> set xs" for b
      using Cons.prems(1) that cmp_le_trans [of y x b] by auto
    then show ?thesis using False yx Cons by auto
  qed
qed auto

lemma filter_merge_lists:
  "sorted_wrt (\<lambda>a b. cmp a b \<le> 0) xs \<Longrightarrow>
     filter (\<lambda>x. cmp a x = 0) (merge_lists cmp xs ys) =
     filter (\<lambda>x. cmp a x = 0) xs @ filter (\<lambda>x. cmp a x = 0) ys"
proof (induction xs ys rule: list_merge_induct)
  case (Cons x xs y ys)
  show ?case
  proof (cases "cmp x y \<le> 0")
    case False
    then have yx: "cmp y x < 0" using cmp_swap [of x y] by simp
    have "cmp a b \<noteq> 0" if ay: "cmp a y = 0" and b: "b \<in> set (x # xs)" for b
    proof -
      have "cmp y b < 0" using cmp_less_trans [OF yx, of b] b Cons.prems by auto
      moreover have "cmp y a \<le> 0" using ay cmp_swap [of a y] by simp
      ultimately show ?thesis using cmp_le_trans [of b a y] cmp_swap [of b y] ay cmp_swap [of a b]
        by fastforce
    qed
    then have "cmp a y = 0 \<Longrightarrow> filter (\<lambda>x. cmp a x = 0) (x # xs) = []"
      by (intro filter_False) blast
    then show ?thesis using False Cons by auto
  qed (use Cons in auto)
qed auto

lemma stably_sorted_merge:
  assumes "stably_sorted cmp xs xs'" "stably_sorted cmp ys ys'"
  shows "stably_sorted cmp (xs @ ys) (merge_lists cmp xs' ys')"
  using assms sorted_merge_lists [of xs' ys'] filter_merge_lists [of xs' _ ys']
  by (simp add: stably_sorted_def)

lemma merge_lists_ordered:
  assumes "sorted_wrt (\<lambda>a b. cmp a b \<le> 0) xs" "sorted_wrt (\<lambda>a b. cmp a b \<le> 0) ys"
    and "xs \<noteq> []" "ys \<noteq> []" "cmp (last xs) (hd ys) \<le> 0"
  shows "merge_lists cmp xs ys = xs @ ys"
  using assms
proof (induction xs)
  case (Cons x xs)
  obtain y ys' where ys: "ys = y # ys'" using Cons.prems by (cases ys) auto
  have "cmp x y \<le> 0"
  proof (cases "xs = []")
    case False
    then have "cmp x (last xs) \<le> 0" using Cons.prems(1) by simp
    moreover have "cmp (last xs) y \<le> 0" using Cons.prems(5) False ys by simp
    ultimately show ?thesis by (rule cmp_le_trans)
  qed (use Cons.prems ys in simp)
  then show ?case using Cons ys by (cases "xs = []") auto
qed simp

lemma cmp_eq_common: "cmp d x = 0 \<Longrightarrow> cmp d y = 0 \<Longrightarrow> cmp x y = 0"
  using cmp_swap [of d x] cmp_swap [of d y] cmp_swap [of x y] cmp_le_trans [of x d y]
    cmp_le_trans [of y d x] by simp

text \<open>Exchanging two neighbours the comparison tells apart keeps the order of equal elements.\<close>

lemma filter_swap:
  "cmp x y \<noteq> 0 \<Longrightarrow> filter (\<lambda>z. cmp d z = 0) (us @ x # y # vs) = filter (\<lambda>z. cmp d z = 0) (us @ y # x # vs)"
  using cmp_eq_common [of d x y] by auto

lemma sort3_stable: "stably_sorted cmp [a, b, c] (case sort3 cmp a b c of (x, y, z) \<Rightarrow> [x, y, z])"
proof -
  have f: "cmp x y \<noteq> 0 \<Longrightarrow> filter (\<lambda>z. cmp d z = 0) [x, y, w] = filter (\<lambda>z. cmp d z = 0) [y, x, w]"
    "cmp x y \<noteq> 0 \<Longrightarrow> filter (\<lambda>z. cmp d z = 0) [w, x, y] = filter (\<lambda>z. cmp d z = 0) [w, y, x]" for d x y w
    using filter_swap [of x y d "[]" "[w]"] filter_swap [of x y d "[w]" "[]"] by simp_all
  obtain p q where pq: "(if 0 < cmp a b then (b, a) else (a, b)) = (p, q)" by (cases "0 < cmp a b") auto
  have 1: "cmp p q \<le> 0" "mset [p, q, c] = mset [a, b, c]"
    "filter (\<lambda>z. cmp d z = 0) [p, q, c] = filter (\<lambda>z. cmp d z = 0) [a, b, c]" for d
    using pq cmp_swap [of a b] f(1) [of a b d c]
    by (cases "0 < cmp a b"; auto simp del: filter.simps)+
  show ?thesis
  proof (cases "0 < cmp q c")
    case False
    then have "sort3 cmp a b c = (p, q, c)" using pq by (simp add: sort3_def Let_def)
    moreover have "cmp p c \<le> 0" using cmp_le_trans [OF 1(1), of c] False by simp
    ultimately show ?thesis using 1 False by (simp add: stably_sorted_def)
  next
    case True
    then have cq: "cmp c q \<le> 0" "cmp q c \<noteq> 0" using cmp_swap [of q c] by auto
    have 2: "filter (\<lambda>z. cmp d z = 0) [p, c, q] = filter (\<lambda>z. cmp d z = 0) [a, b, c]" for d
      using f(2) [OF cq(2), of d p] 1(3) [of d] by simp
    show ?thesis
    proof (cases "0 < cmp p c")
      case pc: True
      then have "cmp c p \<le> 0" "cmp p c \<noteq> 0" using cmp_swap [of p c] by auto
      moreover have "sort3 cmp a b c = (c, p, q)" using pq True pc by (simp add: sort3_def Let_def)
      ultimately show ?thesis using 1 2 cq f(1) [of p c _ q] by (simp add: stably_sorted_def)
    next
      case pc: False
      then have "sort3 cmp a b c = (p, c, q)" using pq True by (simp add: sort3_def Let_def)
      then show ?thesis using 1 2 cq pc by (simp add: stably_sorted_def)
    qed
  qed
qed

lemma sort2_stable:
  "stably_sorted cmp [a, b] (if 0 < cmp a b then [b, a] else [a, b])"
  using cmp_swap [of a b] filter_swap [of a b _ "[]" "[]"] by (auto simp: stably_sorted_def)

end

section \<open>The code on memory\<close>

text \<open>A block whose cells from \<open>length pre\<close> on hold a list.\<close>

abbreviation (input) block :: "'a cells \<Rightarrow> 'a list \<Rightarrow> 'a cells \<Rightarrow> 'a cells" where
  "block pre L post \<equiv> pre @ map Some L @ post"

lemma ld_block [simp]: "i < length L \<Longrightarrow> ld (block pre L post) (length pre + i) = Some (L ! i)"
  by (simp add: ld_def nth_append)

lemma st_block [simp]:
  "i < length L \<Longrightarrow> st (block pre L post) (length pre + i) v = Some (block pre (L[i := v]) post)"
  by (simp add: st_def list_update_append map_update)

lemma merge_copy_back_block:
  assumes "holds tmp out" "n \<le> length out" "n \<le> length L"
  shows "merge_copy_back (block pre L post) (length pre) tmp n =
    Some (block pre (take n out @ drop n L) post)"
  using assms(2,3)
proof (induction n arbitrary: L)
  case (Suc n)
  have "ld tmp n = Some (out ! n)" using assms(1) Suc.prems by (intro holds_ld) auto
  then have "merge_copy_back (block pre L post) (length pre) tmp (Suc n) =
      merge_copy_back (block pre (L[n := out ! n]) post) (length pre) tmp n"
    using Suc.prems by simp
  also have "\<dots> = Some (block pre (take n out @ drop n (L[n := out ! n])) post)"
    using Suc by simp
  also have "take n out @ drop n (L[n := out ! n]) = take (Suc n) out @ drop (Suc n) L"
    using Suc.prems by (simp add: take_Suc_conv_app_nth upd_conv_take_nth_drop)
  finally show ?case .
qed simp

lemma merge_shift_up_block:
  assumes "n \<le> length L" "cnt2 \<le> idx"
  shows "\<exists>R. merge_shift_up (block pre L post) (length pre) cnt2 idx n = Some (block pre R post) \<and>
    length R = length L \<and>
    (\<forall>k < length L. R ! k = (if idx \<le> k \<and> k < n then L ! (k - cnt2) else L ! k))"
  using assms(1)
proof (induction n arbitrary: L)
  case (Suc t)
  show ?case
  proof (cases "idx \<le> t")
    case True
    let ?L = "L[t := L ! (t - cnt2)]"
    have "length pre + t - cnt2 = length pre + (t - cnt2)" using True assms(2) by simp
    then have "ld (block pre L post) (length pre + t - cnt2) = Some (L ! (t - cnt2))"
      using Suc.prems ld_block [of "t - cnt2" L pre post] by simp
    then have "merge_shift_up (block pre L post) (length pre) cnt2 idx (Suc t) =
        merge_shift_up (block pre ?L post) (length pre) cnt2 idx t"
      using True Suc.prems by simp
    moreover obtain R where R: "merge_shift_up (block pre ?L post) (length pre) cnt2 idx t = Some (block pre R post)"
      "length R = length L"
      "\<forall>k < length L. R ! k = (if idx \<le> k \<and> k < t then ?L ! (k - cnt2) else ?L ! k)"
      using Suc.IH [of ?L] Suc.prems by auto
    moreover have "R ! k = (if idx \<le> k \<and> k < Suc t then L ! (k - cnt2) else L ! k)" if "k < length L" for k
    proof -
      have r: "R ! k = (if idx \<le> k \<and> k < t then ?L ! (k - cnt2) else ?L ! k)" using R(3) that by blast
      consider "k < t" | "k = t" | "t < k" by linarith
      then show ?thesis using r True that by cases simp_all
    qed
    ultimately show ?thesis by (intro exI [of _ R]) simp
  qed auto
qed auto

lemma merge_loop_block:
  assumes "length xs = cnt1" "length ys = cnt2" "holds tmp out" "length out = idx1 + j"
    and "idx1 \<le> cnt1" "j \<le> cnt2" "cnt1 + cnt2 \<le> length tmp"
  shows "\<exists>tmp'. merge_loop cmp (block pre (xs @ ys) post) (length pre) cnt1 cnt2 tmp (idx1 + j) idx1 (cnt1 + j) =
      Some (block pre (out @ merge_lists cmp (drop idx1 xs) (drop j ys)) post, tmp') \<and>
    length tmp' = length tmp"
  using assms(3-)
proof (induction "(cnt1 - idx1) + (cnt2 - j)" arbitrary: tmp out idx1 j rule: less_induct)
  case less
  let ?m = "block pre (xs @ ys) post"
  note len = assms(1,2)
  consider (one) "idx1 = cnt1" | (two) "idx1 < cnt1" "j = cnt2" | (go) "idx1 < cnt1" "j < cnt2"
    using less.prems by linarith
  then show ?case
  proof cases
    case one
    then show ?thesis
      using merge_copy_back_block [OF less.prems(1), of "idx1 + j" "xs @ ys" pre post] less.prems len
      by (subst merge_loop.simps) simp
  next
    case two
    obtain R where R: "merge_shift_up ?m (length pre) cnt2 (idx1 + j) (cnt1 + cnt2) = Some (block pre R post)"
      "length R = cnt1 + cnt2"
      "\<forall>k < cnt1 + cnt2. R ! k = (if idx1 + j \<le> k \<and> k < cnt1 + cnt2 then (xs @ ys) ! (k - cnt2) else (xs @ ys) ! k)"
      using merge_shift_up_block [of "cnt1 + cnt2" "xs @ ys" cnt2 "idx1 + j" pre post] len two by auto
    have "drop (idx1 + j) R = drop idx1 xs"
      using R(2,3) two len by (intro nth_equalityI) (auto simp: nth_append)
    then show ?thesis
      using merge_copy_back_block [OF less.prems(1), of "idx1 + j" R pre post] R two less.prems len
      by (subst merge_loop.simps) simp
  next
    case go
    have l1: "ld ?m (length pre + idx1) = Some (xs ! idx1)"
      using ld_block [of idx1 "xs @ ys" pre post] go len by (simp add: nth_append)
    have l2: "ld ?m (length pre + (cnt1 + j)) = Some (ys ! j)"
      using ld_block [of "cnt1 + j" "xs @ ys" pre post] go len by (simp add: nth_append)
    have dx: "drop idx1 xs = xs ! idx1 # drop (Suc idx1) xs" "drop j ys = ys ! j # drop (Suc j) ys"
      using go len by (simp_all add: Cons_nth_drop_Suc)
    have st': "\<exists>tmp'. st tmp (idx1 + j) v = Some tmp' \<and> holds tmp' (out @ [v]) \<and> length tmp' = length tmp" for v
      using holds_st_snoc [OF less.prems(1)] less.prems go by simp
    show ?thesis
    proof (cases "cmp (xs ! idx1) (ys ! j) \<le> 0")
      case True
      obtain tmp' where t: "st tmp (idx1 + j) (xs ! idx1) = Some tmp'" "holds tmp' (out @ [xs ! idx1])"
        "length tmp' = length tmp" using st' by blast
      have "merge_loop cmp ?m (length pre) cnt1 cnt2 tmp (idx1 + j) idx1 (cnt1 + j) =
          merge_loop cmp ?m (length pre) cnt1 cnt2 tmp' (Suc idx1 + j) (Suc idx1) (cnt1 + j)"
        using go l1 l2 True t(1) by (subst merge_loop.simps) simp
      then show ?thesis using less.hyps [of "Suc idx1" j tmp' "out @ [xs ! idx1]"] t less.prems go dx True
        by simp
    next
      case False
      obtain tmp' where t: "st tmp (idx1 + j) (ys ! j) = Some tmp'" "holds tmp' (out @ [ys ! j])"
        "length tmp' = length tmp" using st' by blast
      have "merge_loop cmp ?m (length pre) cnt1 cnt2 tmp (idx1 + j) idx1 (cnt1 + j) =
          merge_loop cmp ?m (length pre) cnt1 cnt2 tmp' (idx1 + Suc j) idx1 (cnt1 + Suc j)"
        using go l1 l2 False t(1) by (subst merge_loop.simps) simp
      then show ?thesis using less.hyps [of idx1 "Suc j" tmp' "out @ [ys ! j]"] t less.prems go dx False
        by simp
    qed
  qed
qed

context comparator
begin

lemma CFSimpleMerge_block:
  assumes "sorted_wrt (\<lambda>a b. cmp a b \<le> 0) xs" "sorted_wrt (\<lambda>a b. cmp a b \<le> 0) ys"
    and "length xs + length ys \<le> length tmp"
  shows "\<exists>tmp'. CFSimpleMerge cmp (block pre (xs @ ys) post) (length pre) (length xs) (length ys) tmp =
      Some (block pre (merge_lists cmp xs ys) post, tmp') \<and> length tmp' = length tmp"
proof (cases "xs = [] \<or> ys = []")
  case True
  then show ?thesis by (auto simp: CFSimpleMerge_def)
next
  case False
  let ?m = "block pre (xs @ ys) post"
  have l1: "ld ?m (length pre + length xs - 1) = Some (last xs)"
    using ld_block [of "length xs - 1" "xs @ ys" pre post] False
    by (cases xs rule: rev_cases) (simp_all add: nth_append)
  have l2: "ld ?m (length pre + length xs) = Some (hd ys)"
    using ld_block [of "length xs" "xs @ ys" pre post] False by (simp add: nth_append hd_conv_nth)
  have loop: "\<exists>tmp'. merge_loop cmp ?m (length pre) (length xs) (length ys) tmp 0 0 (length xs) =
      Some (block pre (merge_lists cmp xs ys) post, tmp') \<and> length tmp' = length tmp"
    using merge_loop_block [of xs "length xs" ys "length ys" tmp "[]" 0 0 cmp pre post] assms(3) by simp
  show ?thesis
  proof (cases "16 < length xs + length ys \<and> cmp (last xs) (hd ys) \<le> 0")
    case True
    then show ?thesis using l1 l2 False merge_lists_ordered [OF assms(1,2)]
      by (simp add: CFSimpleMerge_def)
  next
    case nord: False
    then show ?thesis using l1 l2 loop False by (auto simp: CFSimpleMerge_def)
  qed
qed

lemma CFSimpleMergeSort_block:
  assumes "length L \<le> length tmp"
  shows "\<exists>L' tmp'. CFSimpleMergeSort cmp (block pre L post) (length pre) (length L) tmp =
      Some (block pre L' post, tmp') \<and> stably_sorted cmp L L' \<and> length tmp' = length tmp"
  using assms
proof (induction "length L" arbitrary: L pre post tmp rule: less_induct)
  case less
  consider (small) "length L < 2" | (two) "length L = 2" | (three) "length L = 3" | (big) "3 < length L"
    by linarith
  then show ?case
  proof cases
    case small
    then have "stably_sorted cmp L L" by (cases L) (auto simp: stably_sorted_def)
    then show ?thesis using small by (subst CFSimpleMergeSort.simps) simp
  next
    case two
    then obtain a b where L: "L = [a, b]" by (auto simp: numeral_eq_Suc length_Suc_conv)
    have "ld (block pre L post) (length pre) = Some a" "ld (block pre L post) (length pre + 1) = Some b"
      using ld_block [of 0 L pre post] ld_block [of 1 L pre post] L by auto
    then have "CFSimpleMergeSort cmp (block pre L post) (length pre) (length L) tmp =
        Some (block pre (if 0 < cmp a b then [b, a] else [a, b]) post, tmp)"
      using st_block [of 0 L pre post b] st_block [of 1 "[b, b]" pre post a] L
      by (subst CFSimpleMergeSort.simps) simp
    then show ?thesis using sort2_stable [of a b] L by blast
  next
    case three
    then obtain a b c where L: "L = [a, b, c]" by (auto simp: numeral_eq_Suc length_Suc_conv)
    obtain x y z where s3: "sort3 cmp a b c = (x, y, z)" by (cases "sort3 cmp a b c") auto
    have "ld (block pre L post) (length pre) = Some a" "ld (block pre L post) (length pre + 1) = Some b"
      "ld (block pre L post) (length pre + 2) = Some c"
      using ld_block [of 0 L pre post] ld_block [of 1 L pre post] ld_block [of 2 L pre post] L by auto
    then have "CFSimpleMergeSort cmp (block pre L post) (length pre) (length L) tmp =
        Some (block pre [x, y, z] post, tmp)"
      using st_block [of 0 L pre post x] st_block [of 1 "[x, b, c]" pre post y]
        st_block [of 2 "[x, y, c]" pre post z] L s3
      by (subst CFSimpleMergeSort.simps) simp
    then show ?thesis using sort3_stable [of a b c] L s3 by fastforce
  next
    case big
    let ?h = "length L div 2"
    let ?A = "take ?h L" and ?B = "drop ?h L"
    have h: "?h < length L" "length ?A = ?h" "length ?B = length L - ?h" "length L - ?h < length L"
      using big by auto
    obtain A' tmp1 where A: "CFSimpleMergeSort cmp (block pre ?A (map Some ?B @ post)) (length pre) ?h tmp =
        Some (block pre A' (map Some ?B @ post), tmp1)" "stably_sorted cmp ?A A'" "length tmp1 = length tmp"
      using less.hyps [of ?A tmp pre "map Some ?B @ post"] less.prems h by auto
    have lA: "length A' = ?h" using A(2) h mset_eq_length by (fastforce simp: stably_sorted_def)
    obtain B' tmp2 where B: "CFSimpleMergeSort cmp (block (pre @ map Some A') ?B post) (length pre + ?h)
        (length L - ?h) tmp1 = Some (block (pre @ map Some A') B' post, tmp2)"
      "stably_sorted cmp ?B B'" "length tmp2 = length tmp"
      using less.hyps [of ?B tmp1 "pre @ map Some A'" post] less.prems h A(3) lA by auto
    have lB: "length B' = length L - ?h" using B(2) h mset_eq_length by (fastforce simp: stably_sorted_def)
    obtain tmp3 where M: "CFSimpleMerge cmp (block pre (A' @ B') post) (length pre) ?h (length L - ?h) tmp2 =
        Some (block pre (merge_lists cmp A' B') post, tmp3)" "length tmp3 = length tmp"
      using CFSimpleMerge_block [of A' B' tmp2 pre post] A B lA lB less.prems big
      by (auto simp: stably_sorted_def)
    have "block pre L post = block pre ?A (map Some ?B @ post)"
      by (metis append_assoc append_take_drop_id map_append)
    then have "CFSimpleMergeSort cmp (block pre L post) (length pre) (length L) tmp =
        Some (block pre (merge_lists cmp A' B') post, tmp3)"
      using big A(1) B(1) M(1) by (subst CFSimpleMergeSort.simps) (simp add: Let_def)
    then show ?thesis using stably_sorted_merge [OF A(2) B(2)] M(2) by auto
  qed
qed

end

section \<open>The entry points\<close>

text \<open>Filling writes \<open>idx\<close> into cell \<open>idx\<close> and leaves the other cells alone.\<close>

lemma sort_fill_works:
  "idx + n \<le> length m \<Longrightarrow>
     \<exists>m'. sort_fill m idx n = Some m' \<and> length m' = length m \<and>
       (\<forall>k < length m. m' ! k = (if idx \<le> k \<and> k < idx + n then Some k else m ! k))"
proof (induction n arbitrary: m idx)
  case (Suc n)
  let ?m = "m[idx := Some idx]"
  have s: "st m idx idx = Some ?m" using Suc.prems by (simp add: st_def)
  obtain m' where m': "sort_fill ?m (Suc idx) n = Some m'" "length m' = length m"
    "\<forall>k < length m. m' ! k = (if Suc idx \<le> k \<and> k < Suc idx + n then Some k else ?m ! k)"
    using Suc.IH [of "Suc idx" ?m] Suc.prems by auto
  have "m' ! k = (if idx \<le> k \<and> k < idx + Suc n then Some k else m ! k)" if "k < length m" for k
  proof (cases "k = idx")
    case True
    with m'(3) that Suc.prems show ?thesis by simp
  next
    case False
    moreover have "m' ! k = (if Suc idx \<le> k \<and> k < Suc idx + n then Some k else ?m ! k)"
      using m'(3) that by blast
    ultimately show ?thesis by auto
  qed
  with s m' show ?case by simp
qed auto

lemma sort_fill_chunks_works:
  "length m = cnt \<Longrightarrow>
     \<exists>m'. sort_fill_chunks m cnt sz ns = Some m' \<and> length m' = cnt \<and>
       (\<forall>k < cnt. m' ! k = (if \<exists>n \<in> set ns. n * sz \<le> k \<and> k < n * sz + sz then Some k else m ! k))"
proof (induction ns arbitrary: m)
  case (Cons n ns)
  have "\<exists>m1. sort_fill m (n * sz) (min (n * sz + sz) cnt - n * sz) = Some m1 \<and> length m1 = cnt \<and>
      (\<forall>k < cnt. m1 ! k = (if n * sz \<le> k \<and> k < n * sz + sz then Some k else m ! k))"
  proof (cases "n * sz \<le> cnt")
    case True
    then show ?thesis using sort_fill_works [of "n * sz" "min (n * sz + sz) cnt - n * sz" m] Cons.prems
      by auto
  next
    case False
    then have "min (n * sz + sz) cnt - n * sz = 0" by simp
    then show ?thesis using False Cons.prems by auto
  qed
  then obtain m1 where m1: "sort_fill m (n * sz) (min (n * sz + sz) cnt - n * sz) = Some m1"
    "length m1 = cnt" "\<forall>k < cnt. m1 ! k = (if n * sz \<le> k \<and> k < n * sz + sz then Some k else m ! k)"
    by blast
  obtain m' where "sort_fill_chunks m1 cnt sz ns = Some m'" "length m' = cnt"
    "\<forall>k < cnt. m' ! k = (if \<exists>n \<in> set ns. n * sz \<le> k \<and> k < n * sz + sz then Some k else m1 ! k)"
    using Cons.IH [OF m1(2)] by blast
  with m1 show ?case by auto
qed simp

text \<open>The eight chunks cover the buffer.\<close>

lemma eight_chunks_cover:
  assumes "k < cnt" "65536 < cnt" and sz: "sz = (((cnt + 15) div 16) * 16) div 8"
  shows "\<exists>n \<in> set [0..<8]. n * sz \<le> k \<and> k < n * sz + sz"
proof (intro bexI conjI)
  have sz2: "sz = 2 * ((cnt + 15) div 16)" using sz by simp
  have pos: "0 < sz" using sz2 assms(2) by auto
  show "k div sz * sz \<le> k" by simp
  show "k < k div sz * sz + sz" using pos by (metis div_mult_mod_eq mod_less_divisor nat_add_left_cancel_less)
  have "cnt \<le> 8 * sz" using sz2 by linarith
  then have "k < 8 * sz" using assms(1) by simp
  then have "k div sz < 8" using pos by (simp add: div_less_iff_less_mult)
  then show "k div sz \<in> set [0..<8]" by simp
qed

lemma index_fill_works:
  assumes "length m = cnt"
  shows "(if cnt \<le> 65536 then sort_fill m 0 cnt
      else sort_fill_chunks m cnt ((((cnt + 15) div 16) * 16) div 8) [0..<8]) = Some (map Some [0..<cnt])"
proof (cases "cnt \<le> 65536")
  case True
  obtain m' where "sort_fill m 0 cnt = Some m'" "length m' = length m"
    "\<forall>k < length m. m' ! k = (if 0 \<le> k \<and> k < 0 + cnt then Some k else m ! k)"
    using sort_fill_works [of 0 cnt m] assms by auto
  moreover from this have "m' = map Some [0..<cnt]" using assms by (intro nth_equalityI) auto
  ultimately show ?thesis using True by simp
next
  case False
  let ?sz = "(((cnt + 15) div 16) * 16) div 8"
  obtain m' where m': "sort_fill_chunks m cnt ?sz [0..<8] = Some m'" "length m' = cnt"
    "\<forall>k < cnt. m' ! k = (if \<exists>n \<in> set [0..<8]. n * ?sz \<le> k \<and> k < n * ?sz + ?sz then Some k else m ! k)"
    using sort_fill_chunks_works [OF assms, of ?sz "[0..<8]"] by blast
  have "m' ! k = Some k" if "k < cnt" for k
    using m'(3) that eight_chunks_cover [OF that _ refl] False by simp
  then have "m' = map Some [0..<cnt]" using m'(2) by (intro nth_equalityI) auto
  with m'(1) False show ?thesis by simp
qed

context comparator
begin

lemma comparator_of_nth: "comparator (\<lambda>a b. cmp (L ! a) (L ! b))"
  using cmp_range cmp_swap cmp_le_trans by unfold_locales blast+

text \<open>Sorting the indexes of a list sorts the list.\<close>

lemma stably_sorted_by_index:
  assumes "stably_sorted (\<lambda>a b. cmp (L ! a) (L ! b)) [0..<length L] I"
  shows "stably_sorted cmp L (map (\<lambda>i. L ! i) I)"
proof -
  have ms: "mset I = mset [0..<length L]" and so: "sorted_wrt (\<lambda>a b. cmp (L ! a) (L ! b) \<le> 0) I"
    and fl: "\<And>a. filter (\<lambda>i. cmp (L ! a) (L ! i) = 0) I = filter (\<lambda>i. cmp (L ! a) (L ! i) = 0) [0..<length L]"
    using assms by (auto simp: stably_sorted_def)
  have "mset (map (\<lambda>i. L ! i) I) = mset (map (\<lambda>i. L ! i) [0..<length L])"
    using ms by (simp only: mset_map)
  then have "mset (map (\<lambda>i. L ! i) I) = mset L" by (simp add: map_nth)
  moreover have "sorted_wrt (\<lambda>a b. cmp a b \<le> 0) (map (\<lambda>i. L ! i) I)"
    using so by (simp add: sorted_wrt_map)
  moreover have "filter (\<lambda>x. cmp a x = 0) (map (\<lambda>i. L ! i) I) = filter (\<lambda>x. cmp a x = 0) L" for a
  proof (cases "\<exists>j < length L. cmp a (L ! j) = 0")
    case True
    then obtain j where j: "j < length L" "cmp a (L ! j) = 0" by blast
    have eq: "cmp a x = 0 \<longleftrightarrow> cmp (L ! j) x = 0" for x
      using j(2) cmp_eq_common [of a "L ! j" x] cmp_eq_common [of "L ! j" a x] cmp_swap [of "L ! j" a]
      by auto
    have "filter (\<lambda>x. cmp a x = 0) (map (\<lambda>i. L ! i) I) =
        map (\<lambda>i. L ! i) (filter (\<lambda>i. cmp (L ! j) (L ! i) = 0) [0..<length L])"
      using fl [of j] by (simp add: eq filter_map o_def)
    also have "\<dots> = filter (\<lambda>x. cmp a x = 0) (map (\<lambda>i. L ! i) [0..<length L])"
      by (simp add: eq filter_map o_def)
    finally show ?thesis by (simp add: map_nth)
  next
    case False
    then have "filter (\<lambda>x. cmp a x = 0) L = []" by (auto simp: filter_empty_conv in_set_conv_nth)
    moreover have "set I = set [0..<length L]" using ms by (rule mset_eq_setD)
    then have "filter (\<lambda>x. cmp a x = 0) (map (\<lambda>i. L ! i) I) = []" using False
      by (auto simp: filter_empty_conv)
    ultimately show ?thesis by simp
  qed
  ultimately show ?thesis by (simp add: stably_sorted_def)
qed

end

lemma CFSortIndexes_sequential:
  assumes "comparator cmp" "\<not> fst (sort_ncores processors cnt opts)" "length buf = cnt" "cnt \<le> (2 ^ 63 - 1) div 8"
  shows "\<exists>I. CFSortIndexes processors buf cnt opts cmp = Some (map Some I) \<and>
    stably_sorted cmp [0..<cnt] I"
proof (cases "cnt < 1")
  case True
  then show ?thesis using assms by (simp add: CFSortIndexes_def stably_sorted_def)
next
  case False
  let ?fill = "if cnt \<le> 65536 then sort_fill buf 0 cnt
      else sort_fill_chunks buf cnt ((((cnt + 15) div 16) * 16) div 8) [0..<8]"
  obtain L' tmp where "CFSimpleMergeSort cmp (map Some [0..<cnt]) 0 cnt (fresh_cells cnt) =
      Some (map Some L', tmp)" "stably_sorted cmp [0..<cnt] L'"
    using comparator.CFSimpleMergeSort_block [OF assms(1), of "[0..<cnt]" "fresh_cells cnt" "[]" "[]"]
    by auto
  moreover obtain nc where "sort_ncores processors cnt opts = (False, nc)"
    using assms(2) by (cases "sort_ncores processors cnt opts") auto
  then have "CFSortIndexes processors buf cnt opts cmp = do {
      m \<leftarrow> ?fill; (m', tmp) \<leftarrow> CFSimpleMergeSort cmp m 0 cnt (fresh_cells cnt); Some m' }"
    using False assms(4) by (simp add: CFSortIndexes_def)
  ultimately show ?thesis using index_fill_works [OF assms(3)] by simp
qed

lemma read_cells_block: "read_cells (map Some L @ post) (length L) = Some L"
proof -
  have "map (ld (map Some L @ post)) [0..<length L] = map Some L"
    by (intro nth_equalityI) (auto simp: ld_def nth_append)
  moreover have "those (map Some L) = Some L" by (induction L) auto
  ultimately show ?thesis by (simp add: read_cells_def)
qed

lemma sort_gather_works:
  assumes "\<forall>i \<in> set I. i < length L" "holds store out" "length out = idx" "idx + n = length I"
    "length I \<le> length store" "out = map (\<lambda>i. L ! i) (take idx I)"
  shows "\<exists>store'. sort_gather (map Some L @ post) (map Some I) store idx n = Some store' \<and>
    holds store' (map (\<lambda>i. L ! i) I) \<and> length store' = length store"
  using assms
proof (induction n arbitrary: store out idx)
  case (Suc n)
  have i: "idx < length I" using Suc.prems by simp
  then have "I ! idx < length L" using Suc.prems(1) by simp
  then have l: "ld (map Some I) idx = Some (I ! idx)" "ld (map Some L @ post) (I ! idx) = Some (L ! (I ! idx))"
    using i by (simp_all add: ld_def nth_append)
  obtain store1 where s: "st store idx (L ! (I ! idx)) = Some store1"
    "holds store1 (out @ [L ! (I ! idx)])" "length store1 = length store"
    using holds_st_snoc [OF Suc.prems(2)] Suc.prems i by fastforce
  have "out @ [L ! (I ! idx)] = map (\<lambda>i. L ! i) (take (Suc idx) I)"
    using Suc.prems(6) i by (simp add: take_Suc_conv_app_nth)
  then show ?case using Suc.IH [OF Suc.prems(1) s(2), of "Suc idx"] Suc.prems s l by simp
qed simp

lemma sort_array_works:
  assumes "comparator cmp" "even opts" "0 < elementSize" "length L \<le> (2 ^ 63 - 1) div 8"
  shows "\<exists>L'. sort_array opts cmp (map Some L @ post) (length L) elementSize = Some (map Some L' @ post) \<and>
    stably_sorted cmp L L'"
proof (cases "length L < 2")
  case True
  then have "stably_sorted cmp L L" by (cases L) (auto simp: stably_sorted_def)
  then show ?thesis using True by (auto simp: sort_array_def)
next
  case False
  let ?c = "\<lambda>a b. cmp (L ! a) (L ! b)"
  have "comparator ?c" using comparator.comparator_of_nth [OF assms(1)] .
  then obtain I where I: "CFSortIndexes 1 (fresh_cells (length L)) (length L) opts ?c = Some (map Some I)"
    "stably_sorted ?c [0..<length L] I"
    using CFSortIndexes_sequential [of ?c 1 "length L" opts "fresh_cells (length L)"] assms(2,4)
    by (auto simp: sort_ncores_def)
  have ms: "mset I = mset [0..<length L]" using I(2) by (simp add: stably_sorted_def)
  have lI: "length I = length L" using mset_eq_length [OF ms] by simp
  have "\<forall>i \<in> set I. i < length L" using mset_eq_setD [OF ms] by simp
  then obtain store where s: "sort_gather (map Some L @ post) (map Some I) (fresh_cells (length L)) 0 (length L) = Some store"
    "holds store (map (\<lambda>i. L ! i) I)" "length store = length L"
    using sort_gather_works [of I L "fresh_cells (length L)" "[]" 0 "length L" post] lI by auto
  have "store = map Some (map (\<lambda>i. L ! i) I)"
    using s(2,3) lI by (simp add: holds_def)
  then have "sort_array opts cmp (map Some L @ post) (length L) elementSize =
      Some (map Some (map (\<lambda>i. L ! i) I) @ post)"
    using False assms(3) I(1) s(1) lI by (simp add: sort_array_def read_cells_block memmove_cells_def)
  then show ?thesis using comparator.stably_sorted_by_index [OF assms(1) I(2)] by blast
qed

end
