(* ===== verification/CF_SortConcurrent.thy ===== *)
theory CF_SortConcurrent
  imports CF_Sort
begin

text \<open>
  The concurrent sort of \<open>CFSortFunctions.c\<close> and the theorems about the sorting entry points.

  The sections of \<open>__CFSortIndexesN\<close> are a list of lists; a phase is \<open>split_pairs\<close> or
  \<open>split_odd\<close>.  For a threshold value, \<open>below\<close> counts how many values up to it the first \<open>i\<close>
  sections hold; a merge across boundary \<open>i\<close> replaces that count by the minimum of its left
  neighbour's count plus a section and its right neighbour's count, from which \<open>boundary_done\<close>
  follows by induction on the phases: half as many rounds as sections put every boundary right.
  The remaining lemmas show that the code in memory computes these list operations.
\<close>

section \<open>The merge of the concurrent sort\<close>

lemma ld_mid: "i < length L \<Longrightarrow> ld (pre @ map Some L @ post) (length pre + i) = Some (L ! i)"
  by (simp add: ld_def nth_append)

lemma st_mid: "i < length ts \<Longrightarrow> st (pre @ ts @ post) (length pre + i) v = Some (pre @ ts[i := Some v] @ post)"
  by (simp add: st_def list_update_append)

lemma nmerge_left_block:
  assumes "n \<le> (length xs - i1) + (length ys - i2)" "length ts = n" "d = length tpre"
    "i1 \<le> length xs" "i2 \<le> length ys"
  shows "nmerge_left cmp (pre1 @ map Some xs @ post1) (length pre1) (length xs)
      (pre2 @ map Some ys @ post2) (length pre2) (length ys) i1 i2 (tpre @ ts @ tpost) d n =
    Some (tpre @ map Some (take n (merge_lists cmp (drop i1 xs) (drop i2 ys))) @ tpost)"
  using assms
proof (induction n arbitrary: i1 i2 tpre ts d)
  case (Suc n)
  obtain t ts' where ts: "ts = t # ts'" using Suc.prems by (cases ts) auto
  have stp: "st (tpre @ ts @ tpost) d v = Some ((tpre @ [Some v]) @ ts' @ tpost)" for v
    using Suc.prems(3) ts by (simp add: st_def)
  let ?s1 = "pre1 @ map Some xs @ post1" and ?s2 = "pre2 @ map Some ys @ post2"
  have IH: "nmerge_left cmp ?s1 (length pre1) (length xs) ?s2 (length pre2) (length ys) j1 j2
      ((tpre @ [Some v]) @ ts' @ tpost) (Suc d) n =
    Some (tpre @ map Some (v # take n (merge_lists cmp (drop j1 xs) (drop j2 ys))) @ tpost)"
    if "n \<le> (length xs - j1) + (length ys - j2)" "j1 \<le> length xs" "j2 \<le> length ys" for j1 j2 v
    using Suc.IH [of j1 j2 ts' "Suc d" "tpre @ [Some v]"] that Suc.prems ts by simp
  consider (two) "length ys \<le> i2" | (one) "i2 < length ys" "length xs \<le> i1"
    | (both) "i2 < length ys" "i1 < length xs" by linarith
  then show ?case
  proof cases
    case two
    then have i1: "i1 < length xs" using Suc.prems by simp
    then have "drop i1 xs = xs ! i1 # drop (Suc i1) xs" by (simp add: Cons_nth_drop_Suc)
    then show ?thesis using two i1 Suc.prems stp IH [of "Suc i1" i2] by (simp add: ld_mid)
  next
    case one
    then have "drop i2 ys = ys ! i2 # drop (Suc i2) ys" by (simp add: Cons_nth_drop_Suc)
    then show ?thesis using one Suc.prems stp IH [of i1 "Suc i2"] by (simp add: ld_mid)
  next
    case both
    then have dr: "drop i1 xs = xs ! i1 # drop (Suc i1) xs" "drop i2 ys = ys ! i2 # drop (Suc i2) ys"
      by (simp_all add: Cons_nth_drop_Suc)
    show ?thesis
    proof (cases "cmp (xs ! i1) (ys ! i2) \<le> 0")
      case True
      then show ?thesis using both Suc.prems dr stp IH [of "Suc i1" i2] by (simp add: ld_mid)
    next
      case False
      then show ?thesis using both Suc.prems dr stp IH [of i1 "Suc i2"] by (simp add: ld_mid)
    qed
  qed
qed simp

context comparator
begin

text \<open>The merge seen from its end: the larger of the two last elements comes last.\<close>

lemma merge_lists_snoc:
  "sorted_wrt (\<lambda>a b. cmp a b \<le> 0) (xs @ [x]) \<Longrightarrow> sorted_wrt (\<lambda>a b. cmp a b \<le> 0) (ys @ [y]) \<Longrightarrow>
     merge_lists cmp (xs @ [x]) (ys @ [y]) =
     (if cmp x y \<le> 0 then merge_lists cmp (xs @ [x]) ys @ [y] else merge_lists cmp xs (ys @ [y]) @ [x])"
proof (induction xs ys rule: list_merge_induct)
  case (Nil1 ys)
  then show ?case
  proof (induction ys)
    case (Cons a ys)
    have "cmp x a \<le> 0 \<Longrightarrow> cmp x y \<le> 0" using Cons.prems(2) cmp_le_trans [of x a y] by simp
    then show ?case using Cons by auto
  qed simp
next
  case (Nil2 a xs)
  have "merge_lists cmp (zs @ [x]) [y] =
      (if cmp x y \<le> 0 then zs @ [x] @ [y] else merge_lists cmp zs [y] @ [x])"
    if "sorted_wrt (\<lambda>a b. cmp a b \<le> 0) (zs @ [x])" for zs
    using that
  proof (induction zs)
    case (Cons b zs)
    have "cmp x y \<le> 0 \<Longrightarrow> cmp b y \<le> 0" using Cons.prems cmp_le_trans [of b x y] by simp
    then show ?case using Cons by auto
  qed simp
  from this [OF Nil2(1)] show ?case by simp
next
  case (Cons a xs b ys)
  then show ?case by auto
qed

lemma nmerge_right_block:
  assumes "sorted_wrt (\<lambda>a b. cmp a b \<le> 0) xs" "sorted_wrt (\<lambda>a b. cmp a b \<le> 0) ys"
    "length ys \<le> length xs" "n1 \<le> length xs" "n2 \<le> length ys" "n1 + n2 = length xs + t" "length ts = t"
  shows "nmerge_right cmp (pre1 @ map Some xs @ post1) (length pre1)
      (pre2 @ map Some ys @ post2) (length pre2) (int n1 - 1) (int n2 - 1) (tpre @ ts @ tpost) (length tpre) t =
    Some (tpre @ map Some (drop (length xs) (merge_lists cmp (take n1 xs) (take n2 ys))) @ tpost)"
  using assms(4-)
proof (induction t arbitrary: n1 n2 ts tpost)
  case (Suc t)
  obtain m1 m2 where m: "n1 = Suc m1" "n2 = Suc m2"
    using Suc.prems assms(3) by (cases n1; cases n2) auto
  have idx: "m1 < length xs" "m2 < length ys" using Suc.prems m by auto
  obtain ts' z where ts: "ts = ts' @ [z]" "length ts' = t"
    using Suc.prems(4) by (cases ts rule: rev_cases) auto
  have stp: "st (tpre @ ts @ tpost) (length tpre + t) v = Some (tpre @ ts' @ (Some v # tpost))" for v
    using ts by (simp add: st_def list_update_append)
  have l1: "ldi (pre1 @ map Some xs @ post1) (int (length pre1) + int m1) = Some (xs ! m1)"
    and l2: "ldi (pre2 @ map Some ys @ post2) (int (length pre2) + int m2) = Some (ys ! m2)"
    using idx ld_mid [of m1 xs pre1 post1] ld_mid [of m2 ys pre2 post2] by (simp_all add: ldi_def nat_int_add)
  have tk: "take n1 xs = take m1 xs @ [xs ! m1]" "take n2 ys = take m2 ys @ [ys ! m2]"
    using idx m by (simp_all add: take_Suc_conv_app_nth)
  have so: "sorted_wrt (\<lambda>a b. cmp a b \<le> 0) (take n1 xs)" "sorted_wrt (\<lambda>a b. cmp a b \<le> 0) (take n2 ys)"
    using assms(1,2) by (simp_all add: sorted_wrt_take)
  note snoc = merge_lists_snoc [OF so [unfolded tk], folded tk]
  show ?case
  proof (cases "cmp (xs ! m1) (ys ! m2) \<le> 0")
    case True
    then show ?thesis using Suc.IH [of n1 m2 ts' "Some (ys ! m2) # tpost"] Suc.prems m ts l1 l2 stp snoc idx
      by simp
  next
    case False
    then show ?thesis using Suc.IH [of m1 n2 ts' "Some (xs ! m1) # tpost"] Suc.prems m ts l1 l2 stp snoc idx
      by simp
  qed
qed simp

text \<open>The merge writes one half of the merged run, the smaller values or the larger ones.\<close>

lemma CFSortIndexesNMerge_block:
  assumes "sorted_wrt (\<lambda>a b. cmp a b \<le> 0) xs" "sorted_wrt (\<lambda>a b. cmp a b \<le> 0) ys"
    "length ys \<le> length xs" "ys \<noteq> []" "length ts = (if right then length ys else length xs)"
  shows "CFSortIndexesNMerge cmp (pre1 @ map Some xs @ post1) (length pre1) (length xs)
      (pre2 @ map Some ys @ post2) (length pre2) (length ys) (tpre @ ts @ tpost) (length tpre) right =
    Some (tpre @ map Some (if right then drop (length xs) (merge_lists cmp xs ys)
                           else take (length xs) (merge_lists cmp xs ys)) @ tpost)"
proof -
  have xs: "xs \<noteq> []" using assms(3,4) by auto
  have l1: "ldi (pre1 @ map Some xs @ post1) (int (length pre1) + int (length xs) - 1) = Some (last xs)"
  proof -
    have "int (length pre1) + int (length xs) - 1 = int (length pre1 + (length xs - 1))" using xs by (cases xs) auto
    moreover have "ld (pre1 @ map Some xs @ post1) (length pre1 + (length xs - 1)) = Some (last xs)"
      using ld_mid [of "length xs - 1" xs pre1 post1] xs by (simp add: last_conv_nth)
    ultimately show ?thesis by (simp only: ldi_def nat_int of_nat_0_le_iff if_True)
  qed
  have l2: "ld (pre2 @ map Some ys @ post2) (length pre2) = Some (hd ys)"
    using ld_mid [of 0 ys pre2 post2] assms(4) by (simp add: hd_conv_nth)
  have R: "nmerge_right cmp (pre1 @ map Some xs @ post1) (length pre1)
      (pre2 @ map Some ys @ post2) (length pre2) (int (length xs) - 1) (int (length ys) - 1)
      (tpre @ ts @ tpost) (length tpre) (length ys) =
      Some (tpre @ map Some (drop (length xs) (merge_lists cmp xs ys)) @ tpost)" if right
    using nmerge_right_block [OF assms(1-3), of "length xs" "length ys" "length ys" ts] assms(5) that by simp
  have L: "nmerge_left cmp (pre1 @ map Some xs @ post1) (length pre1) (length xs)
      (pre2 @ map Some ys @ post2) (length pre2) (length ys) 0 0 (tpre @ ts @ tpost) (length tpre) (length xs) =
      Some (tpre @ map Some (take (length xs) (merge_lists cmp xs ys)) @ tpost)" if "\<not> right"
    using nmerge_left_block [of "length xs" xs 0 ys 0 ts "length tpre" tpre] assms(5) that by simp
  have mv: "memmove_cells (tpre @ ts @ tpost) (length tpre) (p @ map Some zs @ q) (length p) (length zs) =
      Some (tpre @ map Some zs @ tpost)" if "length zs = length ts" for p q zs
    using that by (simp add: memmove_cells_def)
  show ?thesis
  proof (cases "16 < length xs + length ys \<and> cmp (last xs) (hd ys) \<le> 0")
    case True
    then show ?thesis using l1 l2 assms(5) merge_lists_ordered [OF assms(1,2) xs assms(4)]
      by (simp add: CFSortIndexesNMerge_def mv)
  next
    case False
    then show ?thesis using l1 l2 R L by (auto simp: CFSortIndexesNMerge_def)
  qed
qed

end

section \<open>Odd-even merge sort on sections\<close>

text \<open>
  One phase merges neighbouring sections pairwise, each keeping its half: the even phase pairs
  sections 0 and 1, 2 and 3, \<open>\<dots>\<close>; the odd phase leaves section 0 alone.
\<close>

fun split_pairs :: "('a \<Rightarrow> 'a \<Rightarrow> int) \<Rightarrow> 'a list list \<Rightarrow> 'a list list" where
  "split_pairs cmp (x # y # r) =
     take (length x) (merge_lists cmp x y) # drop (length x) (merge_lists cmp x y) # split_pairs cmp r"
| "split_pairs cmp [x] = [x]"
| "split_pairs cmp [] = []"

fun split_odd :: "('a \<Rightarrow> 'a \<Rightarrow> int) \<Rightarrow> 'a list list \<Rightarrow> 'a list list" where
  "split_odd cmp [] = []"
| "split_odd cmp (x # r) = x # split_pairs cmp r"

text \<open>All sections but the last are full.\<close>

definition full_sections :: "nat \<Rightarrow> 'a list list \<Rightarrow> bool" where
  "full_sections sz ss \<longleftrightarrow> (\<forall>s \<in> set (butlast ss). length s = sz) \<and> (\<forall>s \<in> set ss. length s \<le> sz)"

lemma pairs_induct [case_names two one none]:
  assumes "\<And>x y r. P r \<Longrightarrow> P (x # y # r)" "\<And>x. P [x]" "P []"
  shows "P ss"
proof (induction ss rule: length_induct)
  case (1 ss)
  show ?case
  proof (cases ss)
    case (Cons x r)
    then show ?thesis using 1 assms by (cases r) auto
  qed (use assms in simp)
qed

lemma map_length_split_pairs [simp]: "map length (split_pairs cmp ss) = map length ss"
  by (induction ss rule: pairs_induct) auto

lemma map_length_split_odd [simp]: "map length (split_odd cmp ss) = map length ss"
  by (cases ss) auto

lemma length_split_pairs [simp]: "length (split_pairs cmp ss) = length ss"
  using map_length_split_pairs map_eq_imp_length_eq by blast

lemma length_split_odd [simp]: "length (split_odd cmp ss) = length ss"
  using map_length_split_odd map_eq_imp_length_eq by blast

lemma full_sections_iff:
  "full_sections sz ss \<longleftrightarrow> (\<forall>n \<in> set (butlast (map length ss)). n = sz) \<and> (\<forall>n \<in> set (map length ss). n \<le> sz)"
  by (simp add: full_sections_def map_butlast [symmetric])

lemma full_sections_cong: "map length ss = map length ss' \<Longrightarrow> full_sections sz ss \<longleftrightarrow> full_sections sz ss'"
  by (simp only: full_sections_iff)

lemma full_sections_nth: "full_sections sz ss \<Longrightarrow> Suc j < length ss \<Longrightarrow> length (ss ! j) = sz"
  using nth_mem [of j "butlast ss"] by (simp add: full_sections_def nth_butlast)

lemma even_SucSucE: "even i \<Longrightarrow> i \<noteq> 0 \<Longrightarrow> \<exists>j. i = Suc (Suc j) \<and> even j"
  by (cases i; cases "i - 1") auto

lemma mset_concat_split_pairs: "mset (concat (split_pairs cmp ss)) = mset (concat ss)"
proof (induction ss rule: pairs_induct)
  case (two x y r)
  have "mset (take (length x) (merge_lists cmp x y)) + mset (drop (length x) (merge_lists cmp x y)) =
      mset x + mset y"
    by (simp add: mset_append [symmetric] del: mset_append)
  then show ?case using two by (simp add: add.assoc [symmetric])
qed auto

lemma split_pairs_take: "even i \<Longrightarrow> take i (split_pairs cmp ss) = split_pairs cmp (take i ss)"
proof (induction ss arbitrary: i rule: pairs_induct)
  case (two x y r)
  show ?case
  proof (cases "i = 0")
    case False
    then obtain j where "i = Suc (Suc j)" "even j" using two.prems even_SucSucE by blast
    then show ?thesis using two by simp
  qed simp
next
  case (one x)
  then show ?case by (cases i) auto
qed simp

lemma split_pairs_nth:
  "even i \<Longrightarrow> Suc i < length ss \<Longrightarrow>
     split_pairs cmp ss ! i = take (length (ss ! i)) (merge_lists cmp (ss ! i) (ss ! Suc i)) \<and>
     split_pairs cmp ss ! Suc i = drop (length (ss ! i)) (merge_lists cmp (ss ! i) (ss ! Suc i))"
proof (induction ss arbitrary: i rule: pairs_induct)
  case (two x y r)
  show ?case
  proof (cases "i = 0")
    case False
    then obtain j where "i = Suc (Suc j)" "even j" using two.prems even_SucSucE by blast
    then show ?thesis using two by simp
  qed simp
qed auto

lemma split_pairs_last: "odd (length ss) \<Longrightarrow> split_pairs cmp ss ! (length ss - 1) = ss ! (length ss - 1)"
proof (induction ss rule: pairs_induct)
  case (two x y r)
  then have "r \<noteq> []" by auto
  then show ?case using two by (cases r) auto
qed auto

lemma length_filter_take_sorted:
  assumes "sorted_wrt (\<lambda>a b. p b \<longrightarrow> p a) l" "n \<le> length l"
  shows "length (filter p (take n l)) = min n (length (filter p l))"
  using assms
proof (induction l arbitrary: n)
  case (Cons a l)
  show ?case
  proof (cases n)
    case (Suc k)
    have "\<not> p a \<Longrightarrow> filter p l = []" using Cons.prems(1) by (auto simp: filter_empty_conv)
    moreover have "\<not> p a \<Longrightarrow> filter p (take k l) = []" using Cons.prems(1)
      by (auto simp: filter_empty_conv dest: in_set_takeD)
    ultimately show ?thesis using Cons Suc by auto
  qed simp
qed simp

text \<open>How many values of the first \<open>i\<close> sections satisfy \<open>p\<close>.\<close>

definition below :: "('a \<Rightarrow> bool) \<Rightarrow> 'a list list \<Rightarrow> nat \<Rightarrow> nat" where
  "below p ss i = length (filter p (concat (take i ss)))"

lemma below_split_pairs_total: "length (filter p (concat (split_pairs cmp ss))) = length (filter p (concat ss))"
  using mset_concat_split_pairs [of cmp ss] by (metis mset_filter size_mset)

lemma below_split_pairs_even: "even i \<Longrightarrow> below p (split_pairs cmp ss) i = below p ss i"
  by (simp add: below_def split_pairs_take below_split_pairs_total)

lemma below_le: "full_sections sz ss \<Longrightarrow> below p ss i \<le> i * sz"
proof -
  assume f: "full_sections sz ss"
  have "length (concat rs) \<le> length rs * sz" if "\<forall>s \<in> set rs. length s \<le> sz" for rs :: "'a list list"
    using that by (induction rs) auto
  moreover have "\<forall>s \<in> set (take i ss). length s \<le> sz" using f by (auto simp: full_sections_def dest: in_set_takeD)
  ultimately have "length (concat (take i ss)) \<le> length (take i ss) * sz" by blast
  moreover have "length (take i ss) * sz \<le> i * sz" by simp
  ultimately show ?thesis unfolding below_def using length_filter_le [of p "concat (take i ss)"] by linarith
qed

lemma below_split_pairs_odd:
  assumes so: "\<And>s. s \<in> set ss \<Longrightarrow> sorted_wrt (\<lambda>a b. p b \<longrightarrow> p a) s"
    and mg: "\<And>x y. x \<in> set ss \<Longrightarrow> y \<in> set ss \<Longrightarrow> sorted_wrt (\<lambda>a b. p b \<longrightarrow> p a) (merge_lists cmp x y)"
    and "full_sections sz ss" "odd i" "i < length ss"
  shows "below p (split_pairs cmp ss) i = min (below p ss (i - 1) + sz) (below p ss (i + 1))"
proof -
  obtain j where i: "i = Suc j" "even j" using assms(4) by (cases i) auto
  have j: "Suc j < length ss" using assms(5) i by simp
  have nj: "length (ss ! j) = sz" using full_sections_nth [OF assms(3) j] .
  let ?m = "merge_lists cmp (ss ! j) (ss ! Suc j)"
  have tk: "take i (split_pairs cmp ss) = split_pairs cmp (take j ss) @ [take sz ?m]"
    using j i nj split_pairs_nth [of j ss cmp] split_pairs_take [of j cmp ss]
    by (simp add: take_Suc_conv_app_nth)
  have "sorted_wrt (\<lambda>a b. p b \<longrightarrow> p a) ?m" using mg j by simp
  then have "length (filter p (take sz ?m)) = min sz (length (filter p ?m))"
    by (rule length_filter_take_sorted) (use nj in simp)
  moreover have "mset (filter p ?m) = mset (filter p (ss ! j @ ss ! Suc j))" by (simp add: mset_filter)
  then have "length (filter p ?m) = length (filter p (ss ! j)) + length (filter p (ss ! Suc j))"
    by (metis filter_append length_append size_mset)
  moreover have "take (i + 1) ss = take j ss @ [ss ! j, ss ! Suc j]" "take (i - 1) ss = take j ss"
    using j i by (simp_all add: take_Suc_conv_app_nth)
  ultimately show ?thesis unfolding below_def tk by (simp add: below_split_pairs_total)
qed

lemma below_split_odd_odd: "odd i \<Longrightarrow> below p (split_odd cmp ss) i = below p ss i"
proof (cases ss)
  case (Cons x r)
  assume "odd i"
  then obtain j where "i = Suc j" "even j" by (cases i) auto
  then show ?thesis using Cons below_split_pairs_even [of j p cmp r] by (simp add: below_def)
qed simp

lemma below_split_odd_even:
  assumes so: "\<And>s. s \<in> set ss \<Longrightarrow> sorted_wrt (\<lambda>a b. p b \<longrightarrow> p a) s"
    and mg: "\<And>x y. x \<in> set ss \<Longrightarrow> y \<in> set ss \<Longrightarrow> sorted_wrt (\<lambda>a b. p b \<longrightarrow> p a) (merge_lists cmp x y)"
    and "full_sections sz ss" "even i" "0 < i" "i < length ss"
  shows "below p (split_odd cmp ss) i = min (below p ss (i - 1) + sz) (below p ss (i + 1))"
proof -
  obtain x r where ss: "ss = x # r" using assms(6) by (cases ss) auto
  obtain j where i: "i = Suc j" "odd j" using assms(4,5) by (cases i) auto
  then obtain k where k: "j = Suc k" by (cases j) auto
  have "full_sections sz r" using assms(3,6) ss i by (cases r) (auto simp: full_sections_def)
  then have "below p (split_pairs cmp r) j = min (below p r (j - 1) + sz) (below p r (j + 1))"
    using below_split_pairs_odd [of r p cmp sz j] so mg ss i assms(6) by simp
  then show ?thesis using ss i k by (simp add: below_def)
qed

section \<open>Enough phases sort\<close>

text \<open>
  What \<open>t\<close> phases have done for the boundary before section \<open>i\<close>: all of the \<open>z\<close> values lie
  before it, or the sections before it hold nothing else, or the \<open>t\<close> phases have moved enough
  values over it from the left and from the right.
\<close>

definition boundary_done :: "nat \<Rightarrow> nat \<Rightarrow> nat \<Rightarrow> nat \<Rightarrow> nat \<Rightarrow> nat \<Rightarrow> bool" where
  "boundary_done sz n z t i b \<longleftrightarrow>
     z \<le> b \<or> i * sz \<le> b \<or> (\<exists>u d. u + d = t \<and> u * sz \<le> b \<and> z + d * sz \<le> b + (n - i) * sz)"

lemma boundary_done_step:
  assumes "boundary_done sz n z t (i - 1) b1" "boundary_done sz n z t (i + 1) b2" "0 < i" "i < n"
    "b2 \<le> z" and b: "b = min (b1 + sz) b2"
  shows "boundary_done sz n z (Suc t) i b"
proof (cases "b1 + sz \<le> b2")
  case True
  then have b: "b = b1 + sz" using b by simp
  consider "z \<le> b1" | "(i - 1) * sz \<le> b1"
    | u d where "u + d = t" "u * sz \<le> b1" "z + d * sz \<le> b1 + (n - (i - 1)) * sz"
    using assms(1) by (auto simp: boundary_done_def)
  then show ?thesis
  proof cases
    case 2
    then have "i * sz \<le> b" using b assms(3) by (cases i) auto
    then show ?thesis by (simp add: boundary_done_def)
  next
    case 3
    have "n - (i - 1) = Suc (n - i)" using assms(3,4) by simp
    then have "z + d * sz \<le> b + (n - i) * sz" using 3(3) b by simp
    moreover have "Suc u * sz \<le> b" using 3(2) b by simp
    moreover have "Suc u + d = Suc t" using 3(1) by simp
    ultimately show ?thesis unfolding boundary_done_def by blast
  qed (use b in \<open>simp add: boundary_done_def\<close>)
next
  case False
  then have b: "b = b2" using b by simp
  consider "z \<le> b2" | "(i + 1) * sz \<le> b2"
    | u d where "u + d = t" "u * sz \<le> b2" "z + d * sz \<le> b2 + (n - (i + 1)) * sz"
    using assms(2) by (auto simp: boundary_done_def)
  then show ?thesis
  proof cases
    case 3
    have "n - i = Suc (n - (i + 1))" using assms(4) by simp
    then have "z + Suc d * sz \<le> b + (n - i) * sz" using 3(3) b by simp
    moreover have "u + Suc d = Suc t" using 3(1) by simp
    ultimately show ?thesis using 3(2) b unfolding boundary_done_def by blast
  qed (use b in \<open>auto simp: boundary_done_def\<close>)
qed

lemma boundary_done_enough:
  assumes "boundary_done sz n z t i b" "n \<le> Suc t" "i < n"
  shows "z \<le> b \<or> i * sz \<le> b"
proof -
  have "z \<le> b \<or> i * sz \<le> b" if "u + d = t" "u * sz \<le> b" "z + d * sz \<le> b + (n - i) * sz" for u d
  proof (cases "i \<le> u")
    case True
    then show ?thesis using that(2) by (meson le_trans mult_le_mono1)
  next
    case False
    then have "n - i \<le> d" using that(1) assms(2,3) by linarith
    then have "(n - i) * sz \<le> d * sz" by simp
    then show ?thesis using that(3) by linarith
  qed
  then show ?thesis using assms(1) unfolding boundary_done_def by blast
qed

lemma boundary_done_start:
  assumes "full_sections sz ss" "i \<le> length ss"
  shows "boundary_done sz (length ss) (below p ss (length ss)) 0 i (below p ss i)"
proof -
  have "full_sections sz (drop i ss)" using assms(1)
    by (auto simp: full_sections_def butlast_drop dest: in_set_dropD)
  then have "below p (drop i ss) (length ss - i) \<le> (length ss - i) * sz" by (rule below_le)
  moreover have "below p ss (length ss) = below p ss i + below p (drop i ss) (length ss - i)"
    by (simp add: below_def) (metis append_take_drop_id concat_append filter_append length_append)
  ultimately show ?thesis by (auto simp: boundary_done_def)
qed

lemma below_mono: "i \<le> length ss \<Longrightarrow> below p ss i \<le> below p ss (length ss)"
  by (simp add: below_def) (metis append_take_drop_id concat_append filter_append le_add1 length_append)

lemma below_length: "below p (split_pairs cmp ss) (length ss) = below p ss (length ss)"
  "below p (split_odd cmp ss) (length ss) = below p ss (length ss)"
proof -
  show "below p (split_pairs cmp ss) (length ss) = below p ss (length ss)"
    by (simp add: below_def below_split_pairs_total)
  show "below p (split_odd cmp ss) (length ss) = below p ss (length ss)"
    by (cases ss) (simp_all add: below_def below_split_pairs_total)
qed

definition sorted_sections :: "('a \<Rightarrow> 'a \<Rightarrow> int) \<Rightarrow> 'a list list \<Rightarrow> bool" where
  "sorted_sections cmp ss \<longleftrightarrow> (\<forall>s \<in> set ss. sorted_wrt (\<lambda>a b. cmp a b \<le> 0) s)"

context comparator
begin

lemma sorted_sections_split_pairs: "sorted_sections cmp ss \<Longrightarrow> sorted_sections cmp (split_pairs cmp ss)"
  unfolding sorted_sections_def
proof (induction ss rule: pairs_induct)
  case (two x y r)
  then have "sorted_wrt (\<lambda>a b. cmp a b \<le> 0) (merge_lists cmp x y)" by (simp add: sorted_merge_lists)
  then show ?case using two by (simp add: sorted_wrt_take sorted_wrt_drop)
qed auto

lemma sorted_sections_split_odd: "sorted_sections cmp ss \<Longrightarrow> sorted_sections cmp (split_odd cmp ss)"
  using sorted_sections_split_pairs [of "tl ss"] by (cases ss) (auto simp: sorted_sections_def)

lemma stable_split_pairs:
  "sorted_sections cmp ss \<Longrightarrow>
     filter (\<lambda>x. cmp a x = 0) (concat (split_pairs cmp ss)) = filter (\<lambda>x. cmp a x = 0) (concat ss)"
  unfolding sorted_sections_def
proof (induction ss rule: pairs_induct)
  case (two x y r)
  have "filter (\<lambda>x. cmp a x = 0) (take (length x) (merge_lists cmp x y)) @
      filter (\<lambda>x. cmp a x = 0) (drop (length x) (merge_lists cmp x y)) =
      filter (\<lambda>x. cmp a x = 0) (merge_lists cmp x y)"
    by (metis append_take_drop_id filter_append)
  then show ?case using two filter_merge_lists [of x a y] by (simp add: append_assoc [symmetric] del: append_assoc)
qed auto

lemma le_closed_sorted:
  "sorted_wrt (\<lambda>a b. cmp a b \<le> 0) s \<Longrightarrow> sorted_wrt (\<lambda>a b. cmp b y \<le> 0 \<longrightarrow> cmp a y \<le> 0) s"
  by (erule sorted_wrt_mono_rel [rotated]) (use cmp_le_trans in blast)

lemma boundary_round:
  assumes so: "sorted_sections cmp ss" and fu: "full_sections sz ss" and n: "n = length ss"
    and p: "p = (\<lambda>x. cmp x y \<le> 0)" and z: "z = below p ss n"
    and ev: "\<And>i. even i \<Longrightarrow> i \<le> n \<Longrightarrow> boundary_done sz n z t i (below p ss i)"
    and i: "i \<le> n"
  shows "boundary_done sz n z (if even i then t + 2 else t + 1) i
    (below p (split_odd cmp (split_pairs cmp ss)) i)"
proof -
  let ?s1 = "split_pairs cmp ss" and ?s2 = "split_odd cmp (split_pairs cmp ss)"
  have so1: "sorted_sections cmp ?s1" using so by (rule sorted_sections_split_pairs)
  have fu1: "full_sections sz ?s1" using fu full_sections_cong [OF map_length_split_pairs] by blast
  have cl: "sorted_wrt (\<lambda>a b. p b \<longrightarrow> p a) s" if "sorted_sections cmp rs" "s \<in> set rs" for s rs
    using that le_closed_sorted [of s y] p by (simp add: sorted_sections_def)
  have cm: "sorted_wrt (\<lambda>a b. p b \<longrightarrow> p a) (merge_lists cmp s s')"
    if "sorted_sections cmp rs" "s \<in> set rs" "s' \<in> set rs" for s s' rs
    using that le_closed_sorted [OF sorted_merge_lists, of s s' y] p by (simp add: sorted_sections_def)
  have z1: "z = below p ?s1 n" "z = below p ?s2 n"
    using z n below_length [of p cmp ss] below_length(2) [of p cmp ?s1] by simp_all
  have odd1: "boundary_done sz n z (t + 1) j (below p ?s1 j)" if "odd j" "j \<le> n" for j
  proof (cases "j = n")
    case False
    then show ?thesis using that below_split_pairs_odd [OF cl [OF so] cm [OF so] fu, of j] n
        boundary_done_step [OF ev [of "j - 1"] ev [of "j + 1"]] below_mono [of "j + 1" ss p] z
      by (simp add: odd_pos)
  qed (use z1 in \<open>simp add: boundary_done_def\<close>)
  show ?thesis
  proof (cases "even i")
    case True
    show ?thesis
    proof (cases "i = 0 \<or> i = n")
      case False
      then show ?thesis using True i below_split_odd_even [OF cl [OF so1] cm [OF so1] fu1, of i] n
          boundary_done_step [OF odd1 [of "i - 1"] odd1 [of "i + 1"]] below_mono [of "i + 1" ?s1 p] z1
        by simp
    qed (use z1 in \<open>auto simp: boundary_done_def\<close>)
  next
    case False
    then show ?thesis using odd1 [of i] i below_split_odd_odd [of i p cmp ?s1] by simp
  qed
qed

end

text \<open>One round is an even and an odd phase.\<close>

definition split_round :: "('a \<Rightarrow> 'a \<Rightarrow> int) \<Rightarrow> 'a list list \<Rightarrow> 'a list list" where
  "split_round cmp ss = split_odd cmp (split_pairs cmp ss)"

lemma map_length_split_round [simp]: "map length (split_round cmp ss) = map length ss"
  by (simp add: split_round_def)

lemma mset_concat_split_round: "mset (concat (split_round cmp ss)) = mset (concat ss)"
proof -
  have "mset (concat (split_odd cmp rs)) = mset (concat rs)" for rs :: "'a list list"
    by (cases rs) (simp_all add: mset_concat_split_pairs del: mset_concat)
  then show ?thesis by (simp add: split_round_def mset_concat_split_pairs del: mset_concat)
qed

lemma sorted_wrt_concat_sections:
  assumes "\<And>s. s \<in> set ss \<Longrightarrow> sorted_wrt R s"
    and "\<And>i x y. i < length ss \<Longrightarrow> x \<in> set (concat (take i ss)) \<Longrightarrow> y \<in> set (concat (drop i ss)) \<Longrightarrow> R x y"
  shows "sorted_wrt R (concat ss)"
  using assms
proof (induction ss)
  case (Cons s ss)
  have "sorted_wrt R (concat ss)"
  proof (rule Cons.IH)
    show "R x y" if "i < length ss" "x \<in> set (concat (take i ss))" "y \<in> set (concat (drop i ss))" for i x y
      using Cons.prems(2) [of "Suc i" x y] that by simp
  qed (use Cons.prems(1) in simp)
  moreover have "R x y" if "x \<in> set s" "y \<in> set (concat ss)" for x y
  proof -
    have "ss \<noteq> []" using that by auto
    then show ?thesis using Cons.prems(2) [of 1 x y] that by simp
  qed
  ultimately show ?case using Cons.prems(1) by (auto simp: sorted_wrt_append)
qed simp

context comparator
begin

lemma stable_split_round:
  assumes "sorted_sections cmp ss"
  shows "filter (\<lambda>x. cmp a x = 0) (concat (split_round cmp ss)) = filter (\<lambda>x. cmp a x = 0) (concat ss)"
proof -
  have "filter (\<lambda>x. cmp a x = 0) (concat (split_odd cmp rs)) = filter (\<lambda>x. cmp a x = 0) (concat rs)"
    if "sorted_sections cmp rs" for rs
    using that stable_split_pairs [of "tl rs" a] by (cases rs) (auto simp: sorted_sections_def)
  then show ?thesis using assms stable_split_pairs [OF assms] sorted_sections_split_pairs [OF assms]
    by (simp add: split_round_def)
qed

lemma sorted_sections_split_round: "sorted_sections cmp ss \<Longrightarrow> sorted_sections cmp (split_round cmp ss)"
  by (simp add: split_round_def sorted_sections_split_odd sorted_sections_split_pairs)

lemma rounds_invariant:
  assumes "sorted_sections cmp ss" "full_sections sz ss" and r: "rs = (split_round cmp ^^ k) ss"
  shows "sorted_sections cmp rs" "full_sections sz rs" "map length rs = map length ss"
    "mset (concat rs) = mset (concat ss)"
    "filter (\<lambda>x. cmp a x = 0) (concat rs) = filter (\<lambda>x. cmp a x = 0) (concat ss)"
proof -
  have "sorted_sections cmp rs \<and> map length rs = map length ss \<and> mset (concat rs) = mset (concat ss) \<and>
      filter (\<lambda>x. cmp a x = 0) (concat rs) = filter (\<lambda>x. cmp a x = 0) (concat ss)"
    unfolding r
  proof (induction k)
    case (Suc k)
    then show ?case
      by (simp add: sorted_sections_split_round stable_split_round mset_concat_split_round del: mset_concat)
  qed (use assms in simp)
  then show "sorted_sections cmp rs" "map length rs = map length ss" "mset (concat rs) = mset (concat ss)"
    "filter (\<lambda>x. cmp a x = 0) (concat rs) = filter (\<lambda>x. cmp a x = 0) (concat ss)" by blast+
  then show "full_sections sz rs" using assms(2) full_sections_cong by blast
qed

lemma rounds_boundary:
  assumes so: "sorted_sections cmp ss" and fu: "full_sections sz ss"
    and p: "p = (\<lambda>x. cmp x y \<le> 0)" and i: "i \<le> length ss" and k: "0 < k \<or> even i"
  shows "boundary_done sz (length ss) (below p ss (length ss)) (if even i then 2 * k else 2 * k - 1) i
    (below p ((split_round cmp ^^ k) ss) i)"
  using i k
proof (induction k arbitrary: i)
  case 0
  then show ?case using boundary_done_start [OF fu] by simp
next
  case (Suc k)
  let ?rs = "(split_round cmp ^^ k) ss"
  note inv = rounds_invariant [OF so fu refl, where k = k]
  have n: "length ?rs = length ss" using map_eq_imp_length_eq [OF inv(3)] .
  have "size (filter_mset p (mset (concat ?rs))) = size (filter_mset p (mset (concat ss)))"
    using inv(4) by simp
  then have "below p ?rs (length ss) = below p ss (length ss)"
    using n unfolding below_def mset_filter [symmetric] size_mset by simp
  moreover have "boundary_done sz (length ss) (below p ss (length ss)) (2 * k) j (below p ?rs j)"
    if "even j" "j \<le> length ss" for j
    using Suc.IH [of j] that by simp
  ultimately have "boundary_done sz (length ss) (below p ss (length ss)) (if even i then 2 * k + 2 else 2 * k + 1) i
      (below p (split_odd cmp (split_pairs cmp ?rs)) i)"
    by (intro boundary_round [OF inv(1,2) n [symmetric] p]) (use Suc.prems in auto)
  then show ?case by (simp add: split_round_def [symmetric] split: if_splits)
qed

text \<open>Half as many rounds as there are sections, rounded up, sort the whole.\<close>

lemma rounds_sort:
  assumes so: "sorted_sections cmp ss" and fu: "full_sections sz ss" and n: "length ss \<le> 2 * k" "0 < k"
  shows "stably_sorted cmp (concat ss) (concat ((split_round cmp ^^ k) ss))"
proof -
  let ?rs = "(split_round cmp ^^ k) ss"
  note inv = rounds_invariant [OF so fu refl, where k = k]
  have len: "length ?rs = length ss" using map_eq_imp_length_eq [OF inv(3)] .
  have "cmp x y \<le> 0" if i: "i < length ?rs" and x: "x \<in> set (concat (take i ?rs))"
    and y: "y \<in> set (concat (drop i ?rs))" for i x y
  proof -
    let ?p = "\<lambda>x. cmp x y \<le> 0"
    have "boundary_done sz (length ss) (below ?p ss (length ss)) (if even i then 2 * k else 2 * k - 1) i
        (below ?p ?rs i)"
      using rounds_boundary [OF so fu refl, of i k y] i len n by simp
    then have "below ?p ss (length ss) \<le> below ?p ?rs i \<or> i * sz \<le> below ?p ?rs i"
      by (rule boundary_done_enough) (use i len n in auto)
    then consider "below ?p ss (length ss) \<le> below ?p ?rs i" | "i * sz \<le> below ?p ?rs i" by blast
    then show ?thesis
    proof cases
      case 1
      have "size (filter_mset ?p (mset (concat ?rs))) = size (filter_mset ?p (mset (concat ss)))"
        using inv(4) by simp
      then have "length (filter ?p (concat ?rs)) = below ?p ss (length ss)"
        unfolding below_def mset_filter [symmetric] size_mset by simp
      moreover have "length (filter ?p (concat ?rs)) =
          below ?p ?rs i + length (filter ?p (concat (drop i ?rs)))"
        unfolding below_def by (metis append_take_drop_id concat_append filter_append length_append)
      ultimately have "length (filter ?p (concat (drop i ?rs))) = 0" using 1 by linarith
      then have "filter ?p (concat (drop i ?rs)) = []" by (simp only: length_0_conv)
      then have "\<not> cmp y y \<le> 0" using y by (simp only: filter_empty_conv) blast
      then show ?thesis by (simp add: cmp_refl)
    next
      case 2
      have le: "length (concat (take i ?rs)) \<le> i * sz"
        using below_le [OF inv(2), of "\<lambda>_. True" i] by (simp add: below_def)
      then have "length (filter ?p (concat (take i ?rs))) = length (concat (take i ?rs))"
        using 2 length_filter_le [of ?p "concat (take i ?rs)"] unfolding below_def by linarith
      then have "\<forall>x \<in> set (concat (take i ?rs)). ?p x" using length_filter_less [of _ "concat (take i ?rs)" ?p]
        by (metis less_irrefl)
      then show ?thesis using x by blast
    qed
  qed
  then have "sorted_wrt (\<lambda>a b. cmp a b \<le> 0) (concat ?rs)"
    using sorted_wrt_concat_sections [of ?rs] inv(1) unfolding sorted_sections_def by blast
  then show ?thesis using inv(4,5) unfolding stably_sorted_def by blast
qed

end

section \<open>The concurrent sort in memory\<close>

lemma length_concat_take_full:
  "full_sections sz ss \<Longrightarrow> i < length ss \<Longrightarrow> length (concat (take i ss)) = i * sz"
proof (induction i)
  case (Suc i)
  then have "length (ss ! i) = sz" using full_sections_nth by blast
  then show ?case using Suc by (simp add: take_Suc_conv_app_nth)
qed simp

lemma sections_at:
  assumes "full_sections sz ss" "i < length ss"
  shows "map Some (concat ss) = map Some (concat (take i ss)) @ map Some (ss ! i) @ map Some (concat (drop (Suc i) ss))"
    "i * sz = length (map Some (concat (take i ss)))"
proof -
  have "concat ss = concat (take i ss) @ ss ! i @ concat (drop (Suc i) ss)"
    using assms(2) by (metis concat.simps(2) concat_append id_take_nth_drop)
  then show "map Some (concat ss) = map Some (concat (take i ss)) @ map Some (ss ! i) @ map Some (concat (drop (Suc i) ss))"
    by simp
  show "i * sz = length (map Some (concat (take i ss)))"
    using length_concat_take_full [OF assms] by simp
qed

lemma holds_iff_append: "holds m xs \<longleftrightarrow> (\<exists>post. m = map Some xs @ post)"
proof
  assume "holds m xs"
  then have "m = map Some xs @ drop (length xs) m" by (metis append_take_drop_id holds_def)
  then show "\<exists>post. m = map Some xs @ post" by blast
qed (auto simp: holds_def)

lemma concat_update_section:
  assumes "i < length ss"
  shows "concat (take i ss) @ s @ concat (drop (Suc i) ss) = concat (ss[i := s])"
  using assms by (simp add: upd_conv_take_nth_drop)

text \<open>The sections a concurrent sort works on: sorted, full but for the last, none empty.\<close>

definition sections_ok :: "('a \<Rightarrow> 'a \<Rightarrow> int) \<Rightarrow> nat \<Rightarrow> nat \<Rightarrow> nat \<Rightarrow> 'a list list \<Rightarrow> bool" where
  "sections_ok cmp sz n last_len ss \<longleftrightarrow>
     sorted_sections cmp ss \<and> full_sections sz ss \<and> length ss = n \<and> 2 \<le> n \<and> 0 < sz \<and>
     length (last ss) = last_len \<and> 0 < last_len"

lemma sections_ok_length:
  assumes "sections_ok cmp sz n last_len ss" "i < n"
  shows "length (ss ! i) = (if Suc i = n then last_len else sz)" "ss ! i \<noteq> []" "length (ss ! i) \<le> sz"
proof -
  show l: "length (ss ! i) = (if Suc i = n then last_len else sz)"
  proof (cases "Suc i = n")
    case True
    then have "ss ! i = last ss" using assms(1) last_conv_nth [of ss] by (cases ss) (auto simp: sections_ok_def)
    then show ?thesis using assms(1) True by (simp add: sections_ok_def)
  next
    case False
    then show ?thesis using assms full_sections_nth [of sz ss i] by (simp add: sections_ok_def)
  qed
  show "ss ! i \<noteq> []" using l assms by (auto simp: sections_ok_def split: if_splits)
  show "length (ss ! i) \<le> sz" using assms by (auto simp: sections_ok_def full_sections_def)
qed

lemma sections_ok_cong:
  "sections_ok cmp sz n last_len ss \<Longrightarrow> map length ss' = map length ss \<Longrightarrow> sorted_sections cmp ss' \<Longrightarrow>
     sections_ok cmp sz n last_len ss'"
proof -
  assume a: "sections_ok cmp sz n last_len ss" and b: "map length ss' = map length ss"
    and c: "sorted_sections cmp ss'"
  have "length ss' = length ss" using map_eq_imp_length_eq [OF b] .
  moreover have "ss \<noteq> []" "ss' \<noteq> []" using a b by (auto simp: sections_ok_def)
  then have "length (last ss') = length (last ss)" using b by (metis last_map)
  moreover have "full_sections sz ss'" using a full_sections_cong [OF b] by (simp add: sections_ok_def)
  ultimately show ?thesis using a c by (simp add: sections_ok_def)
qed

definition temps_ok :: "nat \<Rightarrow> nat \<Rightarrow> 'a cells list \<Rightarrow> bool" where
  "temps_ok sz n tmps \<longleftrightarrow> length tmps = n \<and> (\<forall>t \<in> set tmps. length t = sz)"

lemma temps_ok_update: "temps_ok sz n tmps \<Longrightarrow> length t = sz \<Longrightarrow> temps_ok sz n (tmps[i := t])"
  by (auto simp: temps_ok_def dest: set_update_subset_insert [THEN subsetD])

lemma temps_ok_nth: "temps_ok sz n tmps \<Longrightarrow> i < n \<Longrightarrow> length (tmps ! i) = sz"
  by (simp add: temps_ok_def)

context comparator
begin

lemma NMerge_at:
  assumes "sorted_wrt (\<lambda>a b. cmp a b \<le> 0) xs" "sorted_wrt (\<lambda>a b. cmp a b \<le> 0) ys"
    "length ys \<le> length xs" "ys \<noteq> []"
    "s1 = pre1 @ map Some xs @ post1" "b1 = length pre1" "c1 = length xs"
    "s2 = pre2 @ map Some ys @ post2" "b2 = length pre2" "c2 = length ys"
    "tmp = tpre @ ts @ tpost" "d = length tpre" "length ts = (if right then c2 else c1)"
  shows "CFSortIndexesNMerge cmp s1 b1 c1 s2 b2 c2 tmp d right =
    Some (tpre @ map Some (if right then drop (length xs) (merge_lists cmp xs ys)
                           else take (length xs) (merge_lists cmp xs ys)) @ tpost)"
  unfolding assms(5-12) using assms(13) unfolding assms(7,10)
  by (rule CFSortIndexesNMerge_block [OF assms(1-4)])

lemma NMerge_pair:
  assumes ok: "sections_ok cmp sz n last_len ss" and j: "even j" "Suc j < n"
    and s1: "s1 = pre1 @ map Some (ss ! j) @ post1" "b1 = length pre1"
    and s2: "s2 = pre2 @ map Some (ss ! Suc j) @ post2" "b2 = length pre2"
    and tmp: "tmp = tpre @ ts @ tpost" "d = length tpre" "length ts = length (ss ! (if right then Suc j else j))"
    and c2: "c2 = length (ss ! Suc j)"
  shows "CFSortIndexesNMerge cmp s1 b1 sz s2 b2 c2 tmp d right =
    Some (tpre @ map Some (split_pairs cmp ss ! (if right then Suc j else j)) @ tpost)"
proof -
  have so: "sorted_wrt (\<lambda>a b. cmp a b \<le> 0) (ss ! j)" "sorted_wrt (\<lambda>a b. cmp a b \<le> 0) (ss ! Suc j)"
    using ok j by (simp_all add: sections_ok_def sorted_sections_def)
  have len: "length (ss ! j) = sz" using sections_ok_length(1) [OF ok, of j] j by simp
  have "Suc j < length ss" using ok j by (simp add: sections_ok_def)
  note nth = split_pairs_nth [OF j(1) this, of cmp]
  have le: "length (ss ! Suc j) \<le> length (ss ! j)" and ne: "ss ! Suc j \<noteq> []"
    using sections_ok_length(2,3) [OF ok, of "Suc j"] j len by simp_all
  have ts: "length ts = (if right then c2 else sz)" using tmp(3) c2 len by simp
  show ?thesis
    unfolding NMerge_at [OF so le ne s1 len [symmetric] s2 c2 tmp(1,2) ts] using nth by simp
qed

text \<open>The section a block of a phase works on, and the even member of its pair.\<close>

lemma pair_of_section:
  assumes "i < (n div 2) * 2"
  obtains j where "even j" "Suc j < n" "i = (if odd i then Suc j else j)"
proof -
  define j where "j = (if odd i then i - 1 else i)"
  have "even j" "i = (if odd i then Suc j else j)" using j_def odd_pos by (auto split: if_splits)
  moreover have "Suc j < n"
  proof (cases "odd i")
    case True
    then show ?thesis using assms j_def odd_pos [of i] by simp
  next
    case False
    then obtain k where "i = 2 * k" by blast
    then show ?thesis using assms j_def False by simp
  qed
  ultimately show thesis using that by blast
qed

lemma even_merge:
  assumes ok: "sections_ok cmp sz n last_len ss" and i: "i < (n div 2) * 2"
    and tmp: "length tmp = sz" and m: "m = map Some (concat ss)"
  shows "\<exists>t'. CFSortIndexesNMerge cmp m (i * sz - (if odd i then sz else 0)) sz
      m (i * sz + (if odd i then 0 else sz))
      (if i + 1 + (if odd i then 0 else 1) = n then last_len else sz) tmp 0 (odd i) = Some t' \<and>
    holds t' (split_pairs cmp ss ! i) \<and> length t' = sz"
proof -
  obtain j where j: "even j" "Suc j < n" "i = (if odd i then Suc j else j)" using pair_of_section [OF i] by blast
  have fu: "full_sections sz ss" and n: "length ss = n" using ok by (simp_all add: sections_ok_def)
  let ?L = "length (ss ! i)"
  have L: "?L \<le> sz" using sections_ok_length(3) [OF ok, of i] j by (metis Suc_lessD)
  have bases: "i * sz - (if odd i then sz else 0) = j * sz" "i * sz + (if odd i then 0 else sz) = Suc j * sz"
    "(if i + 1 + (if odd i then 0 else 1) = n then last_len else sz) = length (ss ! Suc j)"
    using j(3) sections_ok_length(1) [OF ok j(2)] by (cases "odd i"; simp)+
  have ts: "tmp = [] @ take ?L tmp @ drop ?L tmp" "length (take ?L tmp) = length (ss ! (if odd i then Suc j else j))"
    using L tmp j(3) by (simp_all split: if_splits)
  have jn: "j < length ss" "Suc j < length ss" using j(2) n by simp_all
  have "CFSortIndexesNMerge cmp m (j * sz) sz m (Suc j * sz) (length (ss ! Suc j)) tmp 0 (odd i) =
      Some ([] @ map Some (split_pairs cmp ss ! (if odd i then Suc j else j)) @ drop ?L tmp)"
    by (rule NMerge_pair [OF ok j(1,2) m [THEN trans, OF sections_at(1) [OF fu jn(1)]] sections_at(2) [OF fu jn(1)]
        m [THEN trans, OF sections_at(1) [OF fu jn(2)]] sections_at(2) [OF fu jn(2)] ts(1) _ ts(2) refl]) simp
  moreover have "length (split_pairs cmp ss ! i) = ?L"
    using n j by (metis Suc_lessD length_map length_split_pairs map_length_split_pairs nth_map)
  ultimately show ?thesis unfolding bases using j(3) L tmp by (simp add: holds_def)
qed

lemma sortn_even_works:
  assumes ok: "sections_ok cmp sz n last_len ss" and m: "m = map Some (concat ss)"
    and "\<forall>i \<in> set is. i < (n div 2) * 2" "temps_ok sz n tmps"
  shows "\<exists>tmps'. sortn_even cmp sz n last_len is m tmps = Some tmps' \<and> temps_ok sz n tmps' \<and>
    (\<forall>i < n. i \<in> set is \<or> holds (tmps ! i) (split_pairs cmp ss ! i) \<longrightarrow> holds (tmps' ! i) (split_pairs cmp ss ! i))"
  using assms(3,4)
proof (induction "is" arbitrary: tmps)
  case (Cons i "is")
  have i: "i < (n div 2) * 2" using Cons.prems by simp
  then have "i < n" by simp
  then have "length (tmps ! i) = sz" using Cons.prems(2) temps_ok_nth by blast
  from even_merge [OF ok i this m] obtain t' where t':
    "CFSortIndexesNMerge cmp m (i * sz - (if odd i then sz else 0)) sz m (i * sz + (if odd i then 0 else sz))
      (if i + 1 + (if odd i then 0 else 1) = n then last_len else sz) (tmps ! i) 0 (odd i) = Some t'"
    "holds t' (split_pairs cmp ss ! i)" "length t' = sz" by blast
  have "temps_ok sz n (tmps[i := t'])" using Cons.prems(2) t'(3) by (rule temps_ok_update)
  then obtain tmps' where tm: "sortn_even cmp sz n last_len is m (tmps[i := t']) = Some tmps'" "temps_ok sz n tmps'"
    "\<And>k. k < n \<Longrightarrow> k \<in> set is \<or> holds (tmps[i := t'] ! k) (split_pairs cmp ss ! k) \<Longrightarrow>
       holds (tmps' ! k) (split_pairs cmp ss ! k)"
    using Cons.IH [of "tmps[i := t']"] Cons.prems(1) by auto
  have "holds (tmps' ! k) (split_pairs cmp ss ! k)"
    if "k < n" "k \<in> set (i # is) \<or> holds (tmps ! k) (split_pairs cmp ss ! k)" for k
    using tm(3) [of k] that t'(2) Cons.prems(2) by (cases "k = i") (auto simp: temps_ok_def)
  then show ?case using t'(1) tm(1,2) by (simp only: sortn_even.simps Let_def bind.bind_lunit) blast
qed auto

end

lemma sections_ok_tl: "sections_ok cmp sz n last_len ss \<Longrightarrow> 3 \<le> n \<Longrightarrow> sections_ok cmp sz (n - 1) last_len (tl ss)"
  by (cases ss) (auto simp: sections_ok_def sorted_sections_def full_sections_def split: if_splits)

lemma nth_length_eq: "map length rs = map length ss \<Longrightarrow> i < length ss \<Longrightarrow> length (rs ! i) = length (ss ! i)"
  by (metis length_map nth_map)

lemma map_length_update:
  "map length rs = map length ss \<Longrightarrow> length x = length (ss ! i) \<Longrightarrow> map length (rs[i := x]) = map length ss"
  by (metis length_map list_update_beyond list_update_id map_update not_le_imp_less nth_map)

lemma split_odd_Suc: "Suc i < length ss \<Longrightarrow> split_odd cmp ss ! Suc i = split_pairs cmp (tl ss) ! i"
  by (cases ss) auto

context comparator
begin

lemma odd_merge:
  assumes ok: "sections_ok cmp sz n last_len ss" and i: "i < ((n - 1) div 2) * 2"
    and tmps: "\<forall>k < n. holds (tmps ! k) (ss ! k)"
    and rs: "map length rs = map length ss"
  shows "CFSortIndexesNMerge cmp (tmps ! (i + (if odd i then 0 else 1))) 0 sz (tmps ! (i + (if odd i then 1 else 2))) 0
      (if i + 1 + (if odd i then 1 else 2) = n then last_len else sz) (map Some (concat rs)) (i * sz + sz) (odd i) =
    Some (map Some (concat (rs[Suc i := split_odd cmp ss ! Suc i])))"
proof -
  obtain j where j: "even j" "Suc j < n - 1" "i = (if odd i then Suc j else j)" using pair_of_section [OF i] by blast
  have n: "length ss = n" "length rs = n" using ok map_eq_imp_length_eq [OF rs] by (simp_all add: sections_ok_def)
  have ok': "sections_ok cmp sz (n - 1) last_len (tl ss)" using sections_ok_tl [OF ok] j(2) by simp
  have fu: "full_sections sz rs" using ok full_sections_cong [OF rs] by (simp add: sections_ok_def)
  have si: "Suc i < length rs" using i n by simp
  have tl: "tl ss ! j = ss ! Suc j" "tl ss ! Suc j = ss ! Suc (Suc j)" "tl ss ! i = ss ! Suc i"
    using n j(2) i by (simp_all add: nth_tl)
  obtain p1 p2 where p: "tmps ! Suc j = map Some (ss ! Suc j) @ p1" "tmps ! Suc (Suc j) = map Some (ss ! Suc (Suc j)) @ p2"
    using tmps j(2) by (metis Suc_lessD holds_iff_append less_diff_conv add.commute plus_1_eq_Suc)
  have ix: "i + (if odd i then 0 else 1) = Suc j" "i + (if odd i then 1 else 2) = Suc (Suc j)"
    "(if i + 1 + (if odd i then 1 else 2) = n then last_len else sz) = length (tl ss ! Suc j)"
    using j(2,3) sections_ok_length(1) [OF ok, of "Suc (Suc j)"] tl by (cases "odd i"; auto)+
  have base: "i * sz + sz = length (map Some (concat (take (Suc i) rs)))"
    using sections_at(2) [OF fu si] by simp
  have lt: "length (map Some (rs ! Suc i)) = length (tl ss ! (if odd i then Suc j else j))"
    using nth_length_eq [OF rs, of "Suc i"] si n tl j(3) by (metis length_map)
  have "CFSortIndexesNMerge cmp (tmps ! Suc j) 0 sz (tmps ! Suc (Suc j)) 0 (length (tl ss ! Suc j))
      (map Some (concat rs)) (i * sz + sz) (odd i) =
    Some (map Some (concat (take (Suc i) rs)) @ map Some (split_pairs cmp (tl ss) ! (if odd i then Suc j else j)) @
      map Some (concat (drop (Suc (Suc i)) rs)))"
    by (rule NMerge_pair [OF ok' j(1,2) _ _ _ _ sections_at(1) [OF fu si] base lt refl, of _ "[]" p1 _ _ "[]" p2])
       (use p tl in simp_all)
  moreover have "(if odd i then Suc j else j) = i" using j(3) by simp
  moreover have "map Some (concat (take (Suc i) rs)) @ map Some x @ map Some (concat (drop (Suc (Suc i)) rs)) =
      map Some (concat (rs[Suc i := x]))" for x
    using concat_update_section [OF si, of x] by (metis map_append)
  ultimately show ?thesis unfolding ix using split_odd_Suc [of i ss cmp] si n by simp
qed

lemma sortn_odd_works:
  assumes ok: "sections_ok cmp sz n last_len ss" and tmps: "\<forall>k < n. holds (tmps ! k) (ss ! k)"
    and "\<forall>i \<in> set is. i < ((n - 1) div 2) * 2" "map length rs = map length ss"
  shows "\<exists>rs'. sortn_odd cmp sz n last_len is tmps (map Some (concat rs)) = Some (map Some (concat rs')) \<and>
    map length rs' = map length ss \<and>
    (\<forall>k < n. (\<exists>i \<in> set is. k = Suc i) \<or> rs ! k = split_odd cmp ss ! k \<longrightarrow> rs' ! k = split_odd cmp ss ! k)"
  using assms(3,4)
proof (induction "is" arbitrary: rs)
  case (Cons i "is")
  let ?r = "rs[Suc i := split_odd cmp ss ! Suc i]"
  have i: "i < ((n - 1) div 2) * 2" using Cons.prems by simp
  have n: "length ss = n" "length rs = n"
    using ok map_eq_imp_length_eq [OF Cons.prems(2)] by (simp_all add: sections_ok_def)
  have "length (split_odd cmp ss ! Suc i) = length (ss ! Suc i)"
    using nth_length_eq [OF map_length_split_odd, of "Suc i" ss] i n by simp
  then have "map length ?r = map length ss"
    using Cons.prems(2) by (intro map_length_update)
  then obtain rs' where rs': "sortn_odd cmp sz n last_len is tmps (map Some (concat ?r)) = Some (map Some (concat rs'))"
    "map length rs' = map length ss"
    "\<And>k. k < n \<Longrightarrow> (\<exists>i \<in> set is. k = Suc i) \<or> ?r ! k = split_odd cmp ss ! k \<Longrightarrow> rs' ! k = split_odd cmp ss ! k"
    using Cons.IH [of ?r] Cons.prems(1) by auto
  have "rs' ! k = split_odd cmp ss ! k"
    if "k < n" "(\<exists>i \<in> set (i # is). k = Suc i) \<or> rs ! k = split_odd cmp ss ! k" for k
    using rs'(3) [of k] that n by (cases "k = Suc i") auto
  then show ?case using odd_merge [OF ok i tmps Cons.prems(2)] rs'(1,2)
    by (simp only: sortn_odd.simps Let_def bind.bind_lunit) blast
qed auto

lemma sortn_sections_works:
  assumes "full_sections sz ss" "length ss = n" "0 < n" "length (last ss) = last_len"
    and "\<forall>i \<in> set is. i < n" "distinct is" "map length rs = map length ss" "temps_ok sz n tmps"
    and "\<forall>i \<in> set is. rs ! i = ss ! i"
  shows "\<exists>rs' tmps'. sortn_sections cmp sz n last_len is (map Some (concat rs)) tmps =
      Some (map Some (concat rs'), tmps') \<and> temps_ok sz n tmps' \<and> map length rs' = map length ss \<and>
    (\<forall>k < n. k \<in> set is \<or> stably_sorted cmp (ss ! k) (rs ! k) \<longrightarrow> stably_sorted cmp (ss ! k) (rs' ! k))"
  using assms(5-)
proof (induction "is" arbitrary: rs tmps)
  case (Cons i "is")
  have i: "i < n" and n: "length rs = n" using Cons.prems(1) map_eq_imp_length_eq [OF Cons.prems(3)] assms(2) by simp_all
  have fu: "full_sections sz rs" using assms(1) full_sections_cong [OF Cons.prems(3)] by simp
  have "length (ss ! i) = (if i < n - 1 then sz else last_len)"
  proof (cases "i < n - 1")
    case False
    then have "i = n - 1" using i by simp
    then show ?thesis using assms(2-4) False by (metis last_conv_nth length_greater_0_conv)
  qed (use full_sections_nth [OF assms(1)] assms(2) in simp)
  moreover have ri: "rs ! i = ss ! i" using Cons.prems(5) by simp
  ultimately have len: "(if i < n - 1 then sz else last_len) = length (rs ! i)" by simp
  have "length (rs ! i) \<le> length (tmps ! i)"
    using fu n i temps_ok_nth [OF Cons.prems(4) i] by (simp add: full_sections_def)
  then obtain L' t' where s: "CFSimpleMergeSort cmp (map Some (concat rs)) (i * sz) (length (rs ! i)) (tmps ! i) =
      Some (map Some (concat (take i rs)) @ map Some L' @ map Some (concat (drop (Suc i) rs)), t')"
    "stably_sorted cmp (rs ! i) L'" "length t' = sz"
    using CFSimpleMergeSort_block [of "rs ! i" "tmps ! i" "map Some (concat (take i rs))" "map Some (concat (drop (Suc i) rs))"]
      sections_at [OF fu, of i] i n temps_ok_nth [OF Cons.prems(4) i] by auto
  have up: "map Some (concat (take i rs)) @ map Some L' @ map Some (concat (drop (Suc i) rs)) = map Some (concat (rs[i := L']))"
    using concat_update_section [of i rs L'] i n by (metis map_append)
  have lL: "length L' = length (rs ! i)" using s(2) by (metis mset_eq_length stably_sorted_def)
  then have ml: "map length (rs[i := L']) = map length ss"
    using Cons.prems(3) ri by (intro map_length_update) simp_all
  have "\<forall>k \<in> set is. rs[i := L'] ! k = ss ! k" using Cons.prems(2,5)
    by (metis distinct.simps(2) list.set_intros(2) nth_list_update_neq)
  then obtain rs' tmps' where r: "sortn_sections cmp sz n last_len is (map Some (concat (rs[i := L']))) (tmps[i := t']) =
      Some (map Some (concat rs'), tmps')" "temps_ok sz n tmps'" "map length rs' = map length ss"
    "\<And>k. k < n \<Longrightarrow> k \<in> set is \<or> stably_sorted cmp (ss ! k) (rs[i := L'] ! k) \<Longrightarrow> stably_sorted cmp (ss ! k) (rs' ! k)"
    using Cons.IH [OF _ _ ml temps_ok_update [OF Cons.prems(4) s(3), of i]] Cons.prems(1,2)
    by (simp only: distinct.simps list.set ball_simps) blast
  have "stably_sorted cmp (ss ! k) (rs' ! k)"
    if "k < n" "k \<in> set (i # is) \<or> stably_sorted cmp (ss ! k) (rs ! k)" for k
    using r(4) [of k] that s(2) ri n by (cases "k = i") auto
  then show ?case using s(1) r(1-3) len up
    by (simp only: sortn_sections.simps Let_def bind.bind_lunit prod.case) blast
qed auto

end

lemma section_memmove:
  assumes "full_sections sz rs" "i < length rs" "holds t x" "length x = length (rs ! i)" "b = i * sz" "n = length x"
  shows "memmove_cells (map Some (concat rs)) b t 0 n = Some (map Some (concat (rs[i := x])))"
proof -
  obtain post where t: "t = map Some x @ post" using assms(3) holds_iff_append by blast
  have "memmove_cells (pre @ map Some y @ q) (length pre) (map Some x @ post) 0 (length x) =
      Some (pre @ map Some x @ q)" if "length x = length y" for pre q y
    using that by (simp add: memmove_cells_def)
  from this [OF assms(4)] show ?thesis
    unfolding assms(5,6) t sections_at(1) [OF assms(1,2)] sections_at(2) [OF assms(1,2)]
      concat_update_section [OF assms(2), symmetric] map_append .
qed

lemma section_read:
  assumes "full_sections sz ss" "i < length ss" "length t = sz" "length (ss ! i) \<le> sz"
  shows "\<exists>t'. memmove_cells t 0 (map Some (concat ss)) (i * sz) (length (ss ! i)) = Some t' \<and>
    holds t' (ss ! i) \<and> length t' = sz"
  unfolding sections_at(1) [OF assms(1,2)] sections_at(2) [OF assms(1,2)]
  using assms(3,4) by (simp add: memmove_cells_def holds_def)

lemma split_odd_last:
  assumes "even (length qs)" "qs \<noteq> []"
  shows "split_odd cmp qs ! (length qs - 1) = qs ! (length qs - 1)"
proof -
  obtain x r where q: "qs = x # r" using assms(2) by (cases qs) auto
  then have "odd (length r)" using assms(1) by simp
  moreover from this have "0 < length r" by (rule odd_pos)
  ultimately show ?thesis using q split_pairs_last [of r cmp] by (simp add: nth_Cons')
qed

context comparator
begin

lemma sections_ok_split_pairs: "sections_ok cmp sz n last_len ss \<Longrightarrow> sections_ok cmp sz n last_len (split_pairs cmp ss)"
  by (rule sections_ok_cong) (auto simp: sections_ok_def sorted_sections_split_pairs)

lemma sections_ok_split_round: "sections_ok cmp sz n last_len ss \<Longrightarrow> sections_ok cmp sz n last_len (split_round cmp ss)"
  by (rule sections_ok_cong) (auto simp: sections_ok_def sorted_sections_split_round)

lemma even_phase:
  assumes ok: "sections_ok cmp sz n last_len ss" and t: "temps_ok sz n tmps" and m: "m = map Some (concat ss)"
  shows "\<exists>tmps1 tmps2. sortn_even cmp sz n last_len [0..<(n div 2) * 2] m tmps = Some tmps1 \<and>
    (if odd n then do {
       t \<leftarrow> memmove_cells (tmps1 ! (n - 1)) 0 m ((n - 1) * sz) last_len;
       Some (tmps1[n - 1 := t])
     } else Some tmps1) = Some tmps2 \<and>
    temps_ok sz n tmps2 \<and> (\<forall>i < n. holds (tmps2 ! i) (split_pairs cmp ss ! i))"
proof -
  obtain tmps1 where t1: "sortn_even cmp sz n last_len [0..<(n div 2) * 2] m tmps = Some tmps1" "temps_ok sz n tmps1"
    "\<And>i. i < n \<Longrightarrow> i < (n div 2) * 2 \<Longrightarrow> holds (tmps1 ! i) (split_pairs cmp ss ! i)"
    using sortn_even_works [OF ok m _ t, of "[0..<(n div 2) * 2]"] by auto
  show ?thesis
  proof (cases "odd n")
    case True
    have n: "length ss = n" "n - 1 < n" using ok by (auto simp: sections_ok_def)
    have len: "length (ss ! (n - 1)) = last_len" using sections_ok_length(1) [OF ok n(2)] n(2) by simp
    obtain x where x: "memmove_cells (tmps1 ! (n - 1)) 0 m ((n - 1) * sz) last_len = Some x"
      "holds x (ss ! (n - 1))" "length x = sz"
      using section_read [of sz ss "n - 1" "tmps1 ! (n - 1)"] ok n sections_ok_length(3) [OF ok n(2)]
        temps_ok_nth [OF t1(2) n(2)] len m by (auto simp: sections_ok_def)
    have "temps_ok sz n (tmps1[n - 1 := x])" using t1(2) x(3) by (rule temps_ok_update)
    moreover have "holds (tmps1[n - 1 := x] ! i) (split_pairs cmp ss ! i)" if "i < n" for i
    proof (cases "i = n - 1")
      case True
      then show ?thesis using x(2) split_pairs_last [of ss cmp] \<open>odd n\<close> n t1(2) by (simp add: temps_ok_def)
    next
      case False
      then have "i < (n div 2) * 2" using that \<open>odd n\<close> by presburger
      then show ?thesis using False t1(3) [OF that] by simp
    qed
    ultimately show ?thesis using t1(1) x(1) True by auto
  next
    case False
    then have "(n div 2) * 2 = n" by simp
    then show ?thesis using t1 False by auto
  qed
qed

lemma odd_phase:
  assumes ok: "sections_ok cmp sz n last_len qs" and t: "\<forall>i < n. holds (tmps ! i) (qs ! i)"
    and rs: "map length rs = map length qs"
  shows "(do {
      m1 \<leftarrow> sortn_odd cmp sz n last_len [0..<((n - 1) div 2) * 2] tmps (map Some (concat rs));
      m2 \<leftarrow> memmove_cells m1 0 (tmps ! 0) 0 sz;
      if even n then memmove_cells m2 ((n - 1) * sz) (tmps ! (n - 1)) 0 last_len else Some m2
    }) = Some (map Some (concat (split_odd cmp qs)))"
proof -
  obtain r1 where r1: "sortn_odd cmp sz n last_len [0..<((n - 1) div 2) * 2] tmps (map Some (concat rs)) =
      Some (map Some (concat r1))" "map length r1 = map length qs"
    "\<And>k i. k < n \<Longrightarrow> i \<in> set [0..<((n - 1) div 2) * 2] \<Longrightarrow> k = Suc i \<Longrightarrow> r1 ! k = split_odd cmp qs ! k"
    using sortn_odd_works [OF ok t _ rs, of "[0..<((n - 1) div 2) * 2]"] by auto
  have n: "length qs = n" "length r1 = n" "2 \<le> n" using ok map_eq_imp_length_eq [OF r1(2)] by (simp_all add: sections_ok_def)
  have fu: "full_sections sz r1" using ok full_sections_cong [OF r1(2)] by (simp add: sections_ok_def)
  have ne: "qs \<noteq> []" using n by auto
  have l0: "length (qs ! 0) = sz" using sections_ok_length(1) [OF ok, of 0] n by simp
  have q0: "split_odd cmp qs ! 0 = qs ! 0" using n by (cases qs) auto
  let ?r2 = "r1[0 := qs ! 0]"
  have m2: "memmove_cells (map Some (concat r1)) 0 (tmps ! 0) 0 sz = Some (map Some (concat ?r2))"
    using section_memmove [OF fu, of 0] t n l0 nth_length_eq [OF r1(2), of 0] by simp
  have ml2: "map length ?r2 = map length qs" using r1(2) by (rule map_length_update) simp
  show ?thesis
  proof (cases "even n")
    case True
    have fu2: "full_sections sz ?r2" using ok full_sections_cong [OF ml2] by (simp add: sections_ok_def)
    have ln: "length (qs ! (n - 1)) = last_len" using sections_ok_length(1) [OF ok, of "n - 1"] n by simp
    have "memmove_cells (map Some (concat ?r2)) ((n - 1) * sz) (tmps ! (n - 1)) 0 last_len =
        Some (map Some (concat (?r2[n - 1 := qs ! (n - 1)])))"
      by (rule section_memmove [OF fu2]) (use t n ln nth_length_eq [OF ml2, of "n - 1"] in simp_all)
    moreover have "?r2[n - 1 := qs ! (n - 1)] = split_odd cmp qs"
    proof (rule nth_equalityI)
      fix k assume "k < length (?r2[n - 1 := qs ! (n - 1)])"
      then have k: "k < n" using n by simp
      consider "k = 0" | "k = n - 1" | "0 < k" "k < n - 1" using k by linarith
      then show "?r2[n - 1 := qs ! (n - 1)] ! k = split_odd cmp qs ! k"
      proof cases
        case 3
        then have "k - 1 < ((n - 1) div 2) * 2" using True by presburger
        then show ?thesis using 3 r1(3) [of k "k - 1"] by simp
      qed (use split_odd_last [of qs cmp] True q0 n ne in auto)
    qed (use n in simp)
    ultimately show ?thesis using r1(1) m2 True by simp
  next
    case False
    have "?r2 = split_odd cmp qs"
    proof (rule nth_equalityI)
      fix k assume "k < length ?r2"
      then have k: "k < n" using n by simp
      show "?r2 ! k = split_odd cmp qs ! k"
      proof (cases "k = 0")
        case False
        then have "k - 1 < ((n - 1) div 2) * 2" using \<open>\<not> even n\<close> k by presburger
        then show ?thesis using r1(3) [of k "k - 1"] False k by simp
      qed (use q0 n in simp)
    qed (use n in simp)
    then show ?thesis using r1(1) m2 False by simp
  qed
qed

lemma sortn_rounds_works:
  "sections_ok cmp sz n last_len ss \<Longrightarrow> temps_ok sz n tmps \<Longrightarrow>
     sortn_rounds cmp sz n last_len k (map Some (concat ss)) tmps =
     Some (map Some (concat ((split_round cmp ^^ k) ss)))"
proof (induction k arbitrary: ss tmps)
  case (Suc k)
  obtain tmps1 tmps2 where e: "sortn_even cmp sz n last_len [0..<(n div 2) * 2] (map Some (concat ss)) tmps = Some tmps1"
    "(if odd n then do {
       t \<leftarrow> memmove_cells (tmps1 ! (n - 1)) 0 (map Some (concat ss)) ((n - 1) * sz) last_len;
       Some (tmps1[n - 1 := t])
     } else Some tmps1) = Some tmps2"
    "temps_ok sz n tmps2" "\<forall>i < n. holds (tmps2 ! i) (split_pairs cmp ss ! i)"
    using even_phase [OF Suc.prems refl] by blast
  have o: "(do {
      m1 \<leftarrow> sortn_odd cmp sz n last_len [0..<((n - 1) div 2) * 2] tmps2 (map Some (concat ss));
      m2 \<leftarrow> memmove_cells m1 0 (tmps2 ! 0) 0 sz;
      if even n then memmove_cells m2 ((n - 1) * sz) (tmps2 ! (n - 1)) 0 last_len else Some m2
    }) = Some (map Some (concat (split_round cmp ss)))"
    using odd_phase [OF sections_ok_split_pairs [OF Suc.prems(1)] e(4), of ss] by (simp add: split_round_def)
  have "sortn_rounds cmp sz n last_len (Suc k) (map Some (concat ss)) tmps =
      sortn_rounds cmp sz n last_len k (map Some (concat (split_round cmp ss))) tmps2"
    using e(1,2) o by (auto simp: Let_def split: bind_splits)
  then show ?case using Suc.IH [OF sections_ok_split_round [OF Suc.prems(1)] e(3)]
    by (simp add: funpow_swap1)
qed simp

end

text \<open>A list cut into sections of \<open>sz\<close>.\<close>

function sections :: "nat \<Rightarrow> 'a list \<Rightarrow> 'a list list" where
  "sections sz xs = (if sz = 0 \<or> length xs \<le> sz then [xs] else take sz xs # sections sz (drop sz xs))"
  by auto
termination by (relation "measure (\<lambda>(sz, xs). length xs)") auto

declare sections.simps [simp del]

lemma concat_sections [simp]: "concat (sections sz xs) = xs"
proof (induction sz xs rule: sections.induct)
  case (1 sz xs)
  then show ?case by (subst sections.simps) simp
qed

lemma sections_not_Nil [simp]: "sections sz xs \<noteq> []"
  by (subst sections.simps) simp

lemma full_sections_Cons:
  "length x = sz \<Longrightarrow> full_sections sz ss \<Longrightarrow> full_sections sz (x # ss)"
  by (simp add: full_sections_def)

lemma full_sections_sections: "0 < sz \<Longrightarrow> full_sections sz (sections sz xs)"
proof (induction sz xs rule: sections.induct)
  case (1 sz xs)
  show ?case
  proof (cases "length xs \<le> sz")
    case True
    then show ?thesis by (subst sections.simps) (simp add: full_sections_def)
  next
    case False
    then have "full_sections sz (take sz xs # sections sz (drop sz xs))"
      using 1 by (intro full_sections_Cons) simp_all
    then show ?thesis using False 1(2) by (subst sections.simps) simp
  qed
qed

lemma length_sections:
  "0 < sz \<Longrightarrow> xs \<noteq> [] \<Longrightarrow> length (sections sz xs) = (length xs + sz - 1) div sz \<and>
     length (last (sections sz xs)) = length xs + sz - sz * length (sections sz xs) \<and>
     0 < length (last (sections sz xs))"
proof (induction sz xs rule: sections.induct)
  case (1 sz xs)
  show ?case
  proof (cases "length xs \<le> sz")
    case True
    have "(length xs + sz - 1) div sz = 1"
      using True 1(2,3) by (intro div_nat_eqI) (cases xs; simp)+
    then show ?thesis using True 1(2,3) by (subst (1 2 3 4) sections.simps) simp
  next
    case False
    have s: "sections sz xs = take sz xs # sections sz (drop sz xs)"
      using False 1(2) by (subst sections.simps) simp
    let ?r = "sections sz (drop sz xs)"
    have IH: "length ?r = (length (drop sz xs) + sz - 1) div sz \<and>
        length (last ?r) = length (drop sz xs) + sz - sz * length ?r \<and> 0 < length (last ?r)"
      by (rule 1(1)) (use 1(2,3) False in auto)
    have e: "length xs + sz - 1 = (length (drop sz xs) + sz - 1) + sz" using False 1(2) by simp
    have "(length xs + sz - 1) div sz = Suc ((length (drop sz xs) + sz - 1) div sz)"
      unfolding e using 1(2) by (subst div_add_self2) simp_all
    then have "length (sections sz xs) = (length xs + sz - 1) div sz" using s IH by simp
    moreover have "length (drop sz xs) + sz - sz * length ?r = length xs + sz - sz * length (sections sz xs)"
      using s False by simp
    moreover have "last (sections sz xs) = last ?r" using s by simp
    ultimately show ?thesis using IH by metis
  qed
qed

context comparator
begin

lemma stably_sorted_concat:
  assumes "length rs = length ss" "\<And>k. k < length ss \<Longrightarrow> stably_sorted cmp (ss ! k) (rs ! k)"
  shows "mset (concat rs) = mset (concat ss)"
    "filter (\<lambda>x. cmp a x = 0) (concat rs) = filter (\<lambda>x. cmp a x = 0) (concat ss)"
proof -
  have "mset (concat rs) = mset (concat ss) \<and>
      filter (\<lambda>x. cmp a x = 0) (concat rs) = filter (\<lambda>x. cmp a x = 0) (concat ss)"
    using assms
  proof (induction rs ss rule: list_induct2)
    case (Cons r rs s ss)
    have "stably_sorted cmp s r" using Cons.prems [of 0] by simp
    moreover have "stably_sorted cmp (ss ! k) (rs ! k)" if "k < length ss" for k
      using Cons.prems [of "Suc k"] that by simp
    ultimately show ?case using Cons.IH by (simp add: stably_sorted_def del: mset_concat)
  qed simp
  then show "mset (concat rs) = mset (concat ss)"
    "filter (\<lambda>x. cmp a x = 0) (concat rs) = filter (\<lambda>x. cmp a x = 0) (concat ss)" by blast+
qed

lemma CFSortIndexesN_works:
  assumes "0 < ncores" and two: "(((length L + ncores - 1) div ncores + 15) div 16) * 16 < length L"
  shows "\<exists>L'. CFSortIndexesN cmp (map Some L) (length L) ncores = Some (map Some L') \<and> stably_sorted cmp L L'"
proof -
  define sz where "sz = (((length L + ncores - 1) div ncores + 15) div 16) * 16"
  define n where "n = (length L + sz - 1) div sz"
  define last_len where "last_len = length L + sz - sz * n"
  define ss where "ss = sections sz L"
  have L: "L \<noteq> []" using two by auto
  have "1 \<le> (length L + ncores - 1) div ncores" using L assms(1)
    by (cases L) (simp_all add: Suc_le_eq div_greater_zero_iff)
  then have sz: "0 < sz" by (simp add: sz_def)
  have n: "length ss = n" and ll: "length (last ss) = last_len" "0 < last_len"
    using length_sections [OF sz L] unfolding ss_def n_def last_len_def by metis+
  have "2 * sz \<le> length L + sz - 1" using two sz by (simp add: sz_def)
  then have n2: "2 \<le> n" unfolding n_def using sz by (simp add: less_eq_div_iff_mult_less_eq)
  have fu: "full_sections sz ss" using full_sections_sections [OF sz] by (simp add: ss_def)
  have "temps_ok sz n (replicate n (fresh_cells sz))" by (simp add: temps_ok_def)
  then obtain rs tmps where r: "sortn_sections cmp sz n last_len [0..<n] (map Some (concat ss)) (replicate n (fresh_cells sz)) =
      Some (map Some (concat rs), tmps)" "temps_ok sz n tmps" "map length rs = map length ss"
    "\<And>k. k < n \<Longrightarrow> stably_sorted cmp (ss ! k) (rs ! k)"
    using sortn_sections_works [OF fu n _ ll(1), of "[0..<n]" ss "replicate n (fresh_cells sz)"] n2 by auto
  have lr: "length rs = length ss" using map_eq_imp_length_eq [OF r(3)] .
  have so: "sorted_sections cmp rs" using r(4) lr n by (auto simp: sorted_sections_def in_set_conv_nth stably_sorted_def)
  have fr: "full_sections sz rs" using fu full_sections_cong [OF r(3)] by simp
  have "rs \<noteq> []" "ss \<noteq> []" using lr n n2 by auto
  then have "length (last rs) = last_len" using r(3) ll(1) by (metis last_map)
  then have ok: "sections_ok cmp sz n last_len rs" using so fr lr n n2 sz ll(2) by (simp add: sections_ok_def)
  let ?R = "concat ((split_round cmp ^^ ((n + 1) div 2)) rs)"
  have "CFSortIndexesN cmp (map Some L) (length L) ncores = Some (map Some ?R)"
    unfolding CFSortIndexesN_def Let_def sz_def [symmetric] n_def [symmetric] last_len_def [symmetric]
    using r(1) sortn_rounds_works [OF ok r(2), of "(n + 1) div 2"] by (simp add: ss_def)
  moreover have "stably_sorted cmp (concat rs) ?R"
    using rounds_sort [OF so fr, of "(n + 1) div 2"] lr n n2 by auto
  then have "stably_sorted cmp L ?R"
    using stably_sorted_concat [OF lr] r(4) n unfolding stably_sorted_def by (simp add: ss_def del: mset_concat)
  ultimately show ?thesis by blast
qed

end

text \<open>Where the concurrent sort is chosen there is more than one section.\<close>

lemma sort_ncores_sections:
  assumes "sort_ncores processors cnt opts = (True, ncores)"
  shows "2 \<le> ncores" "160 \<le> cnt"
proof -
  have c: "160 \<le> cnt \<and> 2 \<le> processors"
    using assms by (cases "cnt < 160 \<or> processors < 2") (auto simp: sort_ncores_def split: if_splits)
  then show "160 \<le> cnt" by simp
  have "ncores \<in> {2, 4, 8, 16} \<or> ncores = processors"
    using assms c unfolding sort_ncores_def Let_def by (simp split: if_split_asm)
  then show "2 \<le> ncores" using c by auto
qed

lemma CFSortIndexes_stable:
  assumes "comparator cmp" "length buf = cnt" "cnt \<le> (2 ^ 63 - 1) div 8"
  shows "\<exists>I. CFSortIndexes processors buf cnt opts cmp = Some (map Some I) \<and> stably_sorted cmp [0..<cnt] I"
proof (cases "1 \<le> cnt \<and> fst (sort_ncores processors cnt opts)")
  case False
  then consider "cnt = 0" | "\<not> fst (sort_ncores processors cnt opts)" by linarith
  then show ?thesis
  proof cases
    case 1
    then show ?thesis using assms(2) by (simp add: CFSortIndexes_def stably_sorted_def)
  next
    case 2
    then show ?thesis using CFSortIndexes_sequential [OF assms(1) _ assms(2,3)] by blast
  qed
next
  case True
  then obtain ncores where nc: "sort_ncores processors cnt opts = (True, ncores)" by (metis prod.collapse)
  note big = sort_ncores_sections [OF nc]
  let ?q = "(cnt + ncores - 1) div ncores"
  have "?q * ncores \<le> cnt + ncores - 1" by (rule div_times_less_eq_dividend)
  moreover have "(?q - 1) * ncores = ?q * ncores - ncores" by (simp add: diff_mult_distrib)
  ultimately have "(?q - 1) * ncores \<le> cnt - 1" using big by linarith
  moreover have "(?q - 1) * 2 \<le> (?q - 1) * ncores" using big(1) by simp
  ultimately have "(((cnt + ncores - 1) div ncores + 15) div 16) * 16 < cnt" using big by linarith
  then obtain L' where L': "CFSortIndexesN cmp (map Some [0..<cnt]) cnt ncores = Some (map Some L')"
    "stably_sorted cmp [0..<cnt] L'"
    using comparator.CFSortIndexesN_works [OF assms(1), of ncores "[0..<cnt]"] big by auto
  have "CFSortIndexes processors buf cnt opts cmp = Some (map Some L')"
    unfolding CFSortIndexes_def using True nc L'(1) assms(3) index_fill_works [OF assms(2)] by simp
  then show ?thesis using L'(2) by blast
qed

section \<open>Properties\<close>

text \<open>A comparison for the examples: natural numbers by their last decimal digit.\<close>

definition digit_compare :: "nat \<Rightarrow> nat \<Rightarrow> int" where
  "digit_compare a b = (if a mod 10 < b mod 10 then -1 else if b mod 10 < a mod 10 then 1 else 0)"

interpretation digit_compare: comparator digit_compare
  by unfold_locales (auto simp: digit_compare_def split: if_splits)

text \<open>
  C4.  \<open>CFSortIndexes\<close>, whatever the options and the number of processors, fills the buffer with
  the indexes in an order that is sorted for the comparator and stable, and touches nothing
  outside its buffers: this covers the sequential merge sort, the chunked initialisation above
  65536 elements and the odd-even merge of the concurrent sort.
\<close>

theorem CFSortIndexes_stably_sorts:
  assumes "comparator cmp" "length buf = cnt" "cnt \<le> (2 ^ 63 - 1) div 8"
  shows "\<exists>I. CFSortIndexes processors buf cnt opts cmp = Some (map Some I) \<and> stably_sorted cmp [0..<cnt] I"
  using assms by (rule CFSortIndexes_stable)

theorem CFSortIndexes_stably_sorts_witness:
  "\<exists>I. CFSortIndexes 4 (fresh_cells 5000) 5000 kCFSortConcurrent digit_compare = Some (map Some I) \<and>
     stably_sorted digit_compare [0..<5000] I"
  using CFSortIndexes_stably_sorts [OF digit_compare.comparator_axioms, of "fresh_cells 5000" 5000] by simp

text \<open>
  C18.  \<open>CFMergeSortArray\<close> and \<open>CFQSortArray\<close> both leave a stably sorted permutation of the first
  \<open>count\<close> elements in the array and do not touch what follows them; as the stable order is
  unique the two functions agree.
\<close>

theorem sort_array_correct:
  assumes "comparator cmp" "0 < elementSize" "length L \<le> (2 ^ 63 - 1) div 8"
  shows "\<exists>L'. CFMergeSortArray cmp (map Some L @ post) (length L) elementSize = Some (map Some L' @ post) \<and>
    CFQSortArray cmp (map Some L @ post) (length L) elementSize = Some (map Some L' @ post) \<and>
    stably_sorted cmp L L'"
proof -
  have "sort_ncores 1 cnt 16 = sort_ncores 1 cnt 0" for cnt by (simp add: sort_ncores_def)
  then have "sort_array 16 cmp list cnt elementSize = sort_array 0 cmp list cnt elementSize" for list cnt
    by (simp only: sort_array_def CFSortIndexes_def)
  then show ?thesis using sort_array_works [OF assms(1) _ assms(2,3), of 0 post]
    by (simp add: CFMergeSortArray_def CFQSortArray_def kCFSortStable_def)
qed

theorem sort_array_correct_witness:
  "\<exists>L'. CFMergeSortArray digit_compare (map Some [25, 11, 15, 30, 1] @ [None]) 5 8 = Some (map Some L' @ [None]) \<and>
     CFQSortArray digit_compare (map Some [25, 11, 15, 30, 1] @ [None]) 5 8 = Some (map Some L' @ [None]) \<and>
     stably_sorted digit_compare [25, 11, 15, 30, 1] L'"
proof -
  have "length [25::nat, 11, 15, 30, 1] = 5" by simp
  then show ?thesis
    using sort_array_correct [OF digit_compare.comparator_axioms, of 8 "[25, 11, 15, 30, 1]" "[None]"]
    by (simp del: list.size)
qed

text \<open>
  \<open>__CFSortIndexesNMerge\<close> on two sorted runs, the second no longer than the first: one call
  writes the smaller half of the merged run and the other the larger half, so the two calls of a
  pair together are a stable merge, and neither reads or writes outside its run.
\<close>

theorem NMerge_halves:
  assumes "comparator cmp" "sorted_wrt (\<lambda>a b. cmp a b \<le> 0) xs" "sorted_wrt (\<lambda>a b. cmp a b \<le> 0) ys"
    "length ys \<le> length xs" "ys \<noteq> []" "length t1 = length xs" "length t2 = length ys"
  shows "\<exists>lo hi. CFSortIndexesNMerge cmp (map Some xs) 0 (length xs) (map Some ys) 0 (length ys) t1 0 False = Some (map Some lo) \<and>
    CFSortIndexesNMerge cmp (map Some xs) 0 (length xs) (map Some ys) 0 (length ys) t2 0 True = Some (map Some hi) \<and>
    length lo = length xs \<and> stably_sorted cmp (xs @ ys) (lo @ hi)"
proof -
  note nm = comparator.CFSortIndexesNMerge_block [OF assms(1-5), of _ _ "[]" "[]" "[]" "[]" "[]" "[]"]
  have "stably_sorted cmp xs xs" "stably_sorted cmp ys ys" using assms(2,3) by (simp_all add: stably_sorted_def)
  then have "stably_sorted cmp (xs @ ys) (merge_lists cmp xs ys)" by (rule comparator.stably_sorted_merge [OF assms(1)])
  then show ?thesis using nm [of t1 False] nm [of t2 True] assms(6,7)
    by (intro exI [of _ "take (length xs) (merge_lists cmp xs ys)"] exI [of _ "drop (length xs) (merge_lists cmp xs ys)"]) simp
qed

theorem NMerge_halves_witness:
  "\<exists>lo hi. CFSortIndexesNMerge digit_compare (map Some [11, 5]) 0 2 (map Some [21]) 0 1 (fresh_cells 2) 0 False = Some (map Some lo) \<and>
    CFSortIndexesNMerge digit_compare (map Some [11, 5]) 0 2 (map Some [21]) 0 1 (fresh_cells 1) 0 True = Some (map Some hi) \<and>
    length lo = 2 \<and> stably_sorted digit_compare [11, 5, 21] (lo @ hi)"
  using NMerge_halves [OF digit_compare.comparator_axioms, of "[11, 5]" "[21]" "fresh_cells 2" "fresh_cells 1"]
  by (simp add: digit_compare_def numeral_2_eq_2)

end
