(* ===== verification/CF_Double.thy ===== *)
theory CF_Double
  imports CF_Prelude Complex_Main
begin

text \<open>
  The floating-point arithmetic of C: a finite value of type \<open>double\<close> is the rational number it denotes, and
  every operation computes the exact result and rounds it to the nearest number with a significand of 53 bits
  (24 bits for \<open>float\<close>), ties going to the even significand.  The range of the exponent is not bounded, so
  overflow, denormal numbers, infinities and the sign of zero are left out; the times of \<open>CFDate.c\<close> that fit
  an \<open>int64_t\<close> number of days stay far away from them.
\<close>

section \<open>Rounding\<close>

definition round_even :: "rat \<Rightarrow> int" where
  "round_even y =
     (let f = \<lfloor>y\<rfloor>; r = y - of_int f
      in if r < 1 / 2 then f else if 1 / 2 < r then f + 1 else if even f then f else f + 1)"

text \<open>The exponent of a number other than zero: \<open>2 powi e \<le> \<bar>x\<bar> < 2 powi (e + 1)\<close>.\<close>

definition binary_exponent :: "rat \<Rightarrow> int" where
  "binary_exponent x =
     (let (n, d) = quotient_of \<bar>x\<bar>; e = int (flsl (nat n)) - int (flsl (nat d))
      in if 2 powi e \<le> \<bar>x\<bar> then e else e - 1)"

definition fl_round :: "nat \<Rightarrow> rat \<Rightarrow> rat" where
  "fl_round p x =
     (if x = 0 then 0
      else let u = 2 powi (binary_exponent x + 1 - int p) in of_int (round_even (x / u)) * u)"

definition dbl :: "rat \<Rightarrow> rat" where
  "dbl x = fl_round 53 x"

definition flt :: "rat \<Rightarrow> rat" where
  "flt x = fl_round 24 x"

lemma round_even_of_int [simp]: "round_even (of_int k) = k"
  by (simp add: round_even_def)

lemma round_even_near: "\<bar>of_int (round_even y) - y\<bar> \<le> 1 / 2"
  by (auto simp: round_even_def Let_def abs_if; linarith)

lemma round_even_ge: "\<lfloor>y\<rfloor> \<le> round_even y"
  by (simp add: round_even_def Let_def)

lemma binary_exponent_bounds:
  assumes "x \<noteq> 0"
  shows "2 powi (binary_exponent x) \<le> \<bar>x\<bar>" "\<bar>x\<bar> < 2 powi (binary_exponent x + 1)"
proof -
  obtain n d where q: "quotient_of \<bar>x\<bar> = (n, d)" by fastforce
  have d: "0 < d" using quotient_of_denom_pos [OF q] .
  have x: "\<bar>x\<bar> = of_int n / of_int d" using quotient_of_div [OF q] .
  have "0 < rat_of_int n / of_int d" using assms unfolding x [symmetric] by simp
  then have n: "0 < n" using d by (simp add: zero_less_divide_iff)
  let ?a = "flsl (nat n)" and ?b = "flsl (nat d)"
  have upper: "rat_of_int k < 2 ^ flsl (nat k)" and lower: "2 ^ flsl (nat k) \<le> 2 * rat_of_int k" if "0 < k" for k
  proof -
    have "rat_of_nat (nat k) < rat_of_nat (2 ^ flsl (nat k))" using flsl_upper [of "nat k"] by (simp only: of_nat_less_iff)
    then show "rat_of_int k < 2 ^ flsl (nat k)" using that by simp
    have "rat_of_nat (2 ^ flsl (nat k)) \<le> rat_of_nat (2 * nat k)" using flsl_lower [of "nat k"] that by (simp only: of_nat_le_iff)
    then show "2 ^ flsl (nat k) \<le> 2 * rat_of_int k" using that by simp
  qed
  have p: "(2 :: rat) powi (int ?a - int ?b) = 2 ^ ?a / 2 ^ ?b" by (simp add: power_int_diff)
  have "\<bar>x\<bar> * 2 ^ ?b < 2 * 2 ^ ?a"
  proof -
    have "\<bar>x\<bar> * 2 ^ ?b \<le> \<bar>x\<bar> * (2 * of_int d)" using lower [OF d] by (intro mult_left_mono) auto
    also have "\<dots> = 2 * of_int n" using x d by simp
    also have "\<dots> < 2 * 2 ^ ?a" using upper [OF n] by simp
    finally show ?thesis .
  qed
  then have "\<bar>x\<bar> < 2 ^ ?a / 2 ^ ?b * 2" by (simp add: field_simps)
  then have hi: "\<bar>x\<bar> < 2 powi (int ?a - int ?b + 1)" unfolding p [symmetric] by (subst power_int_add) simp_all
  have "2 ^ ?a < 2 * \<bar>x\<bar> * 2 ^ ?b"
  proof -
    have "(2 :: rat) ^ ?a \<le> 2 * of_int n" using lower [OF n] .
    also have "\<dots> = 2 * \<bar>x\<bar> * of_int d" using x d by simp
    also have "\<dots> < 2 * \<bar>x\<bar> * 2 ^ ?b" using upper [OF d] assms by (intro mult_strict_left_mono) auto
    finally show ?thesis .
  qed
  then have "2 ^ ?a / 2 ^ ?b / 2 \<le> \<bar>x\<bar>" by (simp add: field_simps)
  then have lo: "2 powi (int ?a - int ?b - 1) \<le> \<bar>x\<bar>" unfolding p [symmetric] by (subst power_int_diff) simp_all
  show "2 powi (binary_exponent x) \<le> \<bar>x\<bar>" "\<bar>x\<bar> < 2 powi (binary_exponent x + 1)"
    using lo hi q by (auto simp: binary_exponent_def Let_def)
qed

text \<open>A number whose significand fits is not changed.\<close>

lemma fl_round_exact:
  assumes p: "0 < p" and x: "x = of_int k * 2 powi s" and k: "\<bar>k\<bar> \<le> 2 ^ p"
  shows "fl_round p x = x"
proof (cases "x = 0")
  case False
  let ?e = "binary_exponent x"
  have "rat_of_int \<bar>k\<bar> \<le> rat_of_int (2 ^ p)" using k by (simp only: of_int_le_iff)
  then have "\<bar>x\<bar> \<le> 2 ^ p * 2 powi s" unfolding x by (simp add: abs_mult)
  also have "\<dots> = 2 powi (int p + s)" by (simp add: power_int_add)
  finally have "2 powi ?e \<le> (2 :: rat) powi (int p + s)" using binary_exponent_bounds(1) [OF False] by linarith
  then have e: "?e \<le> int p + s" by (metis linorder_not_less one_less_numeral_iff power_int_strict_increasing semiring_norm(76))
  have "\<exists>i. x / 2 powi (?e + 1 - int p) = of_int i"
  proof (cases "?e = int p + s")
    case True
    then have "2 powi (int p + s) \<le> \<bar>x\<bar>" using binary_exponent_bounds(1) [OF False] by simp
    then have "2 ^ p \<le> rat_of_int \<bar>k\<bar>" unfolding x by (simp add: power_int_add abs_mult)
    then have "rat_of_int (2 ^ p) \<le> rat_of_int \<bar>k\<bar>" by simp
    then have "\<bar>k\<bar> = 2 ^ p" using k unfolding of_int_le_iff by simp
    then obtain c where c: "k = c * 2 ^ p" by (metis abs_dvd_iff dvd_refl dvd_def mult.commute)
    have "x / 2 powi (?e + 1 - int p) = of_int k / 2" using True unfolding x by (simp add: power_int_add power_int_diff add.commute)
    also have "\<dots> = of_int (c * 2 ^ (p - 1))" using p c by (cases p) auto
    finally show ?thesis by blast
  next
    case less: False
    then have "s - (?e + 1 - int p) = int (nat (s - (?e + 1 - int p)))" using e by simp
    moreover have "x / 2 powi (?e + 1 - int p) = of_int k * 2 powi (s - (?e + 1 - int p))" unfolding x by (simp add: power_int_diff)
    ultimately have "x / 2 powi (?e + 1 - int p) = of_int (k * 2 ^ nat (s - (?e + 1 - int p)))"
      by (metis of_int_mult of_int_numeral of_int_power power_int_of_nat)
    then show ?thesis by blast
  qed
  then obtain i where i: "x / 2 powi (?e + 1 - int p) = of_int i" by blast
  then have "x = of_int i * 2 powi (?e + 1 - int p)" by (simp add: field_simps)
  then show ?thesis using False i by (simp add: fl_round_def Let_def)
qed (simp add: fl_round_def)

text \<open>The rounding error is at most half a unit in the last place.\<close>

lemma fl_round_error: "\<bar>fl_round p x - x\<bar> \<le> \<bar>x\<bar> / 2 ^ p"
proof (cases "x = 0")
  case False
  let ?u = "(2 :: rat) powi (binary_exponent x + 1 - int p)"
  have u: "0 < ?u" by simp
  have "fl_round p x - x = (of_int (round_even (x / ?u)) - x / ?u) * ?u" using False u by (simp add: fl_round_def Let_def algebra_simps)
  then have "\<bar>fl_round p x - x\<bar> = \<bar>of_int (round_even (x / ?u)) - x / ?u\<bar> * ?u" using u by (simp add: abs_mult)
  also have "\<dots> \<le> 1 / 2 * ?u" using round_even_near u by (intro mult_right_mono) auto
  also have "\<dots> = 2 powi (binary_exponent x) / 2 ^ p" by (simp add: power_int_add power_int_diff)
  also have "\<dots> \<le> \<bar>x\<bar> / 2 ^ p" using binary_exponent_bounds(1) [OF False] by (simp add: divide_right_mono)
  finally show ?thesis .
qed (simp add: fl_round_def)

text \<open>Rounding does not go below an integer that is representable.\<close>

lemma fl_round_floor:
  assumes x: "\<bar>x\<bar> < 2 ^ p"
  shows "of_int \<lfloor>x\<rfloor> \<le> fl_round p x"
proof (cases "x = 0")
  case False
  let ?e = "binary_exponent x" and ?n = "rat_of_int \<lfloor>x\<rfloor>"
  let ?u = "(2 :: rat) powi (?e + 1 - int p)"
  have u: "0 < ?u" by simp
  have "2 powi ?e < (2 :: rat) powi (int p)" using binary_exponent_bounds(1) [OF False] x by simp
  then have e: "?e < int p" by (metis linorder_not_less one_le_numeral power_int_increasing)
  define i where "i = \<lfloor>x\<rfloor> * 2 ^ nat (int p - 1 - ?e)"
  have "?n / ?u = ?n * 2 powi (int p - 1 - ?e)" by (simp add: power_int_diff power_int_add field_simps)
  also have "\<dots> = of_int i" using e by (simp add: i_def power_int_def)
  finally have i: "?n / ?u = of_int i" .
  have "?n / ?u \<le> x / ?u" using u by (simp add: divide_right_mono)
  then have "i \<le> \<lfloor>x / ?u\<rfloor>" unfolding i by (simp add: le_floor_iff)
  then have "i \<le> round_even (x / ?u)" using round_even_ge [of "x / ?u"] by linarith
  then have "rat_of_int i * ?u \<le> of_int (round_even (x / ?u)) * ?u" using u by (intro mult_right_mono) simp_all
  moreover have "rat_of_int i * ?u = ?n" using i u by (simp add: field_simps)
  ultimately show ?thesis using False by (simp add: fl_round_def Let_def)
qed (simp add: fl_round_def)

section \<open>Exact results\<close>

text \<open>The multiples of \<open>1 / 2 ^ j\<close>, and those of them that a double holds.\<close>

definition on_grid :: "nat \<Rightarrow> rat \<Rightarrow> bool" where
  "on_grid j x \<longleftrightarrow> x * 2 ^ j \<in> \<int>"

definition exact_at :: "nat \<Rightarrow> rat \<Rightarrow> bool" where
  "exact_at j x \<longleftrightarrow> on_grid j x \<and> \<bar>x\<bar> * 2 ^ j \<le> 2 ^ 53"

lemma on_grid_int [simp]: "on_grid j (of_int k)" "on_grid j (numeral w)" "on_grid j 0" "on_grid j 1"
  by (simp_all add: on_grid_def)

lemma on_grid_arith: "on_grid j x \<Longrightarrow> on_grid j y \<Longrightarrow> on_grid j (x + y)" "on_grid j x \<Longrightarrow> on_grid j y \<Longrightarrow> on_grid j (x - y)"
  "on_grid j x \<Longrightarrow> on_grid j (- x)" "on_grid j x \<Longrightarrow> on_grid j (of_int k * x)" "on_grid j x \<Longrightarrow> on_grid j (x * of_int k)"
  by (simp_all add: on_grid_def distrib_right left_diff_distrib mult.assoc mult.commute [of "of_int k" "2 ^ j"]) (simp_all flip: mult.assoc)

lemma exact_at_less: "exact_at j x \<Longrightarrow> on_grid j y \<Longrightarrow> \<bar>y\<bar> \<le> \<bar>x\<bar> \<Longrightarrow> exact_at j y"
  unfolding exact_at_def by (meson mult_right_mono order_trans zero_le_numeral zero_le_power)

lemma dbl_exact:
  assumes "exact_at j x"
  shows "dbl x = x"
proof -
  obtain k where k: "x * 2 ^ j = of_int k" using assms unfolding exact_at_def on_grid_def by (auto elim: Ints_cases)
  then have x: "x = of_int k * 2 powi (- int j)" by (simp add: power_int_minus field_simps)
  have "\<bar>x * 2 ^ j\<bar> \<le> 2 ^ 53" using assms by (simp add: exact_at_def abs_mult)
  then have "rat_of_int \<bar>k\<bar> \<le> rat_of_int (2 ^ 53)" unfolding k by simp
  then have "\<bar>k\<bar> \<le> 2 ^ 53" by (simp only: of_int_le_iff)
  then show ?thesis unfolding dbl_def using fl_round_exact [OF _ x] by simp
qed

lemma flt_int: "\<bar>k\<bar> \<le> 2 ^ 24 \<Longrightarrow> flt (of_int k) = of_int k"
  unfolding flt_def by (rule fl_round_exact [where k = k and s = 0]) simp_all

text \<open>The floor of a quotient is computed correctly: the quotient is too far from the next integer to be rounded to it.\<close>

lemma floor_dbl_div:
  assumes x: "on_grid j x" "\<bar>x\<bar> * 2 ^ j < 2 ^ 53" and m: "0 < m"
  shows "\<lfloor>dbl (x / of_int m)\<rfloor> = \<lfloor>x / of_int m\<rfloor>"
proof -
  let ?y = "x / of_int m" and ?n = "\<lfloor>x / of_int m\<rfloor>" and ?g = "rat_of_int m * 2 ^ j"
  have m1: "1 \<le> rat_of_int m" using m by simp
  have g: "0 < ?g" using m by simp
  obtain k where k: "x * 2 ^ j = of_int k" using x(1) unfolding on_grid_def by (auto elim: Ints_cases)
  have y: "?y * ?g = of_int k" using m k by simp
  have "?y * ?g < (of_int ?n + 1) * ?g" using g by (intro mult_strict_right_mono) linarith+
  then have "rat_of_int k < rat_of_int ((?n + 1) * m * 2 ^ j)" unfolding y by (simp add: mult.assoc)
  then have "k + 1 \<le> (?n + 1) * m * 2 ^ j" unfolding of_int_less_iff by simp
  then have "rat_of_int (k + 1) \<le> rat_of_int ((?n + 1) * m * 2 ^ j)" by (simp only: of_int_le_iff)
  then have gap: "?y * ?g + 1 \<le> (of_int ?n + 1) * ?g" unfolding y by (simp add: mult.assoc)
  have "\<bar>?y\<bar> * ?g < 2 ^ 53" using x(2) m by (simp add: abs_divide)
  then have "\<bar>?y\<bar> * ?g / 2 ^ 53 < 1" by (simp only: pos_divide_less_eq mult_1 zero_less_power zero_less_numeral)
  then have "\<bar>?y\<bar> / 2 ^ 53 * ?g < 1" by (simp only: times_divide_eq_left)
  moreover have "(dbl ?y - ?y) * ?g \<le> \<bar>?y\<bar> / 2 ^ 53 * ?g"
    using fl_round_error [of 53 ?y] g unfolding dbl_def by (intro mult_right_mono) (auto simp: abs_le_iff)
  ultimately have "dbl ?y * ?g < (of_int ?n + 1) * ?g" using gap by (simp add: left_diff_distrib)
  then have up: "dbl ?y < of_int ?n + 1" using g mult_less_cancel_right_pos by blast
  have "1 * 1 \<le> ?g" using m1 by (intro mult_mono) simp_all
  then have "\<bar>?y\<bar> * 1 \<le> \<bar>?y\<bar> * ?g" by (intro mult_left_mono) simp_all
  then have "\<bar>?y\<bar> < 2 ^ 53" using \<open>\<bar>?y\<bar> * ?g < 2 ^ 53\<close> by linarith
  then have "of_int ?n \<le> dbl ?y" unfolding dbl_def by (rule fl_round_floor)
  then show ?thesis using up by (intro floor_unique)
qed

end
