(* ===== verification/CF_Date.thy ===== *)
theory CF_Date
  imports CF_Double "HOL-Library.Signed_Division"
begin

text \<open>
  \<open>CFDate.c\<close>: dates, and the conversion between absolute times and Gregorian dates.

  Absolute times are doubles counting seconds from 1 January 2001, 00:00 GMT.  They are the rational numbers
  they denote, and every operation on them rounds as in \<open>CF_Double\<close>.  Day and year counts are integers with
  C's truncating division and remainder (\<open>sdiv\<close>, \<open>smod\<close>); sums at type \<open>int32_t\<close> and conversions to integer
  types go through \<open>int32\<close> and \<open>int64\<close>, which are undefined out of range.  A time zone is given by its offset
  function (\<open>CFTimeZoneGetSecondsFromGMT\<close>), and \<open>None\<close> stands for a \<open>NULL\<close> zone.
\<close>

section \<open>Dates\<close>

type_synonym CFAbsoluteTime = rat

type_synonym timezone = "(CFAbsoluteTime \<Rightarrow> rat) option"

record CFDate =
  dt_time :: CFAbsoluteTime

definition CFDateEqual :: "CFDate \<Rightarrow> CFDate \<Rightarrow> bool" where
  "CFDateEqual date1 date2 = (if dt_time date1 \<noteq> dt_time date2 then False else True)"

definition CFDateCreate :: "cf_env \<Rightarrow> CFAbsoluteTime \<Rightarrow> CFDate option" where
  "CFDateCreate env t =
     (if CFRuntimeCreateInstance env 8 then Some \<lparr> dt_time = t \<rparr> else None)"

definition CFDateGetAbsoluteTime :: "CFDate \<Rightarrow> CFAbsoluteTime" where
  "CFDateGetAbsoluteTime date = dt_time date"

definition CFDateGetTimeIntervalSinceDate :: "CFDate \<Rightarrow> CFDate \<Rightarrow> rat" where
  "CFDateGetTimeIntervalSinceDate date otherDate = dbl (dt_time date - dt_time otherDate)"

definition CFDateCompare :: "CFDate \<Rightarrow> CFDate \<Rightarrow> int" where
  "CFDateCompare date otherDate =
     (if dt_time date < dt_time otherDate then kCFCompareLessThan
      else if dt_time otherDate < dt_time date then kCFCompareGreaterThan
      else kCFCompareEqualTo)"

section \<open>The calendar tables\<close>

definition int32 :: "int \<Rightarrow> int option" where
  "int32 x = (if - 2147483648 \<le> x \<and> x \<le> 2147483647 then Some x else None)"

definition int64 :: "int \<Rightarrow> int option" where
  "int64 x = (if - (2 ^ 63) \<le> x \<and> x < 2 ^ 63 then Some x else None)"

text \<open>The floor of a double is a double, so that it is not rounded again.\<close>

definition CFDoubleModToInt :: "rat \<Rightarrow> int \<Rightarrow> int option" where
  "CFDoubleModToInt d modulus = do {
     let q = of_int \<lfloor>dbl (d / of_int modulus)\<rfloor>;
     result \<leftarrow> int32 \<lfloor>flt (of_int \<lfloor>dbl (d - dbl (q * of_int modulus))\<rfloor>)\<rfloor>;
     Some (if result < 0 then result + modulus else result)
   }"

definition CFDoubleMod :: "rat \<Rightarrow> int \<Rightarrow> rat" where
  "CFDoubleMod d modulus =
     (let result = dbl (d - dbl (of_int \<lfloor>dbl (d / of_int modulus)\<rfloor> * of_int modulus))
      in if result < 0 then dbl (result + of_int modulus) else result)"

definition daysInMonth :: "int list" where
  "daysInMonth = [0, 31, 28, 31, 30, 31, 30, 31, 31, 30, 31, 30, 31, 0, 0, 0]"

definition daysBeforeMonth :: "int list" where
  "daysBeforeMonth = [0, 0, 31, 59, 90, 120, 151, 181, 212, 243, 273, 304, 334, 365, 0, 0]"

definition daysAfterMonth :: "int list" where
  "daysAfterMonth = [365, 334, 306, 275, 245, 214, 184, 153, 122, 92, 61, 31, 0, 0, 0, 0]"

text \<open>Reading a table outside its bounds is undefined.\<close>

definition table :: "int list \<Rightarrow> int \<Rightarrow> int option" where
  "table t i = (if 0 \<le> i \<and> nat i < length t then Some (t ! nat i) else None)"

definition isleap :: "int \<Rightarrow> bool" where
  "isleap year =
     (let y = (year + 1) smod 400;
          y = (if y < 0 then - y else y)
      in y mod 4 = 0 \<and> y \<noteq> 100 \<and> y \<noteq> 200 \<and> y \<noteq> 300)"

definition CFDaysInMonth :: "int \<Rightarrow> int \<Rightarrow> bool \<Rightarrow> int option" where
  "CFDaysInMonth month year leap = do {
     d \<leftarrow> table daysInMonth month;
     Some (d + of_bool (month = 2 \<and> leap))
   }"

definition CFDaysBeforeMonth :: "int \<Rightarrow> int \<Rightarrow> bool \<Rightarrow> int option" where
  "CFDaysBeforeMonth month year leap = do {
     d \<leftarrow> table daysBeforeMonth month;
     Some (d + of_bool (2 < month \<and> leap))
   }"

definition CFDaysAfterMonth :: "int \<Rightarrow> int \<Rightarrow> bool \<Rightarrow> int option" where
  "CFDaysAfterMonth month year leap = do {
     d \<leftarrow> table daysAfterMonth month;
     Some (d + of_bool (month < 2 \<and> leap))
   }"

lemma CFDaysAfterMonth_0 [simp]: "CFDaysAfterMonth 0 y leap = Some (365 + of_bool leap)"
  by (simp add: CFDaysAfterMonth_def table_def daysAfterMonth_def)

section \<open>Days and years\<close>

text \<open>\<open>while (absolute < 0)\<close>, \<open>while (ydays <= absolute)\<close> and the search for the month.\<close>

function ymd_years_down :: "int \<Rightarrow> int \<Rightarrow> (int \<times> int) option" where
  "ymd_years_down y absolute =
     (if absolute < 0 then do {
        d \<leftarrow> CFDaysAfterMonth 0 (y - 1) (isleap (y - 1));
        ymd_years_down (y - 1) (absolute + d)
      } else Some (y, absolute))"
  by pat_completeness auto
termination by (relation "measure (\<lambda>(y, absolute). nat (- absolute))") auto

function ymd_years_up :: "int \<Rightarrow> int \<Rightarrow> (int \<times> int) option" where
  "ymd_years_up y absolute = do {
     ydays \<leftarrow> CFDaysAfterMonth 0 y (isleap y);
     if ydays \<le> absolute then ymd_years_up (y + 1) (absolute - ydays)
     else Some (y, absolute)
   }"
  by pat_completeness auto
termination by (relation "measure (\<lambda>(y, absolute). nat absolute)") (auto simp: of_bool_def split: if_splits)

function ymd_month :: "int \<Rightarrow> bool \<Rightarrow> int \<Rightarrow> int \<Rightarrow> int option" where
  "ymd_month y leap absolute m = do {
     d \<leftarrow> CFDaysBeforeMonth (m + 1) y leap;
     if d \<le> absolute then ymd_month y leap absolute (m + 1) else Some m
   }"
  by pat_completeness auto
termination
  by (relation "measure (\<lambda>(y, leap, absolute, m). nat (16 - m))")
     (auto simp: CFDaysBeforeMonth_def table_def daysBeforeMonth_def split: bind_splits if_splits)

declare ymd_years_down.simps [simp del] ymd_years_up.simps [simp del] ymd_month.simps [simp del]

definition CFYMDFromAbsolute :: "int \<Rightarrow> (int \<times> int \<times> int) option" where
  "CFYMDFromAbsolute absolute = do {
     let b = absolute sdiv 146097;
     (y0, absolute) \<leftarrow> ymd_years_down (b * 400) (absolute - b * 146097);
     (y, absolute) \<leftarrow> ymd_years_up y0 absolute;
     let leap = isleap y;
     m \<leftarrow> ymd_month y leap absolute (absolute sdiv 33 + 1);
     d \<leftarrow> CFDaysBeforeMonth m y leap;
     Some (y, m, absolute - d + 1)
   }"

text \<open>The two loops over the years, with the number of iterations left.\<close>

fun ymd_sum_neg :: "int \<Rightarrow> nat \<Rightarrow> rat \<Rightarrow> rat option" where
  "ymd_sum_neg idx 0 absolute = Some absolute"
| "ymd_sum_neg idx (Suc n) absolute = do {
     d \<leftarrow> CFDaysAfterMonth 0 idx (isleap idx);
     ymd_sum_neg (idx + 1) n (dbl (absolute - of_int d))
   }"

fun ymd_sum_pos :: "int \<Rightarrow> nat \<Rightarrow> rat \<Rightarrow> rat option" where
  "ymd_sum_pos idx 0 absolute = Some absolute"
| "ymd_sum_pos idx (Suc n) absolute = do {
     d \<leftarrow> CFDaysAfterMonth 0 idx (isleap idx);
     ymd_sum_pos (idx + 1) n (dbl (absolute + of_int d))
   }"

definition CFAbsoluteFromYMD :: "int \<Rightarrow> int \<Rightarrow> int \<Rightarrow> rat option" where
  "CFAbsoluteFromYMD year month day = do {
     let b = year sdiv 400;
     let absolute = dbl (dbl (of_int b) * 146097);
     let year = year - b * 400;
     absolute \<leftarrow> (if year < 0 then ymd_sum_neg year (nat (- year)) absolute
                  else ymd_sum_pos 0 (nat year) absolute);
     d \<leftarrow> CFDaysBeforeMonth month year (isleap year);
     Some (dbl (absolute + of_int (d + day - 1)))
   }"

section \<open>Gregorian dates\<close>

record CFGregorianDate =
  g_year :: int
  g_month :: int
  g_day :: int
  g_hour :: int
  g_minute :: int
  g_second :: rat

record CFGregorianUnits =
  u_years :: int
  u_months :: int
  u_days :: int
  u_hours :: int
  u_minutes :: int
  u_seconds :: rat

text \<open>Unit flags, one bit each from \<open>kCFGregorianUnitsYears = 1\<close> to \<open>kCFGregorianUnitsSeconds = 32\<close>.\<close>

definition unit_flag :: "nat \<Rightarrow> nat \<Rightarrow> bool" where
  "unit_flag unitFlags k = odd (unitFlags div 2 ^ k)"

definition CFGregorianDateIsValid :: "CFGregorianDate \<Rightarrow> nat \<Rightarrow> bool option" where
  "CFGregorianDateIsValid g unitFlags =
     (if unit_flag unitFlags 0 \<and> g_year g \<le> 0 then Some False
      else if unit_flag unitFlags 1 \<and> (g_month g < 1 \<or> 12 < g_month g) then Some False
      else if unit_flag unitFlags 2 \<and> (g_day g < 1 \<or> 31 < g_day g) then Some False
      else if unit_flag unitFlags 3 \<and> (g_hour g < 0 \<or> 23 < g_hour g) then Some False
      else if unit_flag unitFlags 4 \<and> (g_minute g < 0 \<or> 59 < g_minute g) then Some False
      else if unit_flag unitFlags 5 \<and> (g_second g < 0 \<or> 60 \<le> g_second g) then Some False
      else if unit_flag unitFlags 2 \<and> unit_flag unitFlags 1 \<and> unit_flag unitFlags 0 then do {
        d \<leftarrow> CFDaysInMonth (g_month g) (g_year g - 2001) (isleap (g_year g - 2001));
        Some (\<not> d < g_day g)
      } else Some True)"

definition CFGregorianDateGetAbsoluteTime :: "CFGregorianDate \<Rightarrow> timezone \<Rightarrow> CFAbsoluteTime option" where
  "CFGregorianDateGetAbsoluteTime g tz = do {
     year \<leftarrow> int32 (g_year g - 2001);
     absolute \<leftarrow> CFAbsoluteFromYMD year (g_month g) (g_day g);
     let t = dbl (86400 * absolute);
     let t = dbl (t + dbl (dbl (dbl (3600 * of_int (g_hour g)) + dbl (60 * of_int (g_minute g))) + g_second g));
     Some (case tz of
             None \<Rightarrow> t
           | Some offset \<Rightarrow>
               let offset0 = offset t;
                   offset1 = offset (dbl (t - offset0))
               in dbl (t - offset1))
   }"

text \<open>Storing an integer in a \<open>SInt32\<close> or \<open>SInt8\<close> field keeps the low bits.\<close>

definition wrap32 :: "int \<Rightarrow> int" where
  "wrap32 x = (x + 2147483648) mod 4294967296 - 2147483648"

definition wrap8 :: "int \<Rightarrow> int" where
  "wrap8 x = (x + 128) mod 256 - 128"

definition date_fixedat :: "CFAbsoluteTime \<Rightarrow> timezone \<Rightarrow> CFAbsoluteTime" where
  "date_fixedat t tz = dbl (t + (case tz of None \<Rightarrow> 0 | Some offset \<Rightarrow> offset t))"

definition date_absolute :: "CFAbsoluteTime \<Rightarrow> int option" where
  "date_absolute fixedat = int64 \<lfloor>dbl (fixedat / 86400)\<rfloor>"

definition CFAbsoluteTimeGetGregorianDate :: "CFAbsoluteTime \<Rightarrow> timezone \<Rightarrow> CFGregorianDate option" where
  "CFAbsoluteTimeGetGregorianDate t tz = do {
     let fixedat = date_fixedat t tz;
     absolute \<leftarrow> date_absolute fixedat;
     (year, month, day) \<leftarrow> CFYMDFromAbsolute absolute;
     let year = (if 2147483647 - 2001 < year then 2147483647 - 2001 else year);
     hour \<leftarrow> CFDoubleModToInt (of_int \<lfloor>dbl (fixedat / 3600)\<rfloor>) 24;
     minute \<leftarrow> CFDoubleModToInt (of_int \<lfloor>dbl (fixedat / 60)\<rfloor>) 60;
     Some \<lparr> g_year = wrap32 (year + 2001), g_month = month, g_day = day, g_hour = wrap8 hour, g_minute = wrap8 minute,
            g_second = CFDoubleMod fixedat 60 \<rparr>
   }"

section \<open>Date arithmetic\<close>

text \<open>The four normalisation loops of \<open>CFAbsoluteTimeAddGregorianUnits\<close>.\<close>

function units_months_down :: "int \<Rightarrow> int \<Rightarrow> (int \<times> int) option" where
  "units_months_down years months =
     (if 12 < months then do {
        years' \<leftarrow> int32 (years + 1);
        units_months_down years' (months - 12)
      } else Some (years, months))"
  by pat_completeness auto
termination by (relation "measure (\<lambda>(years, months). nat months)") auto

function units_months_up :: "int \<Rightarrow> int \<Rightarrow> (int \<times> int) option" where
  "units_months_up years months =
     (if months < 1 then do {
        years' \<leftarrow> int32 (years - 1);
        units_months_up years' (months + 12)
      } else Some (years, months))"
  by pat_completeness auto
termination by (relation "measure (\<lambda>(years, months). nat (1 - months))") auto

declare units_months_down.simps [simp del] units_months_up.simps [simp del]

definition units_monthdays :: "int \<Rightarrow> int \<Rightarrow> int option" where
  "units_monthdays years months = do {
     y \<leftarrow> int32 (years - 2001);
     CFDaysInMonth months y (isleap y)
   }"

text \<open>
  The day loops stop because every month has a positive number of days.  That is a theorem below;
  the definitions leave it open, and a loop that does not stop has the value \<open>None\<close>.
\<close>

partial_function (option) units_days_down :: "int \<Rightarrow> int \<Rightarrow> int \<Rightarrow> int \<Rightarrow> (int \<times> int \<times> int) option" where
  [code]: "units_days_down years months days monthdays =
     (if monthdays < days then do {
        (years', months') \<leftarrow> (if 12 < months + 1 then do {
                                  y \<leftarrow> int32 (years + 1);
                                  Some (y, months + 1 - 12)
                                } else Some (years, months + 1));
        monthdays' \<leftarrow> units_monthdays years' months';
        units_days_down years' months' (days - monthdays) monthdays'
      } else Some (years, months, days))"

partial_function (option) units_days_up :: "int \<Rightarrow> int \<Rightarrow> int \<Rightarrow> (int \<times> int \<times> int) option" where
  [code]: "units_days_up years months days =
     (if days < 1 then do {
        (years', months') \<leftarrow> (if months - 1 < 1 then do {
                                  y \<leftarrow> int32 (years - 1);
                                  Some (y, months - 1 + 12)
                                } else Some (years, months - 1));
        monthdays \<leftarrow> units_monthdays years' months';
        units_days_up years' months' (days + monthdays)
      } else Some (years, months, days))"

definition CFAbsoluteTimeAddGregorianUnits ::
  "CFAbsoluteTime \<Rightarrow> timezone \<Rightarrow> CFGregorianUnits \<Rightarrow> CFAbsoluteTime option" where
  "CFAbsoluteTimeAddGregorianUnits t tz units = do {
     g \<leftarrow> CFAbsoluteTimeGetGregorianDate t tz;
     years \<leftarrow> int32 (g_year g + u_years units);
     months \<leftarrow> int32 (g_month g + u_months units);
     (years, months) \<leftarrow> units_months_down years months;
     (years, months) \<leftarrow> units_months_up years months;
     monthdays \<leftarrow> units_monthdays years months;
     let days = (if monthdays < g_day g then monthdays else g_day g);
     days \<leftarrow> int32 (days + u_days units);
     (years, months, days) \<leftarrow> units_days_down years months days monthdays;
     (years, months, days) \<leftarrow> units_days_up years months days;
     candidate_at0 \<leftarrow> CFGregorianDateGetAbsoluteTime (g\<lparr>g_year := years, g_month := months, g_day := days\<rparr>) tz;
     Some (dbl (dbl (dbl (candidate_at0 + dbl (3600 * of_int (u_hours units))) + dbl (60 * of_int (u_minutes units))) + u_seconds units))
   }"

section \<open>Days and weeks\<close>

definition CFAbsoluteTimeGetDayOfWeek :: "CFAbsoluteTime \<Rightarrow> timezone \<Rightarrow> int option" where
  "CFAbsoluteTimeGetDayOfWeek t tz = do {
     absolute \<leftarrow> date_absolute (date_fixedat t tz);
     Some (if absolute < 0 then (absolute + 1) smod 7 + 7 else absolute smod 7 + 1)
   }"

definition CFAbsoluteTimeGetDayOfYear :: "CFAbsoluteTime \<Rightarrow> timezone \<Rightarrow> int option" where
  "CFAbsoluteTimeGetDayOfYear t tz = do {
     absolute \<leftarrow> date_absolute (date_fixedat t tz);
     (year, month, day) \<leftarrow> CFYMDFromAbsolute absolute;
     d \<leftarrow> CFDaysBeforeMonth month year (isleap year);
     Some (d + day)
   }"

definition CFAbsoluteTimeGetWeekOfYear :: "CFAbsoluteTime \<Rightarrow> timezone \<Rightarrow> int option" where
  "CFAbsoluteTimeGetWeekOfYear t tz = do {
     absolute \<leftarrow> date_absolute (date_fixedat t tz);
     (year, month, day) \<leftarrow> CFYMDFromAbsolute absolute;
     absolute0101 \<leftarrow> CFAbsoluteFromYMD year 1 1;
     dow \<leftarrow> CFDoubleModToInt absolute0101 7;
     let dow0101 = dow + 1;
     if month = 1 \<and> day < 4 \<and>
        ((day < 4 \<and> dow0101 = 5) \<or> (day < 3 \<and> dow0101 = 6) \<or> (day < 2 \<and> dow0101 = 7)) then Some 53
     else do {
       dow \<leftarrow> (if month = 12 \<and> 28 < day then do {
                 absolute20101 \<leftarrow> CFAbsoluteFromYMD (year + 1) 1 1;
                 CFDoubleModToInt absolute20101 7
               } else Some 0);
       let dow20101 = dow + 1;
       if month = 12 \<and> 28 < day \<and>
          ((28 < day \<and> dow20101 = 4) \<or> (29 < day \<and> dow20101 = 3) \<or> (30 < day \<and> dow20101 = 2)) then Some 1
       else do {
         d \<leftarrow> CFDaysBeforeMonth month year (isleap year);
         Some ((d + day + (dow0101 - 11) smod 7 + 2) sdiv 7 + 1)
       }
     }
   }"

section \<open>Leap years and the start of a year\<close>

lemma isleap_iff: "isleap y \<longleftrightarrow> (y + 1) mod 4 = 0 \<and> ((y + 1) mod 100 \<noteq> 0 \<or> (y + 1) mod 400 = 0)"
proof -
  let ?n = "y + 1"
  define r where "r = \<bar>?n\<bar> mod 400"
  have "(if ?n smod 400 < 0 then - (?n smod 400) else ?n smod 400) = r"
    by (auto simp: r_def signed_modulo_int_def sgn_if abs_if)
  then have A: "isleap y \<longleftrightarrow> r mod 4 = 0 \<and> r \<noteq> 100 \<and> r \<noteq> 200 \<and> r \<noteq> 300"
    by (simp add: isleap_def Let_def)
  have "(?n mod k = 0) = (r mod k = 0)" if "k dvd 400" for k
    using that by (simp add: r_def mod_mod_cancel) (simp add: mod_eq_0_iff_dvd)
  then have B: "(?n mod 4 = 0) = (r mod 4 = 0)" "(?n mod 100 = 0) = (r mod 100 = 0)" "(?n mod 400 = 0) = (r mod 400 = 0)"
    by simp_all
  have r: "0 \<le> r" "r < 400" by (simp_all add: r_def)
  have "r div 100 = 0 \<or> r div 100 = 1 \<or> r div 100 = 2 \<or> r div 100 = 3" using r by linarith
  then have C: "r mod 100 = 0 \<longleftrightarrow> r = 0 \<or> r = 100 \<or> r = 200 \<or> r = 300"
    using minus_mult_div_eq_mod [of r 100, symmetric] by (elim disjE) auto
  have "r mod 400 = r" using r by simp
  then show ?thesis unfolding A B C by auto
qed

text \<open>The number of days from 1 January 2001 to the first day of year \<open>y\<close> (2001 is year 0).\<close>

definition year_start :: "int \<Rightarrow> int" where
  "year_start y = 365 * y + y div 4 - y div 100 + y div 400"

lemma div_Suc_int: "0 < k \<Longrightarrow> (y + 1) div k = y div k + of_bool ((y + 1) mod k = (0::int))"
proof -
  assume k: "0 < k"
  show ?thesis
  proof (cases "(y + 1) mod k = 0")
    case True
    then obtain q where q: "y + 1 = q * k" by (metis dvdE mod_0_imp_dvd mult.commute)
    then have "y = (q - 1) * k + (k - 1)" by (simp add: algebra_simps)
    then have "y div k = q - 1" using k by simp
    then show ?thesis using q k True by simp
  next
    case False
    define q r where "q = (y + 1) div k" and "r = (y + 1) mod k"
    have "y + 1 = q * k + r" "0 < r" "r < k" using False k by (simp_all add: q_def r_def order.not_eq_order_implies_strict)
    then have "y = q * k + (r - 1)" "0 \<le> r - 1" "r - 1 < k" by auto
    then have "y div k = q" by simp
    then show ?thesis using False q_def by simp
  qed
qed

lemma leap_count:
  "(p400 \<Longrightarrow> p100) \<Longrightarrow> (p100 \<Longrightarrow> p4) \<Longrightarrow>
     of_bool (p4 \<and> (\<not> p100 \<or> p400)) = of_bool p4 - of_bool p100 + (of_bool p400 :: int)"
  by (cases p4; cases p100; cases p400) auto

lemma year_start_Suc: "year_start (y + 1) = year_start y + 365 + of_bool (isleap y)"
proof -
  have m: "(y + 1) mod 400 = 0 \<Longrightarrow> (y + 1) mod 100 = 0" "(y + 1) mod 100 = 0 \<Longrightarrow> (y + 1) mod 4 = 0"
    using mod_mod_cancel [of 100 400 "y + 1"] mod_mod_cancel [of 4 100 "y + 1"] by auto
  have d: "(y + 1) div 4 = y div 4 + of_bool ((y + 1) mod 4 = 0)"
    "(y + 1) div 100 = y div 100 + of_bool ((y + 1) mod 100 = 0)"
    "(y + 1) div 400 = y div 400 + of_bool ((y + 1) mod 400 = 0)"
    by (rule div_Suc_int, simp)+
  have "365 * (y + 1) + (a + p) - (b + q) + (c + r) = 365 * y + a - b + c + 365 + (p - q + r)" for a b c p q r :: int
    by (simp add: algebra_simps)
  moreover have "of_bool ((y + 1) mod 4 = 0 \<and> ((y + 1) mod 100 \<noteq> 0 \<or> (y + 1) mod 400 = 0)) =
      of_bool ((y + 1) mod 4 = 0) - of_bool ((y + 1) mod 100 = 0) + (of_bool ((y + 1) mod 400 = 0) :: int)"
    by (rule leap_count) (erule m)+
  ultimately show ?thesis unfolding year_start_def isleap_iff d by metis
qed

lemma year_start_400: "year_start (y + 400 * b) = year_start y + 146097 * b"
proof -
  have "(y + 400 * b) div 4 = y div 4 + 100 * b" "(y + 400 * b) div 100 = y div 100 + 4 * b"
    "(y + 400 * b) div 400 = y div 400 + b"
    using div_mult_self1 [of 4 y "100 * b"] div_mult_self1 [of 100 y "4 * b"] div_mult_self1 [of 400 y b]
    by (simp_all add: mult.commute)
  then show ?thesis by (simp add: year_start_def)
qed

lemma year_start_0 [simp]: "year_start 0 = 0"
  by (simp add: year_start_def)

lemma isleap_400: "isleap (y - b * 400) = isleap y"
proof -
  have "(y - b * 400 + 1) mod k = (y + 1) mod k" if "k dvd 400" for k
    using that by (simp add: mod_eq_dvd_iff)
  from this [of 4] this [of 100] this [of 400] show ?thesis by (simp add: isleap_iff)
qed

definition year_days :: "int \<Rightarrow> int" where
  "year_days y = 365 + of_bool (isleap y)"

lemma year_days_bounds: "365 \<le> year_days y" "year_days y \<le> 366"
  by (simp_all add: year_days_def)

lemma year_start_less: "y < z \<Longrightarrow> year_start y + year_days y \<le> year_start z"
proof -
  have mono: "year_start a \<le> year_start (a + int n)" for a n
  proof (induction n)
    case (Suc n)
    have "a + int (Suc n) = (a + int n) + 1" by simp
    then show ?case using Suc year_start_Suc [of "a + int n"] by (simp only:) simp
  qed simp
  assume "y < z"
  then have "z = (y + 1) + int (nat (z - y - 1))" by simp
  then obtain n where "z = (y + 1) + int n" by blast
  then show ?thesis using mono [of "y + 1" n] by (simp add: year_start_Suc year_days_def)
qed

lemma year_unique:
  assumes "year_start y + a = year_start z + b" "0 \<le> a" "a < year_days y" "0 \<le> b" "b < year_days z"
  shows "y = z" "a = b"
proof -
  show "y = z" using assms year_start_less [of y z] year_start_less [of z y] by (cases y z rule: linorder_cases) auto
  then show "a = b" using assms(1) by simp
qed

section \<open>Days to dates and back\<close>

lemma ymd_years_down_works:
  "\<exists>y' a'. ymd_years_down y a = Some (y', a') \<and> 0 \<le> a' \<and> year_start y' + a' = year_start y + a"
proof (induction y a rule: ymd_years_down.induct)
  case (1 y a)
  show ?case
  proof (cases "a < 0")
    case True
    then obtain y' a' where "ymd_years_down (y - 1) (a + (365 + of_bool (isleap (y - 1)))) = Some (y', a')" "0 \<le> a'"
      "year_start y' + a' = year_start (y - 1) + (a + (365 + of_bool (isleap (y - 1))))"
      using 1 [OF True] by auto
    moreover have "year_start y = year_start (y - 1) + 365 + of_bool (isleap (y - 1))"
      using year_start_Suc [of "y - 1"] by simp
    ultimately show ?thesis using True by (simp add: ymd_years_down.simps)
  qed (simp add: ymd_years_down.simps)
qed

lemma ymd_years_up_works:
  "0 \<le> a \<Longrightarrow> \<exists>y' a'. ymd_years_up y a = Some (y', a') \<and> 0 \<le> a' \<and> a' < year_days y' \<and>
     year_start y' + a' = year_start y + a"
proof (induction y a rule: ymd_years_up.induct)
  case (1 y a)
  show ?case
  proof (cases "year_days y \<le> a")
    case True
    have "365 + of_bool (isleap y) \<le> a" using True by (simp add: year_days_def)
    from 1(1) [OF CFDaysAfterMonth_0 this] obtain y' a' where
      "ymd_years_up (y + 1) (a - (365 + of_bool (isleap y))) = Some (y', a')" "0 \<le> a'" "a' < year_days y'"
      "year_start y' + a' = year_start (y + 1) + (a - (365 + of_bool (isleap y)))"
      using True by (auto simp: year_days_def)
    then show ?thesis using True by (simp add: ymd_years_up.simps [of y a] year_days_def year_start_Suc)
  next
    case False
    then show ?thesis using 1(2) by (simp add: ymd_years_up.simps [of y a] year_days_def)
  qed
qed

text \<open>The day of the year on which a month starts, for months 1 to 13.\<close>

definition month_start :: "bool \<Rightarrow> int \<Rightarrow> int" where
  "month_start leap m = daysBeforeMonth ! nat m + of_bool (2 < m \<and> leap)"

lemma CFDaysBeforeMonth_start: "1 \<le> m \<Longrightarrow> m \<le> 13 \<Longrightarrow> CFDaysBeforeMonth m y leap = Some (month_start leap m)"
  by (simp add: CFDaysBeforeMonth_def table_def month_start_def daysBeforeMonth_def)

lemma month_cases:
  "1 \<le> (m::int) \<Longrightarrow> m \<le> 12 \<Longrightarrow> m = 1 \<or> m = 2 \<or> m = 3 \<or> m = 4 \<or> m = 5 \<or> m = 6 \<or> m = 7 \<or> m = 8 \<or> m = 9 \<or> m = 10 \<or> m = 11 \<or> m = 12"
  by presburger

lemma month_start_values [simp]:
  "month_start leap 1 = 0" "month_start leap 2 = 31" "month_start leap 3 = 59 + of_bool leap"
  "month_start leap 4 = 90 + of_bool leap" "month_start leap 5 = 120 + of_bool leap"
  "month_start leap 6 = 151 + of_bool leap" "month_start leap 7 = 181 + of_bool leap"
  "month_start leap 8 = 212 + of_bool leap" "month_start leap 9 = 243 + of_bool leap"
  "month_start leap 10 = 273 + of_bool leap" "month_start leap 11 = 304 + of_bool leap"
  "month_start leap 12 = 334 + of_bool leap" "month_start leap 13 = 365 + of_bool leap"
  by (simp_all add: month_start_def daysBeforeMonth_def)

lemma CFDaysInMonth_length:
  "1 \<le> m \<Longrightarrow> m \<le> 12 \<Longrightarrow> CFDaysInMonth m y leap = Some (month_start leap (m + 1) - month_start leap m)"
  by (drule (1) month_cases) (auto simp: CFDaysInMonth_def table_def daysInMonth_def)

lemma month_length_bounds:
  "1 \<le> m \<Longrightarrow> m \<le> 12 \<Longrightarrow> 28 \<le> month_start leap (m + 1) - month_start leap m"
  "1 \<le> m \<Longrightarrow> m \<le> 12 \<Longrightarrow> month_start leap (m + 1) - month_start leap m \<le> 31"
  by (drule (1) month_cases; auto)+

lemma month_start_less: "1 \<le> m \<Longrightarrow> m < k \<Longrightarrow> k \<le> 13 \<Longrightarrow> month_start leap (m + 1) \<le> month_start leap k"
proof (induction "nat (k - m - 1)" arbitrary: k)
  case 0
  then have "k = m + 1" by simp
  then show ?case by simp
next
  case (Suc n)
  then have "month_start leap (m + 1) \<le> month_start leap (k - 1)" by (intro Suc.hyps(1)) auto
  moreover have "28 \<le> month_start leap k - month_start leap (k - 1)"
    using month_length_bounds(1) [of "k - 1" leap] Suc by simp
  ultimately show ?case by simp
qed

lemma month_unique:
  assumes "1 \<le> m" "m \<le> 12" "1 \<le> k" "k \<le> 12" "month_start leap m \<le> a" "a < month_start leap (m + 1)"
    "month_start leap k \<le> a" "a < month_start leap (k + 1)"
  shows "m = k"
  using assms month_start_less [of m k leap] month_start_less [of k m leap] by (cases m k rule: linorder_cases) auto

lemma ymd_month_works:
  assumes "1 \<le> m" "m \<le> 12" "month_start leap m \<le> a" "a < 365 + of_bool leap"
  shows "\<exists>m'. ymd_month y leap a m = Some m' \<and> 1 \<le> m' \<and> m' \<le> 12 \<and>
    month_start leap m' \<le> a \<and> a < month_start leap (m' + 1)"
  using assms
proof (induction "nat (12 - m)" arbitrary: m)
  case 0
  then have "m = 12" by simp
  then show ?case using 0 by (simp add: ymd_month.simps [of y leap a 12] CFDaysBeforeMonth_start)
next
  case (Suc n)
  have d: "CFDaysBeforeMonth (m + 1) y leap = Some (month_start leap (m + 1))"
    using Suc by (intro CFDaysBeforeMonth_start) auto
  show ?case
  proof (cases "month_start leap (m + 1) \<le> a")
    case True
    then have "\<exists>m'. ymd_month y leap a (m + 1) = Some m' \<and> 1 \<le> m' \<and> m' \<le> 12 \<and>
        month_start leap m' \<le> a \<and> a < month_start leap (m' + 1)"
      using Suc by (intro Suc.hyps(1)) auto
    then show ?thesis using True d by (simp add: ymd_month.simps [of y leap a m])
  next
    case False
    then show ?thesis using d Suc.prems by (simp add: ymd_month.simps [of y leap a m])
  qed
qed

lemma month_guess:
  assumes "0 \<le> a" "a < 365 + of_bool leap"
  shows "1 \<le> a sdiv 33 + 1" "a sdiv 33 + 1 \<le> 12" "month_start leap (a sdiv 33 + 1) \<le> a"
proof -
  have q: "a sdiv 33 = a div 33" using assms(1) by (simp add: signed_divide_int_eq_divide_int sgn_if)
  have "a < 366" using assms(2) by (cases leap) auto
  then have r: "0 \<le> a div 33" "a div 33 \<le> 11" using assms(1) by auto
  then show "1 \<le> a sdiv 33 + 1" "a sdiv 33 + 1 \<le> 12" using q by auto
  have le: "33 * (a div 33) \<le> a" by simp
  have "month_start leap (k + 1) \<le> 33 * k" if "0 \<le> k" "k \<le> 11" for k
    using month_cases [of "k + 1"] that by (cases leap) (auto simp: add_eq_0_iff algebra_simps)
  from this [OF r] show "month_start leap (a sdiv 33 + 1) \<le> a" using le q by simp
qed

text \<open>A Gregorian date: year (2001 is year 0), month and day exist.\<close>

definition valid_ymd :: "int \<Rightarrow> int \<Rightarrow> int \<Rightarrow> bool" where
  "valid_ymd y m d \<longleftrightarrow> 1 \<le> m \<and> m \<le> 12 \<and> 1 \<le> d \<and>
     d \<le> month_start (isleap y) (m + 1) - month_start (isleap y) m"

definition day_number :: "int \<Rightarrow> int \<Rightarrow> int \<Rightarrow> int" where
  "day_number y m d = year_start y + month_start (isleap y) m + d - 1"

lemma CFYMDFromAbsolute_works:
  "\<exists>y m d. CFYMDFromAbsolute n = Some (y, m, d) \<and> valid_ymd y m d \<and> day_number y m d = n"
proof -
  let ?b = "n sdiv 146097"
  obtain y0 a0 where s0: "ymd_years_down (?b * 400) (n - ?b * 146097) = Some (y0, a0)" "0 \<le> a0"
    "year_start y0 + a0 = year_start (?b * 400) + (n - ?b * 146097)"
    using ymd_years_down_works by blast
  obtain y a where s: "ymd_years_up y0 a0 = Some (y, a)" "0 \<le> a" "a < year_days y" "year_start y + a = year_start y0 + a0"
    using ymd_years_up_works [OF s0(2)] by blast
  have n: "year_start y + a = n" using s0(3) s(4) year_start_400 [of 0 ?b] by (simp add: mult.commute)
  have a: "a < 365 + of_bool (isleap y)" using s(3) by (simp add: year_days_def)
  obtain m where m: "ymd_month y (isleap y) a (a sdiv 33 + 1) = Some m" "1 \<le> m" "m \<le> 12"
    "month_start (isleap y) m \<le> a" "a < month_start (isleap y) (m + 1)"
    using ymd_month_works [OF month_guess [OF s(2) a] a] by blast
  have "CFYMDFromAbsolute n = Some (y, m, a - month_start (isleap y) m + 1)"
    using s0(1) s(1) m by (simp add: CFYMDFromAbsolute_def CFDaysBeforeMonth_start)
  then show ?thesis using m n by (auto simp: valid_ymd_def day_number_def)
qed

lemma day_number_unique:
  assumes "valid_ymd y m d" "valid_ymd y' m' d'" "day_number y m d = day_number y' m' d'"
  shows "y = y' \<and> m = m' \<and> d = d'"
proof -
  have in_year: "0 \<le> month_start (isleap z) k + e - 1" "month_start (isleap z) k + e - 1 < year_days z"
    if "valid_ymd z k e" for z k e
  proof -
    have "month_start (isleap z) 1 \<le> month_start (isleap z) k"
      using month_start_less [of 1 k "isleap z"] that by (cases "k = 1") (auto simp: valid_ymd_def)
    then show "0 \<le> month_start (isleap z) k + e - 1" using that by (simp add: valid_ymd_def)
    have "month_start (isleap z) (k + 1) \<le> month_start (isleap z) 13"
      using month_start_less [of k 13 "isleap z"] that by (simp add: valid_ymd_def)
    then show "month_start (isleap z) k + e - 1 < year_days z" using that by (simp add: valid_ymd_def year_days_def)
  qed
  have y: "y = y'" "month_start (isleap y) m + d - 1 = month_start (isleap y') m' + d' - 1"
    using year_unique [of y "month_start (isleap y) m + d - 1" y' "month_start (isleap y') m' + d' - 1"]
      in_year [OF assms(1)] in_year [OF assms(2)] assms(3) by (auto simp: day_number_def algebra_simps)
  then have "m = m'"
    using month_unique [of m m' "isleap y" "month_start (isleap y) m + d - 1"] assms(1,2) by (auto simp: valid_ymd_def)
  then show ?thesis using y by simp
qed

text \<open>The sums of the days are exact as long as they stay within 53 bits.\<close>

lemma dbl_int [simp]: "\<bar>k\<bar> \<le> 2 ^ 53 \<Longrightarrow> dbl (of_int k) = of_int k"
proof (rule dbl_exact [of 0])
  assume "\<bar>k\<bar> \<le> 2 ^ 53"
  then have "rat_of_int \<bar>k\<bar> \<le> rat_of_int (2 ^ 53)" by (simp only: of_int_le_iff)
  then show "exact_at 0 (of_int k)" by (simp add: exact_at_def)
qed

lemma ymd_sum_neg_works:
  "\<bar>a\<bar> + 366 * int n \<le> 2 ^ 53 \<Longrightarrow> ymd_sum_neg idx n (of_int a) = Some (of_int (a - (year_start (idx + int n) - year_start idx)))"
proof (induction n arbitrary: idx a)
  case (Suc n)
  define d :: int where "d = 365 + of_bool (isleap idx)"
  have d: "0 \<le> d" "d \<le> 366" by (simp_all add: d_def)
  have b: "\<bar>a - d\<bar> + 366 * int n \<le> 2 ^ 53" using Suc.prems d by simp
  have "dbl (of_int a - of_int d) = of_int (a - d)" using b dbl_int [of "a - d"] by simp
  then have "ymd_sum_neg idx (Suc n) (of_int a) = ymd_sum_neg (idx + 1) n (of_int (a - d))" by (simp add: d_def)
  also have "\<dots> = Some (of_int (a - d - (year_start (idx + 1 + int n) - year_start (idx + 1))))" by (rule Suc.IH [OF b])
  also have "a - d - (year_start (idx + 1 + int n) - year_start (idx + 1)) = a - (year_start (idx + int (Suc n)) - year_start idx)"
    by (simp add: year_start_Suc d_def add.assoc)
  finally show ?case .
qed simp

lemma ymd_sum_pos_works:
  "\<bar>a\<bar> + 366 * int n \<le> 2 ^ 53 \<Longrightarrow> ymd_sum_pos idx n (of_int a) = Some (of_int (a + (year_start (idx + int n) - year_start idx)))"
proof (induction n arbitrary: idx a)
  case (Suc n)
  define d :: int where "d = 365 + of_bool (isleap idx)"
  have d: "0 \<le> d" "d \<le> 366" by (simp_all add: d_def)
  have b: "\<bar>a + d\<bar> + 366 * int n \<le> 2 ^ 53" using Suc.prems d by simp
  have "dbl (of_int a + of_int d) = of_int (a + d)" using b dbl_int [of "a + d"] by simp
  then have "ymd_sum_pos idx (Suc n) (of_int a) = ymd_sum_pos (idx + 1) n (of_int (a + d))" by (simp add: d_def)
  also have "\<dots> = Some (of_int (a + d + (year_start (idx + 1 + int n) - year_start (idx + 1))))" by (rule Suc.IH [OF b])
  also have "a + d + (year_start (idx + 1 + int n) - year_start (idx + 1)) = a + (year_start (idx + int (Suc n)) - year_start idx)"
    by (simp add: year_start_Suc d_def add.assoc)
  finally show ?case .
qed simp

lemma year_start_bounds: "\<bar>year_start y\<bar> \<le> 366 * \<bar>y\<bar> + 3"
proof -
  have "y - 3 \<le> 4 * (y div 4)" "4 * (y div 4) \<le> y" "y - 99 \<le> 100 * (y div 100)" "100 * (y div 100) \<le> y"
    "y - 399 \<le> 400 * (y div 400)" "400 * (y div 400) \<le> y" by presburger+
  then show ?thesis by (simp add: year_start_def abs_if)
qed

lemma month_start_range: "1 \<le> m \<Longrightarrow> m \<le> 12 \<Longrightarrow> 0 \<le> month_start leap m \<and> month_start leap m \<le> 335"
  by (drule (1) month_cases) auto

lemma sdiv_400: "\<bar>y sdiv 400\<bar> * 400 \<le> \<bar>y\<bar>" "\<bar>y - y sdiv 400 * 400\<bar> < (400 :: int)"
proof -
  define q where "q = \<bar>y\<bar> div 400"
  have "\<bar>y\<bar> = q * 400 + \<bar>y\<bar> mod 400" "0 \<le> \<bar>y\<bar> mod 400" "\<bar>y\<bar> mod 400 < 400" by (simp_all add: q_def)
  then have q: "0 \<le> q" "q * 400 \<le> \<bar>y\<bar>" "\<bar>y\<bar> < q * 400 + 400" by (simp_all add: q_def)
  have "y sdiv 400 = sgn y * q" by (simp add: signed_divide_int_def q_def)
  then show "\<bar>y sdiv 400\<bar> * 400 \<le> \<bar>y\<bar>" "\<bar>y - y sdiv 400 * 400\<bar> < 400" using q by (cases y "0 :: int" rule: linorder_cases; simp)+
qed

lemma CFAbsoluteFromYMD_works:
  assumes m: "1 \<le> m" "m \<le> 12" and y: "\<bar>y\<bar> \<le> 2 ^ 42" and d: "\<bar>d\<bar> \<le> 2 ^ 32"
  shows "CFAbsoluteFromYMD y m d = Some (of_int (day_number y m d))"
proof -
  let ?b = "y sdiv 400"
  let ?y = "y - ?b * 400"
  have ys: "year_start y = year_start ?y + 146097 * ?b" using year_start_400 [of ?y ?b] by simp
  have b: "\<bar>?b\<bar> * 400 \<le> \<bar>y\<bar>" "\<bar>?y\<bar> < 400" using sdiv_400 by auto
  have "B * 146097 \<le> 2 ^ 51 \<and> B \<le> 2 ^ 42" if "B * 400 \<le> Y" "Y \<le> 2 ^ 42" "0 \<le> B" for B Y :: int using that by simp
  from this [OF b(1) y] have bb: "\<bar>?b * 146097\<bar> \<le> 2 ^ 51" "\<bar>?b\<bar> \<le> 2 ^ 42" by (simp_all add: abs_mult)
  have b0: "dbl (dbl (of_int ?b) * 146097) = of_int (?b * 146097)"
    using dbl_int [of ?b] dbl_int [of "?b * 146097"] bb by simp
  have sum: "(if ?y < 0 then ymd_sum_neg ?y (nat (- ?y)) (of_int (?b * 146097)) else ymd_sum_pos 0 (nat ?y) (of_int (?b * 146097))) = Some (of_int (year_start y))"
  proof (cases "?y < 0")
    case True
    have "\<bar>?b * 146097\<bar> + 366 * int (nat (- ?y)) \<le> 2 ^ 53" using b(2) bb(1) True by simp
    then have "ymd_sum_neg ?y (nat (- ?y)) (of_int (?b * 146097)) = Some (of_int (?b * 146097 - (year_start (?y + int (nat (- ?y))) - year_start ?y)))"
      by (rule ymd_sum_neg_works)
    then show ?thesis using True ys by (simp del: of_int_diff of_int_add of_int_mult)
  next
    case False
    have "\<bar>?b * 146097\<bar> + 366 * int (nat ?y) \<le> 2 ^ 53" using b(2) bb(1) False by simp
    then have "ymd_sum_pos 0 (nat ?y) (of_int (?b * 146097)) = Some (of_int (?b * 146097 + (year_start (0 + int (nat ?y)) - year_start 0)))"
      by (rule ymd_sum_pos_works)
    then show ?thesis using False ys by (simp del: of_int_diff of_int_add of_int_mult)
  qed
  have ms: "0 \<le> month_start (isleap y) m" "month_start (isleap y) m \<le> 335" using month_start_range [OF m] by blast+
  have "\<bar>D\<bar> \<le> 2 ^ 53" if "\<bar>S\<bar> \<le> 366 * Y + 3" "Y \<le> 2 ^ 42" "0 \<le> M" "M \<le> 335" "\<bar>d\<bar> \<le> 2 ^ 32" "D = S + M + d - 1" for S Y M D :: int
    using that by (simp add: abs_le_iff)
  from this [OF year_start_bounds [of y] y ms d] have dn: "\<bar>day_number y m d\<bar> \<le> 2 ^ 53" by (simp add: day_number_def)
  have "of_int (year_start y) + of_int (month_start (isleap y) m + d - 1) = rat_of_int (day_number y m d)" by (simp add: day_number_def)
  then have "dbl (of_int (year_start y) + of_int (month_start (isleap y) m + d - 1)) = of_int (day_number y m d)" using dbl_int [OF dn] by (simp only:)
  moreover have "CFDaysBeforeMonth m ?y (isleap ?y) = Some (month_start (isleap y) m)" using m by (simp add: CFDaysBeforeMonth_start isleap_400)
  ultimately show ?thesis unfolding CFAbsoluteFromYMD_def Let_def b0 sum by (simp only: bind.bind_lunit)
qed

section \<open>The time of day\<close>

lemma floor_div_rat:
  assumes k: "0 < k"
  shows "\<lfloor>x / of_int k\<rfloor> = \<lfloor>x :: rat\<rfloor> div k"
proof (rule floor_unique)
  let ?q = "\<lfloor>x\<rfloor> div k"
  have e: "\<lfloor>x\<rfloor> = ?q * k + \<lfloor>x\<rfloor> mod k" "0 \<le> \<lfloor>x\<rfloor> mod k" "\<lfloor>x\<rfloor> mod k < k" using k by simp_all
  have "?q * k \<le> \<lfloor>x\<rfloor>" using e by linarith
  then have "of_int (?q * k) \<le> x" by (simp only: le_floor_iff)
  then show "of_int ?q \<le> x / of_int k" using k by (simp add: pos_le_divide_eq)
  have "\<lfloor>x\<rfloor> < ?q * k + k" using e by linarith
  then have "x < of_int (?q * k + k)" by (simp only: floor_less_iff)
  then show "x / of_int k < of_int ?q + 1" using k by (simp add: pos_divide_less_eq distrib_right)
qed

text \<open>
  The times with which the code computes exactly: multiples of \<open>1 / 2 ^ j\<close> seconds that need, with a day
  added, no more than 53 bits.  Whole seconds are exact for 285 million years.
\<close>

definition time_exact :: "nat \<Rightarrow> rat \<Rightarrow> bool" where
  "time_exact j t \<longleftrightarrow> on_grid j t \<and> (\<bar>t\<bar> + 86400) * 2 ^ j \<le> 2 ^ 53"

lemma time_exact_near:
  assumes "time_exact j t" "on_grid j x" "\<bar>x\<bar> \<le> \<bar>t\<bar> + 86400"
  shows "exact_at j x"
proof -
  have "\<bar>x\<bar> * 2 ^ j \<le> (\<bar>t\<bar> + 86400) * 2 ^ j" using assms(3) by (intro mult_right_mono) simp_all
  also have "\<dots> \<le> 2 ^ 53" using assms(1) unfolding time_exact_def by blast
  finally show ?thesis using assms(2) unfolding exact_at_def by blast
qed

lemma time_exact_dbl: "time_exact j t \<Longrightarrow> on_grid j x \<Longrightarrow> \<bar>x\<bar> \<le> \<bar>t\<bar> + 86400 \<Longrightarrow> dbl x = x"
  by (rule dbl_exact [OF time_exact_near])

lemma time_exact_less:
  assumes "time_exact j t"
  shows "\<bar>t\<bar> * 2 ^ j < 2 ^ 53" "\<bar>t\<bar> + 86400 \<le> 2 ^ 53"
proof -
  have "1 * 86400 \<le> (2 :: rat) ^ j * 86400" by (intro mult_right_mono) simp_all
  moreover have "\<bar>t\<bar> * 2 ^ j + 2 ^ j * 86400 \<le> 2 ^ 53" using assms by (simp add: time_exact_def algebra_simps)
  ultimately show "\<bar>t\<bar> * 2 ^ j < 2 ^ 53" by linarith
  have "(\<bar>t\<bar> + 86400) * 1 \<le> (\<bar>t\<bar> + 86400) * 2 ^ j" by (intro mult_left_mono) simp_all
  also have "\<dots> \<le> 2 ^ 53" using assms unfolding time_exact_def by blast
  finally show "\<bar>t\<bar> + 86400 \<le> 2 ^ 53" by simp
qed

lemma time_exact_floor: "time_exact j t \<Longrightarrow> 0 < m \<Longrightarrow> \<lfloor>dbl (t / of_int m)\<rfloor> = \<lfloor>t / of_int m\<rfloor>"
  by (rule floor_dbl_div [OF _ time_exact_less(1)]) (simp_all only: time_exact_def)

lemma floor_quotient_bound:
  assumes "0 < m"
  shows "\<bar>of_int \<lfloor>t / of_int m\<rfloor> * of_int m :: rat\<bar> \<le> \<bar>t\<bar> + of_int m" "\<bar>of_int \<lfloor>t / of_int m\<rfloor> :: rat\<bar> \<le> \<bar>t\<bar> + 1"
proof -
  let ?n = "rat_of_int \<lfloor>t / of_int m\<rfloor>"
  have m: "1 \<le> rat_of_int m" using assms by simp
  have "?n \<le> t / of_int m" "t / of_int m < ?n + 1" by linarith+
  then have b: "?n * of_int m \<le> t" "t < (?n + 1) * of_int m" using assms by (simp_all only: pos_le_divide_eq pos_divide_less_eq of_int_0_less_iff)
  then show 1: "\<bar>?n * of_int m\<bar> \<le> \<bar>t\<bar> + of_int m" unfolding distrib_right mult_1 using m by linarith
  have "\<bar>t / of_int m\<bar> * 1 \<le> \<bar>t / of_int m\<bar> * of_int m" using m by (intro mult_left_mono) simp_all
  then have "\<bar>t / of_int m\<bar> \<le> \<bar>t\<bar>" using assms by (simp add: abs_divide)
  then show "\<bar>?n\<bar> \<le> \<bar>t\<bar> + 1" using \<open>?n \<le> t / of_int m\<close> \<open>t / of_int m < ?n + 1\<close> by linarith
qed

lemma CFDoubleModToInt_of_int:
  assumes k: "0 < k" "k \<le> 86400" and a: "\<bar>rat_of_int a\<bar> + 86400 \<le> 2 ^ 53"
  shows "CFDoubleModToInt (of_int a) k = Some (a mod k)"
proof -
  have t: "time_exact 0 (of_int a)" using a by (simp add: time_exact_def)
  have q: "\<lfloor>dbl (of_int a / of_int k)\<rfloor> = a div k" using time_exact_floor [OF t k(1)] floor_div_rat [OF k(1), of "of_int a"] by simp
  have "\<bar>rat_of_int (a div k) * of_int k\<bar> \<le> \<bar>of_int a\<bar> + of_int k"
    using floor_quotient_bound(1) [OF k(1), of "of_int a"] floor_div_rat [OF k(1), of "of_int a"] by simp
  moreover have "rat_of_int k \<le> 86400" using k(2) by simp
  ultimately have "dbl (rat_of_int (a div k) * of_int k) = of_int (a div k) * of_int k"
    using time_exact_dbl [OF t on_grid_int(1) [of 0 "a div k * k"]] by simp
  moreover have "rat_of_int a - of_int (a div k) * of_int k = of_int (a mod k)"
    by (simp flip: of_int_mult of_int_diff add: minus_div_mult_eq_mod)
  moreover have r: "0 \<le> a mod k" "a mod k < k" using k(1) by simp_all
  moreover have "\<bar>a mod k\<bar> \<le> 2 ^ 24" using r k(2) by (simp add: abs_if)
  moreover have "dbl (rat_of_int (a mod k)) = of_int (a mod k)" using dbl_int [of "a mod k"] r k(2) by simp
  ultimately show ?thesis using k(2) flt_int [of "a mod k"] by (simp add: CFDoubleModToInt_def q int32_def)
qed

lemma CFDoubleMod_60:
  assumes t: "time_exact j t"
  shows "CFDoubleMod t 60 = t - 60 * of_int \<lfloor>t / 60\<rfloor>"
proof -
  let ?n = "\<lfloor>t / 60\<rfloor>"
  have q: "\<lfloor>dbl (t / 60)\<rfloor> = ?n" using time_exact_floor [OF t, of 60] by simp
  have "\<bar>rat_of_int ?n * 60\<bar> \<le> \<bar>t\<bar> + 60" using floor_quotient_bound(1) [of 60 t] by simp
  then have e: "dbl (rat_of_int ?n * 60) = of_int ?n * 60" using time_exact_dbl [OF t on_grid_int(1) [of j "?n * 60"]] by simp
  have "of_int ?n \<le> t / 60" "t / 60 < of_int ?n + 1" by linarith+
  then have b: "0 \<le> t - of_int ?n * 60" "t - of_int ?n * 60 < 60" by auto
  have "on_grid j (t - of_int (?n * 60))" using t by (intro on_grid_arith) (simp_all add: time_exact_def del: of_int_mult)
  then have "dbl (t - of_int ?n * 60) = t - of_int ?n * 60" using time_exact_dbl [OF t, of "t - of_int (?n * 60)"] b by (simp add: abs_if)
  then show ?thesis using q e b by (simp add: CFDoubleMod_def Let_def mult.commute)
qed

text \<open>The fields of a time: days, hours, minutes and seconds.\<close>

lemma time_fields:
  "t = 86400 * of_int \<lfloor>t / 86400\<rfloor> + (3600 * of_int (\<lfloor>t / 3600\<rfloor> mod 24) + 60 * of_int (\<lfloor>t / 60\<rfloor> mod 60) + (t - 60 * of_int \<lfloor>t / 60\<rfloor>) :: rat)"
proof -
  have f1: "\<lfloor>t / 3600\<rfloor> = \<lfloor>t / 60\<rfloor> div 60" using floor_div_rat [of 60 "t / 60"] by simp
  have f2: "\<lfloor>t / 86400\<rfloor> = \<lfloor>t / 3600\<rfloor> div 24" using floor_div_rat [of 24 "t / 3600"] by simp
  have "F = 60 * G + m \<Longrightarrow> G = 24 * D + k \<Longrightarrow> 60 * F = 86400 * D + (3600 * k + 60 * m)" for F G D k m :: int
    by simp
  from this [of "\<lfloor>t / 60\<rfloor>" "\<lfloor>t / 3600\<rfloor>" "\<lfloor>t / 60\<rfloor> mod 60" "\<lfloor>t / 86400\<rfloor>" "\<lfloor>t / 3600\<rfloor> mod 24"]
  have "60 * \<lfloor>t / 60\<rfloor> = 86400 * \<lfloor>t / 86400\<rfloor> + (3600 * (\<lfloor>t / 3600\<rfloor> mod 24) + 60 * (\<lfloor>t / 60\<rfloor> mod 60))"
    unfolding f2 f1 by simp
  from arg_cong [OF this, of "of_int :: int \<Rightarrow> rat"] show ?thesis by simp
qed

lemma time_fields_unique:
  assumes "t = 86400 * of_int n + (3600 * of_int h + 60 * of_int mi + s)"
    "0 \<le> h" "h \<le> 23" "0 \<le> mi" "mi \<le> 59" "0 \<le> s" "s < (60 :: rat)"
  shows "\<lfloor>t / 86400\<rfloor> = n" "\<lfloor>t / 3600\<rfloor> mod 24 = h" "\<lfloor>t / 60\<rfloor> mod 60 = mi" "t - 60 * of_int \<lfloor>t / 60\<rfloor> = s"
proof -
  have 60: "\<lfloor>t / 60\<rfloor> = 1440 * n + 60 * h + mi"
    using assms(1,6,7) by (intro floor_unique) (simp_all add: field_simps)
  have 3600: "\<lfloor>t / 3600\<rfloor> = 24 * n + h"
    using floor_div_rat [of 60 "t / 60"] 60 assms(4,5) by simp
  show "\<lfloor>t / 86400\<rfloor> = n" using floor_div_rat [of 24 "t / 3600"] 3600 assms(2,3) by simp
  show "\<lfloor>t / 3600\<rfloor> mod 24 = h" unfolding 3600 using assms(2,3) by simp
  have "1440 * n + 60 * h + mi = mi + (24 * n + h) * 60" by simp
  then show "\<lfloor>t / 60\<rfloor> mod 60 = mi" unfolding 60 using assms(4,5) by (simp only: mod_mult_self1) simp
  show "t - 60 * of_int \<lfloor>t / 60\<rfloor> = s" using 60 assms(1) by simp
qed

section \<open>Gregorian dates\<close>

text \<open>A date all of whose fields are in range, within the years an \<open>int32_t\<close> can hold, and the time it names.\<close>

definition date_in_range :: "CFGregorianDate \<Rightarrow> bool" where
  "date_in_range g \<longleftrightarrow> valid_ymd (g_year g - 2001) (g_month g) (g_day g) \<and>
     - 2147481647 \<le> g_year g \<and> g_year g \<le> 2147483647 \<and>
     0 \<le> g_hour g \<and> g_hour g \<le> 23 \<and> 0 \<le> g_minute g \<and> g_minute g \<le> 59 \<and> 0 \<le> g_second g \<and> g_second g < 60"

definition date_time :: "CFGregorianDate \<Rightarrow> rat" where
  "date_time g = 86400 * of_int (day_number (g_year g - 2001) (g_month g) (g_day g)) +
     (3600 * of_int (g_hour g) + 60 * of_int (g_minute g) + g_second g)"

text \<open>A zone with the same offset all the time; \<open>NULL\<close> is offset 0.\<close>

fun fixed_zone :: "timezone \<Rightarrow> int \<Rightarrow> bool" where
  "fixed_zone None c \<longleftrightarrow> c = 0"
| "fixed_zone (Some offset) c \<longleftrightarrow> (\<forall>t. offset t = of_int c) \<and> \<bar>c\<bar> \<le> 86400"

lemma fixed_zone_bound: "fixed_zone tz c \<Longrightarrow> \<bar>rat_of_int c\<bar> \<le> 86400"
proof -
  assume "fixed_zone tz c"
  then have "\<bar>c\<bar> \<le> 86400" by (cases tz) auto
  then have "rat_of_int \<bar>c\<bar> \<le> rat_of_int 86400" by (simp only: of_int_le_iff)
  then show ?thesis by simp
qed

lemma wrap32_id: "- 2147483648 \<le> x \<Longrightarrow> x \<le> 2147483647 \<Longrightarrow> wrap32 x = x"
  by (simp add: wrap32_def)

lemma wrap8_id: "0 \<le> x \<Longrightarrow> x < 60 \<Longrightarrow> wrap8 x = x"
  by (simp add: wrap8_def)

lemma GetAbsoluteTime_value:
  assumes g: "1 \<le> g_month g" "g_month g \<le> 12" "1 \<le> g_day g" "g_day g \<le> 31" "- 2147481647 \<le> g_year g" "g_year g \<le> 2147483647"
      "0 \<le> g_hour g" "g_hour g \<le> 23" "0 \<le> g_minute g" "g_minute g \<le> 59" "0 \<le> g_second g" "g_second g < 60"
    and t: "time_exact j (date_time g)" and tz: "fixed_zone tz c"
  shows "CFGregorianDateGetAbsoluteTime g tz = Some (date_time g - of_int c)"
proof -
  let ?n = "day_number (g_year g - 2001) (g_month g) (g_day g)"
  let ?h = "3600 * rat_of_int (g_hour g)" and ?m = "60 * rat_of_int (g_minute g)"
  have i: "int32 (g_year g - 2001) = Some (g_year g - 2001)" using g by (simp add: int32_def)
  have a: "CFAbsoluteFromYMD (g_year g - 2001) (g_month g) (g_day g) = Some (of_int ?n)"
    using g by (intro CFAbsoluteFromYMD_works) (auto simp: abs_if)
  have "rat_of_int (g_hour g) \<le> of_int 23" "rat_of_int (g_minute g) \<le> of_int 59" unfolding of_int_le_iff using g by auto
  then have hm: "0 \<le> ?h" "?h \<le> 82800" "0 \<le> ?m" "?m \<le> 3540" using g(7,9) by simp_all
  have T: "date_time g = 86400 * of_int ?n + (?h + ?m + g_second g)" by (simp add: date_time_def)
  have s: "on_grid j (g_second g)"
  proof -
    have "on_grid j (date_time g - of_int (86400 * ?n + 3600 * g_hour g + 60 * g_minute g))"
      using t by (intro on_grid_arith) (simp_all add: time_exact_def del: of_int_add of_int_mult)
    then show ?thesis by (simp add: date_time_def)
  qed
  have int: "on_grid j (of_int (86400 * ?n))" "on_grid j (of_int (3600 * g_hour g))" "on_grid j (of_int (60 * g_minute g))"
    "on_grid j (of_int (3600 * g_hour g + 60 * g_minute g))" by (simp_all only: on_grid_int)
  then have gr: "on_grid j (86400 * of_int ?n)" "on_grid j ?h" "on_grid j ?m" "on_grid j (?h + ?m)" by simp_all
  note ex = time_exact_dbl [OF t]
  have e1: "dbl (86400 * rat_of_int ?n) = 86400 * of_int ?n" using hm g(11,12) T by (intro ex gr) linarith
  have e2: "dbl ?h = ?h" "dbl ?m = ?m" "dbl (?h + ?m) = ?h + ?m" using hm by (intro ex gr; linarith)+
  have e3: "dbl (?h + ?m + g_second g) = ?h + ?m + g_second g" using hm g(11,12) by (intro ex on_grid_arith gr s) linarith
  have e4: "dbl (date_time g) = date_time g" using t by (intro ex) (simp_all add: time_exact_def)
  have e5: "dbl (date_time g - of_int c) = date_time g - of_int c"
    using t fixed_zone_bound [OF tz] by (intro ex on_grid_arith) (auto simp: time_exact_def)
  have "CFGregorianDateGetAbsoluteTime g tz = Some (case tz of None \<Rightarrow> date_time g
      | Some offset \<Rightarrow> dbl (date_time g - offset (dbl (date_time g - offset (date_time g)))))"
    unfolding CFGregorianDateGetAbsoluteTime_def i bind.bind_lunit a Let_def e1 e2 e3 T [symmetric] e4 by (rule refl)
  then show ?thesis using tz e5 by (cases tz) simp_all
qed

text \<open>Reading a date from a time.\<close>

lemma GetGregorianDate_value:
  assumes t: "time_exact j t" and f: "date_fixedat t0 tz = t" and y: "CFYMDFromAbsolute \<lfloor>t / 86400\<rfloor> = Some (y, m, d)"
    and r: "- 2147483648 \<le> y + 2001" "y + 2001 \<le> 2147483647"
  shows "CFAbsoluteTimeGetGregorianDate t0 tz = Some \<lparr> g_year = y + 2001, g_month = m, g_day = d,
    g_hour = \<lfloor>t / 3600\<rfloor> mod 24, g_minute = \<lfloor>t / 60\<rfloor> mod 60, g_second = t - 60 * of_int \<lfloor>t / 60\<rfloor> \<rparr>"
proof -
  have fl: "\<lfloor>dbl (t / 86400)\<rfloor> = \<lfloor>t / 86400\<rfloor>" "\<lfloor>dbl (t / 3600)\<rfloor> = \<lfloor>t / 3600\<rfloor>" "\<lfloor>dbl (t / 60)\<rfloor> = \<lfloor>t / 60\<rfloor>"
    using time_exact_floor [OF t, of 86400] time_exact_floor [OF t, of 3600] time_exact_floor [OF t, of 60] by simp_all
  have b: "\<bar>rat_of_int \<lfloor>t / of_int k\<rfloor>\<bar> + 86400 \<le> 2 ^ 53" if k: "60 \<le> k" "k \<le> 86400" for k
  proof -
    let ?n = "\<bar>rat_of_int \<lfloor>t / of_int k\<rfloor>\<bar>"
    have "60 \<le> rat_of_int k" "rat_of_int k \<le> 86400" using k by simp_all
    moreover have "?n * 60 \<le> ?n * of_int k" using \<open>60 \<le> rat_of_int k\<close> by (intro mult_left_mono) simp_all
    moreover have "?n * of_int k \<le> \<bar>t\<bar> + of_int k" using floor_quotient_bound(1) [of k t] k by (simp add: abs_mult)
    ultimately show ?thesis using time_exact_less(2) [OF t] by simp
  qed
  have "\<bar>rat_of_int \<lfloor>t / 86400\<rfloor>\<bar> \<le> rat_of_int (2 ^ 53)" using b [of 86400] by simp
  then have "\<bar>\<lfloor>t / 86400\<rfloor>\<bar> \<le> 2 ^ 53" by (simp only: of_int_abs [symmetric] of_int_le_iff)
  moreover have "int64 n = Some n" if "\<bar>n\<bar> \<le> 2 ^ 53" for n using that by (simp add: int64_def abs_le_iff)
  ultimately have a: "date_absolute t = Some \<lfloor>t / 86400\<rfloor>" unfolding date_absolute_def fl by blast
  have h: "CFDoubleModToInt (of_int \<lfloor>t / 3600\<rfloor>) 24 = Some (\<lfloor>t / 3600\<rfloor> mod 24)"
    "CFDoubleModToInt (of_int \<lfloor>t / 60\<rfloor>) 60 = Some (\<lfloor>t / 60\<rfloor> mod 60)"
    using b [of 3600] b [of 60] by (simp_all add: CFDoubleModToInt_of_int)
  have w: "wrap8 (\<lfloor>t / 3600\<rfloor> mod 24) = \<lfloor>t / 3600\<rfloor> mod 24" "wrap8 (\<lfloor>t / 60\<rfloor> mod 60) = \<lfloor>t / 60\<rfloor> mod 60"
    using pos_mod_bound [of 24 "\<lfloor>t / 3600\<rfloor>"] by (auto intro!: wrap8_id)
  have "\<not> 2147483647 - 2001 < y" using r by simp
  then show ?thesis using r unfolding CFAbsoluteTimeGetGregorianDate_def Let_def f a fl
    by (simp only: bind.bind_lunit y prod.case h w if_False wrap32_id CFDoubleMod_60 [OF t])
qed

lemma date_fixedat_value:
  assumes "time_exact j t" "fixed_zone tz c"
  shows "date_fixedat (t - of_int c) tz = t"
proof -
  have "dbl t = t" using time_exact_dbl [OF assms(1), of t] assms(1) by (simp add: time_exact_def)
  then show ?thesis using assms(2) by (cases tz) (simp_all add: date_fixedat_def)
qed

lemma valid_day_range: "valid_ymd y m d \<Longrightarrow> 1 \<le> m \<and> m \<le> 12 \<and> 1 \<le> d \<and> d \<le> 31"
  using month_length_bounds(2) [of m "isleap y"] by (auto simp: valid_ymd_def)

lemma date_round_trip:
  assumes g: "date_in_range g" and t: "time_exact j (date_time g)" and tz: "fixed_zone tz c"
  shows "CFGregorianDateGetAbsoluteTime g tz = Some (date_time g - of_int c) \<and>
    CFAbsoluteTimeGetGregorianDate (date_time g - of_int c) tz = Some g"
proof
  have v: "valid_ymd (g_year g - 2001) (g_month g) (g_day g)" using g by (simp add: date_in_range_def)
  define n where "n = day_number (g_year g - 2001) (g_month g) (g_day g)"
  show "CFGregorianDateGetAbsoluteTime g tz = Some (date_time g - of_int c)"
    using valid_day_range [OF v] g by (intro GetAbsoluteTime_value [OF _ _ _ _ _ _ _ _ _ _ _ _ t tz]) (auto simp: date_in_range_def)
  have T: "date_time g = 86400 * of_int n + (3600 * of_int (g_hour g) + 60 * of_int (g_minute g) + g_second g)" by (simp add: date_time_def n_def)
  have f: "\<lfloor>date_time g / 86400\<rfloor> = n" "\<lfloor>date_time g / 3600\<rfloor> mod 24 = g_hour g" "\<lfloor>date_time g / 60\<rfloor> mod 60 = g_minute g"
      "date_time g - 60 * of_int \<lfloor>date_time g / 60\<rfloor> = g_second g"
    using time_fields_unique [OF T] g by (auto simp: date_in_range_def)
  obtain y m d where "CFYMDFromAbsolute n = Some (y, m, d)" "valid_ymd y m d" "day_number y m d = n"
    using CFYMDFromAbsolute_works by blast
  then have "CFYMDFromAbsolute \<lfloor>date_time g / 86400\<rfloor> = Some (g_year g - 2001, g_month g, g_day g)"
    using day_number_unique [OF _ v] n_def f(1) by auto
  from GetGregorianDate_value [OF t date_fixedat_value [OF t tz] this] g
  show "CFAbsoluteTimeGetGregorianDate (date_time g - of_int c) tz = Some g" unfolding f by (simp add: date_in_range_def)
qed

lemma time_round_trip:
  assumes t: "time_exact j t" and r: "year_start (- 2147483648) \<le> \<lfloor>t / 86400\<rfloor>" "\<lfloor>t / 86400\<rfloor> < year_start 2147481647"
  shows "\<exists>g. CFAbsoluteTimeGetGregorianDate t None = Some g \<and> date_in_range g \<and> date_time g = t \<and>
    day_number (g_year g - 2001) (g_month g) (g_day g) = \<lfloor>t / 86400\<rfloor>"
proof -
  obtain y m d where ymd: "CFYMDFromAbsolute \<lfloor>t / 86400\<rfloor> = Some (y, m, d)" "valid_ymd y m d" "day_number y m d = \<lfloor>t / 86400\<rfloor>"
    using CFYMDFromAbsolute_works by blast
  have "0 \<le> month_start (isleap y) m" using month_start_range valid_day_range [OF ymd(2)] by blast
  then have lo: "year_start y \<le> \<lfloor>t / 86400\<rfloor>" using ymd(2,3) by (simp add: day_number_def valid_ymd_def)
  have "month_start (isleap y) (m + 1) \<le> month_start (isleap y) 13"
    using month_start_less [of m 13 "isleap y"] ymd(2) by (simp add: valid_ymd_def)
  then have hi: "\<lfloor>t / 86400\<rfloor> < year_start y + year_days y" using ymd(2,3) by (simp add: day_number_def valid_ymd_def year_days_def)
  have y: "- 2147483648 \<le> y" "y < 2147481647"
    using r lo hi year_start_less [of y "- 2147483648"] year_start_less [of "2147481647" y] year_days_bounds(1) [of 2147481647]
    by (fastforce simp: not_le [symmetric])+
  let ?g = "\<lparr> g_year = y + 2001, g_month = m, g_day = d, g_hour = \<lfloor>t / 3600\<rfloor> mod 24, g_minute = \<lfloor>t / 60\<rfloor> mod 60,
    g_second = t - 60 * of_int \<lfloor>t / 60\<rfloor> \<rparr>"
  have "date_fixedat t None = t" using date_fixedat_value [OF t, of None 0] by simp
  then have "CFAbsoluteTimeGetGregorianDate t None = Some ?g" using GetGregorianDate_value [OF t _ ymd(1)] y by simp
  moreover have "of_int \<lfloor>t / 60\<rfloor> \<le> t / 60" "t / 60 < of_int \<lfloor>t / 60\<rfloor> + 1" by linarith+
  moreover have "\<lfloor>t / 3600\<rfloor> mod 24 \<le> 23" "\<lfloor>t / 60\<rfloor> mod 60 \<le> 59"
    using pos_mod_bound [of 24 "\<lfloor>t / 3600\<rfloor>"] pos_mod_bound [of 60 "\<lfloor>t / 60\<rfloor>"] by linarith+
  ultimately show ?thesis using ymd(2,3) y time_fields [of t, symmetric]
    by (intro exI [of _ ?g] conjI) (simp_all add: date_in_range_def date_time_def)
qed

section \<open>Days of the week and weeks of the year\<close>

lemma div_mod_7:
  fixes a q r :: int
  assumes "a = 7 * q + r" "0 \<le> r" "r < 7"
  shows "a div 7 = q" "a mod 7 = r"
  using assms by simp_all

lemma DayOfWeek_value:
  assumes "date_absolute (date_fixedat t tz) = Some n"
  shows "CFAbsoluteTimeGetDayOfWeek t tz = Some (n mod 7 + 1)"
proof -
  have "(if a < 0 then (a + 1) smod 7 + 7 else a smod 7 + 1) = a mod 7 + 1" for a :: int
  proof (cases "a < 0")
    case True
    define b where "b = - (a + 1)"
    have b: "0 \<le> b" "a + 1 = - b" using True by (simp_all add: b_def)
    have "a mod 7 = 6 - b mod 7"
    proof (rule div_mod_7(2))
      show "a = 7 * (- (b div 7 + 1)) + (6 - b mod 7)" using b(2) by (simp add: algebra_simps)
      have "0 \<le> b mod 7" "b mod 7 < 7" by simp_all
      then show "0 \<le> 6 - b mod 7" "6 - b mod 7 < 7" by linarith+
    qed
    moreover have "(a + 1) smod 7 = - (b mod 7)" using b by (simp add: smod_int_alt_def sgn_if)
    ultimately show ?thesis using True by simp
  qed (simp add: smod_int_alt_def sgn_if)
  then show ?thesis using assms by (simp add: CFAbsoluteTimeGetDayOfWeek_def)
qed

lemma DayOfYear_value:
  assumes "date_absolute (date_fixedat t tz) = Some n"
  shows "\<exists>y m d. CFYMDFromAbsolute n = Some (y, m, d) \<and> valid_ymd y m d \<and> day_number y m d = n \<and>
     CFAbsoluteTimeGetDayOfYear t tz = Some (n - year_start y + 1)"
proof -
  obtain y m d where "CFYMDFromAbsolute n = Some (y, m, d)" "valid_ymd y m d" "day_number y m d = n" using CFYMDFromAbsolute_works by blast
  then show ?thesis using assms
    by (simp add: CFAbsoluteTimeGetDayOfYear_def CFDaysBeforeMonth_start valid_ymd_def day_number_def)
qed

text \<open>The week counting of ISO 8601: a week belongs to the year of its Thursday.\<close>

definition iso_thursday :: "int \<Rightarrow> int" where
  "iso_thursday n = n - n mod 7 + 3"

lemma sdiv_nonneg: "0 \<le> a \<Longrightarrow> 0 < b \<Longrightarrow> a sdiv b = (a :: int) div b"
  by (auto simp: signed_divide_int_eq_divide_int sgn_if)

lemma week_shift:
  fixes w :: int
  assumes "0 \<le> w" "w \<le> 6"
  shows "(w + 1 - 11) smod 7 = (if w \<le> 3 then w - 3 else w - 10)"
proof -
  have "w = 0 \<or> w = 1 \<or> w = 2 \<or> w = 3 \<or> w = 4 \<or> w = 5 \<or> w = 6" using assms by presburger
  then show ?thesis by (elim disjE) (simp_all add: smod_int_alt_def)
qed

text \<open>
  With \<open>w\<close> the weekday of the first day of the year (Monday is 0) and \<open>k\<close> the day in the year
  (from 0): the Thursday of the week relative to the start of the year, and the code's formula.
\<close>

lemma week_formula:
  fixes s n w k :: int
  assumes n: "n = s + k" and w: "w = s mod 7" and k: "0 \<le> k" "7 - w \<le> k \<or> w \<le> 3"
  shows "(k + 1 + (w + 1 - 11) smod 7 + 2) sdiv 7 + 1 = (iso_thursday n - s) div 7 + 1"
proof -
  define q where "q = (k + w) div 7"
  have e: "n mod 7 = (k + w) mod 7" unfolding n w by (simp add: mod_add_left_eq mod_add_right_eq add.commute)
  have kw: "k + w = 7 * q + n mod 7" unfolding e q_def by simp
  have r: "0 \<le> n mod 7" "n mod 7 \<le> 6" "0 \<le> w" "w \<le> 6" using w by (auto simp: zle_diff1_eq [of _ 7, simplified])
  have th: "iso_thursday n - s = 7 * q + (3 - w)" unfolding iso_thursday_def using kw n by simp
  show ?thesis
  proof (cases "w \<le> 3")
    case True
    have "k + 1 + (w + 1 - 11) smod 7 + 2 = n mod 7 + q * 7" using True kw week_shift [OF r(3,4)] by simp
    moreover have "0 \<le> k + 1 + (w + 1 - 11) smod 7 + 2" using True k r week_shift [OF r(3,4)] by simp
    ultimately have "(k + 1 + (w + 1 - 11) smod 7 + 2) sdiv 7 = (n mod 7 + q * 7) div 7"
      by (metis sdiv_nonneg zero_less_numeral)
    then show ?thesis using th r True by simp
  next
    case False
    have "k + 1 + (w + 1 - 11) smod 7 + 2 = n mod 7 + (q - 1) * 7" using False kw week_shift [OF r(3,4)] by simp
    moreover have "0 \<le> k + 1 + (w + 1 - 11) smod 7 + 2" using False k r week_shift [OF r(3,4)] by simp
    ultimately have "(k + 1 + (w + 1 - 11) smod 7 + 2) sdiv 7 = (n mod 7 + (q - 1) * 7) div 7"
      by (metis sdiv_nonneg zero_less_numeral)
    moreover have "(n mod 7 + (q - 1) * 7) div 7 = q - 1"
      using r by (intro div_mod_7(1) [of _ _ "n mod 7"]) simp_all
    moreover have "(7 * q + (3 - w)) div 7 = q - 1" using r False by (intro div_mod_7(1) [of _ _ "10 - w"]) simp_all
    ultimately show ?thesis unfolding th by simp
  qed
qed

lemma thursday_before_year:
  fixes s n w k :: int
  assumes n: "n = s + k" and w: "w = s mod 7" and k: "0 \<le> k"
  shows "iso_thursday n < s \<longleftrightarrow> 4 \<le> w \<and> k < 7 - w"
proof -
  define q where "q = (k + w) div 7"
  have e: "n mod 7 = (k + w) mod 7" unfolding n w by (simp add: mod_add_left_eq mod_add_right_eq add.commute)
  have kw: "k + w = 7 * q + n mod 7" unfolding e q_def by simp
  have r: "0 \<le> n mod 7" "n mod 7 < 7" "0 \<le> w" "w < 7" using w by auto
  have th: "iso_thursday n - s = 7 * q + (3 - w)" unfolding iso_thursday_def using kw n by simp
  have "7 * q + (3 - w) < 0 \<longleftrightarrow> 4 \<le> w \<and> k < 7 - w"
    if "k + w = 7 * q + x" "0 \<le> x" "x < 7" "0 \<le> w" "w < 7" "0 \<le> k" for x
    using that by presburger
  from this [OF kw r k] show ?thesis using th by linarith
qed

lemma thursday_after_year:
  fixes e n w r :: int
  assumes n: "n = e - 1 - r" and w: "w = e mod 7" and r: "0 \<le> r"
  shows "e \<le> iso_thursday n \<longleftrightarrow> r \<le> 2 \<and> r < w \<and> w \<le> 3"
proof -
  define q where "q = (w - 1 - r) div 7"
  have "n mod 7 = (w - 1 - r) mod 7" unfolding n w by (simp add: mod_diff_left_eq diff_diff_eq)
  then have kw: "w - 1 - r = 7 * q + n mod 7" unfolding q_def by simp
  have b: "0 \<le> n mod 7" "n mod 7 < 7" "0 \<le> w" "w < 7" using w by auto
  have th: "iso_thursday n - e = 7 * q + 3 - w" unfolding iso_thursday_def using kw n by simp
  have "0 \<le> 7 * q + 3 - w \<longleftrightarrow> r \<le> 2 \<and> r < w \<and> w \<le> 3"
    if "w - 1 - r = 7 * q + x" "0 \<le> x" "x < 7" "0 \<le> w" "w < 7" "0 \<le> r" for x
    using that by presburger
  from this [OF kw b r] show ?thesis using th by linarith
qed

lemma valid_ymd_day_of_year:
  assumes "valid_ymd y m d"
  defines "k \<equiv> day_number y m d - year_start y"
  shows "0 \<le> k" "k < year_days y" "k = month_start (isleap y) m + d - 1"
    "m = 1 \<longleftrightarrow> k < 31" "m = 12 \<longleftrightarrow> year_days y - 31 \<le> k" "1 \<le> m" "m \<le> 12"
    "m = 12 \<Longrightarrow> 28 < d \<longleftrightarrow> year_days y - 1 - k \<le> 2"
proof -
  let ?l = "isleap y"
  show m: "1 \<le> m" "m \<le> 12" using assms(1) by (simp_all add: valid_ymd_def)
  have d: "1 \<le> d" "d \<le> month_start ?l (m + 1) - month_start ?l m" using assms(1) by (simp_all add: valid_ymd_def)
  show k: "k = month_start ?l m + d - 1" by (simp add: k_def day_number_def)
  have lo: "m = 1 \<or> 31 \<le> month_start ?l m" using month_start_less [of 1 m ?l] m by (cases "m = 1") auto
  have hi: "m = 12 \<or> month_start ?l (m + 1) \<le> 334 + of_bool ?l" using month_start_less [of m 12 ?l] m by (cases "m = 12") auto
  have yd: "year_days y = 365 + of_bool ?l" by (simp add: year_days_def)
  show "0 \<le> k" using k lo d by auto
  show "k < year_days y" using k hi d yd by auto
  show "m = 1 \<longleftrightarrow> k < 31" using k lo d by auto
  show "m = 12 \<longleftrightarrow> year_days y - 31 \<le> k" using k hi d yd by auto
  show "m = 12 \<Longrightarrow> 28 < d \<longleftrightarrow> year_days y - 1 - k \<le> 2" using k yd by auto
qed

lemma year_start_year_days: "year_start y + year_days y = year_start (y + 1)"
  by (simp add: year_start_Suc year_days_def)

text \<open>The year of a day, within the range in which the days are exact.\<close>

lemma day_number_year_bound:
  assumes v: "valid_ymd y m d"
  shows "\<bar>y\<bar> * 365 \<le> \<bar>day_number y m d\<bar> + 400"
proof -
  note r = valid_ymd_day_of_year(1,2) [OF v]
  have "y - 3 \<le> 4 * (y div 4)" "4 * (y div 4) \<le> y" "y - 99 \<le> 100 * (y div 100)" "100 * (y div 100) \<le> y"
    "y - 399 \<le> 400 * (y div 400)" "400 * (y div 400) \<le> y" by presburger+
  then have "0 \<le> y \<Longrightarrow> 365 * y - 4 \<le> year_start y" "y < 0 \<Longrightarrow> year_start y \<le> 365 * y + 4" by (simp_all add: year_start_def)
  then show ?thesis using r year_days_bounds(2) [of y] by (cases "0 \<le> y") simp_all
qed

lemma year_start_exact: "\<bar>y\<bar> \<le> 2 ^ 42 \<Longrightarrow> \<bar>rat_of_int (year_start y)\<bar> + 86400 \<le> 2 ^ 53"
proof -
  assume "\<bar>y\<bar> \<le> 2 ^ 42"
  then have "\<bar>year_start y\<bar> + 86400 \<le> 2 ^ 53" using year_start_bounds [of y] by simp
  then have "rat_of_int (\<bar>year_start y\<bar> + 86400) \<le> rat_of_int (2 ^ 53)" by (simp only: of_int_le_iff)
  then show ?thesis by simp
qed

text \<open>The three branches of the week computation.\<close>

lemma WeekOfYear_cases:
  assumes n: "date_absolute (date_fixedat t tz) = Some n" and b: "\<bar>n\<bar> \<le> 2 ^ 50" and ymd: "CFYMDFromAbsolute n = Some (y, m, d)" "valid_ymd y m d" "day_number y m d = n"
  shows "CFAbsoluteTimeGetWeekOfYear t tz = Some
    (if iso_thursday n < year_start y then 53
     else if year_start (y + 1) \<le> iso_thursday n then 1
     else (iso_thursday n - year_start y) div 7 + 1)"
proof -
  define s k e r w w' where "s = year_start y" and "k = n - s" and "e = year_start (y + 1)" and "r = year_days y - 1 - k"
    and "w = s mod 7" and "w' = e mod 7"
  note v = valid_ymd_day_of_year [OF ymd(2), unfolded ymd(3), folded s_def, folded k_def]
  note yb = day_number_year_bound [OF ymd(2)]
  have 0101: "CFAbsoluteFromYMD y 1 1 = Some (of_int s)" "CFAbsoluteFromYMD (y + 1) 1 1 = Some (of_int e)"
    using yb b unfolding ymd(3) by (simp_all add: CFAbsoluteFromYMD_works day_number_def s_def e_def)
  have dow: "CFDoubleModToInt (of_int s) 7 = Some w" "CFDoubleModToInt (of_int e) 7 = Some w'"
    using year_start_exact [of y] year_start_exact [of "y + 1"] yb b unfolding ymd(3)
    by (simp_all add: CFDoubleModToInt_of_int w_def w'_def s_def e_def)
  have wb: "0 \<le> w" "w < 7" "0 \<le> w'" "w' < 7" by (simp_all add: w_def w'_def)
  have before: "iso_thursday n < s \<longleftrightarrow> 4 \<le> w \<and> k < 7 - w"
    using thursday_before_year [of n s k w] v(1) by (simp add: w_def k_def)
  have n_e: "n = e - 1 - r" using year_start_year_days [of y] by (simp add: r_def k_def s_def e_def)
  have after: "e \<le> iso_thursday n \<longleftrightarrow> r \<le> 2 \<and> r < w' \<and> w' \<le> 3"
    using thursday_after_year [OF n_e w'_def] v(2) by (simp add: r_def)
  have c1: "m = 1 \<and> d < 4 \<and> (d < 4 \<and> w + 1 = 5 \<or> d < 3 \<and> w + 1 = 6 \<or> d < 2 \<and> w + 1 = 7) \<longleftrightarrow> iso_thursday n < s"
    unfolding before using v(3,4) wb by auto
  have c2: "m = 12 \<and> 28 < d \<and> (28 < d \<and> w' + 1 = 4 \<or> 29 < d \<and> w' + 1 = 3 \<or> 30 < d \<and> w' + 1 = 2) \<longleftrightarrow> e \<le> iso_thursday n"
  proof (cases "m = 12")
    case True
    then have "r = 31 - d" using v(3) by (simp add: r_def year_days_def)
    then show ?thesis unfolding after using True v(2) wb r_def by auto
  qed (use after v(5) r_def in auto)
  show ?thesis
  proof (cases "iso_thursday n < s")
    case True
    then have "m = 1 \<and> d < 4 \<and> (d < 4 \<and> w + 1 = 5 \<or> d < 3 \<and> w + 1 = 6 \<or> d < 2 \<and> w + 1 = 7)" using c1 by blast
    then show ?thesis using True n ymd(1) 0101(1) dow(1)
      by (simp only: CFAbsoluteTimeGetWeekOfYear_def s_def [symmetric] bind.bind_lunit prod.case Let_def) auto
  next
    case F1: False
    let ?x = "if m = 12 \<and> 28 < d then w' else 0"
    have c2': "m = 12 \<and> 28 < d \<and> (28 < d \<and> ?x + 1 = 4 \<or> 29 < d \<and> ?x + 1 = 3 \<or> 30 < d \<and> ?x + 1 = 2) \<longleftrightarrow> e \<le> iso_thursday n"
      using c2 by auto
    have x: "(if m = 12 \<and> 28 < d then CFAbsoluteFromYMD (y + 1) 1 1 \<bind> (\<lambda>a. CFDoubleModToInt a 7) else Some 0) = Some ?x"
      using 0101(2) dow(2) by simp
    have cb: "CFDaysBeforeMonth m y (isleap y) = Some (month_start (isleap y) m)"
      using v(6,7) by (intro CFDaysBeforeMonth_start) auto
    have W: "CFAbsoluteTimeGetWeekOfYear t tz = (if e \<le> iso_thursday n then Some 1
        else Some ((month_start (isleap y) m + d + (w + 1 - 11) smod 7 + 2) sdiv 7 + 1))"
      unfolding CFAbsoluteTimeGetWeekOfYear_def n ymd(1) bind.bind_lunit prod.case 0101(1) Let_def dow(1)
        c1 if_not_P [OF F1] x c2' cb bind.bind_lunit by (rule refl)
    have "7 - w \<le> k \<or> w \<le> 3" using F1 before by auto
    then have f: "(k + 1 + (w + 1 - 11) smod 7 + 2) sdiv 7 + 1 = (iso_thursday n - s) div 7 + 1"
      using v(1) by (intro week_formula [OF _ w_def]) (simp_all add: k_def)
    have "month_start (isleap y) m + d = k + 1" using v(3) by simp
    then show ?thesis using W F1 f by (simp only: s_def e_def if_False split: if_split) simp
  qed
qed

section \<open>Adding units\<close>

lemma units_months_down_works:
  assumes "- 2000000000 \<le> y" "y + max 0 m \<le> 2000000000"
  shows "units_months_down y m = Some (y + max 0 ((m - 1) div 12), m - 12 * max 0 ((m - 1) div 12))"
  using assms
proof (induction y m rule: units_months_down.induct)
  case (1 y m)
  show ?case
  proof (cases "12 < m")
    case True
    have i: "int32 (y + 1) = Some (y + 1)" using 1(2,3) True by (simp add: int32_def)
    have IH: "units_months_down (y + 1) (m - 12) =
        Some (y + 1 + max 0 ((m - 12 - 1) div 12), m - 12 - 12 * max 0 ((m - 12 - 1) div 12))"
      using 1(2,3) True by (intro 1(1) [OF True i]) auto
    have "(m - 1) div 12 = (m - 12 - 1) div 12 + 1" "0 \<le> (m - 12 - 1) div 12"
      using True div_add_self1 [of 12 "m - 12 - 1"] by simp_all
    then show ?thesis using True i IH by (simp add: units_months_down.simps [of y m])
  next
    case False
    then have "(m - 1) div 12 \<le> 0" using zdiv_mono1 [of "m - 1" 11 12] by simp
    then show ?thesis using False by (simp add: units_months_down.simps [of y m] max_def)
  qed
qed

lemma units_months_up_works:
  assumes "- 2000000000 + max 0 (1 - m) \<le> y" "y \<le> 2000000000" "m \<le> 12"
  shows "units_months_up y m = Some (y + (m - 1) div 12, (m - 1) mod 12 + 1)"
  using assms
proof (induction y m rule: units_months_up.induct)
  case (1 y m)
  show ?case
  proof (cases "m < 1")
    case True
    have i: "int32 (y - 1) = Some (y - 1)" using 1(2,3) True by (simp add: int32_def)
    have IH: "units_months_up (y - 1) (m + 12) = Some (y - 1 + (m + 12 - 1) div 12, (m + 12 - 1) mod 12 + 1)"
      using 1(2,3) True by (intro 1(1) [OF True i]) auto
    have "(m + 12 - 1) div 12 = (m - 1) div 12 + 1" "(m + 12 - 1) mod 12 = (m - 1) mod 12"
      using div_add_self2 [of 12 "m - 1"] mod_add_self2 [of "m - 1" 12] by (simp_all add: algebra_simps)
    then show ?thesis using True i IH by (simp add: units_months_up.simps [of y m])
  next
    case False
    then have "(m - 1) div 12 = 0" "(m - 1) mod 12 = m - 1" using 1(4) by simp_all
    then show ?thesis using False by (simp add: units_months_up.simps [of y m])
  qed
qed

text \<open>The two loops together normalise the month, whatever its sign.\<close>

lemma units_months_normalised:
  assumes "\<bar>y\<bar> \<le> 500000000" "\<bar>m\<bar> \<le> 500000000"
  shows "\<exists>y0 m0. units_months_down y m = Some (y0, m0) \<and>
    units_months_up y0 m0 = Some (y + (m - 1) div 12, (m - 1) mod 12 + 1)"
proof -
  define q where "q = max 0 ((m - 1) div 12)"
  have d: "units_months_down y m = Some (y + q, m - 12 * q)"
    using units_months_down_works [of y m] assms by (simp add: q_def abs_if split: if_splits)
  have "(m - 1) div 12 \<le> (500000000 - 1) div 12" using assms by (intro zdiv_mono1) auto
  then have q: "0 \<le> q" "q \<le> 500000000" by (auto simp: q_def)
  have "m - 12 * q \<le> 12 \<and> m - 12 * q \<ge> min m 1"
  proof -
    have "m - 1 = 12 * ((m - 1) div 12) + (m - 1) mod 12" "0 \<le> (m - 1) mod 12" "(m - 1) mod 12 < 12" by simp_all
    then show ?thesis unfolding q_def max_def min_def by (simp split: if_split) linarith
  qed
  then have "units_months_up (y + q) (m - 12 * q) = Some (y + q + (m - 12 * q - 1) div 12, (m - 12 * q - 1) mod 12 + 1)"
    using assms q by (intro units_months_up_works) (auto simp: abs_if min_def split: if_splits)
  moreover have "m - 12 * q - 1 = (m - 1) + (- q) * 12" by simp
  then have "(m - 12 * q - 1) div 12 = (m - 1) div 12 - q" "(m - 12 * q - 1) mod 12 = (m - 1) mod 12"
    by (simp_all only: div_mult_self1 mod_mult_self1)
  ultimately show ?thesis using d by auto
qed

text \<open>The length of a month, with the Gregorian year.\<close>

definition month_days :: "int \<Rightarrow> int \<Rightarrow> int" where
  "month_days y m = month_start (isleap (y - 2001)) (m + 1) - month_start (isleap (y - 2001)) m"

lemma month_days_bounds: "1 \<le> m \<Longrightarrow> m \<le> 12 \<Longrightarrow> 28 \<le> month_days y m \<and> month_days y m \<le> 31"
  using month_length_bounds [of m "isleap (y - 2001)"] by (simp add: month_days_def)

lemma units_monthdays_value:
  "1 \<le> m \<Longrightarrow> m \<le> 12 \<Longrightarrow> \<bar>y\<bar> \<le> 2000000000 \<Longrightarrow> units_monthdays y m = Some (month_days y m)"
  by (auto simp: units_monthdays_def int32_def CFDaysInMonth_length month_days_def)

text \<open>Carrying the days of a full month over does not change the day meant.\<close>

lemma day_number_next_month:
  assumes "1 \<le> m" "m \<le> 12"
  shows "day_number (y - 2001) m d =
    (if m = 12 then day_number (y + 1 - 2001) 1 (d - month_days y m) else day_number (y - 2001) (m + 1) (d - month_days y m))"
proof (cases "m = 12")
  case True
  have "year_start (y - 2001 + 1) = year_start (y - 2001) + 365 + of_bool (isleap (y - 2001))" by (rule year_start_Suc)
  moreover have "y + 1 - 2001 = y - 2001 + 1" by simp
  ultimately show ?thesis using True by (simp add: day_number_def month_days_def)
qed (simp add: day_number_def month_days_def)

lemma units_days_down_works:
  assumes "1 \<le> m" "m \<le> 12" "- 1000000000 \<le> y" "y + max 0 d \<le> 2000000000"
  shows "\<exists>y' m' d'. units_days_down y m d (month_days y m) = Some (y', m', d') \<and> 1 \<le> m' \<and> m' \<le> 12 \<and>
    d' \<le> month_days y' m' \<and> y \<le> y' \<and> y' \<le> y + max 0 d \<and> (if 1 \<le> d then 1 \<le> d' else d' = d \<and> y' = y) \<and>
    day_number (y' - 2001) m' d' = day_number (y - 2001) m d"
  using assms
proof (induction "nat d" arbitrary: y m d rule: less_induct)
  case less
  have md: "28 \<le> month_days y m" using month_days_bounds less.prems by blast
  show ?case
  proof (cases "month_days y m < d")
    case True
    let ?y = "if m = 12 then y + 1 else y" and ?m = "if m = 12 then 1 else m + 1" and ?d = "d - month_days y m"
    have i: "int32 (y + 1) = Some (y + 1)" using less.prems True md by (simp add: int32_def)
    have c: "(if 12 < m + 1 then do { y' \<leftarrow> int32 (y + 1); Some (y', m + 1 - 12) } else Some (y, m + 1)) = Some (?y, ?m)"
      using less.prems(1,2) i by auto
    have mm: "1 \<le> ?m" "?m \<le> 12" using less.prems(1,2) by auto
    have u: "units_monthdays ?y ?m = Some (month_days ?y ?m)"
      using less.prems True md by (intro units_monthdays_value mm) auto
    have "nat ?d < nat d" using True md by simp
    then obtain y' m' d' where r: "units_days_down ?y ?m ?d (month_days ?y ?m) = Some (y', m', d')" "1 \<le> m'" "m' \<le> 12"
      "d' \<le> month_days y' m'" "?y \<le> y'" "y' \<le> ?y + max 0 ?d" "1 \<le> d'" "day_number (y' - 2001) m' d' = day_number (?y - 2001) ?m ?d"
      using less.hyps [of ?d ?m ?y] mm less.prems(3,4) True md by (auto split: if_splits)
    have "units_days_down y m d (month_days y m) = Some (y', m', d')"
      using True c u r(1) by (subst units_days_down.simps) simp
    moreover have "day_number (?y - 2001) ?m ?d = day_number (y - 2001) m d"
      using day_number_next_month [OF less.prems(1,2), of y d] by simp
    ultimately show ?thesis using r True md by (auto split: if_splits)
  next
    case False
    then show ?thesis using less.prems by (subst units_days_down.simps) auto
  qed
qed

lemma units_days_up_works:
  assumes "1 \<le> m" "m \<le> 12" "y \<le> 1500000000" "- 1500000000 + max 0 (1 - d) \<le> y" "d \<le> month_days y m"
  shows "\<exists>y' m' d'. units_days_up y m d = Some (y', m', d') \<and> 1 \<le> m' \<and> m' \<le> 12 \<and>
    1 \<le> d' \<and> d' \<le> month_days y' m' \<and> y' \<le> y \<and> y \<le> y' + max 0 (1 - d) \<and>
    day_number (y' - 2001) m' d' = day_number (y - 2001) m d"
  using assms
proof (induction "nat (1 - d)" arbitrary: y m d rule: less_induct)
  case less
  show ?case
  proof (cases "d < 1")
    case True
    let ?y = "if m = 1 then y - 1 else y" and ?m = "if m = 1 then 12 else m - 1"
    let ?d = "d + month_days ?y ?m"
    have i: "int32 (y - 1) = Some (y - 1)" using less.prems True by (simp add: int32_def)
    have c: "(if m - 1 < 1 then do { y' \<leftarrow> int32 (y - 1); Some (y', m - 1 + 12) } else Some (y, m - 1)) = Some (?y, ?m)"
      using less.prems(1,2) i by auto
    have mm: "1 \<le> ?m" "?m \<le> 12" using less.prems(1,2) by auto
    have md: "28 \<le> month_days ?y ?m" using month_days_bounds [OF mm] by blast
    have u: "units_monthdays ?y ?m = Some (month_days ?y ?m)"
      using less.prems True by (intro units_monthdays_value mm) (auto simp: abs_if)
    have b: "- 1500000000 + max 0 (1 - ?d) \<le> ?y" using less.prems(4) True md by (auto simp: max_def)
    have "nat (1 - ?d) < nat (1 - d)" using True md by simp
    moreover have "?d \<le> month_days ?y ?m" "?y \<le> 1500000000" using True less.prems(3) by auto
    ultimately obtain y' m' d' where r: "units_days_up ?y ?m ?d = Some (y', m', d')" "1 \<le> m'" "m' \<le> 12" "1 \<le> d'"
      "d' \<le> month_days y' m'" "y' \<le> ?y" "?y \<le> y' + max 0 (1 - ?d)" "day_number (y' - 2001) m' d' = day_number (?y - 2001) ?m ?d"
      using less.hyps [OF _ mm _ b] by blast
    have "units_days_up y m d = Some (y', m', d')"
      using True c u r(1) by (subst units_days_up.simps) simp
    moreover have "day_number (?y - 2001) ?m ?d = day_number (y - 2001) m d"
      using day_number_next_month [OF mm, of ?y ?d] less.prems(2) by (cases "m = 1") simp_all
    ultimately show ?thesis using r True md by (auto split: if_splits)
  next
    case False
    then show ?thesis using less.prems by (subst units_days_up.simps) auto
  qed
qed

text \<open>Days within a hundred million years of 2001.\<close>

definition near_days :: "int \<Rightarrow> bool" where
  "near_days n \<longleftrightarrow> year_start (- 100000000) \<le> n \<and> n < year_start 100000000"

lemma year_bounds_of_day:
  assumes "year_start a \<le> n" "n < year_start b" "valid_ymd y m d" "day_number y m d = n"
  shows "a \<le> y" "y < b"
proof -
  note v = valid_ymd_day_of_year(1,2) [OF assms(3), unfolded assms(4)]
  show "a \<le> y" using year_start_less [of y a] v(2) assms(1) by (cases "y < a") auto
  show "y < b" using year_start_less [of b y] year_days_bounds(1) [of b] v(1) assms(2) by (cases y b rule: linorder_cases) auto
qed

lemma near_date:
  assumes t: "time_exact j t" and n: "near_days \<lfloor>t / 86400\<rfloor>"
  shows "\<exists>g. CFAbsoluteTimeGetGregorianDate t None = Some g \<and> date_in_range g \<and> \<bar>g_year g\<bar> \<le> 100002001 \<and> date_time g = t \<and>
    day_number (g_year g - 2001) (g_month g) (g_day g) = \<lfloor>t / 86400\<rfloor>"
proof -
  have b: "year_start (- 2147483648) \<le> year_start (- 100000000)" "year_start 100000000 \<le> year_start 2147481647"
    by (simp_all add: year_start_def)
  have r: "year_start (- 2147483648) \<le> \<lfloor>t / 86400\<rfloor>" "\<lfloor>t / 86400\<rfloor> < year_start 2147481647"
    using n b unfolding near_days_def by linarith+
  obtain g where g: "CFAbsoluteTimeGetGregorianDate t None = Some g" "date_in_range g" "date_time g = t"
    "day_number (g_year g - 2001) (g_month g) (g_day g) = \<lfloor>t / 86400\<rfloor>"
    using time_round_trip [OF t r] by blast
  have "- 100000000 \<le> g_year g - 2001" "g_year g - 2001 < 100000000"
    using year_bounds_of_day [of "- 100000000" _ 100000000, OF _ _ _ g(4)] n g(2)
    unfolding near_days_def date_in_range_def by blast+
  then show ?thesis using g by auto
qed

text \<open>The month the date lands in after adding years and months, and the clamped day.\<close>

definition added_month :: "CFGregorianDate \<Rightarrow> CFGregorianUnits \<Rightarrow> int \<times> int" where
  "added_month g u =
     (g_year g + u_years u + (g_month g + u_months u - 1) div 12, (g_month g + u_months u - 1) mod 12 + 1)"

lemma int32_in_range: "\<bar>x\<bar> \<le> 2000000000 \<Longrightarrow> int32 x = Some x"
  by (auto simp: int32_def)

lemma added_month_bounds:
  assumes "added_month g u = (y, m)" "\<bar>g_year g\<bar> \<le> 100002001" "1 \<le> g_month g" "g_month g \<le> 12"
    "\<bar>u_years u\<bar> \<le> 100000000" "\<bar>u_months u\<bar> \<le> 100000000"
  shows "\<bar>y\<bar> \<le> 300000000" "1 \<le> m" "m \<le> 12"
    "\<exists>y0 m0. units_months_down (g_year g + u_years u) (g_month g + u_months u) = Some (y0, m0) \<and>
       units_months_up y0 m0 = Some (y, m)"
proof -
  let ?k = "g_month g + u_months u - 1"
  have y: "y = g_year g + u_years u + ?k div 12" and m: "m = ?k mod 12 + 1"
    using assms(1) by (simp_all add: added_month_def)
  have "- 100000001 \<le> ?k" "?k \<le> 100000012" using assms(3,4,6) by linarith+
  then have "- 100000001 div 12 \<le> ?k div 12" "?k div 12 \<le> 100000012 div 12" by (intro zdiv_mono1; simp)+
  then have "- 8333334 \<le> ?k div 12" "?k div 12 \<le> 8333334" by simp_all
  then show "\<bar>y\<bar> \<le> 300000000" using assms(2,5) y by linarith
  have "0 \<le> ?k mod 12" "?k mod 12 < 12" by simp_all
  then show "1 \<le> m" "m \<le> 12" using m by linarith+
  have "\<bar>g_year g + u_years u\<bar> \<le> 500000000" "\<bar>g_month g + u_months u\<bar> \<le> 500000000" using assms(2-6) by linarith+
  from units_months_normalised [OF this]
  show "\<exists>y0 m0. units_months_down (g_year g + u_years u) (g_month g + u_months u) = Some (y0, m0) \<and>
      units_months_up y0 m0 = Some (y, m)" using y m by simp
qed

text \<open>The two day loops together move the date by the days added.\<close>

lemma units_days_normalised:
  assumes "\<bar>y\<bar> \<le> 300000000" "1 \<le> m" "m \<le> 12" "1 \<le> d" "d \<le> 31" "\<bar>k\<bar> \<le> 100000000"
  shows "\<exists>y1 m1 d1 y2 m2 d2. units_days_down y m (d + k) (month_days y m) = Some (y1, m1, d1) \<and>
    units_days_up y1 m1 d1 = Some (y2, m2, d2) \<and> 1 \<le> m2 \<and> m2 \<le> 12 \<and> 1 \<le> d2 \<and> d2 \<le> 31 \<and> \<bar>y2\<bar> \<le> 1000000000 \<and>
    day_number (y2 - 2001) m2 d2 = day_number (y - 2001) m d + k"
proof -
  have "y + max 0 (d + k) \<le> 2000000000" "- 1000000000 \<le> y" using assms by linarith+
  from units_days_down_works [OF assms(2,3) this(2,1)]
  obtain y1 m1 d1 where s1: "units_days_down y m (d + k) (month_days y m) = Some (y1, m1, d1)" "1 \<le> m1" "m1 \<le> 12"
    "d1 \<le> month_days y1 m1" "y \<le> y1" "y1 \<le> y + max 0 (d + k)" "if 1 \<le> d + k then 1 \<le> d1 else d1 = d + k \<and> y1 = y"
    "day_number (y1 - 2001) m1 d1 = day_number (y - 2001) m (d + k)" by blast
  have y1: "\<bar>y1\<bar> \<le> 500000000" using s1(5,6) assms(1,5,6) by linarith
  have d1: "1 - d1 \<le> 100000001" using s1(7) assms(4,6) by (simp split: if_splits; linarith)
  have "y1 \<le> 1500000000" "- 1500000000 + max 0 (1 - d1) \<le> y1" using y1 d1 by linarith+
  from units_days_up_works [OF s1(2,3) this s1(4)]
  obtain y2 m2 d2 where s2: "units_days_up y1 m1 d1 = Some (y2, m2, d2)" "1 \<le> m2" "m2 \<le> 12" "y2 \<le> y1" "y1 \<le> y2 + max 0 (1 - d1)" "1 \<le> d2" "d2 \<le> month_days y2 m2"
    "day_number (y2 - 2001) m2 d2 = day_number (y1 - 2001) m1 d1" by blast
  have "\<bar>y2\<bar> \<le> 1000000000" using s2(4,5) y1 d1 by linarith
  moreover have "day_number (y - 2001) m (d + k) = day_number (y - 2001) m d + k" by (simp add: day_number_def)
  moreover have "d2 \<le> 31" using s2(7) month_days_bounds [OF s2(2,3), of y2] by linarith
  ultimately show ?thesis using s1(1,8) s2 by auto
qed

text \<open>The time at which the date lands after adding years, months and days.\<close>

definition added_time :: "rat \<Rightarrow> CFGregorianDate \<Rightarrow> CFGregorianUnits \<Rightarrow> rat" where
  "added_time t g u =
     (let (y, m) = added_month g u
      in t + 86400 * of_int (day_number (y - 2001) m (min (g_day g) (month_days y m)) + u_days u - \<lfloor>t / 86400\<rfloor>))"

lemma added_sum_exact:
  assumes c: "on_grid j c" and s: "on_grid j s" and b: "(\<bar>c\<bar> + 3600 * of_int \<bar>h\<bar> + 60 * of_int \<bar>mi\<bar> + \<bar>s\<bar> + 86400) * 2 ^ j \<le> 2 ^ 53"
  shows "time_exact j c" "dbl (dbl (dbl (c + dbl (3600 * of_int h)) + dbl (60 * of_int mi)) + s) = c + 3600 * of_int h + 60 * of_int mi + s"
proof -
  let ?h = "3600 * rat_of_int h" and ?m = "60 * rat_of_int mi"
  have a: "\<bar>?h\<bar> = 3600 * of_int \<bar>h\<bar>" "\<bar>?m\<bar> = 60 * of_int \<bar>mi\<bar>" by (simp_all add: abs_mult)
  have gr: "on_grid j ?h" "on_grid j ?m" using on_grid_int(1) [of j "3600 * h"] on_grid_int(1) [of j "60 * mi"] by simp_all
  have ex: "dbl x = x" if "on_grid j x" "\<bar>x\<bar> \<le> \<bar>c\<bar> + \<bar>?h\<bar> + \<bar>?m\<bar> + \<bar>s\<bar> + 86400" for x
  proof (rule dbl_exact [of j])
    have "\<bar>x\<bar> * 2 ^ j \<le> (\<bar>c\<bar> + \<bar>?h\<bar> + \<bar>?m\<bar> + \<bar>s\<bar> + 86400) * 2 ^ j" using that(2) by (intro mult_right_mono) simp_all
    also have "\<dots> \<le> 2 ^ 53" using b unfolding a .
    finally show "exact_at j x" using that(1) unfolding exact_at_def by blast
  qed
  have "(\<bar>c\<bar> + 86400) * 2 ^ j \<le> (\<bar>c\<bar> + \<bar>?h\<bar> + \<bar>?m\<bar> + \<bar>s\<bar> + 86400) * 2 ^ j" by (intro mult_right_mono) simp_all
  also have "\<dots> \<le> 2 ^ 53" using b unfolding a .
  finally show "time_exact j c" using c unfolding time_exact_def by blast
  have "dbl ?h = ?h" "dbl ?m = ?m" by (rule ex; use gr in simp)+
  moreover have "dbl (c + ?h) = c + ?h" by (intro ex on_grid_arith c gr) linarith
  moreover have "dbl (c + ?h + ?m) = c + ?h + ?m" by (intro ex on_grid_arith c gr) linarith
  moreover have "dbl (c + ?h + ?m + s) = c + ?h + ?m + s" by (intro ex on_grid_arith c gr s) linarith
  ultimately show "dbl (dbl (dbl (c + dbl ?h) + dbl ?m) + s) = c + ?h + ?m + s" by (simp only:)
qed

lemma AddGregorianUnits_value:
  assumes t: "time_exact j t" and near: "near_days \<lfloor>t / 86400\<rfloor>" and g: "CFAbsoluteTimeGetGregorianDate t None = Some g"
    and u: "\<bar>u_years u\<bar> \<le> 100000000" "\<bar>u_months u\<bar> \<le> 100000000" "\<bar>u_days u\<bar> \<le> 100000000"
    and s: "on_grid j (u_seconds u)"
    and c: "(\<bar>added_time t g u\<bar> + 3600 * of_int \<bar>u_hours u\<bar> + 60 * of_int \<bar>u_minutes u\<bar> + \<bar>u_seconds u\<bar> + 86400) * 2 ^ j \<le> 2 ^ 53"
  shows "CFAbsoluteTimeAddGregorianUnits t None u =
    Some (added_time t g u + 3600 * of_int (u_hours u) + 60 * of_int (u_minutes u) + u_seconds u)"
proof -
  obtain y m where ym: "added_month g u = (y, m)" by fastforce
  have gr: "date_in_range g" "\<bar>g_year g\<bar> \<le> 100002001" "day_number (g_year g - 2001) (g_month g) (g_day g) = \<lfloor>t / 86400\<rfloor>"
    "date_time g = t" using near_date [OF t near] g by auto
  have gm: "1 \<le> g_month g" "g_month g \<le> 12" "1 \<le> g_day g" "g_day g \<le> 31"
    using gr(1) month_length_bounds(2) [of "g_month g" "isleap (g_year g - 2001)"] by (auto simp: date_in_range_def valid_ymd_def)
  note b = added_month_bounds [OF ym gr(2) gm(1,2) u(1,2)]
  obtain y0 m0 where n: "units_months_down (g_year g + u_years u) (g_month g + u_months u) = Some (y0, m0)"
    "units_months_up y0 m0 = Some (y, m)" using b(4) by blast
  define d where "d = min (g_day g) (month_days y m)"
  have md: "units_monthdays y m = Some (month_days y m)" "28 \<le> month_days y m"
    using units_monthdays_value [OF b(2,3)] b(1) month_days_bounds [OF b(2,3)] by auto
  have d: "1 \<le> d" "d \<le> 31" "(if month_days y m < g_day g then month_days y m else g_day g) = d"
    using gm md by (auto simp: d_def)
  have "\<bar>g_year g + u_years u\<bar> \<le> 2000000000" "\<bar>g_month g + u_months u\<bar> \<le> 2000000000" "\<bar>d + u_days u\<bar> \<le> 2000000000"
    using gr(2) gm u d by linarith+
  note i = this [THEN int32_in_range]
  obtain y1 m1 d1 y2 m2 d2 where s2: "units_days_down y m (d + u_days u) (month_days y m) = Some (y1, m1, d1)"
    "units_days_up y1 m1 d1 = Some (y2, m2, d2)" "1 \<le> m2" "m2 \<le> 12" "1 \<le> d2" "d2 \<le> 31" "\<bar>y2\<bar> \<le> 1000000000"
    "day_number (y2 - 2001) m2 d2 = day_number (y - 2001) m d + u_days u"
    using units_days_normalised [OF b(1-3) d(1,2) u(3)] by blast
  let ?g = "g\<lparr>g_year := y2, g_month := m2, g_day := d2\<rparr>"
  let ?c = "added_time t g u"
  have "date_time ?g = date_time g + 86400 * of_int (day_number (y2 - 2001) m2 d2 - day_number (g_year g - 2001) (g_month g) (g_day g))"
    by (simp add: date_time_def algebra_simps)
  then have v: "date_time ?g = ?c" unfolding gr(3,4) s2(8) by (simp add: added_time_def ym d_def)
  have "on_grid j ?c" using t unfolding added_time_def ym
    by (simp only: Let_def prod.case time_exact_def) (metis on_grid_arith(1) on_grid_int(1) of_int_mult of_int_numeral)
  note e = added_sum_exact [OF this s c]
  have "CFGregorianDateGetAbsoluteTime ?g None = Some ?c"
    using GetAbsoluteTime_value [of ?g j None 0] s2(3-7) gr(1) e(1) v by (simp add: date_in_range_def abs_le_iff)
  then have "CFAbsoluteTimeAddGregorianUnits t None u = Some (dbl (dbl (dbl (?c + dbl (3600 * of_int (u_hours u))) + dbl (60 * of_int (u_minutes u))) + u_seconds u))"
    using g i n md(1) d(3) s2(1,2) by (simp add: CFAbsoluteTimeAddGregorianUnits_def Let_def)
  then show ?thesis unfolding e(2) .
qed

section \<open>Properties\<close>

text \<open>Dates are ordered by \<open>CFDateCompare\<close>, so heaps, sorts and searches apply to them.\<close>

interpretation date_compare: comparator CFDateCompare
  by unfold_locales
     (auto simp: CFDateCompare_def kCFCompareLessThan_def kCFCompareGreaterThan_def kCFCompareEqualTo_def split: if_splits)

text \<open>
  C7.  The calendar conversions are inverse to each other: every day number has an existing
  Gregorian date (the three loops of \<open>__CFYMDFromAbsolute\<close> stop and the month search stays inside
  its table), from which \<open>__CFAbsoluteFromYMD\<close> gives the day number back; and every existing date
  is found again from its day number.  The double \<open>__CFAbsoluteFromYMD\<close> computes in is exact for the
  days within \<open>2 ^ 50\<close> of 2001 and the years within \<open>2 ^ 42\<close>, which are more than the years of the interface.
\<close>

theorem ymd_round_trip:
  "(\<exists>y m d. CFYMDFromAbsolute n = Some (y, m, d) \<and> valid_ymd y m d \<and> day_number y m d = n \<and>
     (\<bar>n\<bar> \<le> 2 ^ 50 \<longrightarrow> CFAbsoluteFromYMD y m d = Some (of_int n))) \<and>
   (valid_ymd y' m' d' \<longrightarrow> CFYMDFromAbsolute (day_number y' m' d') = Some (y', m', d') \<and>
     (\<bar>y'\<bar> \<le> 2 ^ 42 \<longrightarrow> CFAbsoluteFromYMD y' m' d' = Some (of_int (day_number y' m' d'))))"
proof (intro conjI impI)
  obtain y m d where ymd: "CFYMDFromAbsolute n = Some (y, m, d)" "valid_ymd y m d" "day_number y m d = n" using CFYMDFromAbsolute_works by blast
  have "CFAbsoluteFromYMD y m d = Some (of_int n)" if "\<bar>n\<bar> \<le> 2 ^ 50"
    using CFAbsoluteFromYMD_works [of m y d] valid_day_range [OF ymd(2)] day_number_year_bound [OF ymd(2)] ymd(3) that by simp
  then show "\<exists>y m d. CFYMDFromAbsolute n = Some (y, m, d) \<and> valid_ymd y m d \<and> day_number y m d = n \<and>
     (\<bar>n\<bar> \<le> 2 ^ 50 \<longrightarrow> CFAbsoluteFromYMD y m d = Some (of_int n))" using ymd by blast
next
  assume v: "valid_ymd y' m' d'"
  then show "CFYMDFromAbsolute (day_number y' m' d') = Some (y', m', d')"
    using CFYMDFromAbsolute_works [of "day_number y' m' d'"] day_number_unique [OF _ v] by auto
  assume "\<bar>y'\<bar> \<le> 2 ^ 42"
  then show "CFAbsoluteFromYMD y' m' d' = Some (of_int (day_number y' m' d'))"
    using valid_day_range [OF v] by (simp add: CFAbsoluteFromYMD_works)
qed

theorem ymd_round_trip_witness:
  "valid_ymd (- 1) 2 29 \<and> CFYMDFromAbsolute (- 307) = Some (- 1, 2, 29) \<and> CFAbsoluteFromYMD (- 1) 2 29 = Some (- 307)"
proof -
  have v: "valid_ymd (- 1) 2 29" "day_number (- 1) 2 29 = - 307" by (simp_all add: valid_ymd_def isleap_iff day_number_def year_start_def)
  then show ?thesis using ymd_round_trip [of "- 307" "- 1" 2 29] by simp
qed

text \<open>
  C14.  Dates survive the conversion to an absolute time and back, in the arithmetic of doubles: a date that
  \<open>CFGregorianDateIsValid\<close> accepts in all its units is turned, without a time zone or in a zone with a fixed
  offset of whole seconds, into its exact time, from which \<open>CFAbsoluteTimeGetGregorianDate\<close> reads that date
  again in the same zone.  The seconds are a multiple of \<open>1 / 2 ^ j\<close>, and the time has to be representable at
  this resolution with 53 bits, with a day to spare; for whole seconds these are the years up to 285 million,
  for microseconds cut to 20 bits the dates within 270 years of 2001.  Other seconds, such as 0.1, are rounded
  by the conversion.
\<close>

theorem gregorian_round_trip:
  assumes "CFGregorianDateIsValid g 63 = Some True" "g_year g \<le> 2147483647" "time_exact j (date_time g)" "fixed_zone tz c"
  shows "CFGregorianDateGetAbsoluteTime g tz = Some (date_time g - of_int c) \<and>
    CFAbsoluteTimeGetGregorianDate (date_time g - of_int c) tz = Some g"
proof (rule date_round_trip [OF _ assms(3,4)])
  have f: "unit_flag 63 0" "unit_flag 63 1" "unit_flag 63 2" "unit_flag 63 3" "unit_flag 63 4" "unit_flag 63 5"
    by (simp_all add: unit_flag_def)
  have r: "0 < g_year g" "1 \<le> g_month g" "g_month g \<le> 12" "1 \<le> g_day g" "0 \<le> g_hour g" "g_hour g \<le> 23"
    "0 \<le> g_minute g" "g_minute g \<le> 59" "0 \<le> g_second g" "g_second g < 60"
    using assms(1) f by (auto simp: CFGregorianDateIsValid_def split: if_splits)
  moreover have "g_day g \<le> month_start (isleap (g_year g - 2001)) (g_month g + 1) - month_start (isleap (g_year g - 2001)) (g_month g)"
    using assms(1) f CFDaysInMonth_length [OF r(2,3)] by (auto simp: CFGregorianDateIsValid_def split: if_splits)
  ultimately show "date_in_range g" using assms(2) by (simp add: date_in_range_def valid_ymd_def)
qed

text \<open>Half a second before the end of 29 February 2000, one hour east of Greenwich.\<close>

definition wit_date :: CFGregorianDate where
  "wit_date = \<lparr> g_year = 2000, g_month = 2, g_day = 29, g_hour = 23, g_minute = 59, g_second = 59 + 1 / 2 \<rparr>"

theorem gregorian_round_trip_witness:
  "CFGregorianDateIsValid wit_date 63 = Some True \<and>
   CFGregorianDateGetAbsoluteTime wit_date (Some (\<lambda>_. 3600)) = Some (- 26442000 - 1 / 2) \<and>
   CFAbsoluteTimeGetGregorianDate (- 26442000 - 1 / 2) (Some (\<lambda>_. 3600)) = Some wit_date"
proof -
  have v: "CFGregorianDateIsValid wit_date 63 = Some True"
    by (simp add: CFGregorianDateIsValid_def wit_date_def CFDaysInMonth_def table_def daysInMonth_def isleap_iff unit_flag_def)
  have d: "date_time wit_date = - 26438400 - 1 / 2" by (simp add: date_time_def wit_date_def day_number_def year_start_def isleap_iff)
  have "on_grid 1 (of_int (- 26438400) - 1 / 2)" by (simp add: on_grid_def algebra_simps)
  then have e: "time_exact 1 (date_time wit_date)" unfolding d by (simp add: time_exact_def)
  show ?thesis using gregorian_round_trip [OF v _ e, of "Some (\<lambda>_. 3600)" 3600] v unfolding d by (simp add: wit_date_def)
qed

text \<open>
  C21.  \<open>CFAbsoluteTimeAddGregorianUnits\<close> without a time zone: for dates and units within a
  hundred million years its four loops stop without overflow, and the result is the date with
  years and months added first, the day clamped to the length of that month, and then days, hours,
  minutes and seconds added as plain durations.  The times are multiples of \<open>1 / 2 ^ j\<close> seconds whose sums
  need no more than 53 bits, so that nothing is rounded; for whole seconds the bounds on the date imply this
  but for the durations.
\<close>

theorem AddGregorianUnits_correct:
  assumes "time_exact j t" "near_days \<lfloor>t / 86400\<rfloor>" "CFAbsoluteTimeGetGregorianDate t None = Some g"
    "\<bar>u_years u\<bar> \<le> 100000000" "\<bar>u_months u\<bar> \<le> 100000000" "\<bar>u_days u\<bar> \<le> 100000000" "on_grid j (u_seconds u)"
    "(\<bar>added_time t g u\<bar> + 3600 * of_int \<bar>u_hours u\<bar> + 60 * of_int \<bar>u_minutes u\<bar> + \<bar>u_seconds u\<bar> + 86400) * 2 ^ j \<le> 2 ^ 53"
  shows "CFAbsoluteTimeAddGregorianUnits t None u =
    Some (added_time t g u + 3600 * of_int (u_hours u) + 60 * of_int (u_minutes u) + u_seconds u)"
  using assms by (rule AddGregorianUnits_value)

text \<open>31 January 2001 plus one month and one day is 1 March 2001, 59 days after the reference date.\<close>

theorem AddGregorianUnits_correct_witness:
  "CFAbsoluteTimeAddGregorianUnits (86400 * 30) None
     \<lparr> u_years = 0, u_months = 1, u_days = 1, u_hours = 0, u_minutes = 0, u_seconds = 0 \<rparr> = Some (86400 * 59)"
proof -
  let ?g = "\<lparr> g_year = 2001, g_month = 1, g_day = 31, g_hour = 0, g_minute = 0, g_second = 0 \<rparr>"
  let ?u = "\<lparr> u_years = 0, u_months = 1, u_days = 1, u_hours = 0, u_minutes = 0, u_seconds = 0 \<rparr>"
  have f: "\<lfloor>(86400 * 30 :: rat) / 86400\<rfloor> = 30" by simp
  have n: "near_days \<lfloor>(86400 * 30 :: rat) / 86400\<rfloor>" unfolding f by (simp add: near_days_def year_start_def)
  have r: "date_in_range ?g" by (simp add: date_in_range_def valid_ymd_def)
  have d: "date_time ?g = 86400 * 30" by (simp add: date_time_def day_number_def)
  have t: "time_exact 0 (86400 * 30)" by (simp add: time_exact_def)
  have g: "CFAbsoluteTimeGetGregorianDate (86400 * 30) None = Some ?g" using date_round_trip [OF r, of 0 None 0] t unfolding d by simp
  have "\<not> isleap 0" by (simp add: isleap_iff)
  then have a: "added_time (86400 * 30) ?g ?u = 86400 * 59" by (simp add: added_time_def added_month_def month_days_def day_number_def)
  show ?thesis using AddGregorianUnits_correct [OF t n g, of ?u] unfolding a by simp
qed

text \<open>
  C29.  \<open>CFAbsoluteTimeGetWeekOfYear\<close> counts weeks as ISO 8601 does, by the year of the week's
  Thursday, except that every day whose week belongs to the previous year gets 53.  This holds in every zone,
  for the days within \<open>2 ^ 50\<close> of 2001, for which the double that counts days is exact.
\<close>

theorem WeekOfYear_correct:
  assumes "date_absolute (date_fixedat t tz) = Some n" "\<bar>n\<bar> \<le> 2 ^ 50" "CFYMDFromAbsolute n = Some (y, m, d)"
  shows "CFAbsoluteTimeGetWeekOfYear t tz = Some
    (if iso_thursday n < year_start y then 53
     else if year_start (y + 1) \<le> iso_thursday n then 1
     else (iso_thursday n - year_start y) div 7 + 1)"
proof -
  have "valid_ymd y m d" "day_number y m d = n" using CFYMDFromAbsolute_works [of n] assms(3) by auto
  then show ?thesis using WeekOfYear_cases [OF assms] by simp
qed

text \<open>
  1 January 2017 was a Sunday: it belongs to week 52 of 2016, as the year 2016 (year 15 here) has
  only 52 weeks, but the code answers 53.
\<close>

lemma ymd_2017: "CFYMDFromAbsolute 5844 = Some (16, 1, 1)"
proof -
  have v: "valid_ymd 16 1 1" "day_number 16 1 1 = 5844" by (simp_all add: valid_ymd_def day_number_def year_start_def)
  obtain y m d where "CFYMDFromAbsolute 5844 = Some (y, m, d)" "valid_ymd y m d" "day_number y m d = 5844"
    using CFYMDFromAbsolute_works by blast
  then show ?thesis using day_number_unique [OF _ v(1)] v(2) by metis
qed

theorem WeekOfYear_correct_witness:
  "CFAbsoluteTimeGetWeekOfYear (86400 * 5844) None = Some 53 \<and>
   (iso_thursday 5844 - year_start 15) div 7 + 1 = 52 \<and> iso_thursday 5844 < year_start 16"
proof -
  have t: "time_exact 0 (86400 * 5844)" by (simp add: time_exact_def)
  have "date_fixedat (86400 * 5844) None = 86400 * 5844" using date_fixedat_value [OF t, of None 0] by simp
  moreover have "\<lfloor>dbl ((86400 * 5844) / 86400)\<rfloor> = 5844" using time_exact_floor [OF t, of 86400] by simp
  ultimately have a: "date_absolute (date_fixedat (86400 * 5844) None) = Some 5844" by (simp add: date_absolute_def int64_def)
  show ?thesis using WeekOfYear_correct [OF a _ ymd_2017] by (simp add: iso_thursday_def year_start_def)
qed

text \<open>
  \<open>CFAbsoluteTimeGetDayOfWeek\<close> and \<open>CFAbsoluteTimeGetDayOfYear\<close>, before and after 2001: the
  weekday is 1 (Monday) to 7 and moves by one each day; the day of the year counts from the first
  of January, is at least 1 and at most the length of the year.
\<close>

theorem day_counts_correct:
  assumes "date_absolute (date_fixedat t tz) = Some n"
  shows "CFAbsoluteTimeGetDayOfWeek t tz = Some (n mod 7 + 1) \<and>
    (\<exists>y m d. CFYMDFromAbsolute n = Some (y, m, d) \<and> CFAbsoluteTimeGetDayOfYear t tz = Some (n - year_start y + 1) \<and>
     0 \<le> n - year_start y \<and> n - year_start y < year_days y)"
  using DayOfWeek_value [OF assms] DayOfYear_value [OF assms] valid_ymd_day_of_year(1,2) by metis

end
