(* ===== verification/CF_ByteOrder.thy ===== *)
theory CF_ByteOrder
  imports CF_Prelude "HOL-Library.Word"
begin

unbundle bit_operations_syntax

text \<open>
  \<open>CFByteOrder.h\<close>, and the bytes of C integers in memory.

  The byte order of the host, which the source selects by the macros \<open>__LITTLE_ENDIAN__\<close> and
  \<open>__BIG_ENDIAN__\<close>, is the first argument of the functions that depend on it; the branches taken
  are those without \<open>OSByteOrder.h\<close>.  Floating point values occur only as bit patterns.
\<close>

section \<open>Bytes of integers\<close>

text \<open>The bytes of an integer, the least significant first, and the integer read from them.\<close>

definition le_bytes :: "'a::len word \<Rightarrow> 8 word list" where
  "le_bytes w = map (\<lambda>i. ucast (drop_bit (8 * i) w)) [0..<LENGTH('a) div 8]"

fun le_join :: "8 word list \<Rightarrow> 'a::len word" where
  "le_join [] = 0"
| "le_join (b # bs) = ucast b OR push_bit 8 (le_join bs)"

text \<open>Reading an integer at the start of a block of memory; \<open>None\<close> when the block is too short.\<close>

definition le_word :: "8 word list \<Rightarrow> 'a::len word option" where
  "le_word bs = (if 8 * length bs < LENGTH('a) then None else Some (le_join (take (LENGTH('a) div 8) bs)))"

section \<open>Byte swapping\<close>

datatype CFByteOrder = CFByteOrderUnknown | CFByteOrderLittleEndian | CFByteOrderBigEndian

definition CFByteOrderGetCurrent :: "CFByteOrder \<Rightarrow> CFByteOrder" where
  "CFByteOrderGetCurrent host =
     (if host = CFByteOrderLittleEndian then CFByteOrderLittleEndian
      else if host = CFByteOrderBigEndian then CFByteOrderBigEndian
      else CFByteOrderUnknown)"

text \<open>The operands of 16 bits are promoted to \<open>int\<close> before they are shifted.\<close>

definition CFSwapInt16 :: "16 word \<Rightarrow> 16 word" where
  "CFSwapInt16 arg0 = (let arg = (ucast arg0 :: 32 word)
     in ucast ((push_bit 8 arg AND 0xFF00) OR (drop_bit 8 arg AND 0xFF)))"

definition CFSwapInt32 :: "32 word \<Rightarrow> 32 word" where
  "CFSwapInt32 arg = push_bit 24 (arg AND 0xFF) OR push_bit 8 (arg AND 0xFF00) OR
     (drop_bit 8 arg AND 0xFF00) OR (drop_bit 24 arg AND 0xFF)"

text \<open>The \<open>union\<close> of a 64-bit integer with an array \<open>ul\<close> of two 32-bit integers.\<close>

definition union_ul :: "CFByteOrder \<Rightarrow> 64 word \<Rightarrow> 32 word \<times> 32 word" where
  "union_ul host sv = (let lo = ucast sv; hi = ucast (drop_bit 32 sv)
     in if host = CFByteOrderBigEndian then (hi, lo) else (lo, hi))"

definition union_sv :: "CFByteOrder \<Rightarrow> 32 word \<times> 32 word \<Rightarrow> 64 word" where
  "union_sv host ul = (let (lo, hi) = (if host = CFByteOrderBigEndian then (snd ul, fst ul) else ul)
     in ucast lo OR push_bit 32 (ucast hi))"

definition CFSwapInt64 :: "CFByteOrder \<Rightarrow> 64 word \<Rightarrow> 64 word" where
  "CFSwapInt64 host arg = (let tmp = union_ul host arg
     in union_sv host (CFSwapInt32 (snd tmp), CFSwapInt32 (fst tmp)))"

definition CFSwapInt16BigToHost :: "CFByteOrder \<Rightarrow> 16 word \<Rightarrow> 16 word" where
  "CFSwapInt16BigToHost host arg = (if host = CFByteOrderBigEndian then arg else CFSwapInt16 arg)"

definition CFSwapInt32BigToHost :: "CFByteOrder \<Rightarrow> 32 word \<Rightarrow> 32 word" where
  "CFSwapInt32BigToHost host arg = (if host = CFByteOrderBigEndian then arg else CFSwapInt32 arg)"

definition CFSwapInt64BigToHost :: "CFByteOrder \<Rightarrow> 64 word \<Rightarrow> 64 word" where
  "CFSwapInt64BigToHost host arg = (if host = CFByteOrderBigEndian then arg else CFSwapInt64 host arg)"

definition CFSwapInt16HostToBig :: "CFByteOrder \<Rightarrow> 16 word \<Rightarrow> 16 word" where
  "CFSwapInt16HostToBig host arg = (if host = CFByteOrderBigEndian then arg else CFSwapInt16 arg)"

definition CFSwapInt32HostToBig :: "CFByteOrder \<Rightarrow> 32 word \<Rightarrow> 32 word" where
  "CFSwapInt32HostToBig host arg = (if host = CFByteOrderBigEndian then arg else CFSwapInt32 arg)"

definition CFSwapInt64HostToBig :: "CFByteOrder \<Rightarrow> 64 word \<Rightarrow> 64 word" where
  "CFSwapInt64HostToBig host arg = (if host = CFByteOrderBigEndian then arg else CFSwapInt64 host arg)"

definition CFSwapInt16LittleToHost :: "CFByteOrder \<Rightarrow> 16 word \<Rightarrow> 16 word" where
  "CFSwapInt16LittleToHost host arg = (if host = CFByteOrderLittleEndian then arg else CFSwapInt16 arg)"

definition CFSwapInt32LittleToHost :: "CFByteOrder \<Rightarrow> 32 word \<Rightarrow> 32 word" where
  "CFSwapInt32LittleToHost host arg = (if host = CFByteOrderLittleEndian then arg else CFSwapInt32 arg)"

definition CFSwapInt64LittleToHost :: "CFByteOrder \<Rightarrow> 64 word \<Rightarrow> 64 word" where
  "CFSwapInt64LittleToHost host arg = (if host = CFByteOrderLittleEndian then arg else CFSwapInt64 host arg)"

definition CFSwapInt16HostToLittle :: "CFByteOrder \<Rightarrow> 16 word \<Rightarrow> 16 word" where
  "CFSwapInt16HostToLittle host arg = (if host = CFByteOrderLittleEndian then arg else CFSwapInt16 arg)"

definition CFSwapInt32HostToLittle :: "CFByteOrder \<Rightarrow> 32 word \<Rightarrow> 32 word" where
  "CFSwapInt32HostToLittle host arg = (if host = CFByteOrderLittleEndian then arg else CFSwapInt32 arg)"

definition CFSwapInt64HostToLittle :: "CFByteOrder \<Rightarrow> 64 word \<Rightarrow> 64 word" where
  "CFSwapInt64HostToLittle host arg = (if host = CFByteOrderLittleEndian then arg else CFSwapInt64 host arg)"

text \<open>The conversions of floating point values swap their bit patterns on a little-endian host.\<close>

definition CFConvertFloat32HostToSwapped :: "CFByteOrder \<Rightarrow> 32 word \<Rightarrow> 32 word" where
  "CFConvertFloat32HostToSwapped host arg = (if host = CFByteOrderLittleEndian then CFSwapInt32 arg else arg)"

definition CFConvertFloat32SwappedToHost :: "CFByteOrder \<Rightarrow> 32 word \<Rightarrow> 32 word" where
  "CFConvertFloat32SwappedToHost host arg = (if host = CFByteOrderLittleEndian then CFSwapInt32 arg else arg)"

definition CFConvertFloat64HostToSwapped :: "CFByteOrder \<Rightarrow> 64 word \<Rightarrow> 64 word" where
  "CFConvertFloat64HostToSwapped host arg = (if host = CFByteOrderLittleEndian then CFSwapInt64 host arg else arg)"

definition CFConvertFloat64SwappedToHost :: "CFByteOrder \<Rightarrow> 64 word \<Rightarrow> 64 word" where
  "CFConvertFloat64SwappedToHost host arg = (if host = CFByteOrderLittleEndian then CFSwapInt64 host arg else arg)"

definition CFConvertFloatHostToSwapped :: "CFByteOrder \<Rightarrow> 32 word \<Rightarrow> 32 word" where
  "CFConvertFloatHostToSwapped host arg = (if host = CFByteOrderLittleEndian then CFSwapInt32 arg else arg)"

definition CFConvertFloatSwappedToHost :: "CFByteOrder \<Rightarrow> 32 word \<Rightarrow> 32 word" where
  "CFConvertFloatSwappedToHost host arg = (if host = CFByteOrderLittleEndian then CFSwapInt32 arg else arg)"

definition CFConvertDoubleHostToSwapped :: "CFByteOrder \<Rightarrow> 64 word \<Rightarrow> 64 word" where
  "CFConvertDoubleHostToSwapped host arg = (if host = CFByteOrderLittleEndian then CFSwapInt64 host arg else arg)"

definition CFConvertDoubleSwappedToHost :: "CFByteOrder \<Rightarrow> 64 word \<Rightarrow> 64 word" where
  "CFConvertDoubleSwappedToHost host arg = (if host = CFByteOrderLittleEndian then CFSwapInt64 host arg else arg)"

section \<open>Reading back what is stored\<close>

lemma length_le_bytes [simp]: "length (le_bytes (w :: 'a::len word)) = LENGTH('a) div 8"
  by (simp add: le_bytes_def)

lemma le_join_map:
  "le_join (map (\<lambda>i. ucast (drop_bit (8 * i) w)) [0..<n]) = (take_bit (8 * n) w :: 'a::len word)"
proof (induction n arbitrary: w)
  case (Suc n)
  have "map (\<lambda>i. ucast (drop_bit (8 * i) w)) [0..<Suc n] =
      (ucast w :: 8 word) # map (\<lambda>i. ucast (drop_bit (8 * i) (drop_bit 8 w))) [0..<n]"
    by (simp add: upt_conv_Cons map_Suc_upt [symmetric] drop_bit_drop_bit add.commute del: upt_Suc)
  then have "le_join (map (\<lambda>i. ucast (drop_bit (8 * i) w)) [0..<Suc n]) =
      ucast (ucast w :: 8 word) OR push_bit 8 (take_bit (8 * n) (drop_bit 8 w))"
    by (simp only: le_join.simps Suc.IH)
  also have "\<dots> = take_bit (8 * Suc n) w"
    by (rule bit_word_eqI) (auto simp: bit_simps)
  finally show ?case .
qed simp

lemma le_word_le_bytes:
  assumes "8 dvd LENGTH('a)"
  shows "le_word (le_bytes (w :: 'a::len word) @ bs) = Some w"
proof -
  have n: "8 * (LENGTH('a) div 8) = LENGTH('a)" using assms by simp
  have "le_join (le_bytes w) = w" unfolding le_bytes_def le_join_map n by simp
  then show ?thesis using n by (simp add: le_word_def)
qed

lemma le_word_bytes [simp]:
  "le_word (le_bytes (a :: 8 word)) = Some a" "le_word (le_bytes (b :: 16 word)) = Some b"
  "le_word (le_bytes (c :: 32 word)) = Some c" "le_word (le_bytes (d :: 64 word)) = Some d"
  "le_word (le_bytes (e :: 128 word)) = Some e"
  by (rule le_word_le_bytes [of _ "[]", unfolded append_Nil2], simp)+

section \<open>Swapping reverses the bytes\<close>

lemma upt_8: "[0..<8] = [0, 1, 2, 3, 4, 5, 6, 7]" and upt_4: "[0..<4] = [0, 1, 2, 3]" and upt_2: "[0..<2] = [0, Suc 0]"
  by (simp_all add: upt_rec)

lemma mask_bytes: "(0xFF :: 'a::len word) = mask 8" "(0xFF00 :: 'a::len word) = push_bit 8 (mask 8)"
  by (simp_all add: mask_eq_exp_minus_1 push_bit_eq_mult)

lemma le_bytes_CFSwapInt16: "le_bytes (CFSwapInt16 w) = rev (le_bytes w)"
  unfolding le_bytes_def CFSwapInt16_def Let_def mask_bytes
  by (simp add: upt_2) (intro conjI bit_word_eqI; auto simp: bit_simps)

lemma le_bytes_CFSwapInt32: "le_bytes (CFSwapInt32 w) = rev (le_bytes w)"
  unfolding le_bytes_def CFSwapInt32_def mask_bytes
  by (simp add: upt_4) (intro conjI bit_word_eqI; auto simp: bit_simps)

lemma le_bytes_join: "le_bytes (ucast lo OR push_bit 32 (ucast hi) :: 64 word) = le_bytes (lo :: 32 word) @ le_bytes (hi :: 32 word)"
  unfolding le_bytes_def by (simp add: upt_4 upt_8) (intro conjI bit_word_eqI; auto simp: bit_simps dest: bit_imp_le_length)

lemma split_64: "ucast (ucast w :: 32 word) OR push_bit 32 (ucast (ucast (drop_bit 32 w) :: 32 word)) = (w :: 64 word)"
  by (rule bit_word_eqI) (auto simp: bit_simps)

lemma le_bytes_CFSwapInt64: "le_bytes (CFSwapInt64 host w) = rev (le_bytes w)"
proof -
  let ?lo = "ucast w :: 32 word" and ?hi = "ucast (drop_bit 32 w) :: 32 word"
  have "CFSwapInt64 host w = ucast (CFSwapInt32 ?hi) OR push_bit 32 (ucast (CFSwapInt32 ?lo))"
    by (simp add: CFSwapInt64_def union_ul_def union_sv_def Let_def)
  moreover have "le_bytes w = le_bytes ?lo @ le_bytes ?hi"
    using le_bytes_join [of ?lo ?hi] unfolding split_64 .
  ultimately show ?thesis by (simp only: le_bytes_join le_bytes_CFSwapInt32 rev_append)
qed

lemma le_bytes_inject:
  assumes "le_bytes v = le_bytes (w :: 'a::len word)" "8 dvd LENGTH('a)"
  shows "v = w"
  using assms le_word_le_bytes [of v "[]"] le_word_le_bytes [of w "[]"] by simp

lemma swap_swap:
  "CFSwapInt16 (CFSwapInt16 a) = a" "CFSwapInt32 (CFSwapInt32 b) = b" "CFSwapInt64 host (CFSwapInt64 host c) = c"
  by (rule le_bytes_inject; simp add: le_bytes_CFSwapInt16 le_bytes_CFSwapInt32 le_bytes_CFSwapInt64)+

text \<open>The bytes of an integer in the memory of a host.\<close>

definition host_bytes :: "CFByteOrder \<Rightarrow> 'a::len word \<Rightarrow> 8 word list" where
  "host_bytes host w = (if host = CFByteOrderBigEndian then rev (le_bytes w) else le_bytes w)"

lemmas swap_defs = CFSwapInt16BigToHost_def CFSwapInt32BigToHost_def CFSwapInt64BigToHost_def
  CFSwapInt16HostToBig_def CFSwapInt32HostToBig_def CFSwapInt64HostToBig_def
  CFSwapInt16LittleToHost_def CFSwapInt32LittleToHost_def CFSwapInt64LittleToHost_def
  CFSwapInt16HostToLittle_def CFSwapInt32HostToLittle_def CFSwapInt64HostToLittle_def

lemmas convert_defs = CFConvertFloat32HostToSwapped_def CFConvertFloat32SwappedToHost_def
  CFConvertFloat64HostToSwapped_def CFConvertFloat64SwappedToHost_def CFConvertFloatHostToSwapped_def
  CFConvertFloatSwappedToHost_def CFConvertDoubleHostToSwapped_def CFConvertDoubleSwappedToHost_def

section \<open>Properties\<close>

text \<open>
  C30. On a host of either byte order, an integer passed through a host-to-big function and stored
  has its most significant byte first, one passed through a host-to-little function its least
  significant byte first; the functions in the other direction, and the conversions of floating
  point values, undo them.
\<close>

theorem byte_order_correct:
  assumes "host = CFByteOrderLittleEndian \<or> host = CFByteOrderBigEndian"
  shows "host_bytes host (CFSwapInt16HostToBig host a) = rev (le_bytes a) \<and>
    host_bytes host (CFSwapInt32HostToBig host b) = rev (le_bytes b) \<and>
    host_bytes host (CFSwapInt64HostToBig host c) = rev (le_bytes c) \<and>
    host_bytes host (CFSwapInt16HostToLittle host a) = le_bytes a \<and>
    host_bytes host (CFSwapInt32HostToLittle host b) = le_bytes b \<and>
    host_bytes host (CFSwapInt64HostToLittle host c) = le_bytes c \<and>
    CFSwapInt16BigToHost host (CFSwapInt16HostToBig host a) = a \<and>
    CFSwapInt32BigToHost host (CFSwapInt32HostToBig host b) = b \<and>
    CFSwapInt64BigToHost host (CFSwapInt64HostToBig host c) = c \<and>
    CFSwapInt16LittleToHost host (CFSwapInt16HostToLittle host a) = a \<and>
    CFSwapInt32LittleToHost host (CFSwapInt32HostToLittle host b) = b \<and>
    CFSwapInt64LittleToHost host (CFSwapInt64HostToLittle host c) = c \<and>
    host_bytes host (CFConvertFloat32HostToSwapped host f) = rev (le_bytes f) \<and>
    host_bytes host (CFConvertFloat64HostToSwapped host d) = rev (le_bytes d) \<and>
    CFConvertFloat32SwappedToHost host (CFConvertFloat32HostToSwapped host f) = f \<and>
    CFConvertFloat64SwappedToHost host (CFConvertFloat64HostToSwapped host d) = d \<and>
    CFConvertFloatSwappedToHost host (CFConvertFloatHostToSwapped host f) = f \<and>
    CFConvertDoubleSwappedToHost host (CFConvertDoubleHostToSwapped host d) = d"
  using assms
  by (elim disjE) (simp_all add: swap_defs convert_defs host_bytes_def swap_swap
      le_bytes_CFSwapInt16 le_bytes_CFSwapInt32 le_bytes_CFSwapInt64)

theorem byte_order_correct_witness:
  "host_bytes CFByteOrderLittleEndian (CFSwapInt32HostToBig CFByteOrderLittleEndian 0x01020304) = [1, 2, 3, 4]"
  using byte_order_correct [of CFByteOrderLittleEndian 0 "0x01020304" 0 0 0]
  by (simp add: le_bytes_def upt_4)


end
