(* ===== verification/CF_Decimal.thy ===== *)
theory CF_Decimal
  imports Main
begin

text \<open>
  Decimal strings: the output of the C library's \<open>%u\<close> and \<open>%09u\<close> and the value of a string of
  digits, shared by the components that print and read numbers.
\<close>

definition is_digit :: "char \<Rightarrow> bool" where
  "is_digit c \<longleftrightarrow> 48 \<le> (of_char c :: nat) \<and> (of_char c :: nat) \<le> 57"

definition digit_char :: "nat \<Rightarrow> char" where
  "digit_char d = char_of (48 + d)"

text \<open>\<open>%09u\<close>: the decimal digits, with zeros in front up to nine characters.\<close>

fun print_decimal :: "nat \<Rightarrow> string" where
  "print_decimal n = (if n < 10 then [digit_char n] else print_decimal (n div 10) @ [digit_char (n mod 10)])"

declare print_decimal.simps [simp del]

definition print_09u :: "nat \<Rightarrow> string" where
  "print_09u n = (let s = print_decimal n in replicate (9 - length s) CHR ''0'' @ s)"

definition dec_value :: "string \<Rightarrow> nat" where
  "dec_value s = foldl (\<lambda>v c. 10 * v + (of_char c - 48)) 0 s"

section \<open>Decimal strings\<close>

lemma dec_value_acc:
  "foldl (\<lambda>v c. 10 * v + (of_char c - 48)) (v :: nat) s = v * 10 ^ length s + dec_value s"
proof (induction s arbitrary: v)
  case (Cons c s)
  have "dec_value (c # s) = (of_char c - 48) * 10 ^ length s + dec_value s"
    using Cons [of "of_char c - 48"] by (subst dec_value_def) simp
  then show ?case using Cons [of "10 * v + (of_char c - 48)"] by (simp add: algebra_simps)
qed (simp add: dec_value_def)

lemma dec_value_append: "dec_value (s @ t) = dec_value s * 10 ^ length t + dec_value t"
  using dec_value_acc [of "dec_value s" t] by (simp add: dec_value_def)

lemma dec_value_Nil [simp]: "dec_value [] = 0"
  by (simp add: dec_value_def)

lemma dec_value_single: "dec_value [c] = of_char c - 48"
  by (simp add: dec_value_def)

lemma dec_value_zero_Cons [simp]: "dec_value (CHR ''0'' # s) = dec_value s"
  using dec_value_append [of "[CHR ''0'']" s] by (simp add: dec_value_single)

lemma dec_value_dropWhile: "dec_value (dropWhile (\<lambda>c. c = CHR ''0'') s) = dec_value s"
  by (induction s) auto

lemma dec_value_zeros [simp]: "dec_value (replicate k CHR ''0'') = 0"
  by (induction k) auto

lemma of_char_digit:
  assumes "d < 10"
  shows "(of_char (digit_char d) :: nat) = 48 + d"
  using assms by (simp add: digit_char_def)

lemma is_digit_digit_char: "d < 10 \<Longrightarrow> is_digit (digit_char d)"
  by (simp add: is_digit_def of_char_digit)

lemma dec_value_bound:
  assumes "list_all is_digit s"
  shows "dec_value s < 10 ^ length s"
  using assms
proof (induction s rule: rev_induct)
  case (snoc c s)
  have "(of_char c :: nat) \<le> 57" using snoc.prems by (simp add: is_digit_def)
  moreover have "dec_value s < 10 ^ length s" using snoc by simp
  ultimately show ?case by (simp add: dec_value_append dec_value_single)
qed simp

lemma print_decimal_digits: "list_all is_digit (print_decimal n) \<and> dec_value (print_decimal n) = n"
proof (induction n rule: print_decimal.induct)
  case (1 n)
  show ?case
  proof (cases "n < 10")
    case True
    then show ?thesis
      by (simp add: print_decimal.simps [of n] is_digit_digit_char dec_value_single of_char_digit)
  next
    case False
    then show ?thesis using 1
      by (subst (1 2) print_decimal.simps) (simp add: is_digit_digit_char dec_value_append dec_value_single of_char_digit)
  qed
qed

lemma length_print_decimal: "n < 10 ^ Suc k \<Longrightarrow> length (print_decimal n) \<le> Suc k"
proof (induction k arbitrary: n)
  case 0
  then have "n < 10" by simp
  then show ?case by (subst print_decimal.simps) (simp only: if_True list.size)
next
  case (Suc k)
  have "n div 10 < 10 ^ Suc k" using Suc.prems by (simp add: div_less_iff_less_mult)
  then have "length (print_decimal (n div 10)) \<le> Suc k" by (rule Suc.IH)
  then show ?case by (subst print_decimal.simps) simp
qed

lemma print_09u_digits:
  assumes "n < 1000000000"
  shows "length (print_09u n) = 9" "list_all is_digit (print_09u n)" "dec_value (print_09u n) = n"
proof -
  have "length (print_decimal n) \<le> 9" using length_print_decimal [of n 8] assms by simp
  then show "length (print_09u n) = 9" by (simp add: print_09u_def Let_def)
  have p: "print_09u n = replicate (9 - length (print_decimal n)) CHR ''0'' @ print_decimal n" by (simp only: print_09u_def Let_def)
  have "list_all is_digit (replicate k CHR ''0'')" for k by (induction k) (simp_all add: is_digit_def)
  then show "list_all is_digit (print_09u n)" using print_decimal_digits [of n] by (simp only: p list_all_append simp_thms)
  show "dec_value (print_09u n) = n"
    using print_decimal_digits [of n] by (simp only: p dec_value_append dec_value_zeros mult_0 add_0)
qed

section \<open>Digits from the left\<close>

text \<open>The \<open>n\<close> last digits of a number, the most significant first.\<close>

fun fixed_digits :: "nat \<Rightarrow> nat \<Rightarrow> string" where
  "fixed_digits 0 v = []"
| "fixed_digits (Suc n) v = digit_char (v div 10 ^ n) # fixed_digits n (v mod 10 ^ n)"

lemma fixed_digits_snoc: "fixed_digits (Suc n) v = fixed_digits n (v div 10) @ [digit_char (v mod 10)]" if "v < 10 ^ Suc n"
  using that
proof (induction n arbitrary: v)
  case 0
  then show ?case by simp
next
  case (Suc n)
  have m: "v mod 10 ^ Suc n < 10 ^ Suc n" by simp
  have e: "v div 10 ^ Suc n = v div 10 div 10 ^ n" "v mod 10 ^ Suc n div 10 = v div 10 mod 10 ^ n" "v mod 10 ^ Suc n mod 10 = v mod 10"
    by (simp_all add: div_mult2_eq mod_mult2_eq)
  have "fixed_digits (Suc (Suc n)) v = digit_char (v div 10 ^ Suc n) # fixed_digits (Suc n) (v mod 10 ^ Suc n)" by simp
  also have "\<dots> = digit_char (v div 10 div 10 ^ n) # fixed_digits n (v div 10 mod 10 ^ n) @ [digit_char (v mod 10)]"
    unfolding Suc.IH [OF m] unfolding e ..
  also have "\<dots> = fixed_digits (Suc n) (v div 10) @ [digit_char (v mod 10)]" by simp
  finally show ?case .
qed

lemma print_decimal_lead:
  assumes "0 < d" "d < 10" "r < 10 ^ n"
  shows "print_decimal (d * 10 ^ n + r) = digit_char d # fixed_digits n r"
  using assms(3)
proof (induction n arbitrary: r)
  case 0
  then show ?case using assms(2) by (subst print_decimal.simps) simp
next
  case (Suc n)
  let ?v = "d * 10 ^ Suc n + r"
  have v: "?v = r + 10 * (d * 10 ^ n)" by simp
  have q: "?v div 10 = d * 10 ^ n + r div 10" "?v mod 10 = r mod 10" unfolding v by (simp_all only: div_mult_self2 mod_mult_self2)
  have "(10 :: nat) \<le> d * 10 ^ Suc n" using assms(1) mult_le_mono [of 1 d 10 "10 ^ Suc n"] by simp
  then have big: "\<not> ?v < 10" by linarith
  have r: "r div 10 < 10 ^ n" using Suc.prems by (simp add: div_less_iff_less_mult)
  show ?case by (subst print_decimal.simps) (simp only: big if_False q Suc.IH [OF r] fixed_digits_snoc [OF Suc.prems] append_Cons)
qed


end
