(* ===== verification/CF_Number.thy ===== *)
theory CF_Number
  imports CF_ByteOrder CF_Decimal
begin

text \<open>
  \<open>CFNumber.c\<close>: numbers, their 128-bit arithmetic, creation with the cache of small integers,
  reading at another type, comparison and decimal output.

  A number is its canonical type and the bytes of its value (8, or 16 for the 128-bit type, whose
  two halves are the fields \<open>high\<close> and \<open>low\<close>, in this order), on a little-endian 64-bit host.
  Floating point values appear as their bit patterns; conversions between floating point values
  and others, which need rounding, are left out, so the functions below that read numbers cover
  integer numbers and integer types.  \<open>None\<close> as a result of those stands for the cases left out,
  or for a read past the end of the value's bytes.
\<close>

section \<open>128-bit integers\<close>

record CFSInt128Struct =
  high :: "64 word"
  low :: "64 word"

definition isNeg128 :: "CFSInt128Struct \<Rightarrow> bool" where
  "isNeg128 i = (high i <s 0)"

definition cmp128 :: "CFSInt128Struct \<Rightarrow> CFSInt128Struct \<Rightarrow> int" where
  "cmp128 in1 in2 =
     (if high in1 <s high in2 then kCFCompareLessThan
      else if high in2 <s high in1 then kCFCompareGreaterThan
      else if low in1 < low in2 then kCFCompareLessThan
      else if low in2 < low in1 then kCFCompareGreaterThan
      else kCFCompareEqualTo)"

definition UINT64_MAX :: "64 word" where
  "UINT64_MAX = - 1"

definition add128 :: "CFSInt128Struct \<Rightarrow> CFSInt128Struct \<Rightarrow> CFSInt128Struct" where
  "add128 in1 in2 =
     (let tmp = \<lparr> high = high in1 + high in2, low = low in1 + low in2 \<rparr>
      in if UINT64_MAX - low in1 < low in2 then tmp\<lparr>high := high tmp + 1\<rparr> else tmp)"

definition neg128 :: "CFSInt128Struct \<Rightarrow> CFSInt128Struct" where
  "neg128 i =
     (let tmplow = NOT (low i);
          out = \<lparr> high = NOT (high i), low = tmplow + 1 \<rparr>
      in if UINT64_MAX = tmplow then out\<lparr>high := high out + 1\<rparr> else out)"

definition powersOf10 :: "CFSInt128Struct list" where
  "powersOf10 =
    [\<lparr> high = 0x4B3B4CA85A86C47A, low = 0x098A224000000000 \<rparr>,
     \<lparr> high = 0x0785EE10D5DA46D9, low = 0x00F436A000000000 \<rparr>,
     \<lparr> high = 0x00C097CE7BC90715, low = 0xB34B9F1000000000 \<rparr>,
     \<lparr> high = 0x0013426172C74D82, low = 0x2B878FE800000000 \<rparr>,
     \<lparr> high = 0x0001ED09BEAD87C0, low = 0x378D8E6400000000 \<rparr>,
     \<lparr> high = 0x0000314DC6448D93, low = 0x38C15B0A00000000 \<rparr>,
     \<lparr> high = 0x000004EE2D6D415B, low = 0x85ACEF8100000000 \<rparr>,
     \<lparr> high = 0x0000007E37BE2022, low = 0xC0914B2680000000 \<rparr>,
     \<lparr> high = 0x0000000C9F2C9CD0, low = 0x4674EDEA40000000 \<rparr>,
     \<lparr> high = 0x00000001431E0FAE, low = 0x6D7217CAA0000000 \<rparr>,
     \<lparr> high = 0x00000000204FCE5E, low = 0x3E25026110000000 \<rparr>,
     \<lparr> high = 0x00000000033B2E3C, low = 0x9FD0803CE8000000 \<rparr>,
     \<lparr> high = 0x000000000052B7D2, low = 0xDCC80CD2E4000000 \<rparr>,
     \<lparr> high = 0x0000000000084595, low = 0x161401484A000000 \<rparr>,
     \<lparr> high = 0x000000000000D3C2, low = 0x1BCECCEDA1000000 \<rparr>,
     \<lparr> high = 0x000000000000152D, low = 0x02C7E14AF6800000 \<rparr>,
     \<lparr> high = 0x000000000000021E, low = 0x19E0C9BAB2400000 \<rparr>,
     \<lparr> high = 0x0000000000000036, low = 0x35C9ADC5DEA00000 \<rparr>,
     \<lparr> high = 0x0000000000000005, low = 0x6BC75E2D63100000 \<rparr>,
     \<lparr> high = 0x0000000000000000, low = 0x8AC7230489E80000 \<rparr>,
     \<lparr> high = 0x0000000000000000, low = 0x0DE0B6B3A7640000 \<rparr>,
     \<lparr> high = 0x0000000000000000, low = 0x016345785D8A0000 \<rparr>,
     \<lparr> high = 0x0000000000000000, low = 0x002386F26FC10000 \<rparr>,
     \<lparr> high = 0x0000000000000000, low = 0x00038D7EA4C68000 \<rparr>,
     \<lparr> high = 0x0000000000000000, low = 0x00005AF3107A4000 \<rparr>,
     \<lparr> high = 0x0000000000000000, low = 0x000009184E72A000 \<rparr>,
     \<lparr> high = 0x0000000000000000, low = 0x000000E8D4A51000 \<rparr>,
     \<lparr> high = 0x0000000000000000, low = 0x000000174876E800 \<rparr>,
     \<lparr> high = 0x0000000000000000, low = 0x00000002540BE400 \<rparr>,
     \<lparr> high = 0x0000000000000000, low = 0x000000003B9ACA00 \<rparr>,
     \<lparr> high = 0x0000000000000000, low = 0x0000000005F5E100 \<rparr>,
     \<lparr> high = 0x0000000000000000, low = 0x0000000000989680 \<rparr>,
     \<lparr> high = 0x0000000000000000, low = 0x00000000000F4240 \<rparr>,
     \<lparr> high = 0x0000000000000000, low = 0x00000000000186A0 \<rparr>,
     \<lparr> high = 0x0000000000000000, low = 0x0000000000002710 \<rparr>,
     \<lparr> high = 0x0000000000000000, low = 0x00000000000003E8 \<rparr>,
     \<lparr> high = 0x0000000000000000, low = 0x0000000000000064 \<rparr>,
     \<lparr> high = 0x0000000000000000, low = 0x000000000000000A \<rparr>,
     \<lparr> high = 0x0000000000000000, low = 0x0000000000000001 \<rparr>]"

definition neg_powersOf10 :: "CFSInt128Struct list" where
  "neg_powersOf10 =
    [\<lparr> high = 0xB4C4B357A5793B85, low = 0xF675DDC000000000 \<rparr>,
     \<lparr> high = 0xF87A11EF2A25B926, low = 0xFF0BC96000000000 \<rparr>,
     \<lparr> high = 0xFF3F68318436F8EA, low = 0x4CB460F000000000 \<rparr>,
     \<lparr> high = 0xFFECBD9E8D38B27D, low = 0xD478701800000000 \<rparr>,
     \<lparr> high = 0xFFFE12F64152783F, low = 0xC872719C00000000 \<rparr>,
     \<lparr> high = 0xFFFFCEB239BB726C, low = 0xC73EA4F600000000 \<rparr>,
     \<lparr> high = 0xFFFFFB11D292BEA4, low = 0x7A53107F00000000 \<rparr>,
     \<lparr> high = 0xFFFFFF81C841DFDD, low = 0x3F6EB4D980000000 \<rparr>,
     \<lparr> high = 0xFFFFFFF360D3632F, low = 0xB98B1215C0000000 \<rparr>,
     \<lparr> high = 0xFFFFFFFEBCE1F051, low = 0x928DE83560000000 \<rparr>,
     \<lparr> high = 0xFFFFFFFFDFB031A1, low = 0xC1DAFD9EF0000000 \<rparr>,
     \<lparr> high = 0xFFFFFFFFFCC4D1C3, low = 0x602F7FC318000000 \<rparr>,
     \<lparr> high = 0xFFFFFFFFFFAD482D, low = 0x2337F32D1C000000 \<rparr>,
     \<lparr> high = 0xFFFFFFFFFFF7BA6A, low = 0xE9EBFEB7B6000000 \<rparr>,
     \<lparr> high = 0xFFFFFFFFFFFF2C3D, low = 0xE43133125F000000 \<rparr>,
     \<lparr> high = 0xFFFFFFFFFFFFEAD2, low = 0xFD381EB509800000 \<rparr>,
     \<lparr> high = 0xFFFFFFFFFFFFFDE1, low = 0xE61F36454DC00000 \<rparr>,
     \<lparr> high = 0xFFFFFFFFFFFFFFC9, low = 0xCA36523A21600000 \<rparr>,
     \<lparr> high = 0xFFFFFFFFFFFFFFFA, low = 0x9438A1D29CF00000 \<rparr>,
     \<lparr> high = 0xFFFFFFFFFFFFFFFF, low = 0x7538DCFB76180000 \<rparr>,
     \<lparr> high = 0xFFFFFFFFFFFFFFFF, low = 0xF21F494C589C0000 \<rparr>,
     \<lparr> high = 0xFFFFFFFFFFFFFFFF, low = 0xFE9CBA87A2760000 \<rparr>,
     \<lparr> high = 0xFFFFFFFFFFFFFFFF, low = 0xFFDC790D903F0000 \<rparr>,
     \<lparr> high = 0xFFFFFFFFFFFFFFFF, low = 0xFFFC72815B398000 \<rparr>,
     \<lparr> high = 0xFFFFFFFFFFFFFFFF, low = 0xFFFFA50CEF85C000 \<rparr>,
     \<lparr> high = 0xFFFFFFFFFFFFFFFF, low = 0xFFFFF6E7B18D6000 \<rparr>,
     \<lparr> high = 0xFFFFFFFFFFFFFFFF, low = 0xFFFFFF172B5AF000 \<rparr>,
     \<lparr> high = 0xFFFFFFFFFFFFFFFF, low = 0xFFFFFFE8B7891800 \<rparr>,
     \<lparr> high = 0xFFFFFFFFFFFFFFFF, low = 0xFFFFFFFDABF41C00 \<rparr>,
     \<lparr> high = 0xFFFFFFFFFFFFFFFF, low = 0xFFFFFFFFC4653600 \<rparr>,
     \<lparr> high = 0xFFFFFFFFFFFFFFFF, low = 0xFFFFFFFFFA0A1F00 \<rparr>,
     \<lparr> high = 0xFFFFFFFFFFFFFFFF, low = 0xFFFFFFFFFF676980 \<rparr>,
     \<lparr> high = 0xFFFFFFFFFFFFFFFF, low = 0xFFFFFFFFFFF0BDC0 \<rparr>,
     \<lparr> high = 0xFFFFFFFFFFFFFFFF, low = 0xFFFFFFFFFFFE7960 \<rparr>,
     \<lparr> high = 0xFFFFFFFFFFFFFFFF, low = 0xFFFFFFFFFFFFD8F0 \<rparr>,
     \<lparr> high = 0xFFFFFFFFFFFFFFFF, low = 0xFFFFFFFFFFFFFC18 \<rparr>,
     \<lparr> high = 0xFFFFFFFFFFFFFFFF, low = 0xFFFFFFFFFFFFFF9C \<rparr>,
     \<lparr> high = 0xFFFFFFFFFFFFFFFF, low = 0xFFFFFFFFFFFFFFF6 \<rparr>,
     \<lparr> high = 0xFFFFFFFFFFFFFFFF, low = 0xFFFFFFFFFFFFFFFF \<rparr>]"

text \<open>The digit loop of \<open>emit128\<close>, and the loop over the powers.\<close>

partial_function (option) emit128_count ::
    "CFSInt128Struct \<Rightarrow> CFSInt128Struct \<Rightarrow> CFSInt128Struct \<Rightarrow> nat \<Rightarrow> (CFSInt128Struct \<times> nat) option" where
  "emit128_count p10 n10 tmp cnt =
     (if cmp128 p10 tmp \<le> 0 then emit128_count p10 n10 (add128 tmp n10) (cnt + 1)
      else Some (tmp, cnt))"

fun emit128_loop :: "(CFSInt128Struct \<times> CFSInt128Struct) list \<Rightarrow> CFSInt128Struct \<Rightarrow> bool \<Rightarrow> (string \<times> bool) option" where
  "emit128_loop [] tmp doneOne = Some ([], doneOne)"
| "emit128_loop ((p10, n10) # powers) tmp doneOne = do {
     (tmp, cnt) \<leftarrow> emit128_count p10 n10 tmp 0;
     if cnt \<noteq> 0 \<or> doneOne then do {
       (rest, d) \<leftarrow> emit128_loop powers tmp True;
       Some (char_of (48 + cnt) # rest, d)
     } else emit128_loop powers tmp doneOne
   }"

text \<open>The characters written to the buffer, without the terminating NUL.\<close>

definition emit128 :: "CFSInt128Struct \<Rightarrow> bool \<Rightarrow> string option" where
  "emit128 i forcePlus = do {
     let (tmp, sign) = (if isNeg128 i then (neg128 i, ''-'') else (i, if forcePlus then ''+'' else []));
     (digits, doneOne) \<leftarrow> emit128_loop (zip powersOf10 neg_powersOf10) tmp False;
     Some (sign @ digits @ (if doneOne then [] else ''0''))
   }"

section \<open>Types and numbers\<close>

datatype CFNumberType =
    kCFNumberSInt8Type | kCFNumberSInt16Type | kCFNumberSInt32Type | kCFNumberSInt64Type |
    kCFNumberFloat32Type | kCFNumberFloat64Type | kCFNumberCharType | kCFNumberShortType |
    kCFNumberIntType | kCFNumberLongType | kCFNumberLongLongType | kCFNumberFloatType |
    kCFNumberDoubleType | kCFNumberCFIndexType | kCFNumberNSIntegerType | kCFNumberCGFloatType |
    kCFNumberSInt128Type

record number_type_info =
  canonicalType :: CFNumberType
  floatBit :: bool
  storageBit :: bool
  lgByteSize :: nat

fun CFNumberTypeTable :: "CFNumberType \<Rightarrow> number_type_info" where
  "CFNumberTypeTable kCFNumberSInt8Type = \<lparr> canonicalType = kCFNumberSInt8Type, floatBit = False, storageBit = False, lgByteSize = 0 \<rparr>"
| "CFNumberTypeTable kCFNumberSInt16Type = \<lparr> canonicalType = kCFNumberSInt16Type, floatBit = False, storageBit = False, lgByteSize = 1 \<rparr>"
| "CFNumberTypeTable kCFNumberSInt32Type = \<lparr> canonicalType = kCFNumberSInt32Type, floatBit = False, storageBit = False, lgByteSize = 2 \<rparr>"
| "CFNumberTypeTable kCFNumberSInt64Type = \<lparr> canonicalType = kCFNumberSInt64Type, floatBit = False, storageBit = False, lgByteSize = 3 \<rparr>"
| "CFNumberTypeTable kCFNumberFloat32Type = \<lparr> canonicalType = kCFNumberFloat32Type, floatBit = True, storageBit = False, lgByteSize = 2 \<rparr>"
| "CFNumberTypeTable kCFNumberFloat64Type = \<lparr> canonicalType = kCFNumberFloat64Type, floatBit = True, storageBit = True, lgByteSize = 3 \<rparr>"
| "CFNumberTypeTable kCFNumberCharType = \<lparr> canonicalType = kCFNumberSInt8Type, floatBit = False, storageBit = False, lgByteSize = 0 \<rparr>"
| "CFNumberTypeTable kCFNumberShortType = \<lparr> canonicalType = kCFNumberSInt16Type, floatBit = False, storageBit = False, lgByteSize = 1 \<rparr>"
| "CFNumberTypeTable kCFNumberIntType = \<lparr> canonicalType = kCFNumberSInt32Type, floatBit = False, storageBit = False, lgByteSize = 2 \<rparr>"
| "CFNumberTypeTable kCFNumberLongType = \<lparr> canonicalType = kCFNumberSInt64Type, floatBit = False, storageBit = False, lgByteSize = 3 \<rparr>"
| "CFNumberTypeTable kCFNumberLongLongType = \<lparr> canonicalType = kCFNumberSInt64Type, floatBit = False, storageBit = False, lgByteSize = 3 \<rparr>"
| "CFNumberTypeTable kCFNumberFloatType = \<lparr> canonicalType = kCFNumberFloat32Type, floatBit = True, storageBit = False, lgByteSize = 2 \<rparr>"
| "CFNumberTypeTable kCFNumberDoubleType = \<lparr> canonicalType = kCFNumberFloat64Type, floatBit = True, storageBit = True, lgByteSize = 3 \<rparr>"
| "CFNumberTypeTable kCFNumberCFIndexType = \<lparr> canonicalType = kCFNumberSInt64Type, floatBit = False, storageBit = False, lgByteSize = 3 \<rparr>"
| "CFNumberTypeTable kCFNumberNSIntegerType = \<lparr> canonicalType = kCFNumberSInt64Type, floatBit = False, storageBit = False, lgByteSize = 3 \<rparr>"
| "CFNumberTypeTable kCFNumberCGFloatType = \<lparr> canonicalType = kCFNumberFloat64Type, floatBit = True, storageBit = True, lgByteSize = 3 \<rparr>"
| "CFNumberTypeTable kCFNumberSInt128Type = \<lparr> canonicalType = kCFNumberSInt128Type, floatBit = False, storageBit = True, lgByteSize = 4 \<rparr>"

record CFNumber =
  num_type :: CFNumberType
  num_pad :: "8 word list"

definition BITSFORDOUBLENAN :: "64 word" where
  "BITSFORDOUBLENAN = 0x7ff8000000000000"

definition BITSFORDOUBLEPOSINF :: "64 word" where
  "BITSFORDOUBLEPOSINF = 0x7ff0000000000000"

definition BITSFORDOUBLENEGINF :: "64 word" where
  "BITSFORDOUBLENEGINF = 0xfff0000000000000"

definition kCFNumberNaN :: CFNumber where
  "kCFNumberNaN = \<lparr> num_type = kCFNumberFloat64Type, num_pad = le_bytes BITSFORDOUBLENAN \<rparr>"

definition kCFNumberNegativeInfinity :: CFNumber where
  "kCFNumberNegativeInfinity = \<lparr> num_type = kCFNumberFloat64Type, num_pad = le_bytes BITSFORDOUBLENEGINF \<rparr>"

definition kCFNumberPositiveInfinity :: CFNumber where
  "kCFNumberPositiveInfinity = \<lparr> num_type = kCFNumberFloat64Type, num_pad = le_bytes BITSFORDOUBLEPOSINF \<rparr>"

definition ld128 :: "8 word list \<Rightarrow> CFSInt128Struct option" where
  "ld128 bs = do { h \<leftarrow> le_word bs; l \<leftarrow> le_word (drop 8 bs); Some \<lparr> high = h, low = l \<rparr> }"

definition st128 :: "CFSInt128Struct \<Rightarrow> 8 word list" where
  "st128 i = le_bytes (high i) @ le_bytes (low i)"

section \<open>Reading a number at an integer type\<close>

text \<open>
  The macros \<open>CVT\<close> and \<open>CVT128ToInt\<close> clamp to the range of the destination type, \<open>CVT_COMPAT\<close> and
  \<open>CVT128ToInt_COMPAT\<close> cast.  Each gives the value and the result of the function, which says
  whether the conversion is exact.
\<close>

definition DST_MIN :: "'d::len itself \<Rightarrow> int" where
  "DST_MIN _ = - (2 ^ (LENGTH('d) - 1))"

definition DST_MAX :: "'d::len itself \<Rightarrow> int" where
  "DST_MAX _ = 2 ^ (LENGTH('d) - 1) - 1"

definition CVT :: "64 word \<Rightarrow> 'd::len word \<times> bool" where
  "CVT sv =
     (let dv = (if sint sv < DST_MIN TYPE('d) then of_int (DST_MIN TYPE('d))
                else if DST_MAX TYPE('d) < sint sv then of_int (DST_MAX TYPE('d)) else scast sv)
      in (dv, scast dv = sv))"

definition CVT128ToInt :: "CFSInt128Struct \<Rightarrow> 'd::len word \<times> bool" where
  "CVT128ToInt sv =
     (if 0 <s high sv \<or> (high sv = 0 \<and> of_int (DST_MAX TYPE('d)) < low sv) then (of_int (DST_MAX TYPE('d)), False)
      else if high sv <s -1 \<or> (high sv = -1 \<and> low sv < of_int (DST_MIN TYPE('d))) then (of_int (DST_MIN TYPE('d)), False)
      else (ucast (low sv), True))"

definition CVT_COMPAT :: "64 word \<Rightarrow> 'd::len word \<times> bool" where
  "CVT_COMPAT sv = (let dv = scast sv in (dv, scast dv = sv))"

definition CVT128ToInt_COMPAT :: "CFSInt128Struct \<Rightarrow> 'd::len word \<times> bool" where
  "CVT128ToInt_COMPAT sv = (let dv = ucast (low sv) in (dv, scast dv = low sv))"

text \<open>What is stored at \<open>valuePtr\<close> and the function's result.\<close>

definition cvt_store :: "'d::len word \<times> bool \<Rightarrow> 8 word list \<times> bool" where
  "cvt_store r = (le_bytes (fst r), snd r)"

definition getValue_SInt8 :: "CFNumber \<Rightarrow> (8 word list \<times> bool) option" where
  "getValue_SInt8 number =
     (if \<not> storageBit (CFNumberTypeTable (num_type number)) then do { sv \<leftarrow> le_word (num_pad number); Some (cvt_store (CVT sv :: 8 word \<times> bool)) }
      else do { sv \<leftarrow> ld128 (num_pad number); Some (cvt_store (CVT128ToInt sv :: 8 word \<times> bool)) })"

definition getValue_SInt16 :: "CFNumber \<Rightarrow> (8 word list \<times> bool) option" where
  "getValue_SInt16 number =
     (if \<not> storageBit (CFNumberTypeTable (num_type number)) then do { sv \<leftarrow> le_word (num_pad number); Some (cvt_store (CVT sv :: 16 word \<times> bool)) }
      else do { sv \<leftarrow> ld128 (num_pad number); Some (cvt_store (CVT128ToInt sv :: 16 word \<times> bool)) })"

definition getValue_SInt32 :: "CFNumber \<Rightarrow> (8 word list \<times> bool) option" where
  "getValue_SInt32 number =
     (if \<not> storageBit (CFNumberTypeTable (num_type number)) then do { sv \<leftarrow> le_word (num_pad number); Some (cvt_store (CVT sv :: 32 word \<times> bool)) }
      else do { sv \<leftarrow> ld128 (num_pad number); Some (cvt_store (CVT128ToInt sv :: 32 word \<times> bool)) })"

definition getValue_SInt64 :: "CFNumber \<Rightarrow> (8 word list \<times> bool) option" where
  "getValue_SInt64 number =
     (if \<not> storageBit (CFNumberTypeTable (num_type number)) then do { sv \<leftarrow> le_word (num_pad number) :: 64 word option; Some (le_bytes sv, True) }
      else do { sv \<leftarrow> ld128 (num_pad number); Some (cvt_store (CVT128ToInt sv :: 64 word \<times> bool)) })"

definition getValue_SInt128 :: "CFNumber \<Rightarrow> (8 word list \<times> bool) option" where
  "getValue_SInt128 number =
     (if \<not> storageBit (CFNumberTypeTable (num_type number)) then do {
        j \<leftarrow> le_word (num_pad number);
        Some (st128 \<lparr> high = (if j <s 0 then -1 else 0), low = j \<rparr>, True)
      } else do { i \<leftarrow> ld128 (num_pad number); Some (st128 i, True) })"

definition CFNumberGetValue_clamp :: "CFNumber \<Rightarrow> CFNumberType \<Rightarrow> (8 word list \<times> bool) option" where
  "CFNumberGetValue_clamp number type =
     (if floatBit (CFNumberTypeTable (num_type number)) then None
      else case canonicalType (CFNumberTypeTable type) of
        kCFNumberSInt8Type \<Rightarrow> getValue_SInt8 number
      | kCFNumberSInt16Type \<Rightarrow> getValue_SInt16 number
      | kCFNumberSInt32Type \<Rightarrow> getValue_SInt32 number
      | kCFNumberSInt64Type \<Rightarrow> getValue_SInt64 number
      | kCFNumberSInt128Type \<Rightarrow> getValue_SInt128 number
      | _ \<Rightarrow> None)"

text \<open>
  The same with casts.  Linked before Snow Leopard, reading 8 or 16 bits always succeeds; after
  that it also succeeds for small unsigned values.
\<close>

definition compatValue_SInt8 :: "bool \<Rightarrow> CFNumber \<Rightarrow> (8 word list \<times> bool) option" where
  "compatValue_SInt8 snowLeopard number =
     (if \<not> storageBit (CFNumberTypeTable (num_type number)) then do {
        sv \<leftarrow> le_word (num_pad number) :: 64 word option;
        let dv = (scast sv :: 8 word);
        let vv = scast dv;
        Some (le_bytes dv, \<not> snowLeopard \<or> signed_drop_bit 8 sv = 0 \<or> vv = sv)
      } else do { sv \<leftarrow> ld128 (num_pad number); Some (cvt_store (CVT128ToInt_COMPAT sv :: 8 word \<times> bool)) })"

definition compatValue_SInt16 :: "bool \<Rightarrow> CFNumber \<Rightarrow> (8 word list \<times> bool) option" where
  "compatValue_SInt16 snowLeopard number =
     (if \<not> storageBit (CFNumberTypeTable (num_type number)) then do {
        sv \<leftarrow> le_word (num_pad number) :: 64 word option;
        let dv = (scast sv :: 16 word);
        let vv = scast dv;
        Some (le_bytes dv, \<not> snowLeopard \<or> signed_drop_bit 16 sv = 0 \<or> vv = sv)
      } else do { sv \<leftarrow> ld128 (num_pad number); Some (cvt_store (CVT128ToInt_COMPAT sv :: 16 word \<times> bool)) })"

definition compatValue_SInt32 :: "CFNumber \<Rightarrow> (8 word list \<times> bool) option" where
  "compatValue_SInt32 number =
     (if \<not> storageBit (CFNumberTypeTable (num_type number)) then do { sv \<leftarrow> le_word (num_pad number); Some (cvt_store (CVT_COMPAT sv :: 32 word \<times> bool)) }
      else do { sv \<leftarrow> ld128 (num_pad number); Some (cvt_store (CVT128ToInt_COMPAT sv :: 32 word \<times> bool)) })"

definition compatValue_SInt64 :: "CFNumber \<Rightarrow> (8 word list \<times> bool) option" where
  "compatValue_SInt64 number =
     (if \<not> storageBit (CFNumberTypeTable (num_type number)) then do { sv \<leftarrow> le_word (num_pad number); Some (cvt_store (CVT_COMPAT sv :: 64 word \<times> bool)) }
      else do { sv \<leftarrow> ld128 (num_pad number); Some (cvt_store (CVT128ToInt_COMPAT sv :: 64 word \<times> bool)) })"

definition compatValue_SInt128 :: "CFNumber \<Rightarrow> (8 word list \<times> bool) option" where
  "compatValue_SInt128 number =
     (if \<not> storageBit (CFNumberTypeTable (num_type number)) then do {
        j \<leftarrow> le_word (num_pad number);
        Some (st128 \<lparr> high = (if j <s 0 then -1 else 0), low = j \<rparr>, True)
      } else do { i \<leftarrow> ld128 (num_pad number); Some (st128 i, True) })"

text \<open>\<open>CFNumberGetValue\<close> calls the casting variant.\<close>

definition CFNumberGetValue :: "bool \<Rightarrow> CFNumber \<Rightarrow> CFNumberType \<Rightarrow> (8 word list \<times> bool) option" where
  "CFNumberGetValue snowLeopard number type =
     (if floatBit (CFNumberTypeTable (num_type number)) then None
      else case canonicalType (CFNumberTypeTable type) of
        kCFNumberSInt8Type \<Rightarrow> compatValue_SInt8 snowLeopard number
      | kCFNumberSInt16Type \<Rightarrow> compatValue_SInt16 snowLeopard number
      | kCFNumberSInt32Type \<Rightarrow> compatValue_SInt32 number
      | kCFNumberSInt64Type \<Rightarrow> compatValue_SInt64 number
      | kCFNumberSInt128Type \<Rightarrow> compatValue_SInt128 number
      | _ \<Rightarrow> None)"

definition CFNumberGetType :: "CFNumber \<Rightarrow> CFNumberType" where
  "CFNumberGetType number =
     (if num_type number = kCFNumberSInt128Type then kCFNumberSInt64Type else num_type number)"

definition CFNumberGetType2 :: "CFNumber \<Rightarrow> CFNumberType" where
  "CFNumberGetType2 number = num_type number"

definition CFNumberGetByteSize :: "CFNumber \<Rightarrow> nat" where
  "CFNumberGetByteSize number = 2 ^ lgByteSize (CFNumberTypeTable (CFNumberGetType number))"

definition CFNumberIsFloatType :: "CFNumber \<Rightarrow> bool" where
  "CFNumberIsFloatType number = floatBit (CFNumberTypeTable (CFNumberGetType number))"

text \<open>The comparison of two integers.\<close>

definition CFNumberCompare_ints :: "CFNumber \<Rightarrow> CFNumber \<Rightarrow> int option" where
  "CFNumberCompare_ints number1 number2 = do {
     (b1, _) \<leftarrow> CFNumberGetValue_clamp number1 kCFNumberSInt128Type;
     (b2, _) \<leftarrow> CFNumberGetValue_clamp number2 kCFNumberSInt128Type;
     i1 \<leftarrow> ld128 b1;
     i2 \<leftarrow> ld128 b2;
     Some (cmp128 i1 i2)
   }"

definition CFNumberCreateFormattingDescription_int :: "CFNumber \<Rightarrow> string option" where
  "CFNumberCreateFormattingDescription_int number = do {
     (b, _) \<leftarrow> CFNumberGetValue_clamp number kCFNumberSInt128Type;
     i \<leftarrow> ld128 b;
     emit128 i False
   }"

section \<open>Creation\<close>

text \<open>Bit patterns of the IEEE formats: not a number, infinity, the sign.\<close>

definition isnan32 :: "32 word \<Rightarrow> bool" where
  "isnan32 f \<longleftrightarrow> f AND 0x7f800000 = 0x7f800000 \<and> f AND 0x007fffff \<noteq> 0"

definition isinf32 :: "32 word \<Rightarrow> bool" where
  "isinf32 f \<longleftrightarrow> f AND 0x7fffffff = 0x7f800000"

definition isnan64 :: "64 word \<Rightarrow> bool" where
  "isnan64 d \<longleftrightarrow> d AND 0x7ff0000000000000 = 0x7ff0000000000000 \<and> d AND 0x000fffffffffffff \<noteq> 0"

definition isinf64 :: "64 word \<Rightarrow> bool" where
  "isinf64 d \<longleftrightarrow> d AND 0x7fffffffffffffff = 0x7ff0000000000000"

text \<open>\<open>cached\<close> of the floating point branch; the inner \<open>None\<close> is \<open>NULL\<close>.\<close>

definition number_float_cached :: "number_type_info \<Rightarrow> 8 word list \<Rightarrow> CFNumber option option" where
  "number_float_cached ti valuePtr =
     (if \<not> storageBit ti then do {
        f \<leftarrow> le_word valuePtr :: 32 word option;
        let cached = (if isnan32 f then Some kCFNumberNaN else None);
        Some (if isinf32 f then Some (if f <s 0 then kCFNumberNegativeInfinity else kCFNumberPositiveInfinity) else cached)
      } else do {
        d \<leftarrow> le_word valuePtr :: 64 word option;
        let cached = (if isnan64 d then Some kCFNumberNaN else None);
        Some (if isinf64 d then Some (if d <s 0 then kCFNumberNegativeInfinity else kCFNumberPositiveInfinity) else cached)
      })"

definition MinCachedInt :: int where "MinCachedInt = -1"

definition MaxCachedInt :: int where "MaxCachedInt = 12"

definition NotToBeCached :: int where "NotToBeCached = MinCachedInt - 1"

definition cached_val :: "'a::len word \<Rightarrow> int" where
  "cached_val val = (if MinCachedInt \<le> sint val \<and> sint val \<le> MaxCachedInt then sint val else NotToBeCached)"

definition number_val_to_be_cached :: "CFNumberType \<Rightarrow> 8 word list \<Rightarrow> int option" where
  "number_val_to_be_cached canonical valuePtr = (case canonical of
       kCFNumberSInt8Type \<Rightarrow> map_option (cached_val :: 8 word \<Rightarrow> int) (le_word valuePtr)
     | kCFNumberSInt16Type \<Rightarrow> map_option (cached_val :: 16 word \<Rightarrow> int) (le_word valuePtr)
     | kCFNumberSInt32Type \<Rightarrow> map_option (cached_val :: 32 word \<Rightarrow> int) (le_word valuePtr)
     | kCFNumberSInt64Type \<Rightarrow> map_option (cached_val :: 64 word \<Rightarrow> int) (le_word valuePtr)
     | _ \<Rightarrow> Some NotToBeCached)"

text \<open>The final \<open>switch\<close>: the bytes of \<open>_pad\<close>, which the runtime allocated filled with zeros.\<close>

definition sign_extend :: "'a::len word \<Rightarrow> 8 word list" where
  "sign_extend v = le_bytes (scast v :: 64 word)"

definition number_store :: "CFNumberType \<Rightarrow> 8 word list \<Rightarrow> 8 word list option" where
  "number_store canonical valuePtr = (case canonical of
       kCFNumberSInt8Type \<Rightarrow> map_option (sign_extend :: 8 word \<Rightarrow> 8 word list) (le_word valuePtr)
     | kCFNumberSInt16Type \<Rightarrow> map_option (sign_extend :: 16 word \<Rightarrow> 8 word list) (le_word valuePtr)
     | kCFNumberSInt32Type \<Rightarrow> map_option (sign_extend :: 32 word \<Rightarrow> 8 word list) (le_word valuePtr)
     | kCFNumberSInt64Type \<Rightarrow> if length valuePtr < 8 then None else Some (take 8 valuePtr)
     | kCFNumberSInt128Type \<Rightarrow> if length valuePtr < 16 then None else Some (take 16 valuePtr)
     | kCFNumberFloat32Type \<Rightarrow> if length valuePtr < 4 then None else Some (take 4 valuePtr @ replicate 4 0)
     | kCFNumberFloat64Type \<Rightarrow> if length valuePtr < 8 then None else Some (take 8 valuePtr)
     | _ \<Rightarrow> Some (replicate 8 0))"

text \<open>
  \<open>CFNumberCreate\<close>.  \<open>cache\<close> is the table of cached numbers at the lookup; what other threads do
  to it before the compare-and-swap is the function \<open>others\<close>.  The result is the number
  (\<open>None\<close> is \<open>NULL\<close>) and the table afterwards.
\<close>

type_synonym number_cache = "CFNumber option list"

definition CFNumberCreate :: "cf_env \<Rightarrow> bool \<Rightarrow> bool \<Rightarrow> (number_cache \<Rightarrow> number_cache) \<Rightarrow> number_cache \<Rightarrow>
    CFNumberType \<Rightarrow> 8 word list \<Rightarrow> (CFNumber option \<times> number_cache) option" where
  "CFNumberCreate env systemDefault cachingEnabled others cache type valuePtr = do {
     let ti = CFNumberTypeTable type;
     cached \<leftarrow> (if floatBit ti then number_float_cached ti valuePtr else Some None);
     valToBeCached \<leftarrow> (if \<not> floatBit ti \<and> systemDefault \<and> cachingEnabled
       then number_val_to_be_cached (canonicalType ti) valuePtr else Some NotToBeCached);
     let slot = nat (valToBeCached - MinCachedInt);
     if cached \<noteq> None then Some (cached, cache)
     else if valToBeCached \<noteq> NotToBeCached \<and> cache ! slot \<noteq> None then Some (cache ! slot, cache)
     else do {
       let size = 8 + (if \<not> floatBit ti \<and> storageBit ti then 8 else 0);
       if \<not> CFRuntimeCreateInstance env size then Some (None, others cache)
       else if valToBeCached \<noteq> NotToBeCached then do {
         let pad = le_bytes (of_int valToBeCached :: 64 word);
         let cache = others cache;
         if cache ! slot = None then do {
           let result = \<lparr> num_type = kCFNumberSInt32Type, num_pad = pad \<rparr>;
           Some (Some result, cache[slot := Some result])
         } else Some (Some \<lparr> num_type = canonicalType ti, num_pad = pad \<rparr>, cache)
       } else do {
         pad \<leftarrow> number_store (canonicalType ti) valuePtr;
         Some (Some \<lparr> num_type = canonicalType ti, num_pad = pad \<rparr>, others cache)
       }
     }
   }"

section \<open>The value of a 128-bit integer\<close>

definition val128 :: "CFSInt128Struct \<Rightarrow> int" where
  "val128 i = sint (high i) * 2 ^ 64 + uint (low i)"

lemma uint_64: "0 \<le> uint (w :: 64 word)" "uint (w :: 64 word) < 2 ^ 64"
  using uint_lt2p [of w] by simp_all

lemma sint_64: "- (2 ^ 63) \<le> sint (w :: 64 word)" "sint (w :: 64 word) < 2 ^ 63"
  using sint_ge [of w] sint_lt [of w] by simp_all

lemma val128_bounds:
  assumes "- (2 ^ 63) \<le> h" "h < 2 ^ 63" "0 \<le> l" "l < (2 :: int) ^ 64"
  shows "- (2 ^ 127) \<le> h * 2 ^ 64 + l" "h * 2 ^ 64 + l < 2 ^ 127" "h * 2 ^ 64 + l < 0 \<longleftrightarrow> h < 0"
  using assms by simp_all linarith

lemma val128_range: "- (2 ^ 127) \<le> val128 i" "val128 i < 2 ^ 127"
  unfolding val128_def by (rule val128_bounds [OF sint_64 uint_64])+

lemma val128_split:
  assumes "0 \<le> l" "l < 2 ^ 64" "0 \<le> m" "m < (2 :: int) ^ 64"
  shows "h * 2 ^ 64 + l < k * 2 ^ 64 + m \<longleftrightarrow> h < k \<or> h = k \<and> l < m"
  by (cases h k rule: linorder_cases) (use assms in simp_all)

lemma sint_eq: "sint a = sint b \<longleftrightarrow> a = b"
  by (auto intro: signed_word_eqI)

lemma val128_less: "val128 i < val128 j \<longleftrightarrow> high i <s high j \<or> high i = high j \<and> low i < low j"
  unfolding val128_def val128_split [OF uint_64 uint_64] by (simp add: word_sless_alt word_less_alt sint_eq)

lemma val128_split_eq:
  assumes "0 \<le> l" "l < 2 ^ 64" "0 \<le> m" "m < (2 :: int) ^ 64"
  shows "h * 2 ^ 64 + l = k * 2 ^ 64 + m \<longleftrightarrow> h = k \<and> l = m"
  by (cases h k rule: linorder_cases) (use assms in simp_all)

lemma val128_eq: "val128 i = val128 j \<longleftrightarrow> i = j"
  unfolding val128_def val128_split_eq [OF uint_64 uint_64] by (cases i; cases j) (simp add: sint_eq word_uint_eq_iff)

lemma cmp128_val:
  "cmp128 i j = (if val128 i < val128 j then kCFCompareLessThan else if val128 j < val128 i then kCFCompareGreaterThan else kCFCompareEqualTo)"
  unfolding cmp128_def val128_less by (auto simp: word_sless_alt word_less_alt simp flip: sint_eq)

lemma isNeg128_val: "isNeg128 i \<longleftrightarrow> val128 i < 0"
  unfolding isNeg128_def val128_def val128_bounds(3) [OF sint_64 uint_64] by (simp add: word_sless_alt)

text \<open>Sums and negations, up to a multiple of the modulus and exactly where the result fits.\<close>

lemma sint_congI:
  assumes "a = (of_int x :: 'a::len word)"
  shows "\<exists>k. sint a = x + k * 2 ^ LENGTH('a)"
proof -
  have "(of_int (sint a) :: 'a word) = of_int x" using assms by simp
  then have "take_bit LENGTH('a) (sint a) = take_bit LENGTH('a) x" by (simp only: word_of_int_eq_iff)
  then have "sint a mod 2 ^ LENGTH('a) = x mod 2 ^ LENGTH('a)" by (simp only: take_bit_eq_mod)
  then obtain k where "sint a = x + 2 ^ LENGTH('a) * k" using mod_eqE by metis
  then show ?thesis by (intro exI [of _ k]) (simp add: mult.commute)
qed

lemma val128_cong:
  assumes "high i = of_int h" "uint (low i) = l"
  shows "\<exists>k. val128 i = h * 2 ^ 64 + l + k * 2 ^ 128"
proof -
  obtain k where "sint (high i) = h + k * 2 ^ 64" using sint_congI [OF assms(1)] by auto
  then show ?thesis by (intro exI [of _ k]) (simp add: val128_def assms(2))
qed

lemma val128_exact:
  assumes "\<exists>k. val128 i = v + k * 2 ^ 128" "- (2 ^ 127) \<le> v" "v < 2 ^ 127"
  shows "val128 i = v"
proof -
  obtain k where k: "val128 i = v + k * 2 ^ 128" using assms(1) by blast
  have "\<not> 1 \<le> k" "\<not> k \<le> - 1" using k assms(2,3) val128_range [of i] by auto
  then show ?thesis using k by simp
qed

lemma uint_plus_carry:
  fixes a b :: "64 word"
  shows "uint (a + b) = uint a + uint b - (if UINT64_MAX - a < b then 2 ^ 64 else 0)"
proof -
  have "uint (- 1 - a) = 2 ^ 64 - 1 - uint a"
    using uint_64 [of a] by (subst uint_sub_lem [THEN iffD1]) (simp_all add: unsigned_minus_1_eq_mask mask_eq_exp_minus_1)
  then have c: "UINT64_MAX - a < b \<longleftrightarrow> 2 ^ 64 \<le> uint a + uint b" by (auto simp: UINT64_MAX_def word_less_alt)
  show ?thesis using uint_64 [of a] uint_64 [of b] unfolding c by (simp add: uint_plus_if')
qed

lemma val128_add128:
  assumes "- (2 ^ 127) \<le> val128 i + val128 j" "val128 i + val128 j < 2 ^ 127"
  shows "val128 (add128 i j) = val128 i + val128 j"
proof (rule val128_exact [OF _ assms])
  let ?c = "if UINT64_MAX - low i < low j then 1 else 0 :: int"
  have h: "high (add128 i j) = of_int (sint (high i) + sint (high j) + ?c)" by (simp add: add128_def Let_def)
  have "uint (low (add128 i j)) = uint (low i) + uint (low j) - ?c * 2 ^ 64" by (simp add: add128_def Let_def uint_plus_carry)
  from val128_cong [OF h this] show "\<exists>k. val128 (add128 i j) = val128 i + val128 j + k * 2 ^ 128"
    by (auto simp: val128_def algebra_simps)
qed

lemma val128_neg128:
  assumes "val128 i \<noteq> - (2 ^ 127)"
  shows "val128 (neg128 i) = - val128 i"
proof (rule val128_exact)
  let ?c = "if low i = 0 then 1 else 0 :: int"
  have c: "UINT64_MAX = NOT (low i) \<longleftrightarrow> low i = 0" unfolding UINT64_MAX_def by (metis bit.compl_zero bit.double_compl)
  have n: "neg128 i = \<lparr> high = - high i - 1 + of_int ?c, low = - low i \<rparr>"
    unfolding neg128_def Let_def c by (simp add: not_eq_complement)
  have h: "high (neg128 i) = of_int (- sint (high i) - 1 + ?c)" by (simp add: n)
  have "uint (low (neg128 i)) = (1 - ?c) * 2 ^ 64 - uint (low i)"
    using uint_64 [of "low i"] unfolding n by (simp add: uint_word_ariths zmod_zminus1_eq_if unsigned_eq_0_iff)
  from val128_cong [OF h this] show "\<exists>k. val128 (neg128 i) = - val128 i + k * 2 ^ 128"
    by (auto simp: val128_def algebra_simps)
  show "- (2 ^ 127) \<le> - val128 i" "- val128 i < 2 ^ 127" using val128_range [of i] assms by linarith+
qed

section \<open>Decimal output\<close>

lemma emit128_count_works:
  assumes "val128 p10 = p" "val128 n10 = - p" "0 < p" "0 \<le> val128 tmp"
  shows "\<exists>tmp'. emit128_count p10 n10 tmp cnt = Some (tmp', cnt + nat (val128 tmp div p)) \<and> val128 tmp' = val128 tmp mod p"
  using assms(4)
proof (induction "nat (val128 tmp div p)" arbitrary: tmp cnt)
  case 0
  moreover have "0 \<le> val128 tmp div p" using 0 assms(3) by (simp add: pos_imp_zdiv_nonneg_iff)
  ultimately have "val128 tmp div p = 0" by linarith
  then have "val128 tmp < p" using assms(3) 0(2) by (auto simp: zdiv_eq_0_iff)
  then have "\<not> cmp128 p10 tmp \<le> 0" using assms(1) by (simp add: cmp128_val cf_compare_defs)
  then show ?case using \<open>val128 tmp < p\<close> 0 by (simp add: emit128_count.simps)
next
  case (Suc n)
  have "p \<le> val128 tmp"
  proof (rule ccontr)
    assume "\<not> p \<le> val128 tmp"
    then show False using Suc(2,3) by simp
  qed
  moreover have "cmp128 p10 tmp \<le> 0" using calculation assms(1) by (simp add: cmp128_val cf_compare_defs)
  moreover have v: "val128 (add128 tmp n10) = val128 tmp - p"
    using calculation(1) val128_range [of tmp] assms(2,3) by (subst val128_add128) simp_all
  moreover have d: "(val128 tmp - p) div p = val128 tmp div p - 1" "(val128 tmp - p) mod p = val128 tmp mod p"
    using assms(3) div_mult_self1 [of p "val128 tmp" "- 1"] by simp_all
  moreover have N: "n = nat (val128 (add128 tmp n10) div p)" using Suc(2) d v by simp
  ultimately obtain tmp' where "emit128_count p10 n10 (add128 tmp n10) (cnt + 1) = Some (tmp', cnt + 1 + n)" "val128 tmp' = val128 tmp mod p"
    using Suc(1) [OF N, of "cnt + 1"] by auto
  then show ?case using \<open>cmp128 p10 tmp \<le> 0\<close> unfolding Suc(2) [symmetric] by (subst emit128_count.simps) simp
qed

text \<open>The two tables hold the powers of ten and their negations, from the 38th down.\<close>

lemma powers_table:
  "map (\<lambda>(p, n). (val128 p, val128 n)) (zip powersOf10 neg_powersOf10) = map (\<lambda>k. (10 ^ k, - (10 ^ k))) (rev [0..<39])"
  by (simp add: powersOf10_def neg_powersOf10_def val128_def upt_rec)

lemma digit_char_zero: "digit_char 0 = CHR ''0''"
  by code_simp

lemma emit128_step:
  assumes "map (\<lambda>(p, n). (val128 p, val128 n)) tbl = map (\<lambda>k. (10 ^ k, - (10 ^ k))) (rev [0..<Suc m])" "0 \<le> val128 tmp"
  shows "\<exists>p n t tmp'. tbl = (p, n) # t \<and> map (\<lambda>(p, n). (val128 p, val128 n)) t = map (\<lambda>k. (10 ^ k, - (10 ^ k))) (rev [0..<m]) \<and>
    emit128_count p n tmp 0 = Some (tmp', nat (val128 tmp) div 10 ^ m) \<and> 0 \<le> val128 tmp' \<and> val128 tmp' < 10 ^ m \<and>
    nat (val128 tmp') = nat (val128 tmp) mod 10 ^ m"
proof -
  obtain p n t where t: "tbl = (p, n) # t" "val128 p = 10 ^ m" "val128 n = - (10 ^ m)"
      "map (\<lambda>(p, n). (val128 p, val128 n)) t = map (\<lambda>k. (10 ^ k, - (10 ^ k))) (rev [0..<m])"
    using assms(1) by (cases tbl) auto
  obtain tmp' where c: "emit128_count p n tmp 0 = Some (tmp', nat (val128 tmp div 10 ^ m))" "val128 tmp' = val128 tmp mod 10 ^ m"
    using emit128_count_works [OF t(2,3) _ assms(2), of 0] by auto
  have "nat (val128 tmp div 10 ^ m) = nat (val128 tmp) div 10 ^ m" "nat (val128 tmp mod 10 ^ m) = nat (val128 tmp) mod 10 ^ m"
    using assms(2) by (simp_all add: nat_div_distrib nat_mod_distrib nat_power_eq)
  then show ?thesis using t(1,4) c by simp
qed

lemma emit128_loop_True:
  assumes "map (\<lambda>(p, n). (val128 p, val128 n)) tbl = map (\<lambda>k. (10 ^ k, - (10 ^ k))) (rev [0..<m])" "0 \<le> val128 tmp"
  shows "emit128_loop tbl tmp True = Some (fixed_digits m (nat (val128 tmp)), True)"
  using assms
proof (induction m arbitrary: tbl tmp)
  case (Suc m)
  obtain p n t tmp' where s: "tbl = (p, n) # t" "map (\<lambda>(p, n). (val128 p, val128 n)) t = map (\<lambda>k. (10 ^ k, - (10 ^ k))) (rev [0..<m])"
      "emit128_count p n tmp 0 = Some (tmp', nat (val128 tmp) div 10 ^ m)" "0 \<le> val128 tmp'" "nat (val128 tmp') = nat (val128 tmp) mod 10 ^ m"
    using emit128_step [OF Suc.prems] by blast
  show ?case using Suc.IH [OF s(2,4)] by (simp add: s(1,3,5) digit_char_def)
qed simp

lemma emit128_loop_False:
  assumes "map (\<lambda>(p, n). (val128 p, val128 n)) tbl = map (\<lambda>k. (10 ^ k, - (10 ^ k))) (rev [0..<m])" "0 \<le> val128 tmp"
    "val128 tmp < 10 ^ m"
  shows "emit128_loop tbl tmp False = Some (if val128 tmp = 0 then ([], False) else (print_decimal (nat (val128 tmp)), True))"
  using assms
proof (induction m arbitrary: tbl tmp)
  case (Suc m)
  obtain p n t tmp' where s: "tbl = (p, n) # t" "map (\<lambda>(p, n). (val128 p, val128 n)) t = map (\<lambda>k. (10 ^ k, - (10 ^ k))) (rev [0..<m])"
      "emit128_count p n tmp 0 = Some (tmp', nat (val128 tmp) div 10 ^ m)" "0 \<le> val128 tmp'" "val128 tmp' < 10 ^ m"
      "nat (val128 tmp') = nat (val128 tmp) mod 10 ^ m"
    using emit128_step [OF Suc.prems(1,2)] by blast
  let ?v = "nat (val128 tmp)" and ?d = "nat (val128 tmp) div 10 ^ m"
  have v: "?d * 10 ^ m + ?v mod 10 ^ m = ?v" by (rule div_mult_mod_eq)
  show ?case
  proof (cases "?d = 0")
    case True
    then have "nat (val128 tmp') = ?v" using s(6) v by simp
    then have "val128 tmp' = val128 tmp" using s(4) Suc.prems(2) by simp
    then show ?thesis using Suc.IH [OF s(2,4,5)] True by (simp add: s(1,3))
  next
    case False
    have "?v < 10 ^ Suc m" using Suc.prems(3) nat_less_iff [OF Suc.prems(2), of "10 ^ Suc m"] by simp
    then have "?d < 10" by (simp add: div_less_iff_less_mult)
    then have "print_decimal ?v = digit_char ?d # fixed_digits m (?v mod 10 ^ m)"
      using print_decimal_lead [of ?d "?v mod 10 ^ m" m] False by (simp only: v) simp
    moreover have "val128 tmp \<noteq> 0" using False by auto
    ultimately show ?thesis using emit128_loop_True [OF s(2,4)] False by (simp add: s(1,3,6) digit_char_def)
  qed
qed simp

definition sign_of :: "int \<Rightarrow> bool \<Rightarrow> string" where
  "sign_of v forcePlus = (if v < 0 then ''-'' else if forcePlus then ''+'' else [])"

lemma emit128_val:
  assumes "val128 i \<noteq> - (2 ^ 127)"
  shows "emit128 i forcePlus = Some (sign_of (val128 i) forcePlus @ print_decimal (nat \<bar>val128 i\<bar>))"
proof -
  define tmp where "tmp = (if isNeg128 i then neg128 i else i)"
  have t: "val128 tmp = \<bar>val128 i\<bar>" using val128_neg128 [OF assms] by (simp add: tmp_def isNeg128_val)
  have "\<bar>val128 i\<bar> < 10 ^ 39" using val128_range [of i] by simp
  then have "emit128_loop (zip powersOf10 neg_powersOf10) tmp False =
      Some (if val128 i = 0 then ([], False) else (print_decimal (nat \<bar>val128 i\<bar>), True))"
    using emit128_loop_False [OF powers_table, of tmp] by (simp add: t)
  moreover have "print_decimal 0 = ''0''" by (subst print_decimal.simps) (simp add: digit_char_zero)
  ultimately show ?thesis by (auto simp: emit128_def tmp_def sign_of_def isNeg128_val)
qed

lemma emit128_min: "emit128 \<lparr> high = - 9223372036854775808, low = 0 \<rparr> forcePlus = Some ''-0''"
proof -
  let ?i = "\<lparr> high = - 9223372036854775808, low = 0 \<rparr> :: CFSInt128Struct"
  have n: "isNeg128 ?i" "neg128 ?i = ?i" by (simp_all add: isNeg128_def neg128_def UINT64_MAX_def word_sless_alt)
  have c: "emit128_count p n ?i 0 = Some (?i, 0)" if "0 \<le> val128 p" for p n
    using that by (subst emit128_count.simps) (simp add: cmp128_val cf_compare_defs val128_def)
  have "emit128_loop tbl ?i False = Some ([], False)" if "\<forall>(p, n) \<in> set tbl. 0 \<le> val128 p" for tbl
    using that by (induction tbl) (auto simp: c)
  moreover have "\<forall>(p, n) \<in> set (zip powersOf10 neg_powersOf10). 0 \<le> val128 p"
  proof -
    have "\<forall>x \<in> set (map (\<lambda>(p, n). (val128 p, val128 n)) (zip powersOf10 neg_powersOf10)). 0 \<le> fst x"
      unfolding powers_table by auto
    then show ?thesis by (auto simp: split_beta)
  qed
  ultimately show ?thesis by (simp add: emit128_def n)
qed

section \<open>Conversions between integer types\<close>

definition clamp :: "'d::len itself \<Rightarrow> int \<Rightarrow> int" where
  "clamp d v = (if v < DST_MIN d then DST_MIN d else if DST_MAX d < v then DST_MAX d else v)"

lemma DST_range:
  "DST_MIN TYPE('d::len) \<le> sint (w :: 'd word)" "sint (w :: 'd word) \<le> DST_MAX TYPE('d)"
  using sint_ge [of w] sint_lt [of w] by (simp_all add: DST_MIN_def DST_MAX_def)

lemma DST_le:
  assumes "LENGTH('d) \<le> LENGTH('e)"
  shows "DST_MIN TYPE('e::len) \<le> DST_MIN TYPE('d::len)" "DST_MAX TYPE('d) \<le> DST_MAX TYPE('e)"
proof -
  have "(2 :: int) ^ (LENGTH('d) - 1) \<le> 2 ^ (LENGTH('e) - 1)" using assms by (intro power_increasing) simp_all
  then show "DST_MIN TYPE('e::len) \<le> DST_MIN TYPE('d::len)" "DST_MAX TYPE('d) \<le> DST_MAX TYPE('e)"
    unfolding DST_MIN_def DST_MAX_def by linarith+
qed

lemma sint_of_int_DST:
  assumes "DST_MIN TYPE('d::len) \<le> v" "v \<le> DST_MAX TYPE('d)"
  shows "sint (of_int v :: 'd word) = v"
  using assms by (simp add: DST_MIN_def DST_MAX_def sint_sbintrunc' signed_take_bit_int_eq_self)

lemma DST_min_max: "DST_MIN TYPE('d::len) \<le> DST_MAX TYPE('d)" "DST_MIN TYPE('d) < 0" "0 \<le> DST_MAX TYPE('d)"
proof -
  have "(1 :: int) \<le> 2 ^ (LENGTH('d) - 1)" by simp
  then show "DST_MIN TYPE('d::len) \<le> DST_MAX TYPE('d)" "DST_MIN TYPE('d) < 0" "0 \<le> DST_MAX TYPE('d)"
    unfolding DST_MIN_def DST_MAX_def by linarith+
qed

lemma sint_clamp: "sint (of_int (clamp TYPE('d::len) v) :: 'd word) = clamp TYPE('d) v"
  using DST_min_max [where 'd = 'd] by (intro sint_of_int_DST) (auto simp: clamp_def)

lemma scast_eq_iff:
  assumes "LENGTH('d) \<le> LENGTH('e)"
  shows "(scast (d :: 'd::len word) :: 'e::len word) = e \<longleftrightarrow> sint d = sint e"
proof -
  have "sint (scast d :: 'e word) = sint d"
    using DST_range [of d] DST_le [OF assms] sint_of_int_DST [of "sint d", where 'd = 'e] by simp
  then show ?thesis by (metis sint_eq)
qed

lemma CVT_works:
  assumes "LENGTH('d::len) \<le> 64"
  shows "sint (fst (CVT sv :: 'd word \<times> bool)) = clamp TYPE('d) (sint sv)"
    "snd (CVT sv :: 'd word \<times> bool) \<longleftrightarrow> clamp TYPE('d) (sint sv) = sint sv"
proof -
  have "fst (CVT sv :: 'd word \<times> bool) = of_int (clamp TYPE('d) (sint sv))"
    by (simp add: CVT_def clamp_def Let_def)
  then show c: "sint (fst (CVT sv :: 'd word \<times> bool)) = clamp TYPE('d) (sint sv)" by (simp only: sint_clamp)
  have "snd (CVT sv :: 'd word \<times> bool) \<longleftrightarrow> scast (fst (CVT sv :: 'd word \<times> bool)) = sv" by (simp add: CVT_def Let_def)
  then show "snd (CVT sv :: 'd word \<times> bool) \<longleftrightarrow> clamp TYPE('d) (sint sv) = sint sv"
    using assms by (simp add: scast_eq_iff c)
qed

lemma CVT_COMPAT_works:
  assumes "LENGTH('d::len) \<le> 64"
  shows "fst (CVT_COMPAT sv :: 'd word \<times> bool) = of_int (sint sv)"
    "snd (CVT_COMPAT sv :: 'd word \<times> bool) \<longleftrightarrow> sint (of_int (sint sv) :: 'd word) = sint sv"
  using assms by (simp_all add: CVT_COMPAT_def Let_def scast_eq_iff)

lemma uint_of_int_64:
  "- (2 ^ 64) \<le> v \<Longrightarrow> v < 0 \<Longrightarrow> uint (of_int v :: 64 word) = v + 2 ^ 64"
  "0 \<le> v \<Longrightarrow> v < 2 ^ 64 \<Longrightarrow> uint (of_int v :: 64 word) = v"
  using mod_pos_pos_trivial [of "v + 2 ^ 64" "2 ^ 64"] by (simp_all add: unsigned_of_int take_bit_eq_mod)

lemma low_of_int:
  assumes "LENGTH('d::len) \<le> 64"
  shows "(ucast (low i) :: 'd word) = of_int (val128 i)"
proof -
  have "(2 :: 'd word) ^ 64 = 0" by (subst exp_eq_zero_iff) (rule assms)
  then have "(of_int (sint (high i) * 2 ^ 64) :: 'd word) = 0" by (simp only: of_int_mult of_int_power of_int_numeral mult_zero_right)
  then show ?thesis unfolding val128_def of_int_add by simp
qed

lemma above_max:
  assumes "0 \<le> M" "M < 2 ^ 64" "0 \<le> l" "l < (2 :: int) ^ 64"
  shows "0 < h \<or> h = 0 \<and> M < l \<longleftrightarrow> M < h * 2 ^ 64 + l"
  by (cases h "0 :: int" rule: linorder_cases) (use assms in simp_all)

lemma below_min:
  assumes "- (2 ^ 64) \<le> m" "m < 0" "0 \<le> l" "l < (2 :: int) ^ 64"
  shows "h < - 1 \<or> h = - 1 \<and> l < m + 2 ^ 64 \<longleftrightarrow> h * 2 ^ 64 + l < m"
  by (cases h "- 1 :: int" rule: linorder_cases) (use assms in \<open>simp_all add: less_diff_eq diff_less_eq\<close>)

lemma CVT128ToInt_works:
  assumes "LENGTH('d::len) \<le> 64"
  shows "sint (fst (CVT128ToInt i :: 'd word \<times> bool)) = clamp TYPE('d) (val128 i)"
    "snd (CVT128ToInt i :: 'd word \<times> bool) \<longleftrightarrow> clamp TYPE('d) (val128 i) = val128 i"
proof -
  let ?M = "DST_MAX TYPE('d)" and ?m = "DST_MIN TYPE('d)"
  have "DST_MAX TYPE('d) \<le> DST_MAX TYPE(64)" "DST_MIN TYPE(64) \<le> DST_MIN TYPE('d)" using DST_le [where 'd = 'd and 'e = 64] assms by simp_all
  then have r: "0 \<le> ?M" "?M < 2 ^ 64" "- (2 ^ 64) \<le> ?m" "?m < 0"
    using DST_min_max [where 'd = 'd] by (simp_all add: DST_MAX_def [of "TYPE(64)"] DST_MIN_def [of "TYPE(64)"])
  have hi: "0 <s high i \<or> (high i = 0 \<and> of_int ?M < low i) \<longleftrightarrow> ?M < val128 i"
    using above_max [OF r(1,2) uint_64 [of "low i"], of "sint (high i)"] sint_eq [of "high i" 0]
    by (simp add: val128_def word_sless_alt word_less_alt uint_of_int_64(2) [OF r(1,2)])
  have lo: "high i <s -1 \<or> (high i = -1 \<and> low i < of_int ?m) \<longleftrightarrow> val128 i < ?m"
    using below_min [OF r(3,4) uint_64 [of "low i"], of "sint (high i)"] sint_eq [of "high i" "-1"]
    by (simp add: val128_def word_sless_alt word_less_alt uint_of_int_64(1) [OF r(3,4)])
  have "fst (CVT128ToInt i :: 'd word \<times> bool) = of_int (clamp TYPE('d) (val128 i))"
    unfolding CVT128ToInt_def hi lo clamp_def using r low_of_int [OF assms, of i] DST_min_max [where 'd = 'd] by auto
  then show "sint (fst (CVT128ToInt i :: 'd word \<times> bool)) = clamp TYPE('d) (val128 i)" by (simp only: sint_clamp)
  show "snd (CVT128ToInt i :: 'd word \<times> bool) \<longleftrightarrow> clamp TYPE('d) (val128 i) = val128 i"
    unfolding CVT128ToInt_def hi lo clamp_def by auto
qed

lemma CVT128ToInt_COMPAT_works:
  assumes "LENGTH('d::len) \<le> 64"
  shows "fst (CVT128ToInt_COMPAT i :: 'd word \<times> bool) = of_int (val128 i)"
    "snd (CVT128ToInt_COMPAT i :: 'd word \<times> bool) \<longleftrightarrow> sint (of_int (val128 i) :: 'd word) = sint (low i)"
  using assms low_of_int [OF assms, of i] by (simp_all add: CVT128ToInt_COMPAT_def Let_def scast_eq_iff)

section \<open>Well-formed numbers and their values\<close>

definition number_val :: "CFNumber \<Rightarrow> int option" where
  "number_val n =
     (let ti = CFNumberTypeTable (num_type n)
      in if floatBit ti then None
         else if storageBit ti then map_option val128 (ld128 (num_pad n))
         else map_option sint (le_word (num_pad n) :: 64 word option))"

text \<open>The integer that bytes stand for at a type.\<close>

definition int_at :: "CFNumberType \<Rightarrow> 8 word list \<Rightarrow> int option" where
  "int_at type bs = (case canonicalType (CFNumberTypeTable type) of
       kCFNumberSInt8Type \<Rightarrow> map_option sint (le_word bs :: 8 word option)
     | kCFNumberSInt16Type \<Rightarrow> map_option sint (le_word bs :: 16 word option)
     | kCFNumberSInt32Type \<Rightarrow> map_option sint (le_word bs :: 32 word option)
     | kCFNumberSInt64Type \<Rightarrow> map_option sint (le_word bs :: 64 word option)
     | kCFNumberSInt128Type \<Rightarrow> map_option val128 (ld128 bs)
     | _ \<Rightarrow> None)"

text \<open>Clamping to and wrapping around at an integer type.\<close>

definition clamp_at :: "CFNumberType \<Rightarrow> int \<Rightarrow> int" where
  "clamp_at type v = (case canonicalType (CFNumberTypeTable type) of
       kCFNumberSInt8Type \<Rightarrow> clamp TYPE(8) v
     | kCFNumberSInt16Type \<Rightarrow> clamp TYPE(16) v
     | kCFNumberSInt32Type \<Rightarrow> clamp TYPE(32) v
     | kCFNumberSInt64Type \<Rightarrow> clamp TYPE(64) v
     | _ \<Rightarrow> v)"

text \<open>The type is canonical, the value has its size and fits the type.\<close>

definition number_ok :: "CFNumber \<Rightarrow> bool" where
  "number_ok n \<longleftrightarrow> canonicalType (CFNumberTypeTable (num_type n)) = num_type n \<and>
     length (num_pad n) = (if num_type n = kCFNumberSInt128Type then 16 else 8) \<and>
     (\<forall>v. number_val n = Some v \<longrightarrow> clamp_at (num_type n) v = v)"

definition wrap_at :: "CFNumberType \<Rightarrow> int \<Rightarrow> int" where
  "wrap_at type v = (case canonicalType (CFNumberTypeTable type) of
       kCFNumberSInt8Type \<Rightarrow> sint (of_int v :: 8 word)
     | kCFNumberSInt16Type \<Rightarrow> sint (of_int v :: 16 word)
     | kCFNumberSInt32Type \<Rightarrow> sint (of_int v :: 32 word)
     | kCFNumberSInt64Type \<Rightarrow> sint (of_int v :: 64 word)
     | _ \<Rightarrow> v)"

lemma ld128_st128 [simp]: "ld128 (st128 i) = Some i"
proof -
  have "le_word (le_bytes (high i) @ le_bytes (low i)) = Some (high i)" by (rule le_word_le_bytes) simp
  moreover have "drop 8 (le_bytes (high i) @ le_bytes (low i)) = le_bytes (low i)" by simp
  ultimately show ?thesis by (simp add: ld128_def st128_def)
qed

lemma le_word_exists: "LENGTH('a) \<le> 8 * length bs \<Longrightarrow> \<exists>w. le_word bs = Some (w :: 'a::len word)"
  by (simp add: le_word_def)

lemma number_cases:
  assumes "number_val n = Some v"
  obtains (64) w where "\<not> floatBit (CFNumberTypeTable (num_type n))" "\<not> storageBit (CFNumberTypeTable (num_type n))"
      "le_word (num_pad n) = Some (w :: 64 word)" "v = sint w"
    | (128) i where "\<not> floatBit (CFNumberTypeTable (num_type n))" "storageBit (CFNumberTypeTable (num_type n))"
      "ld128 (num_pad n) = Some i" "v = val128 i"
  using assms by (auto simp: number_val_def Let_def split: if_splits)

lemma clamp_64: "clamp TYPE(64) (sint (w :: 64 word)) = sint w"
  using DST_range [of w] by (simp add: clamp_def)

lemma val128_sign_extend: "val128 \<lparr> high = (if w <s 0 then - 1 else 0), low = w \<rparr> = sint w"
proof (cases "sint w < 0")
  case True
  then have "uint (of_int (sint w) :: 64 word) = sint w + 2 ^ 64" using sint_64 [of w] by (intro uint_of_int_64) simp_all
  then show ?thesis using True by (simp add: val128_def word_sless_alt)
next
  case False
  then have "uint (of_int (sint w) :: 64 word) = sint w" using sint_64 [of w] by (intro uint_of_int_64) simp_all
  then show ?thesis using False by (simp add: val128_def word_sless_alt)
qed

lemmas clamp_defs = CFNumberGetValue_clamp_def getValue_SInt8_def getValue_SInt16_def getValue_SInt32_def getValue_SInt64_def
  getValue_SInt128_def clamp_at_def int_at_def cvt_store_def

lemma getValue_clamp_works:
  assumes "number_val n = Some v" "\<not> floatBit (CFNumberTypeTable type)"
  shows "\<exists>bs. CFNumberGetValue_clamp n type = Some (bs, clamp_at type v = v) \<and> int_at type bs = Some (clamp_at type v)"
  using assms(1)
proof (cases rule: number_cases)
  case (64 w)
  show ?thesis using assms(2) 64 val128_sign_extend [of w] by (cases type) (simp_all add: clamp_defs clamp_64 CVT_works)
next
  case (128 i)
  show ?thesis using assms(2) 128 by (cases type) (simp_all add: clamp_defs CVT128ToInt_works)
qed

text \<open>The result of the casting variant: the unsigned values it also accepts are below this limit.\<close>

definition unsigned_limit :: "CFNumberType \<Rightarrow> int" where
  "unsigned_limit type = (case canonicalType (CFNumberTypeTable type) of
       kCFNumberSInt8Type \<Rightarrow> 2 ^ 8 | kCFNumberSInt16Type \<Rightarrow> 2 ^ 16 | _ \<Rightarrow> 0)"

lemma signed_drop_bit_0: "signed_drop_bit n w = 0 \<longleftrightarrow> 0 \<le> sint (w :: 64 word) \<and> sint w < 2 ^ n"
proof -
  have "signed_drop_bit n w = 0 \<longleftrightarrow> sint (signed_drop_bit n w) = 0" using sint_eq [of "signed_drop_bit n w" 0] by simp
  also have "\<dots> \<longleftrightarrow> sint w div 2 ^ n = 0" by (simp add: sint_signed_drop_bit_eq drop_bit_eq_div)
  also have "\<dots> \<longleftrightarrow> 0 \<le> sint w \<and> sint w < 2 ^ n"
    using less_trans [of 0 "2 ^ n" "sint w"] by (auto simp: zdiv_eq_0_iff)
  finally show ?thesis .
qed

lemma wrap_fits:
  assumes "LENGTH('d::len) \<le> 64" "sint (of_int (val128 i) :: 'd word) = val128 i"
  shows "sint (of_int (val128 i) :: 'd word) = sint (low i)"
proof -
  have "low i = of_int (val128 i)" using low_of_int [of i, where 'd = 64] by simp
  moreover have "sint (of_int (val128 i) :: 64 word) = val128 i"
    using DST_range [of "of_int (val128 i) :: 'd word"] DST_le [where 'd = 'd and 'e = 64] assms by (intro sint_of_int_DST) simp_all
  ultimately show ?thesis using assms(2) by simp
qed

lemmas compat_defs = CFNumberGetValue_def compatValue_SInt8_def compatValue_SInt16_def compatValue_SInt32_def
  compatValue_SInt64_def compatValue_SInt128_def wrap_at_def int_at_def cvt_store_def unsigned_limit_def

lemma getValue_compat_64:
  assumes "\<not> floatBit (CFNumberTypeTable (num_type n))" "\<not> storageBit (CFNumberTypeTable (num_type n))"
    "le_word (num_pad n) = Some (w :: 64 word)" "\<not> floatBit (CFNumberTypeTable type)"
  shows "\<exists>bs r. CFNumberGetValue sl n type = Some (bs, r) \<and> int_at type bs = Some (wrap_at type (sint w)) \<and>
    (r \<longleftrightarrow> wrap_at type (sint w) = sint w \<or> unsigned_limit type \<noteq> 0 \<and> (\<not> sl \<or> 0 \<le> sint w \<and> sint w < unsigned_limit type))"
  using assms val128_sign_extend [of w]
  by (cases type) (simp_all add: compat_defs CVT_COMPAT_works signed_drop_bit_0 scast_eq_iff Let_def, auto)

lemma getValue_compat_128:
  assumes "\<not> floatBit (CFNumberTypeTable (num_type n))" "storageBit (CFNumberTypeTable (num_type n))"
    "ld128 (num_pad n) = Some i" "\<not> floatBit (CFNumberTypeTable type)"
  shows "\<exists>bs r. CFNumberGetValue sl n type = Some (bs, r) \<and> int_at type bs = Some (wrap_at type (val128 i)) \<and>
    (r \<longleftrightarrow> wrap_at type (val128 i) = val128 i \<or> wrap_at type (val128 i) = wrap_at kCFNumberSInt64Type (val128 i))"
proof -
  have l: "sint (low i) = sint (of_int (val128 i) :: 64 word)" using low_of_int [of i, where 'd = 64] by simp
  note f = wrap_fits [where 'd = 8, of i] wrap_fits [where 'd = 16, of i] wrap_fits [where 'd = 32, of i] wrap_fits [where 'd = 64, of i]
  show ?thesis using assms f by (cases type) (auto simp: compat_defs CVT128ToInt_COMPAT_works l)
qed

text \<open>
  The reads at which \<open>CFNumberGetValue\<close> loses the value and returns true all the same: of a 128-bit number if
  the type keeps the value of its low half, of another number at 8 and 16 bits for values that fit the unsigned
  type, and at these widths for all values in programs linked before Snow Leopard.
\<close>

definition lossy_accepted :: "bool \<Rightarrow> CFNumber \<Rightarrow> CFNumberType \<Rightarrow> int \<Rightarrow> bool" where
  "lossy_accepted snowLeopard n type v \<longleftrightarrow> wrap_at type v \<noteq> v \<and>
     (if storageBit (CFNumberTypeTable (num_type n)) then wrap_at type v = wrap_at kCFNumberSInt64Type v
      else unsigned_limit type \<noteq> 0 \<and> (\<not> snowLeopard \<or> 0 \<le> v \<and> v < unsigned_limit type))"

section \<open>Creation\<close>

lemma le_word_take: "LENGTH('a) \<le> 8 * m \<Longrightarrow> le_word (take m bs) = (le_word bs :: 'a::len word option)"
  by (auto simp: le_word_def min_def)

lemma ld128_take: "ld128 (take 16 bs) = ld128 bs"
proof -
  have "(le_word (drop 8 (take 16 bs)) :: 64 word option) = le_word (take 8 (drop 8 bs))" by (simp add: drop_take)
  then show ?thesis by (simp add: ld128_def le_word_take)
qed

lemma le_word_Some_length: "le_word bs = Some (w :: 'a::len word) \<Longrightarrow> LENGTH('a) \<le> 8 * length bs"
  by (simp add: le_word_def split: if_splits)

lemma sint_scast_64: "LENGTH('d::len) \<le> 64 \<Longrightarrow> sint (scast (w :: 'd word) :: 64 word) = sint w"
  using scast_eq_iff [of w "scast w :: 64 word"] by simp

lemma clamp_sint: "clamp TYPE('d::len) (sint (w :: 'd word)) = sint w"
  using DST_range [of w] by (simp add: clamp_def)

lemma int_at_fits: "int_at type bs = Some v \<Longrightarrow> clamp_at type v = v"
  by (cases type) (auto simp: int_at_def clamp_at_def clamp_sint)

lemma number_store_works:
  assumes "int_at type bs = Some v" "c = canonicalType (CFNumberTypeTable type)"
  shows "\<exists>pad. number_store c bs = Some pad \<and> number_ok \<lparr> num_type = c, num_pad = pad \<rparr> \<and>
    number_val \<lparr> num_type = c, num_pad = pad \<rparr> = Some v"
proof -
  have l: "ld128 bs = Some i \<Longrightarrow> 16 \<le> length bs" for i
    by (auto simp: ld128_def le_word_def split: bind_splits if_splits)
  note d = int_at_def number_store_def number_val_def sign_extend_def Let_def
  have "\<exists>pad. number_store c bs = Some pad \<and> canonicalType (CFNumberTypeTable c) = c \<and>
      length pad = (if c = kCFNumberSInt128Type then 16 else 8) \<and> clamp_at c v = clamp_at type v \<and>
      number_val \<lparr> num_type = c, num_pad = pad \<rparr> = Some v"
    using assms unfolding clamp_at_def
    by (cases type) (auto simp: d sint_scast_64 le_word_take ld128_take min_def not_less dest: le_word_Some_length l)
  then show ?thesis using int_at_fits [OF assms(1)] by (auto simp: number_ok_def)
qed

definition cached_int :: "int \<Rightarrow> int" where
  "cached_int v = (if MinCachedInt \<le> v \<and> v \<le> MaxCachedInt then v else NotToBeCached)"

lemma number_val_to_be_cached_works:
  assumes "int_at type bs = Some v" "c = canonicalType (CFNumberTypeTable type)"
  shows "\<exists>k. number_val_to_be_cached c bs = Some k \<and> (k = NotToBeCached \<or> k = v \<and> MinCachedInt \<le> v \<and> v \<le> MaxCachedInt) \<and>
    (storageBit (CFNumberTypeTable type) \<longrightarrow> k = NotToBeCached)"
  using assms by (cases type) (auto simp: int_at_def number_val_to_be_cached_def cached_val_def)

definition cache_entry :: "int \<Rightarrow> CFNumber" where
  "cache_entry v = \<lparr> num_type = kCFNumberSInt32Type, num_pad = le_bytes (of_int v :: 64 word) \<rparr>"

definition cache_ok :: "number_cache \<Rightarrow> bool" where
  "cache_ok c \<longleftrightarrow> length c = 14 \<and> (\<forall>i < 14. c ! i = None \<or> c ! i = Some (cache_entry (int i + MinCachedInt)))"

lemma small_entry:
  assumes "MinCachedInt \<le> v" "v \<le> MaxCachedInt" "canonicalType (CFNumberTypeTable t) = t" "\<not> storageBit (CFNumberTypeTable t)" "\<not> floatBit (CFNumberTypeTable t)"
  shows "number_ok \<lparr> num_type = t, num_pad = le_bytes (of_int v :: 64 word) \<rparr>"
    "number_val \<lparr> num_type = t, num_pad = le_bytes (of_int v :: 64 word) \<rparr> = Some v"
proof -
  have "sint (of_int v :: 64 word) = v"
    using assms(1,2) by (intro sint_of_int_DST) (simp_all add: MinCachedInt_def MaxCachedInt_def DST_MIN_def DST_MAX_def)
  moreover have "clamp_at t v = v"
    using assms(1,2) by (cases t) (simp_all add: clamp_at_def clamp_def MinCachedInt_def MaxCachedInt_def DST_MIN_def DST_MAX_def)
  ultimately show "number_ok \<lparr> num_type = t, num_pad = le_bytes (of_int v :: 64 word) \<rparr>"
    "number_val \<lparr> num_type = t, num_pad = le_bytes (of_int v :: 64 word) \<rparr> = Some v"
    using assms(3-5) by (cases t; simp add: number_ok_def number_val_def)+
qed

lemma cache_slot:
  assumes "cache_ok c" "MinCachedInt \<le> v" "v \<le> MaxCachedInt"
  shows "c ! nat (v - MinCachedInt) = None \<or> c ! nat (v - MinCachedInt) = Some (cache_entry v)" "nat (v - MinCachedInt) < length c"
proof -
  have "nat (v - MinCachedInt) < 14" "int (nat (v - MinCachedInt)) + MinCachedInt = v"
    using assms(2,3) by (simp_all add: MinCachedInt_def MaxCachedInt_def)
  then show "c ! nat (v - MinCachedInt) = None \<or> c ! nat (v - MinCachedInt) = Some (cache_entry v)" "nat (v - MinCachedInt) < length c"
    using assms(1) unfolding cache_ok_def by metis+
qed

lemma cache_fill:
  assumes "cache_ok c" "MinCachedInt \<le> v" "v \<le> MaxCachedInt"
  shows "cache_ok (c[nat (v - MinCachedInt) := Some (cache_entry v)])"
  using assms by (auto simp: cache_ok_def nth_list_update MinCachedInt_def MaxCachedInt_def)

lemma CFNumberCreate_works:
  assumes "int_at type bs = Some v" "cache_ok cache" "\<And>c. cache_ok c \<Longrightarrow> cache_ok (others c)"
    and "CFRuntimeCreateInstance env 8" "CFRuntimeCreateInstance env 16"
  shows "\<exists>n cache'. CFNumberCreate env systemDefault cachingEnabled others cache type bs = Some (Some n, cache') \<and>
    number_ok n \<and> number_val n = Some v \<and> cache_ok cache'"
proof -
  let ?ti = "CFNumberTypeTable type" and ?c = "canonicalType (CFNumberTypeTable type)"
  have fl: "\<not> floatBit ?ti" "canonicalType (CFNumberTypeTable ?c) = ?c" "floatBit (CFNumberTypeTable ?c) = floatBit ?ti"
    "storageBit (CFNumberTypeTable ?c) = storageBit ?ti"
    using assms(1) by (cases type; simp add: int_at_def)+
  obtain pad where pad: "number_store ?c bs = Some pad" "number_ok \<lparr> num_type = ?c, num_pad = pad \<rparr>"
      "number_val \<lparr> num_type = ?c, num_pad = pad \<rparr> = Some v"
    using number_store_works [OF assms(1) refl] by blast
  obtain k where k: "(if \<not> floatBit ?ti \<and> systemDefault \<and> cachingEnabled then number_val_to_be_cached ?c bs else Some NotToBeCached) = Some k"
      "k = NotToBeCached \<or> k = v \<and> MinCachedInt \<le> v \<and> v \<le> MaxCachedInt" "storageBit ?ti \<longrightarrow> k = NotToBeCached"
    using number_val_to_be_cached_works [OF assms(1) refl] by (cases "\<not> floatBit ?ti \<and> systemDefault \<and> cachingEnabled") auto
  show ?thesis
  proof (cases "k = NotToBeCached")
    case True
    then show ?thesis using fl(1) k(1) pad assms(2-5) by (simp add: CFNumberCreate_def Let_def)
  next
    case False
    then have v: "k = v" "MinCachedInt \<le> v" "v \<le> MaxCachedInt" "\<not> storageBit ?ti" using k by auto
    let ?slot = "nat (v - MinCachedInt)"
    note e = small_entry [OF v(2,3), of kCFNumberSInt32Type, folded cache_entry_def, simplified]
    note E = CFNumberCreate_def Let_def
    show ?thesis
    proof (cases "cache ! ?slot")
      case (Some m)
      then have "m = cache_entry v" using cache_slot [OF assms(2) v(2,3)] by simp
      then show ?thesis using Some fl(1) k(1) False v(1) e assms(2) by (simp add: E)
    next
      case None
      note o = assms(3) [OF assms(2)]
      show ?thesis
      proof (cases "others cache ! ?slot")
        case free: None
        then show ?thesis using None fl(1) k(1) False v e assms(4) cache_fill [OF o v(2,3)]
          by (simp add: E cache_entry_def [symmetric])
      next
        case (Some m)
        then show ?thesis using None fl k(1) False v assms(4) o small_entry [OF v(2,3), of ?c] by (simp add: E)
      qed
    qed
  qed
qed

text \<open>A 128-bit number is read at a narrower type with the result ``exact'' when its upper half is lost.\<close>

lemma GetValue_ignores_high:
  "let n = \<lparr> num_type = kCFNumberSInt128Type, num_pad = st128 \<lparr> high = 1, low = 5 \<rparr> \<rparr>
   in number_val n = Some (2 ^ 64 + 5) \<and> CFNumberGetValue True n kCFNumberSInt32Type = Some (le_bytes (5 :: 32 word), True)"
  by (simp add: number_val_def val128_def CFNumberGetValue_def compatValue_SInt32_def CVT128ToInt_COMPAT_def cvt_store_def Let_def)

section \<open>Properties\<close>

text \<open>
  C8. Creating a number from the bytes of an integer of any integer type gives a well-formed number
  of that value, whether or not it comes from or goes into the cache of small integers and
  whatever other threads store in the cache meanwhile; the cache keeps holding, in each slot, a
  number of that slot's value.
\<close>

theorem CFNumberCreate_correct:
  assumes "int_at type bs = Some v" "cache_ok cache" "\<forall>c. cache_ok c \<longrightarrow> cache_ok (others c)"
    and "CFRuntimeCreateInstance env 8" "CFRuntimeCreateInstance env 16"
  shows "\<exists>n cache'. CFNumberCreate env systemDefault cachingEnabled others cache type bs = Some (Some n, cache') \<and>
    number_ok n \<and> number_val n = Some v \<and> cache_ok cache'"
  using CFNumberCreate_works [OF assms(1,2) _ assms(4,5)] assms(3) by blast

theorem CFNumberCreate_correct_witness:
  "\<exists>n cache'. CFNumberCreate \<lparr> env_alloc = \<lambda>_. True, env_retain = \<lambda>_ p. p, env_equal = \<lambda>_ _ _. False, env_compare = \<lambda>_ _ _ _. 0 \<rparr>
      True True (\<lambda>c. c) (replicate 14 None) kCFNumberShortType (le_bytes (7 :: 16 word)) = Some (Some n, cache') \<and>
    number_ok n \<and> number_val n = Some 7 \<and> cache_ok cache'"
  by (rule CFNumberCreate_correct) (simp_all add: int_at_def cache_ok_def CFRuntimeCreateInstance_def)

text \<open>
  C22. Reading an integer number at an integer type, against the promise of \<open>CFNumber.h\<close> that a conversion does
  not follow the truncation rules of C and returns false if it is lossy.  The clamping variant, which the
  comparison and the description use, keeps the promise: it stores the value of the type nearest to the number
  and returns true just if that is the number.  \<open>CFNumberGetValue\<close> does not: it stores the value wrapped around
  as C does, and it returns true if that is the number and, in addition, just in the lossy cases that
  \<open>lossy_accepted\<close> names, such as 200 at 8 bits, which is read as -56.
\<close>

theorem CFNumberGetValue_correct:
  assumes "number_val n = Some v" "\<not> floatBit (CFNumberTypeTable type)"
  shows "(\<exists>bs. CFNumberGetValue_clamp n type = Some (bs, clamp_at type v = v) \<and> int_at type bs = Some (clamp_at type v)) \<and>
    (\<exists>bs. CFNumberGetValue sl n type = Some (bs, wrap_at type v = v \<or> lossy_accepted sl n type v) \<and> int_at type bs = Some (wrap_at type v))"
proof (intro conjI getValue_clamp_works [OF assms])
  show "\<exists>bs. CFNumberGetValue sl n type = Some (bs, wrap_at type v = v \<or> lossy_accepted sl n type v) \<and> int_at type bs = Some (wrap_at type v)"
    using assms(1)
  proof (cases rule: number_cases)
    case (64 w)
    then show ?thesis using getValue_compat_64 [OF 64(1-3) assms(2), of sl] unfolding lossy_accepted_def by auto
  next
    case (128 i)
    then show ?thesis using getValue_compat_128 [OF 128(1-3) assms(2), of sl] unfolding lossy_accepted_def by auto
  qed
qed

theorem CFNumberGetValue_correct_witness:
  "let n = \<lparr> num_type = kCFNumberSInt64Type, num_pad = le_bytes (200 :: 64 word) \<rparr>
   in number_val n = Some 200 \<and>
     (\<exists>bs. CFNumberGetValue_clamp n kCFNumberSInt8Type = Some (bs, False) \<and> int_at kCFNumberSInt8Type bs = Some 127) \<and>
     (\<exists>bs. CFNumberGetValue True n kCFNumberSInt8Type = Some (bs, True) \<and> int_at kCFNumberSInt8Type bs = Some (- 56))"
proof -
  let ?n = "\<lparr> num_type = kCFNumberSInt64Type, num_pad = le_bytes (200 :: 64 word) \<rparr>"
  have v: "number_val ?n = Some 200" by (simp add: number_val_def)
  have c: "clamp_at kCFNumberSInt8Type 200 = 127" "wrap_at kCFNumberSInt8Type 200 = - 56" "unsigned_limit kCFNumberSInt8Type = 256"
    by (simp_all add: clamp_at_def clamp_def DST_MIN_def DST_MAX_def wrap_at_def unsigned_limit_def)
  have l: "lossy_accepted True ?n kCFNumberSInt8Type 200" using c by (simp add: lossy_accepted_def)
  show ?thesis using CFNumberGetValue_correct [OF v, of kCFNumberSInt8Type True] v l unfolding c Let_def by auto
qed

text \<open>C23. Comparing two integer numbers of any types compares their values.\<close>

theorem CFNumberCompare_correct:
  assumes "number_val m = Some v" "number_val n = Some w"
  shows "CFNumberCompare_ints m n =
    Some (if v < w then kCFCompareLessThan else if w < v then kCFCompareGreaterThan else kCFCompareEqualTo)"
proof -
  have g: "\<exists>bs. CFNumberGetValue_clamp k kCFNumberSInt128Type = Some (bs, True) \<and> map_option val128 (ld128 bs) = Some u"
    if "number_val k = Some u" for k u
    using getValue_clamp_works [OF that, of kCFNumberSInt128Type] by (auto simp: clamp_at_def int_at_def)
  obtain b1 b2 where "CFNumberGetValue_clamp m kCFNumberSInt128Type = Some (b1, True)" "map_option val128 (ld128 b1) = Some v"
      "CFNumberGetValue_clamp n kCFNumberSInt128Type = Some (b2, True)" "map_option val128 (ld128 b2) = Some w"
    using g [OF assms(1)] g [OF assms(2)] by blast
  then show ?thesis by (auto simp: CFNumberCompare_ints_def cmp128_val)
qed

theorem CFNumberCompare_correct_witness:
  "CFNumberCompare_ints \<lparr> num_type = kCFNumberSInt8Type, num_pad = le_bytes (- 3 :: 64 word) \<rparr>
     \<lparr> num_type = kCFNumberSInt128Type, num_pad = st128 \<lparr> high = 0, low = 2 \<rparr> \<rparr> = Some kCFCompareLessThan"
  using CFNumberCompare_correct [of "\<lparr> num_type = kCFNumberSInt8Type, num_pad = le_bytes (- 3 :: 64 word) \<rparr>" "- 3"
      "\<lparr> num_type = kCFNumberSInt128Type, num_pad = st128 \<lparr> high = 0, low = 2 \<rparr> \<rparr>" 2]
  by (simp add: number_val_def val128_def)

text \<open>
  C31. \<open>emit128\<close> returns for every 128-bit integer and prints its decimal representation, except
  for the least one, which it prints as minus zero.
\<close>

theorem emit128_correct:
  "emit128 i forcePlus =
     (if val128 i = - (2 ^ 127) then Some ''-0'' else Some (sign_of (val128 i) forcePlus @ print_decimal (nat \<bar>val128 i\<bar>)))"
proof (cases "val128 i = - (2 ^ 127)")
  case True
  then have "val128 i = val128 \<lparr> high = - 9223372036854775808, low = 0 \<rparr>" by (simp add: val128_def [of "\<lparr> high = - 9223372036854775808, low = 0 \<rparr>"])
  then have "i = \<lparr> high = - 9223372036854775808, low = 0 \<rparr>" by (simp only: val128_eq)
  then show ?thesis using emit128_min True by simp
qed (simp add: emit128_val)

end
