(* ===== verification/CF_BigNumber.thy ===== *)
theory CF_BigNumber
  imports CF_Number
begin

text \<open>
  \<open>CFBigNumber.c\<close>: sign-magnitude numbers of five base-one-billion digits.

  A \<open>_CFBigNum\<close> is a record of five 32-bit digits, the least significant first, and a sign that
  is \<open>-1\<close> or \<open>0\<close>.  Machine integers are words of the C type's width; negation of the most
  negative value, undefined in C, wraps around as compilers make it.  The C library functions
  used for strings (\<open>snprintf\<close> with \<open>%09u\<close>, \<open>strlcpy\<close>, \<open>atol\<close>) are modelled as the standard
  describes them.
\<close>

section \<open>Numbers and conversions\<close>

record CFBigNum =
  bn_digits :: "32 word list"
  bn_sign :: int

definition BIG_DIGITS_LIMIT :: nat where
  "BIG_DIGITS_LIMIT = 1000000000"

definition GET_SECOND_DIGIT :: "'a::len word \<Rightarrow> 'a word" where
  "GET_SECOND_DIGIT A = A div of_nat BIG_DIGITS_LIMIT"

definition GET_THIRD_DIGIT :: "'a::len word \<Rightarrow> 'a word" where
  "GET_THIRD_DIGIT A = A div of_nat (BIG_DIGITS_LIMIT ^ 2)"

definition GET_FOURTH_DIGIT :: "'a::len word \<Rightarrow> 'a word" where
  "GET_FOURTH_DIGIT A = A div of_nat (BIG_DIGITS_LIMIT ^ 3)"

definition GET_FIFTH_DIGIT :: "'a::len word \<Rightarrow> 'a word" where
  "GET_FIFTH_DIGIT A = A div of_nat (BIG_DIGITS_LIMIT ^ 4)"

definition GET_REMAINDER_SECOND_DIGIT :: "'a::len word \<Rightarrow> 'a word \<Rightarrow> 'a word" where
  "GET_REMAINDER_SECOND_DIGIT A B = A - B * of_nat BIG_DIGITS_LIMIT"

definition GET_REMAINDER_THIRD_DIGIT :: "'a::len word \<Rightarrow> 'a word \<Rightarrow> 'a word" where
  "GET_REMAINDER_THIRD_DIGIT A B = A - B * of_nat (BIG_DIGITS_LIMIT ^ 2)"

definition GET_REMAINDER_FOURTH_DIGIT :: "'a::len word \<Rightarrow> 'a word \<Rightarrow> 'a word" where
  "GET_REMAINDER_FOURTH_DIGIT A B = A - B * of_nat (BIG_DIGITS_LIMIT ^ 3)"

definition GET_REMAINDER_FIFTH_DIGIT :: "'a::len word \<Rightarrow> 'a word \<Rightarrow> 'a word" where
  "GET_REMAINDER_FIFTH_DIGIT A B = A - B * of_nat (BIG_DIGITS_LIMIT ^ 4)"

text \<open>The unsigned cases first; the signed ones repeat their statements on the magnitude and set the sign.\<close>

definition CFBigNumInitWithUInt8 :: "8 word \<Rightarrow> CFBigNum" where
  "CFBigNumInitWithUInt8 inNum = \<lparr> bn_digits = [ucast inNum, 0, 0, 0, 0], bn_sign = 0 \<rparr>"

definition CFBigNumInitWithUInt16 :: "16 word \<Rightarrow> CFBigNum" where
  "CFBigNumInitWithUInt16 inNum = \<lparr> bn_digits = [ucast inNum, 0, 0, 0, 0], bn_sign = 0 \<rparr>"

definition CFBigNumInitWithUInt32 :: "32 word \<Rightarrow> CFBigNum" where
  "CFBigNumInitWithUInt32 inNum =
     (let dig0 = GET_SECOND_DIGIT inNum
      in \<lparr> bn_digits = [GET_REMAINDER_SECOND_DIGIT inNum dig0, dig0, 0, 0, 0], bn_sign = 0 \<rparr>)"

definition CFBigNumInitWithUInt64 :: "64 word \<Rightarrow> CFBigNum" where
  "CFBigNumInitWithUInt64 inNum =
     (let dig2 = (ucast (GET_THIRD_DIGIT inNum) :: 32 word);
          inNum = GET_REMAINDER_THIRD_DIGIT inNum (ucast dig2);
          dig1 = (ucast (GET_SECOND_DIGIT inNum) :: 32 word)
      in \<lparr> bn_digits = [ucast (GET_REMAINDER_SECOND_DIGIT inNum (ucast dig1)), dig1, dig2, 0, 0], bn_sign = 0 \<rparr>)"

definition CFBigNumInitWithUInt128 :: "128 word \<Rightarrow> CFBigNum" where
  "CFBigNumInitWithUInt128 inNum =
     (let dig4 = (ucast (GET_FIFTH_DIGIT inNum) :: 32 word);
          inNum = GET_REMAINDER_FIFTH_DIGIT inNum (ucast dig4);
          dig3 = (ucast (GET_FOURTH_DIGIT inNum) :: 32 word);
          inNum = GET_REMAINDER_FOURTH_DIGIT inNum (ucast dig3);
          dig2 = (ucast (GET_THIRD_DIGIT inNum) :: 32 word);
          inNum = GET_REMAINDER_THIRD_DIGIT inNum (ucast dig2);
          dig1 = (ucast (GET_SECOND_DIGIT inNum) :: 32 word)
      in \<lparr> bn_digits = [ucast (GET_REMAINDER_SECOND_DIGIT inNum (ucast dig1)), dig1, dig2, dig3, dig4],
           bn_sign = 0 \<rparr>)"

text \<open>\<open>if (inNum < 0) { r->sign = -1; unsignInNum = -1 * inNum; }\<close>\<close>

definition bn_magnitude :: "'a::len word \<Rightarrow> 'a word" where
  "bn_magnitude inNum = (if sint inNum < 0 then - inNum else inNum)"

definition bn_sign_of :: "'a::len word \<Rightarrow> int" where
  "bn_sign_of inNum = (if sint inNum < 0 then -1 else 0)"

definition CFBigNumInitWithInt8 :: "8 word \<Rightarrow> CFBigNum" where
  "CFBigNumInitWithInt8 inNum = (CFBigNumInitWithUInt8 (bn_magnitude inNum))\<lparr>bn_sign := bn_sign_of inNum\<rparr>"

definition CFBigNumInitWithInt16 :: "16 word \<Rightarrow> CFBigNum" where
  "CFBigNumInitWithInt16 inNum = (CFBigNumInitWithUInt16 (bn_magnitude inNum))\<lparr>bn_sign := bn_sign_of inNum\<rparr>"

definition CFBigNumInitWithInt32 :: "32 word \<Rightarrow> CFBigNum" where
  "CFBigNumInitWithInt32 inNum = (CFBigNumInitWithUInt32 (bn_magnitude inNum))\<lparr>bn_sign := bn_sign_of inNum\<rparr>"

definition CFBigNumInitWithInt64 :: "64 word \<Rightarrow> CFBigNum" where
  "CFBigNumInitWithInt64 inNum = (CFBigNumInitWithUInt64 (bn_magnitude inNum))\<lparr>bn_sign := bn_sign_of inNum\<rparr>"

definition CFBigNumInitWithInt128 :: "128 word \<Rightarrow> CFBigNum" where
  "CFBigNumInitWithInt128 inNum = (CFBigNumInitWithUInt128 (bn_magnitude inNum))\<lparr>bn_sign := bn_sign_of inNum\<rparr>"

definition CFBigNumGetUInt8 :: "CFBigNum \<Rightarrow> 8 word" where
  "CFBigNumGetUInt8 num = ucast (bn_digits num ! 0)"

definition CFBigNumGetUInt16 :: "CFBigNum \<Rightarrow> 16 word" where
  "CFBigNumGetUInt16 num = ucast (bn_digits num ! 0)"

definition CFBigNumGetUInt32 :: "CFBigNum \<Rightarrow> 32 word" where
  "CFBigNumGetUInt32 num = bn_digits num ! 0 + bn_digits num ! 1 * of_nat BIG_DIGITS_LIMIT"

definition CFBigNumGetUInt64 :: "CFBigNum \<Rightarrow> 64 word" where
  "CFBigNumGetUInt64 num =
     ucast (bn_digits num ! 0) + ucast (bn_digits num ! 1) * of_nat BIG_DIGITS_LIMIT +
     ucast (bn_digits num ! 2) * of_nat (BIG_DIGITS_LIMIT ^ 2)"

definition CFBigNumGetUInt128 :: "CFBigNum \<Rightarrow> 128 word" where
  "CFBigNumGetUInt128 num =
     ucast (bn_digits num ! 0) + ucast (bn_digits num ! 1) * of_nat BIG_DIGITS_LIMIT +
     ucast (bn_digits num ! 2) * of_nat (BIG_DIGITS_LIMIT ^ 2) +
     ucast (bn_digits num ! 3) * of_nat (BIG_DIGITS_LIMIT ^ 3) +
     ucast (bn_digits num ! 4) * of_nat (BIG_DIGITS_LIMIT ^ 4)"

definition bn_apply_sign :: "CFBigNum \<Rightarrow> 'a::len word \<Rightarrow> 'a word" where
  "bn_apply_sign num result = (if bn_sign num < 0 then - result else result)"

definition CFBigNumGetInt8 :: "CFBigNum \<Rightarrow> 8 word" where
  "CFBigNumGetInt8 num = bn_apply_sign num (ucast (bn_digits num ! 0))"

definition CFBigNumGetInt16 :: "CFBigNum \<Rightarrow> 16 word" where
  "CFBigNumGetInt16 num = bn_apply_sign num (ucast (bn_digits num ! 0))"

definition CFBigNumGetInt32 :: "CFBigNum \<Rightarrow> 32 word" where
  "CFBigNumGetInt32 num = bn_apply_sign num (bn_digits num ! 0 + bn_digits num ! 1 * of_nat BIG_DIGITS_LIMIT)"

definition CFBigNumGetInt64 :: "CFBigNum \<Rightarrow> 64 word" where
  "CFBigNumGetInt64 num = bn_apply_sign num
     (ucast (bn_digits num ! 0) + ucast (bn_digits num ! 1) * of_nat BIG_DIGITS_LIMIT +
      ucast (bn_digits num ! 2) * of_nat (BIG_DIGITS_LIMIT ^ 2))"

definition CFBigNumGetInt128 :: "CFBigNum \<Rightarrow> 128 word" where
  "CFBigNumGetInt128 num = bn_apply_sign num
     (ucast (bn_digits num ! 0) + ucast (bn_digits num ! 1) * of_nat BIG_DIGITS_LIMIT +
      ucast (bn_digits num ! 2) * of_nat (BIG_DIGITS_LIMIT ^ 2) +
      ucast (bn_digits num ! 3) * of_nat (BIG_DIGITS_LIMIT ^ 3) +
      ucast (bn_digits num ! 4) * of_nat (BIG_DIGITS_LIMIT ^ 4))"

section \<open>Comparison and arithmetic\<close>

text \<open>\<open>for (i = 5; i--;)\<close>: the loops from the most significant digit down, \<open>n\<close> digits left.\<close>

fun bn_compare_loop :: "bool \<Rightarrow> 32 word list \<Rightarrow> 32 word list \<Rightarrow> nat \<Rightarrow> int" where
  "bn_compare_loop negative a b 0 = kCFCompareEqualTo"
| "bn_compare_loop negative a b (Suc i) =
     (if a ! i < b ! i then (if \<not> negative then kCFCompareLessThan else kCFCompareGreaterThan)
      else if b ! i < a ! i then (if negative then kCFCompareLessThan else kCFCompareGreaterThan)
      else bn_compare_loop negative a b i)"

definition CFBigNumCompare :: "CFBigNum \<Rightarrow> CFBigNum \<Rightarrow> int" where
  "CFBigNumCompare a b =
     (if bn_sign a = bn_sign b then bn_compare_loop (bn_sign a < 0) (bn_digits a) (bn_digits b) 5
      else if bn_sign a < bn_sign b then kCFCompareLessThan else kCFCompareGreaterThan)"

fun bn_abs_less_loop :: "32 word list \<Rightarrow> 32 word list \<Rightarrow> nat \<Rightarrow> bool" where
  "bn_abs_less_loop a b 0 = False"
| "bn_abs_less_loop a b (Suc i) =
     (if a ! i < b ! i then True else if b ! i < a ! i then False else bn_abs_less_loop a b i)"

definition CFBigNumAbsoluteLessThan :: "CFBigNum \<Rightarrow> CFBigNum \<Rightarrow> bool" where
  "CFBigNumAbsoluteLessThan a b = bn_abs_less_loop (bn_digits a) (bn_digits b) 5"

definition CFBigNumNeg :: "CFBigNum \<Rightarrow> CFBigNum" where
  "CFBigNumNeg a =
     (if list_all (\<lambda>d. d = 0) (bn_digits a) then a else a\<lparr>bn_sign := bn_sign a * bn_sign a - 1\<rparr>)"

text \<open>The digit loops of \<open>_CFBigNumAdd\<close>: the result digits and the final carry.\<close>

fun bn_add_loop :: "32 word list \<Rightarrow> 32 word list \<Rightarrow> 32 word \<Rightarrow> 32 word list \<times> 32 word" where
  "bn_add_loop (a # as) (b # bs) carry =
     (let result = a + b + carry;
          (result', carry') = (if of_nat BIG_DIGITS_LIMIT < result then (result - of_nat BIG_DIGITS_LIMIT, 1)
                               else (result, 0));
          (rs, c) = bn_add_loop as bs carry'
      in (result' # rs, c))"
| "bn_add_loop as bs carry = ([], carry)"

fun bn_sub_loop :: "32 word list \<Rightarrow> 32 word list \<Rightarrow> int \<Rightarrow> 32 word list \<times> int" where
  "bn_sub_loop (a # as) (b # bs) carry =
     (let result = uint a - uint b - carry;
          (result', carry') = (if result < 0 then (result + int BIG_DIGITS_LIMIT, 1) else (result, 0));
          (rs, c) = bn_sub_loop as bs carry'
      in (of_int result' # rs, c))"
| "bn_sub_loop as bs carry = ([], carry)"

definition CFBigNumAdd :: "CFBigNum \<Rightarrow> CFBigNum \<Rightarrow> CFBigNum \<times> nat" where
  "CFBigNumAdd a b =
     (if bn_sign a = bn_sign b then
        let (rs, carry) = bn_add_loop (bn_digits a) (bn_digits b) 0
        in (\<lparr> bn_digits = rs, bn_sign = bn_sign a \<rparr>, unat carry)
      else
        let (bigNum, smallNum) = (if CFBigNumAbsoluteLessThan a b then (b, a) else (a, b));
            (rs, carry) = bn_sub_loop (bn_digits bigNum) (bn_digits smallNum) 0
        in (\<lparr> bn_digits = rs, bn_sign = (if bn_sign bigNum < 0 then -1 else 0) \<rparr>, nat carry))"

definition CFBigNumSub :: "CFBigNum \<Rightarrow> CFBigNum \<Rightarrow> CFBigNum \<times> nat" where
  "CFBigNumSub a b = CFBigNumAdd a (CFBigNumNeg b)"

section \<open>From and to CFNumber\<close>









section \<open>Strings\<close>

definition NUL :: char where
  "NUL = CHR 0x00"

text \<open>
  \<open>_CFBigNumToCString\<close>: the bytes it leaves in a buffer of \<open>buflen\<close> bytes.  A buffer without room
  for the sign and the rest is written past its end.
\<close>

definition CFBigNumToCString :: "CFBigNum \<Rightarrow> bool \<Rightarrow> bool \<Rightarrow> nat \<Rightarrow> string option" where
  "CFBigNumToCString vp leading_zeros leading_plus buflen0 =
     (let d = bn_digits vp;
          sign = (if bn_sign vp < 0 then [CHR ''-''] else if leading_plus then [CHR ''+''] else []);
          buflen = buflen0 - length sign;
          tmp = take 45 (print_09u (unat (d ! 4)) @ print_09u (unat (d ! 3)) @ print_09u (unat (d ! 2)) @
                         print_09u (unat (d ! 1)) @ print_09u (unat (d ! 0))) @ [NUL]
      in if buflen0 < length sign then None
         else if leading_zeros then
           let tocopy = min 46 buflen
           in Some (sign @ replicate (buflen - tocopy) CHR ''0'' @ drop (46 - tocopy) tmp)
         else
           let rest = dropWhile (\<lambda>c. c = CHR ''0'') tmp;
               s = (if hd rest = NUL then drop 44 tmp else rest)
           in Some (sign @ (if buflen = 0 then [] else take (buflen - 1) (takeWhile (\<lambda>c. c \<noteq> NUL) s) @ [NUL])))"

text \<open>\<open>atol\<close>: white space, a sign, digits; undefined when the value does not fit in a \<open>long\<close>.\<close>

definition is_space :: "char \<Rightarrow> bool" where
  "is_space c \<longleftrightarrow> (of_char c :: nat) = 32 \<or> (9 \<le> (of_char c :: nat) \<and> (of_char c :: nat) \<le> 13)"

definition atol :: "string \<Rightarrow> int option" where
  "atol s =
     (let s = dropWhile is_space s;
          (negative, s) = (case s of [] \<Rightarrow> (False, [])
                           | c # cs \<Rightarrow> if c = CHR ''-'' then (True, cs) else if c = CHR ''+'' then (False, cs) else (False, s));
          v = int (dec_value (takeWhile is_digit s));
          v = (if negative then - v else v)
      in if - (2 ^ 63) \<le> v \<and> v < 2 ^ 63 then Some v else None)"

text \<open>
  The digit loop of \<open>_CFBigNumFromCString\<close>: \<open>working\<close> is what the terminator written at
  \<open>working + length - 9\<close> leaves of the string.
\<close>

function bn_parse_loop :: "string \<Rightarrow> nat \<Rightarrow> 32 word list \<Rightarrow> 32 word list option" where
  "bn_parse_loop working curDigit digits =
     (if curDigit + 1 < 5 \<and> 9 < length working then do {
        digit \<leftarrow> atol (drop (length working - 9) working);
        bn_parse_loop (take (length working - 9) working) (curDigit + 1) (digits[curDigit := of_int digit])
      } else do {
        digit \<leftarrow> atol working;
        Some (digits[curDigit := of_int digit])
      })"
  by pat_completeness auto
termination by (relation "measure (\<lambda>(w, c, ds). length w)") auto

declare bn_parse_loop.simps [simp del]

definition CFBigNumFromCString :: "string \<Rightarrow> CFBigNum option" where
  "CFBigNumFromCString string = do {
     let (sign, working) = (case string of [] \<Rightarrow> (0, [])
                            | c # cs \<Rightarrow> if c = CHR ''-'' then (-1, cs) else if c = CHR ''+'' then (0, cs) else (0, string));
     let working = dropWhile (\<lambda>c. c = CHR ''0'') working;
     if working = [] then Some \<lparr> bn_digits = replicate 5 0, bn_sign = sign \<rparr>
     else do {
       digits \<leftarrow> bn_parse_loop working 0 (replicate 5 0);
       Some \<lparr> bn_digits = digits, bn_sign = sign \<rparr>
     }
   }"

section \<open>Values\<close>

abbreviation BIG :: nat where "BIG \<equiv> 1000000000"

lemmas BIG_eval = BIG_DIGITS_LIMIT_def power2_eq_square power3_eq_cube power4_eq_xxxx

fun digits_val :: "32 word list \<Rightarrow> nat" where
  "digits_val [] = 0"
| "digits_val (d # ds) = unat d + BIG * digits_val ds"

definition canonical :: "32 word list \<Rightarrow> bool" where
  "canonical ds \<longleftrightarrow> list_all (\<lambda>d. unat d < BIG) ds"

text \<open>The representation invariant: five digits below one billion, sign \<open>-1\<close> or \<open>0\<close>, no negative zero.\<close>

definition bn_inv :: "CFBigNum \<Rightarrow> bool" where
  "bn_inv n \<longleftrightarrow> length (bn_digits n) = 5 \<and> canonical (bn_digits n) \<and>
     (bn_sign n = 0 \<or> bn_sign n = -1 \<and> digits_val (bn_digits n) \<noteq> 0)"

definition bn_val :: "CFBigNum \<Rightarrow> int" where
  "bn_val n = (if bn_sign n < 0 then - int (digits_val (bn_digits n)) else int (digits_val (bn_digits n)))"

section \<open>Splitting into digits and putting together\<close>

lemma unat_of_nat_small: "c < 2 ^ LENGTH('a::len) \<Longrightarrow> unat (of_nat c :: 'a word) = c"
  by (simp add: unsigned_of_nat take_bit_nat_eq_self)

lemma digit_of_word:
  fixes A :: "'a::len word"
  assumes "c < 2 ^ LENGTH('a)" "unat A div c < 2 ^ 32"
  shows "unat (ucast (A div of_nat c) :: 32 word) = unat A div c"
proof -
  have "unat (A div of_nat c) = unat A div c" using assms(1) by (simp add: unat_div_distrib unat_of_nat_small)
  then show ?thesis using assms(2) by (simp add: unsigned_ucast_eq take_bit_nat_eq_self)
qed

lemma remainder_of_word:
  fixes A :: "'a::len word"
  assumes "unat (d :: 32 word) = unat A div c"
  shows "unat (A - ucast d * of_nat c) = unat A mod c"
proof -
  have "(ucast d :: 'a word) = of_nat (unat A div c)" using assms by (metis of_nat_unat)
  then have "A - ucast d * of_nat c = of_nat (unat A) - of_nat (unat A div c * c)" by simp
  also have "\<dots> = of_nat (unat A - unat A div c * c)" by (simp add: of_nat_diff)
  also have "unat A - unat A div c * c = unat A mod c" by (simp add: minus_div_mult_eq_mod)
  finally have "A - ucast d * of_nat c = of_nat (unat A mod c)" .
  moreover have "unat A mod c < 2 ^ LENGTH('a)" by (rule le_less_trans [OF mod_less_eq_dividend]) simp
  ultimately show ?thesis by (simp add: unat_of_nat_small)
qed

lemma peel_digit:
  fixes A :: "'a::len word"
  assumes "c < 2 ^ LENGTH('a)" "unat A div c < BIG" and d: "d = (ucast (A div of_nat c) :: 32 word)"
    and r: "A' = A - ucast d * of_nat c"
  shows "unat d = unat A div c" "unat A' = unat A mod c"
proof -
  show d': "unat d = unat A div c" unfolding d by (rule digit_of_word) (use assms(1,2) in auto)
  show "unat A' = unat A mod c" unfolding r by (rule remainder_of_word [OF d'])
qed

text \<open>Reassembling a number from the digits of the successive divisions.\<close>

lemma two_digits: "(n :: nat) mod c + c * (n div c) = n"
  by simp

lemma next_digit_bound: "(n :: nat) mod (c * BIG) div c < BIG"
proof (cases "c = 0")
  case False
  then have "n mod (c * BIG) < BIG * c" by (simp add: mult.commute)
  then show ?thesis using False by (simp add: div_less_iff_less_mult)
qed simp

lemma UInt64_digits:
  "canonical (bn_digits (CFBigNumInitWithUInt64 x)) \<and> digits_val (bn_digits (CFBigNumInitWithUInt64 x)) = unat x"
proof -
  define n where "n = unat x"
  have "n < 2 ^ 64" unfolding n_def by (rule less_le_trans [OF unsigned_less]) simp
  then have n: "n div BIG ^ 2 < BIG" by (simp add: div_less_iff_less_mult)
  define d2 where "d2 = (ucast (x div of_nat (BIG ^ 2)) :: 32 word)"
  define x1 where "x1 = x - ucast d2 * of_nat (BIG ^ 2)"
  define d1 where "d1 = (ucast (x1 div of_nat BIG) :: 32 word)"
  define x0 where "x0 = x1 - ucast d1 * of_nat BIG"
  have 2: "unat d2 = n div BIG ^ 2" "unat x1 = n mod BIG ^ 2"
    using peel_digit [OF _ _ d2_def x1_def] n by (simp_all add: n_def)
  have b1: "n mod BIG ^ 2 div BIG < BIG" using next_digit_bound [of n BIG] by (simp add: power2_eq_square)
  have 1: "unat d1 = n mod BIG ^ 2 div BIG" "unat x0 = n mod BIG ^ 2 mod BIG"
    using peel_digit [OF _ _ d1_def x0_def] b1 2(2) by simp_all
  have 0: "unat (ucast x0 :: 32 word) = n mod BIG ^ 2 mod BIG"
    using 1(2) by (simp add: unsigned_ucast_eq take_bit_nat_eq_self)
  have D: "bn_digits (CFBigNumInitWithUInt64 x) = [ucast x0, d1, d2, 0, 0]"
    by (simp add: CFBigNumInitWithUInt64_def GET_THIRD_DIGIT_def GET_SECOND_DIGIT_def GET_REMAINDER_THIRD_DIGIT_def
        GET_REMAINDER_SECOND_DIGIT_def BIG_DIGITS_LIMIT_def Let_def x0_def d1_def x1_def d2_def)
  have "canonical [ucast x0, d1, d2, 0, 0]" using 0 1 2 b1 n by (simp add: canonical_def)
  moreover have "digits_val [ucast x0, d1, d2, 0, 0] = n"
    using two_digits [of "n mod BIG ^ 2" BIG] two_digits [of n "BIG ^ 2"] unfolding digits_val.simps 0 1(1) 2(1)
    by (simp add: power2_eq_square)
  ultimately show ?thesis unfolding D n_def by blast
qed

lemma UInt128_digits:
  "canonical (bn_digits (CFBigNumInitWithUInt128 x)) \<and> digits_val (bn_digits (CFBigNumInitWithUInt128 x)) = unat x"
proof -
  define n where "n = unat x"
  have "n < 2 ^ 128" unfolding n_def by (rule less_le_trans [OF unsigned_less]) simp
  then have n: "n div BIG ^ 4 < BIG" by (simp add: div_less_iff_less_mult)
  define d4 where "d4 = (ucast (x div of_nat (BIG ^ 4)) :: 32 word)"
  define x3 where "x3 = x - ucast d4 * of_nat (BIG ^ 4)"
  define d3 where "d3 = (ucast (x3 div of_nat (BIG ^ 3)) :: 32 word)"
  define x2 where "x2 = x3 - ucast d3 * of_nat (BIG ^ 3)"
  define d2 where "d2 = (ucast (x2 div of_nat (BIG ^ 2)) :: 32 word)"
  define x1 where "x1 = x2 - ucast d2 * of_nat (BIG ^ 2)"
  define d1 where "d1 = (ucast (x1 div of_nat BIG) :: 32 word)"
  define x0 where "x0 = x1 - ucast d1 * of_nat BIG"
  define n3 n2 n1 where "n3 = n mod BIG ^ 4" and "n2 = n3 mod BIG ^ 3" and "n1 = n2 mod BIG ^ 2"
  have b: "n3 div BIG ^ 3 < BIG" "n2 div BIG ^ 2 < BIG" "n1 div BIG < BIG"
    using next_digit_bound [of n "BIG ^ 3"] next_digit_bound [of n3 "BIG ^ 2"] next_digit_bound [of n2 BIG]
    by (simp_all add: n3_def n2_def n1_def)
  have 4: "unat d4 = n div BIG ^ 4" "unat x3 = n3"
    using peel_digit [OF _ _ d4_def x3_def] n by (simp_all add: n_def n3_def)
  have 3: "unat d3 = n3 div BIG ^ 3" "unat x2 = n2" using peel_digit [OF _ _ d3_def x2_def] b(1) 4(2) by (simp_all add: n2_def)
  have 2: "unat d2 = n2 div BIG ^ 2" "unat x1 = n1" using peel_digit [OF _ _ d2_def x1_def] b(2) 3(2) by (simp_all add: n1_def)
  have 1: "unat d1 = n1 div BIG" "unat x0 = n1 mod BIG" using peel_digit [OF _ _ d1_def x0_def] b(3) 2(2) by simp_all
  have 0: "unat (ucast x0 :: 32 word) = n1 mod BIG" using 1(2) by (simp add: unsigned_ucast_eq take_bit_nat_eq_self)
  have D: "bn_digits (CFBigNumInitWithUInt128 x) = [ucast x0, d1, d2, d3, d4]"
    by (simp only: CFBigNumInitWithUInt128_def GET_FIFTH_DIGIT_def GET_FOURTH_DIGIT_def GET_THIRD_DIGIT_def GET_SECOND_DIGIT_def
        GET_REMAINDER_FIFTH_DIGIT_def GET_REMAINDER_FOURTH_DIGIT_def GET_REMAINDER_THIRD_DIGIT_def GET_REMAINDER_SECOND_DIGIT_def
        BIG_DIGITS_LIMIT_def Let_def x0_def d1_def x1_def d2_def x2_def d3_def x3_def d4_def CFBigNum.simps)
  have "canonical [ucast x0, d1, d2, d3, d4]" using 0 1 2 3 4 b n by (simp add: canonical_def)
  moreover have "digits_val [ucast x0, d1, d2, d3, d4] = n"
  proof -
    have e: "n1 mod BIG + BIG * (n1 div BIG) = n1" "n1 + BIG ^ 2 * (n2 div BIG ^ 2) = n2"
      "n2 + BIG ^ 3 * (n3 div BIG ^ 3) = n3" "n3 + BIG ^ 4 * (n div BIG ^ 4) = n"
      using two_digits by (simp_all add: n1_def n2_def n3_def)
    have "A + B * P = N1 \<Longrightarrow> N1 + B ^ 2 * Q = N2 \<Longrightarrow> N2 + B ^ 3 * R = N3 \<Longrightarrow> N3 + B ^ 4 * S = N \<Longrightarrow>
        A + B * (P + B * (Q + B * (R + B * (S + B * 0)))) = N" for A B P Q R S N1 N2 N3 N :: nat
      by (simp add: algebra_simps power2_eq_square power3_eq_cube power4_eq_xxxx)
    from this [OF e] show ?thesis unfolding digits_val.simps 0 1(1) 2(1) 3(1) 4(1) .
  qed
  ultimately show ?thesis unfolding D n_def by blast
qed

lemma UInt32_digits:
  "canonical (bn_digits (CFBigNumInitWithUInt32 x)) \<and> digits_val (bn_digits (CFBigNumInitWithUInt32 x)) = unat x"
proof -
  have n: "unat x div BIG < BIG"
    by (rule le_less_trans [OF div_le_mono [OF less_imp_le [OF unsigned_less]]]) simp
  define d1 where "d1 = (ucast (x div of_nat BIG) :: 32 word)"
  define x0 where "x0 = x - ucast d1 * of_nat BIG"
  have 1: "unat d1 = unat x div BIG" "unat x0 = unat x mod BIG" using peel_digit [OF _ _ d1_def x0_def] n by simp_all
  have D: "bn_digits (CFBigNumInitWithUInt32 x) = [x0, d1, 0, 0, 0]"
    by (simp add: CFBigNumInitWithUInt32_def GET_SECOND_DIGIT_def GET_REMAINDER_SECOND_DIGIT_def BIG_DIGITS_LIMIT_def Let_def
        x0_def d1_def)
  show ?thesis unfolding D using 1 n by (simp add: canonical_def)
qed

lemma small_digits:
  "canonical (bn_digits (CFBigNumInitWithUInt8 v)) \<and> digits_val (bn_digits (CFBigNumInitWithUInt8 v)) = unat v"
  "canonical (bn_digits (CFBigNumInitWithUInt16 w)) \<and> digits_val (bn_digits (CFBigNumInitWithUInt16 w)) = unat w"
proof -
  have v: "unat v < 2 ^ 8" using unsigned_less [of v] by simp
  have w: "unat w < 2 ^ 16" using unsigned_less [of w] by simp
  show "canonical (bn_digits (CFBigNumInitWithUInt8 v)) \<and> digits_val (bn_digits (CFBigNumInitWithUInt8 v)) = unat v"
    using v by (simp add: CFBigNumInitWithUInt8_def canonical_def unsigned_ucast_eq take_bit_nat_eq_self)
  show "canonical (bn_digits (CFBigNumInitWithUInt16 w)) \<and> digits_val (bn_digits (CFBigNumInitWithUInt16 w)) = unat w"
    using w by (simp add: CFBigNumInitWithUInt16_def canonical_def unsigned_ucast_eq take_bit_nat_eq_self)
qed

section \<open>Signed numbers\<close>

lemma magnitude_val: "(if bn_sign_of x < 0 then - int (unat (bn_magnitude x)) else int (unat (bn_magnitude x))) = sint (x :: 'a::len word)"
proof (cases "sint x < 0")
  case True
  have "- x = of_int (- sint x)" by simp
  moreover have "- sint x \<le> 2 ^ (LENGTH('a) - 1)" using sint_ge [of x] by simp
  then have "- sint x < 2 ^ LENGTH('a)" by (rule le_less_trans) (simp add: power_strict_increasing)
  ultimately have "uint (- x) = - sint x"
    using True by (metis less_imp_le mod_pos_pos_trivial neg_0_le_iff_le uint_word_of_int)
  then show ?thesis using True by (simp add: bn_sign_of_def bn_magnitude_def)
next
  case False
  have "sint x < 2 ^ LENGTH('a)" by (rule less_le_trans [OF sint_lt]) (simp add: power_increasing)
  then have "uint x = sint x" using False by (simp add: uint_sint take_bit_int_eq_self)
  then show ?thesis using False by (simp add: bn_sign_of_def bn_magnitude_def)
qed

lemma magnitude_0:
  assumes "bn_sign_of x \<noteq> 0"
  shows "unat (bn_magnitude x) \<noteq> 0"
proof -
  have n: "sint x < 0" using assms by (simp add: bn_sign_of_def split: if_splits)
  then have "- int (unat (bn_magnitude x)) = sint x" using magnitude_val [of x] by (simp add: bn_sign_of_def)
  then show ?thesis using n by linarith
qed

text \<open>What every initialisation from a machine integer gives.\<close>

lemma signed_init:
  assumes "canonical ds \<and> digits_val ds = unat (bn_magnitude x)" "length ds = 5"
    and "n = \<lparr> bn_digits = ds, bn_sign = bn_sign_of x \<rparr>"
  shows "bn_inv n \<and> bn_val n = sint x"
proof -
  have "bn_sign_of x = 0 \<or> bn_sign_of x = -1" by (simp add: bn_sign_of_def)
  then show ?thesis using assms magnitude_val [of x] magnitude_0 [of x] by (auto simp: bn_inv_def bn_val_def)
qed

lemma length_init [simp]:
  "length (bn_digits (CFBigNumInitWithUInt8 v)) = 5" "length (bn_digits (CFBigNumInitWithUInt16 w)) = 5"
  "length (bn_digits (CFBigNumInitWithUInt32 x)) = 5" "length (bn_digits (CFBigNumInitWithUInt64 y)) = 5"
  "length (bn_digits (CFBigNumInitWithUInt128 z)) = 5"
  by (simp_all add: CFBigNumInitWithUInt8_def CFBigNumInitWithUInt16_def CFBigNumInitWithUInt32_def
      CFBigNumInitWithUInt64_def CFBigNumInitWithUInt128_def Let_def)

lemma init_signed:
  "bn_inv (CFBigNumInitWithInt8 v) \<and> bn_val (CFBigNumInitWithInt8 v) = sint v"
  "bn_inv (CFBigNumInitWithInt16 w) \<and> bn_val (CFBigNumInitWithInt16 w) = sint w"
  "bn_inv (CFBigNumInitWithInt32 x) \<and> bn_val (CFBigNumInitWithInt32 x) = sint x"
  "bn_inv (CFBigNumInitWithInt64 y) \<and> bn_val (CFBigNumInitWithInt64 y) = sint y"
  "bn_inv (CFBigNumInitWithInt128 z) \<and> bn_val (CFBigNumInitWithInt128 z) = sint z"
  subgoal by (rule signed_init [OF small_digits(1) length_init(1)]) (simp add: CFBigNumInitWithInt8_def CFBigNumInitWithUInt8_def)
  subgoal by (rule signed_init [OF small_digits(2) length_init(2)]) (simp add: CFBigNumInitWithInt16_def CFBigNumInitWithUInt16_def)
  subgoal by (rule signed_init [OF UInt32_digits length_init(3)]) (simp add: CFBigNumInitWithInt32_def CFBigNumInitWithUInt32_def Let_def)
  subgoal by (rule signed_init [OF UInt64_digits length_init(4)]) (simp add: CFBigNumInitWithInt64_def CFBigNumInitWithUInt64_def Let_def)
  subgoal by (rule signed_init [OF UInt128_digits length_init(5)]) (simp add: CFBigNumInitWithInt128_def CFBigNumInitWithUInt128_def Let_def)
  done

section \<open>Reading numbers back\<close>

lemma five_digits: "length ds = 5 \<Longrightarrow> \<exists>a b c d e. ds = [a, b, c, d, e]"
  by (auto simp: eval_nat_numeral length_Suc_conv)

lemma digits_val_5: "digits_val [a, b, c, d, e] =
    unat a + unat b * BIG + unat c * BIG ^ 2 + unat d * BIG ^ 3 + unat e * BIG ^ 4"
  by simp

text \<open>Each getter is the value of its digits, reduced to the width.\<close>

lemma get_words:
  fixes num :: CFBigNum
  assumes "bn_digits num = [a, b, c, d, e]"
  shows "CFBigNumGetUInt128 num = of_nat (digits_val (bn_digits num))"
    "c = 0 \<Longrightarrow> d = 0 \<Longrightarrow> e = 0 \<Longrightarrow> CFBigNumGetUInt32 num = of_nat (digits_val (bn_digits num))"
    "d = 0 \<Longrightarrow> e = 0 \<Longrightarrow> CFBigNumGetUInt64 num = of_nat (digits_val (bn_digits num))"
    "b = 0 \<Longrightarrow> c = 0 \<Longrightarrow> d = 0 \<Longrightarrow> e = 0 \<Longrightarrow> CFBigNumGetUInt8 num = of_nat (digits_val (bn_digits num))"
    "b = 0 \<Longrightarrow> c = 0 \<Longrightarrow> d = 0 \<Longrightarrow> e = 0 \<Longrightarrow> CFBigNumGetUInt16 num = of_nat (digits_val (bn_digits num))"
proof -
  have n: "bn_digits num ! 0 = a" "bn_digits num ! 1 = b" "bn_digits num ! 2 = c" "bn_digits num ! 3 = d" "bn_digits num ! 4 = e"
    using assms by simp_all
  note defs = CFBigNumGetUInt128_def CFBigNumGetUInt64_def CFBigNumGetUInt32_def CFBigNumGetUInt8_def
    CFBigNumGetUInt16_def n BIG_DIGITS_LIMIT_def of_nat_add of_nat_mult of_nat_unat unsigned_0 mult_zero_left add_0_right
  show "CFBigNumGetUInt128 num = of_nat (digits_val (bn_digits num))"
    unfolding assms digits_val_5 by (simp only: defs)
  show "c = 0 \<Longrightarrow> d = 0 \<Longrightarrow> e = 0 \<Longrightarrow> CFBigNumGetUInt32 num = of_nat (digits_val (bn_digits num))"
    unfolding assms digits_val_5 by (simp only: defs ucast_id)
  show "d = 0 \<Longrightarrow> e = 0 \<Longrightarrow> CFBigNumGetUInt64 num = of_nat (digits_val (bn_digits num))"
    unfolding assms digits_val_5 by (simp only: defs)
  show "b = 0 \<Longrightarrow> c = 0 \<Longrightarrow> d = 0 \<Longrightarrow> e = 0 \<Longrightarrow> CFBigNumGetUInt8 num = of_nat (digits_val (bn_digits num))"
    unfolding assms digits_val_5 by (simp only: defs)
  show "b = 0 \<Longrightarrow> c = 0 \<Longrightarrow> d = 0 \<Longrightarrow> e = 0 \<Longrightarrow> CFBigNumGetUInt16 num = of_nat (digits_val (bn_digits num))"
    unfolding assms digits_val_5 by (simp only: defs)
qed

section \<open>Comparison\<close>

lemma digits_val_snoc: "digits_val (xs @ [d]) = digits_val xs + BIG ^ length xs * unat d"
  by (induction xs) (auto simp: algebra_simps)

lemma digits_val_bound: "canonical xs \<Longrightarrow> digits_val xs < BIG ^ length xs"
proof (induction xs)
  case (Cons d xs)
  then have "digits_val xs + 1 \<le> BIG ^ length xs" "unat d < BIG" by (simp_all add: canonical_def Suc_le_eq)
  then have "BIG * (digits_val xs + 1) \<le> BIG * BIG ^ length xs" by (intro mult_le_mono2)
  then show ?case using \<open>unat d < BIG\<close> by simp
qed simp

lemma canonical_take: "canonical xs \<Longrightarrow> canonical (take n xs)"
  by (auto simp: canonical_def list_all_iff dest: in_set_takeD)

text \<open>Numbers with the same weights are ordered by their leading digit first.\<close>

lemma leading_digit:
  fixes u v p x y :: nat
  assumes "u < p" "v < p"
  shows "x < y \<Longrightarrow> u + p * x < v + p * y" "(u + p * x = v + p * y) \<longleftrightarrow> u = v \<and> x = y"
proof -
  have less: "u' + p * x' < v' + p * y'" if "u' < p" "x' < y'" for u' v' x' y'
  proof -
    have "u' + p * x' < p * (x' + 1)" using that by simp
    also have "\<dots> \<le> p * y'" using that by (intro mult_le_mono2) simp
    finally show ?thesis by simp
  qed
  show "x < y \<Longrightarrow> u + p * x < v + p * y" using less assms by simp
  show "(u + p * x = v + p * y) \<longleftrightarrow> u = v \<and> x = y"
    using less [of u x y v] less [of v y x u] assms by (cases x y rule: linorder_cases) auto
qed

definition order_result :: "nat \<Rightarrow> nat \<Rightarrow> int" where
  "order_result u v = (if u < v then kCFCompareLessThan else if v < u then kCFCompareGreaterThan else kCFCompareEqualTo)"

lemma digits_take_Suc:
  "i < length xs \<Longrightarrow> digits_val (take (Suc i) xs) = digits_val (take i xs) + BIG ^ i * unat (xs ! i)"
  by (simp add: take_Suc_conv_app_nth digits_val_snoc)

lemma bn_compare_loop_works:
  assumes "canonical a" "canonical b" "n \<le> length a" "n \<le> length b"
  shows "bn_compare_loop negative a b n =
    (if negative then order_result (digits_val (take n b)) (digits_val (take n a))
     else order_result (digits_val (take n a)) (digits_val (take n b)))"
  using assms(3,4)
proof (induction n)
  case (Suc i)
  have b: "digits_val (take i a) < BIG ^ i" "digits_val (take i b) < BIG ^ i"
    using digits_val_bound [OF canonical_take [OF assms(1)], of i] digits_val_bound [OF canonical_take [OF assms(2)], of i] Suc.prems
    by simp_all
  note t = digits_take_Suc [of i a] digits_take_Suc [of i b]
  consider "unat (a ! i) < unat (b ! i)" | "unat (b ! i) < unat (a ! i)" | "a ! i = b ! i" by (metis linorder_cases word_unat_eq_iff)
  then show ?case
  proof cases
    case 1
    then show ?thesis using leading_digit(1) [OF b 1] t Suc.prems by (simp add: order_result_def word_less_nat_alt)
  next
    case 2
    then show ?thesis using leading_digit(1) [OF b(2,1) 2] t Suc.prems by (simp add: order_result_def word_less_nat_alt)
  next
    case 3
    then show ?thesis using Suc t by (simp add: order_result_def)
  qed
qed (simp add: order_result_def)

lemma bn_abs_less_loop_works:
  "bn_abs_less_loop a b n \<longleftrightarrow> bn_compare_loop False a b n = kCFCompareLessThan"
  by (induction n) (auto simp: kCFCompareLessThan_def kCFCompareEqualTo_def kCFCompareGreaterThan_def)

lemma CFBigNumAbsoluteLessThan_iff:
  assumes "canonical (bn_digits a)" "canonical (bn_digits b)" "length (bn_digits a) = 5" "length (bn_digits b) = 5"
  shows "CFBigNumAbsoluteLessThan a b \<longleftrightarrow> digits_val (bn_digits a) < digits_val (bn_digits b)"
  using bn_compare_loop_works [OF assms(1,2), of 5 False] assms(3,4)
  by (auto simp: CFBigNumAbsoluteLessThan_def bn_abs_less_loop_works order_result_def
      kCFCompareLessThan_def kCFCompareEqualTo_def kCFCompareGreaterThan_def)

lemma CFBigNumCompare_val:
  assumes "bn_inv a" "bn_inv b"
  shows "CFBigNumCompare a b = (if bn_val a < bn_val b then kCFCompareLessThan
    else if bn_val b < bn_val a then kCFCompareGreaterThan else kCFCompareEqualTo)"
proof (cases "bn_sign a = bn_sign b")
  case True
  then show ?thesis
    using bn_compare_loop_works [of "bn_digits a" "bn_digits b" 5 "bn_sign a < 0"] assms
    by (auto simp: CFBigNumCompare_def bn_inv_def bn_val_def order_result_def)
next
  case False
  then show ?thesis using assms by (auto simp: CFBigNumCompare_def bn_inv_def bn_val_def)
qed

section \<open>Arithmetic\<close>

text \<open>One round of the addition; the carry is taken only above the limit.\<close>

lemma bn_add_step:
  assumes "unat a < BIG" "unat b < BIG" "unat carry \<le> 1"
  shows "\<exists>r' c'. unat r' + BIG * unat c' = unat a + unat b + unat carry \<and> unat c' = of_bool (BIG < unat a + unat b + unat carry) \<and>
    (\<forall>as bs. bn_add_loop (a # as) (b # bs) carry = (r' # fst (bn_add_loop as bs c'), snd (bn_add_loop as bs c')))"
proof -
  let ?r = "a + b + carry"
  have "unat a + unat b + unat carry < 2 ^ 32" using assms by simp
  then have r: "unat ?r = unat a + unat b + unat carry" by (simp add: unat_word_ariths)
  define c' where "c' = (if of_nat BIG < ?r then 1 else 0 :: 32 word)"
  define r' where "r' = (if of_nat BIG < ?r then ?r - of_nat BIG else ?r)"
  have "unat r' + BIG * unat c' = unat ?r \<and> unat c' = of_bool (BIG < unat ?r)"
  proof (cases "of_nat BIG < ?r")
    case True
    then have "BIG < unat ?r" by (simp add: word_less_nat_alt)
    moreover from this have "unat (?r - of_nat BIG) = unat ?r - BIG" by (subst unat_sub) (simp_all add: word_le_nat_alt)
    ultimately show ?thesis using True by (simp add: c'_def r'_def)
  next
    case False
    then show ?thesis by (simp add: c'_def r'_def word_less_nat_alt not_less)
  qed
  moreover have "bn_add_loop (a # as) (b # bs) carry = (r' # fst (bn_add_loop as bs c'), snd (bn_add_loop as bs c'))" for as bs
    by (cases "bn_add_loop as bs c'"; cases "of_nat BIG < ?r") (simp_all add: BIG_DIGITS_LIMIT_def c'_def r'_def Let_def)
  ultimately show ?thesis unfolding r by blast
qed

lemma bn_add_loop_works:
  assumes "canonical as" "canonical bs" "length as = length bs" "unat carry \<le> 1"
  shows "digits_val (fst (bn_add_loop as bs carry)) + BIG ^ length as * unat (snd (bn_add_loop as bs carry)) =
      digits_val as + digits_val bs + unat carry \<and>
    unat (snd (bn_add_loop as bs carry)) \<le> 1 \<and> length (fst (bn_add_loop as bs carry)) = length as \<and>
    list_all (\<lambda>d. unat d \<le> BIG) (fst (bn_add_loop as bs carry))"
  using assms(3,1,2,4)
proof (induction as bs arbitrary: carry rule: list_induct2)
  case (Cons a as b bs)
  have d: "unat a < BIG" "unat b < BIG" "canonical as" "canonical bs" using Cons.prems by (simp_all add: canonical_def)
  obtain r' c' where st: "unat r' + BIG * unat c' = unat a + unat b + unat carry" "unat c' = of_bool (BIG < unat a + unat b + unat carry)"
      "bn_add_loop (a # as) (b # bs) carry = (r' # fst (bn_add_loop as bs c'), snd (bn_add_loop as bs c'))"
    using bn_add_step [OF d(1,2) Cons.prems(3)] by blast
  obtain rs c where L: "bn_add_loop as bs c' = (rs, c)" by fastforce
  have IH: "digits_val rs + BIG ^ length as * unat c = digits_val as + digits_val bs + unat c'"
    "unat c \<le> 1" "length rs = length as" "list_all (\<lambda>d. unat d \<le> BIG) rs"
    using Cons.IH [OF d(3,4), of c'] st(2) L by simp_all
  have "unat r' \<le> BIG" using st(1,2) d Cons.prems(3) by (cases "BIG < unat a + unat b + unat carry") simp_all
  moreover have "R' + B * C' = R \<Longrightarrow> S + P * C = X + Y + C' \<Longrightarrow> (R' + B * S) + B * P * C = R + B * X + B * Y" for R' B C' R S P C X Y :: nat
    by (metis (no_types, lifting) add.assoc add.commute add_mult_distrib2 mult.assoc)
  from this [OF st(1) IH(1)] have "unat r' + BIG * digits_val rs + BIG * BIG ^ length as * unat c =
      unat a + unat b + unat carry + BIG * digits_val as + BIG * digits_val bs" .
  ultimately show ?case using st(3) L IH by simp
qed simp

lemma div_carry: "a + b + k = r + B * c \<Longrightarrow> r < B \<Longrightarrow> (a + B * x + (b + B * y) + k) div (B * P) = (x + y + c) div P" for a b k r B c x y P :: nat
proof -
  assume "a + b + k = r + B * c" "r < B"
  moreover have "a + B * x + (b + B * y) + k = (a + b + k) + B * (x + y)" by (simp add: distrib_left)
  ultimately have "a + B * x + (b + B * y) + k = r + (x + y + c) * B" by (simp add: algebra_simps)
  then show ?thesis using \<open>r < B\<close> by (simp add: div_mult2_eq)
qed

text \<open>
  Where the digits stay below one billion: just if no sum of the lower digits is one billion at its last place.
\<close>

lemma bn_add_loop_canonical:
  assumes "canonical as" "canonical bs" "length as = length bs" "unat carry \<le> 1"
  shows "canonical (fst (bn_add_loop as bs carry)) \<longleftrightarrow>
    (\<forall>i < length as. (digits_val (take (Suc i) as) + digits_val (take (Suc i) bs) + unat carry) div BIG ^ i \<noteq> BIG)"
  using assms(3,1,2,4)
proof (induction as bs arbitrary: carry rule: list_induct2)
  case (Cons a as b bs)
  let ?S = "unat a + unat b + unat carry"
  have d: "unat a < BIG" "unat b < BIG" "canonical as" "canonical bs" using Cons.prems by (simp_all add: canonical_def)
  obtain r' c' where st: "unat r' + BIG * unat c' = ?S" "unat c' = of_bool (BIG < ?S)"
      "bn_add_loop (a # as) (b # bs) carry = (r' # fst (bn_add_loop as bs c'), snd (bn_add_loop as bs c'))"
    using bn_add_step [OF d(1,2) Cons.prems(3)] by blast
  have r: "unat r' < BIG \<longleftrightarrow> ?S \<noteq> BIG" using st(1,2) d Cons.prems(3) by (cases "BIG < ?S") auto
  have IH: "canonical (fst (bn_add_loop as bs c')) \<longleftrightarrow>
      (\<forall>i < length as. (digits_val (take (Suc i) as) + digits_val (take (Suc i) bs) + unat c') div BIG ^ i \<noteq> BIG)"
    using Cons.IH [OF d(3,4), of c'] st(2) by simp
  have up: "(digits_val (take (Suc (Suc i)) (a # as)) + digits_val (take (Suc (Suc i)) (b # bs)) + unat carry) div BIG ^ Suc i =
      (digits_val (take (Suc i) as) + digits_val (take (Suc i) bs) + unat c') div BIG ^ i" if "?S \<noteq> BIG" for i
    using div_carry [OF st(1) [symmetric], of "digits_val (take (Suc i) as)" "digits_val (take (Suc i) bs)" "BIG ^ i"] r that by simp
  show ?case
  proof (cases "?S = BIG")
    case True
    then show ?thesis using st(3) r by (auto simp: canonical_def intro!: exI [of _ 0])
  next
    case False
    then show ?thesis using st(3) r IH up [OF False] by (simp add: canonical_def All_less_Suc2 del: bn_add_loop.simps)
  qed
qed (simp add: canonical_def)

text \<open>A carry out of the last digit leaves a digit that is not zero.\<close>

lemma bn_add_loop_carry:
  assumes "canonical as" "canonical bs" "length as = length bs" "unat carry \<le> 1" "as \<noteq> []" "snd (bn_add_loop as bs carry) \<noteq> 0"
  shows "digits_val (fst (bn_add_loop as bs carry)) \<noteq> 0"
  using assms(3,1,2,4-6)
proof (induction as bs arbitrary: carry rule: list_induct2)
  case (Cons a as b bs)
  have d: "unat a < BIG" "unat b < BIG" "canonical as" "canonical bs" using Cons.prems by (simp_all add: canonical_def)
  obtain r' c' where st: "unat r' + BIG * unat c' = unat a + unat b + unat carry" "unat c' = of_bool (BIG < unat a + unat b + unat carry)"
      "bn_add_loop (a # as) (b # bs) carry = (r' # fst (bn_add_loop as bs c'), snd (bn_add_loop as bs c'))"
    using bn_add_step [OF d(1,2) Cons.prems(3)] by blast
  show ?case
  proof (cases "as = []")
    case True
    then have "c' \<noteq> 0" using st(3) Cons.prems(5) by simp
    then have "unat c' \<noteq> 0" by (simp add: unat_eq_0)
    then have "BIG < unat a + unat b + unat carry" using st(2) by (simp split: if_splits)
    then have "0 < unat r'" using st(1,2) by simp
    then show ?thesis using st(3) by simp
  next
    case False
    then show ?thesis using Cons.IH [OF d(3,4), of c'] st Cons.prems(5) by simp
  qed
qed simp

lemma bn_sub_loop_works:
  assumes "canonical as" "canonical bs" "length as = length bs" "0 \<le> carry" "carry \<le> 1"
  shows "int (digits_val (fst (bn_sub_loop as bs carry))) - int BIG ^ length as * snd (bn_sub_loop as bs carry) =
      int (digits_val as) - int (digits_val bs) - carry \<and>
    0 \<le> snd (bn_sub_loop as bs carry) \<and> snd (bn_sub_loop as bs carry) \<le> 1 \<and>
    length (fst (bn_sub_loop as bs carry)) = length as \<and> canonical (fst (bn_sub_loop as bs carry))"
  using assms(3,1,2,4,5)
proof (induction as bs arbitrary: carry rule: list_induct2)
  case (Cons a as b bs)
  let ?r = "uint a - uint b - carry"
  have d: "unat a < BIG" "unat b < BIG" "canonical as" "canonical bs" using Cons.prems by (simp_all add: canonical_def)
  have u: "0 \<le> uint a" "uint a < int BIG" "0 \<le> uint b" "uint b < int BIG"
    using d(1,2) by (simp_all only: flip: of_nat_less_iff [where 'a = int]) simp_all
  define c' where "c' = (if ?r < 0 then 1 else 0 :: int)"
  define r' where "r' = (if ?r < 0 then ?r + int BIG else ?r)"
  have rc: "r' - int BIG * c' = ?r" "0 \<le> r'" "r' < int BIG" "0 \<le> c'" "c' \<le> 1"
    unfolding c'_def r'_def using u Cons.prems(3,4) by (cases "?r < 0"; simp only: if_True if_False; linarith)+
  have "uint (of_int r' :: 32 word) = r'" using rc(2,3) by (simp add: uint_word_of_int)
  then have ur: "int (unat (of_int r' :: 32 word)) = r'" by simp
  obtain rs c where L: "bn_sub_loop as bs c' = (rs, c)" by fastforce
  have IH: "int (digits_val rs) - int BIG ^ length as * c = int (digits_val as) - int (digits_val bs) - c'"
    "0 \<le> c" "c \<le> 1" "length rs = length as" "canonical rs"
    using Cons.IH [OF d(3,4) rc(4,5)] L by simp_all
  have "bn_sub_loop (a # as) (b # bs) carry = (of_int r' # rs, c)"
    using L by (cases "?r < 0") (simp_all add: BIG_DIGITS_LIMIT_def c'_def r'_def Let_def)
  moreover have "R' - B * C' = A - D - K \<Longrightarrow> S - P * C = X - Y - C' \<Longrightarrow> (R' + B * S) - B * P * C = (A + B * X) - (D + B * Y) - K"
    for R' B C' A D K S P C X Y :: int by algebra
  from this [OF rc(1) IH(1)] have "(r' + int BIG * int (digits_val rs)) - int BIG * int BIG ^ length as * c =
      (uint a + int BIG * int (digits_val as)) - (uint b + int BIG * int (digits_val bs)) - carry" .
  moreover have "unat (of_int r' :: 32 word) < BIG" using ur rc(3) by linarith
  then have "canonical (of_int r' # rs)" using IH(5) by (simp add: canonical_def)
  ultimately show ?case using IH ur by simp
qed (simp add: canonical_def)

lemma zero_digits: "list_all (\<lambda>d. d = 0) ds \<longleftrightarrow> digits_val ds = 0"
  by (induction ds) (auto simp: unat_eq_0)

lemma CFBigNumNeg_val:
  assumes "bn_inv a"
  shows "bn_inv (CFBigNumNeg a)" "bn_val (CFBigNumNeg a) = - bn_val a"
  using assms by (auto simp: CFBigNumNeg_def bn_inv_def bn_val_def zero_digits)

text \<open>The signed carry: what the five digits could not hold.\<close>

definition carry_val :: "CFBigNum \<Rightarrow> nat \<Rightarrow> int" where
  "carry_val r c = (if bn_sign r < 0 then - int c else int c) * int BIG ^ 5"

lemma CFBigNumAdd_val:
  assumes "bn_inv a" "bn_inv b" "CFBigNumAdd a b = (r, c)"
  shows "bn_val r + carry_val r c = bn_val a + bn_val b" "c \<le> 1" "length (bn_digits r) = 5"
    "list_all (\<lambda>d. unat d \<le> BIG) (bn_digits r)" "bn_sign a \<noteq> bn_sign b \<Longrightarrow> canonical (bn_digits r) \<and> c = 0"
proof -
  have ca: "canonical (bn_digits a)" "canonical (bn_digits b)" "length (bn_digits a) = 5" "length (bn_digits b) = 5"
    using assms by (simp_all add: bn_inv_def)
  have sg: "bn_sign a = 0 \<or> bn_sign a = -1" "bn_sign b = 0 \<or> bn_sign b = -1" using assms by (auto simp: bn_inv_def)
  have "bn_val r + carry_val r c = bn_val a + bn_val b \<and> c \<le> 1 \<and> length (bn_digits r) = 5 \<and>
    list_all (\<lambda>d. unat d \<le> BIG) (bn_digits r) \<and> (bn_sign a \<noteq> bn_sign b \<longrightarrow> canonical (bn_digits r) \<and> c = 0)"
  proof (cases "bn_sign a = bn_sign b")
    case True
    obtain rs k where L: "bn_add_loop (bn_digits a) (bn_digits b) 0 = (rs, k)" by fastforce
    have w: "digits_val rs + BIG ^ 5 * unat k = digits_val (bn_digits a) + digits_val (bn_digits b)"
      "unat k \<le> 1" "length rs = 5" "list_all (\<lambda>d. unat d \<le> BIG) rs"
      using bn_add_loop_works [OF ca(1,2), of 0] ca(3,4) L by simp_all
    have r: "r = \<lparr> bn_digits = rs, bn_sign = bn_sign a \<rparr>" "c = unat k" using assms(3) True L by (simp_all add: CFBigNumAdd_def)
    have "int (digits_val rs) + int c * int BIG ^ 5 = int (digits_val (bn_digits a)) + int (digits_val (bn_digits b))"
      using arg_cong [OF w(1), of int] r(2) by (simp add: mult.commute)
    then show ?thesis using w r True sg by (auto simp: bn_val_def carry_val_def)
  next
    case False
    define x y where "x = (if CFBigNumAbsoluteLessThan a b then b else a)" and "y = (if CFBigNumAbsoluteLessThan a b then a else b)"
    obtain rs k where L: "bn_sub_loop (bn_digits x) (bn_digits y) 0 = (rs, k)" by fastforce
    have cx: "canonical (bn_digits x)" "canonical (bn_digits y)" "length (bn_digits x) = 5" "length (bn_digits y) = 5"
      using ca by (simp_all add: x_def y_def)
    have le: "digits_val (bn_digits y) \<le> digits_val (bn_digits x)"
      using CFBigNumAbsoluteLessThan_iff [OF ca] by (auto simp: x_def y_def)
    have w: "int (digits_val rs) - int BIG ^ 5 * k = int (digits_val (bn_digits x)) - int (digits_val (bn_digits y))"
      "0 \<le> k" "k \<le> 1" "length rs = 5" "canonical rs"
      using bn_sub_loop_works [OF cx(1,2), of 0] cx(3,4) L by simp_all
    have "int (digits_val rs) < int (BIG ^ 5)"
      using digits_val_bound [OF w(5)] w(4) by (simp only: of_nat_less_iff)
    then have "k \<noteq> 1" using w(1) le by auto
    then have k: "k = 0" using w(2,3) by simp
    have r: "r = \<lparr> bn_digits = rs, bn_sign = (if bn_sign x < 0 then -1 else 0) \<rparr>" "c = 0"
      using assms(3) False L k by (auto simp: CFBigNumAdd_def x_def y_def split: if_splits)
    have "list_all (\<lambda>d. unat d \<le> BIG) rs" using w(5) by (auto simp: canonical_def list_all_iff)
    moreover have "bn_val r = bn_val a + bn_val b"
    proof -
      have v: "bn_val r = (if bn_sign x < 0 then - 1 else 1) * (int (digits_val (bn_digits x)) - int (digits_val (bn_digits y)))"
        using w(1) k r by (simp add: bn_val_def)
      show ?thesis unfolding v using False sg by (auto simp: bn_val_def x_def y_def split: if_splits)
    qed
    ultimately show ?thesis using w r by (simp add: carry_val_def)
  qed
  then show "bn_val r + carry_val r c = bn_val a + bn_val b" "c \<le> 1" "length (bn_digits r) = 5"
    "list_all (\<lambda>d. unat d \<le> BIG) (bn_digits r)" "bn_sign a \<noteq> bn_sign b \<Longrightarrow> canonical (bn_digits r) \<and> c = 0" by blast+
qed

text \<open>Where the result is not well formed: a digit of one billion, or a negative zero.\<close>

definition reaches_limit :: "32 word list \<Rightarrow> 32 word list \<Rightarrow> nat \<Rightarrow> bool" where
  "reaches_limit as bs i \<longleftrightarrow> (digits_val (take (Suc i) as) + digits_val (take (Suc i) bs)) div BIG ^ i = BIG"

lemma CFBigNumAdd_same_sign:
  assumes "bn_inv a" "bn_inv b" "CFBigNumAdd a b = (r, c)" "bn_sign a = bn_sign b"
  shows "bn_inv r \<longleftrightarrow> (\<forall>i < 5. \<not> reaches_limit (bn_digits a) (bn_digits b) i)"
proof -
  have ca: "canonical (bn_digits a)" "canonical (bn_digits b)" "length (bn_digits a) = 5" "length (bn_digits b) = 5"
    using assms by (simp_all add: bn_inv_def)
  obtain rs k where L: "bn_add_loop (bn_digits a) (bn_digits b) 0 = (rs, k)" by fastforce
  have r: "r = \<lparr> bn_digits = rs, bn_sign = bn_sign a \<rparr>" using assms(3,4) L by (simp add: CFBigNumAdd_def)
  have w: "digits_val rs + BIG ^ 5 * unat k = digits_val (bn_digits a) + digits_val (bn_digits b)" "length rs = 5"
    using bn_add_loop_works [OF ca(1,2), of 0] ca(3,4) L by simp_all
  have "digits_val rs \<noteq> 0" if "bn_sign a = - 1"
  proof (cases "k = 0")
    case True
    then show ?thesis using w(1) that assms(1) by (simp add: bn_inv_def)
  next
    case False
    moreover have "bn_digits a \<noteq> []" using ca(3) by auto
    ultimately show ?thesis using bn_add_loop_carry [OF ca(1,2), of 0] ca(3,4) L by simp
  qed
  then have "bn_inv r \<longleftrightarrow> canonical rs" using r w(2) assms(1) by (auto simp: bn_inv_def)
  then show ?thesis using bn_add_loop_canonical [OF ca(1,2), of 0] ca(3,4) L by (simp add: reaches_limit_def)
qed

lemma CFBigNumAdd_opposite_sign:
  assumes "bn_inv a" "bn_inv b" "CFBigNumAdd a b = (r, c)" "bn_sign a \<noteq> bn_sign b"
  shows "bn_inv r \<longleftrightarrow> bn_val a + bn_val b \<noteq> 0 \<or> 0 \<le> bn_val a"
proof -
  note v = CFBigNumAdd_val [OF assms(1-3)]
  have c: "canonical (bn_digits r)" "c = 0" using v(5) assms(4) by simp_all
  then have val: "bn_val r = bn_val a + bn_val b" using v(1) by (cases "bn_sign r < 0") (simp_all add: carry_val_def)
  have sg: "bn_sign r = (if bn_sign (if CFBigNumAbsoluteLessThan a b then b else a) < 0 then - 1 else 0)"
    using assms(3,4) by (auto simp: CFBigNumAdd_def split: prod.splits if_splits)
  have ca: "canonical (bn_digits a)" "canonical (bn_digits b)" "length (bn_digits a) = 5" "length (bn_digits b) = 5"
    using assms by (simp_all add: bn_inv_def)
  have inv: "bn_inv r \<longleftrightarrow> \<not> (bn_sign r = - 1 \<and> bn_val a + bn_val b = 0)"
    using c v(3) sg val by (auto simp: bn_inv_def bn_val_def)
  have "bn_sign r = - 1 \<longleftrightarrow> bn_val a < 0" if "bn_val a + bn_val b = 0"
    using that sg assms(1,2,4) CFBigNumAbsoluteLessThan_iff [OF ca] by (auto simp: bn_inv_def bn_val_def split: if_splits)
  then show ?thesis using inv by (metis not_less)
qed

lemma bn_compare_loop_equal: "bn_compare_loop s as bs n = kCFCompareEqualTo \<longleftrightarrow> (\<forall>i < n. as ! i = bs ! i)"
  by (induction n) (auto simp: kCFCompareLessThan_def kCFCompareEqualTo_def kCFCompareGreaterThan_def less_Suc_eq not_less)

lemma CFBigNumCompare_same:
  assumes "CFBigNumCompare a b = kCFCompareEqualTo" "length (bn_digits a) = 5" "bn_inv b"
  shows "bn_inv a"
proof -
  have "bn_sign a = bn_sign b" "\<forall>i < 5. bn_digits a ! i = bn_digits b ! i"
    using assms(1) bn_compare_loop_equal
    by (auto simp: CFBigNumCompare_def kCFCompareLessThan_def kCFCompareEqualTo_def kCFCompareGreaterThan_def split: if_splits)
  moreover from this have "bn_digits a = bn_digits b" using assms(2,3) by (simp add: list_eq_iff_nth_eq bn_inv_def)
  ultimately show ?thesis using assms(3) by (simp add: bn_inv_def)
qed

section \<open>Choosing a number type\<close>

lemma apply_sign_val: "bn_apply_sign num (of_nat (digits_val (bn_digits num))) = of_int (bn_val num)"
  by (simp add: bn_apply_sign_def bn_val_def)

lemma get_signed:
  assumes "bn_inv num"
  shows "CFBigNumGetInt128 num = of_int (bn_val num)"
    "bn_digits num ! 2 = 0 \<Longrightarrow> bn_digits num ! 3 = 0 \<Longrightarrow> bn_digits num ! 4 = 0 \<Longrightarrow> CFBigNumGetInt32 num = of_int (bn_val num)"
    "bn_digits num ! 3 = 0 \<Longrightarrow> bn_digits num ! 4 = 0 \<Longrightarrow> CFBigNumGetInt64 num = of_int (bn_val num)"
    "list_all (\<lambda>d. d = 0) (drop 1 (bn_digits num)) \<Longrightarrow> CFBigNumGetInt8 num = of_int (bn_val num)"
    "list_all (\<lambda>d. d = 0) (drop 1 (bn_digits num)) \<Longrightarrow> CFBigNumGetInt16 num = of_int (bn_val num)"
proof -
  have "length (bn_digits num) = 5" using assms by (simp add: bn_inv_def)
  then obtain a b c d e where ds: "bn_digits num = [a, b, c, d, e]" using five_digits by blast
  note g = get_words [OF ds]
  have "CFBigNumGetInt128 num = bn_apply_sign num (CFBigNumGetUInt128 num)"
    "CFBigNumGetInt64 num = bn_apply_sign num (CFBigNumGetUInt64 num)"
    "CFBigNumGetInt32 num = bn_apply_sign num (CFBigNumGetUInt32 num)"
    "CFBigNumGetInt16 num = bn_apply_sign num (CFBigNumGetUInt16 num)"
    "CFBigNumGetInt8 num = bn_apply_sign num (CFBigNumGetUInt8 num)"
    by (simp_all only: CFBigNumGetInt128_def CFBigNumGetUInt128_def CFBigNumGetInt64_def CFBigNumGetUInt64_def
        CFBigNumGetInt32_def CFBigNumGetUInt32_def CFBigNumGetInt16_def CFBigNumGetUInt16_def CFBigNumGetInt8_def CFBigNumGetUInt8_def)
  note get = this
  show "CFBigNumGetInt128 num = of_int (bn_val num)" unfolding get g(1) by (rule apply_sign_val)
  have z: "bn_digits num ! 2 = c" "bn_digits num ! 3 = d" "bn_digits num ! 4 = e" using ds by simp_all
  show "bn_digits num ! 2 = 0 \<Longrightarrow> bn_digits num ! 3 = 0 \<Longrightarrow> bn_digits num ! 4 = 0 \<Longrightarrow> CFBigNumGetInt32 num = of_int (bn_val num)"
    unfolding z get by (simp only: g(2) apply_sign_val)
  show "bn_digits num ! 3 = 0 \<Longrightarrow> bn_digits num ! 4 = 0 \<Longrightarrow> CFBigNumGetInt64 num = of_int (bn_val num)"
    unfolding z get by (simp only: g(3) apply_sign_val)
  assume "list_all (\<lambda>d. d = 0) (drop 1 (bn_digits num))"
  then have y: "b = 0" "c = 0" "d = 0" "e = 0" using ds by simp_all
  show "CFBigNumGetInt8 num = of_int (bn_val num)" unfolding get g(4) [OF y] by (rule apply_sign_val)
  show "CFBigNumGetInt16 num = of_int (bn_val num)" unfolding get g(5) [OF y] by (rule apply_sign_val)
qed









lemma digit_not_special:
  assumes "is_digit c"
  shows "\<not> is_space c" "c \<noteq> CHR ''-''" "c \<noteq> CHR ''+''" "c \<noteq> NUL"
proof -
  have c: "48 \<le> (of_char c :: nat)" "(of_char c :: nat) \<le> 57" using assms by (simp_all add: is_digit_def)
  show "\<not> is_space c" using c by (simp add: is_space_def)
  show "c \<noteq> CHR ''-''" "c \<noteq> CHR ''+''" "c \<noteq> NUL" using c by (auto simp: NUL_def)
qed

lemma atol_digits:
  assumes "list_all is_digit s" "length s \<le> 18"
  shows "atol s = Some (int (dec_value s))"
proof -
  have "(10 :: nat) ^ length s \<le> 10 ^ 18" using assms(2) by (intro power_increasing) simp_all
  then have "int (dec_value s) < int (10 ^ 18)" using dec_value_bound [OF assms(1)] by (simp only: of_nat_less_iff)
  then have b: "- (2 ^ 63) \<le> int (dec_value s) \<and> int (dec_value s) < 2 ^ 63" by simp
  show ?thesis
  proof (cases s)
    case (Cons c cs)
    have c: "\<not> is_space c" "c \<noteq> CHR ''-''" "c \<noteq> CHR ''+''" using assms(1) Cons digit_not_special by simp_all
    have "takeWhile is_digit s = s" using assms(1) by (simp add: list_all_iff)
    then have t: "takeWhile is_digit (c # cs) = s" using Cons by simp
    show ?thesis unfolding atol_def Cons dropWhile.simps list.case Let_def if_not_P [OF c(1)] if_not_P [OF c(2)] if_not_P [OF c(3)]
        prod.case t if_False using b by (simp only: Cons if_True simp_thms)
  qed (simp add: atol_def)
qed

section \<open>Reading and printing numbers\<close>

lemma digit_split:
  assumes "a < B" "b < B" "a + B * x = b + B * (y :: nat)"
  shows "a = b \<and> x = y"
proof -
  have "(a + B * x) mod B = a" "(a + B * x) div B = x" "(b + B * y) mod B = b" "(b + B * y) div B = y"
    using assms(1,2) by simp_all
  then show ?thesis using assms(3) by argo
qed

lemma canonical_unique:
  "length ds = length es \<Longrightarrow> canonical ds \<Longrightarrow> canonical es \<Longrightarrow> digits_val ds = digits_val es \<Longrightarrow> ds = es"
proof (induction ds es rule: list_induct2)
  case (Cons d ds e es)
  have "unat d < BIG" "unat e < BIG" using Cons.prems by (simp_all add: canonical_def)
  moreover have e: "unat d + BIG * digits_val ds = unat e + BIG * digits_val es" using Cons.prems by (simp only: digits_val.simps)
  ultimately have "unat d = unat e \<and> digits_val ds = digits_val es" by (rule digit_split)
  then show ?case using Cons by (simp add: canonical_def word_unat_eq_iff)
qed simp

lemma digit_word: "k < BIG \<Longrightarrow> unat (of_int (int k) :: 32 word) = k"
  by (simp add: unsigned_of_nat take_bit_nat_eq_self)

lemma list_all_drop_Suc: "list_all P (drop c xs) \<Longrightarrow> list_all P (drop (Suc c) xs)"
  by (cases "drop c xs") (simp_all add: drop_Suc drop_tl flip: tl_drop)

lemma bn_parse_loop_works:
  assumes "list_all is_digit w" "length w \<le> 9 * (5 - c)" "c < 5" "length ds = 5" "list_all (\<lambda>d. d = 0) (drop c ds)"
  shows "\<exists>ds'. bn_parse_loop w c ds = Some ds' \<and> length ds' = 5 \<and> take c ds' = take c ds \<and>
    canonical (drop c ds') \<and> digits_val (drop c ds') = dec_value w"
  using assms
proof (induction w c ds rule: bn_parse_loop.induct)
  case (1 w c ds)
  show ?case
  proof (cases "c + 1 < 5 \<and> 9 < length w")
    case True
    define w1 w2 where "w1 = take (length w - 9) w" and "w2 = drop (length w - 9) w"
    have w: "w = w1 @ w2" "length w2 = 9" "length w1 = length w - 9" using True by (simp_all add: w1_def w2_def)
    have dig: "list_all is_digit w1" "list_all is_digit w2" using "1.prems"(1) by (simp_all add: w(1))
    have k: "dec_value w2 < BIG" using dec_value_bound [OF dig(2)] w(2) by simp
    have at: "atol w2 = Some (int (dec_value w2))" using atol_digits [OF dig(2)] w(2) by simp
    have len: "length w1 \<le> 9 * (5 - (c + 1))" using True "1.prems"(2) w(3) by arith
    define ds1 where "ds1 = ds[c := of_int (int (dec_value w2))]"
    have "list_all (\<lambda>d. d = 0) (drop (c + 1) ds1)"
      using list_all_drop_Suc [OF "1.prems"(5)] by (simp add: ds1_def)
    then obtain ds' where ds': "bn_parse_loop w1 (c + 1) ds1 = Some ds'" "length ds' = 5" "take (c + 1) ds' = take (c + 1) ds1"
        "canonical (drop (c + 1) ds')" "digits_val (drop (c + 1) ds') = dec_value w1"
      using "1.IH" [OF True, of "int (dec_value w2)"] at dig(1) len "1.prems"(4) True
      unfolding w1_def [symmetric] w2_def [symmetric] ds1_def by auto
    have "ds' ! c = of_int (int (dec_value w2))"
      using arg_cong [OF ds'(3), of "\<lambda>l. l ! c"] "1.prems"(3,4) by (simp add: ds1_def)
    then have "drop c ds' = of_int (int (dec_value w2)) # drop (c + 1) ds'"
      using Cons_nth_drop_Suc [of c ds'] ds'(2) "1.prems"(3) by simp
    moreover have "take c ds' = take c ds" using arg_cong [OF ds'(3), of "take c"] by (simp add: ds1_def)
    moreover have "bn_parse_loop w c ds = Some ds'"
      using True at ds'(1) by (simp add: bn_parse_loop.simps [of w] w1_def w2_def ds1_def)
    ultimately show ?thesis using ds'(2,4,5) digit_word [OF k] k w(2)
      by (simp only: canonical_def list.pred_inject digits_val.simps) (simp add: w(1) dec_value_append)
  next
    case False
    then have "length w \<le> 9" using "1.prems"(2,3) by auto
    then have k: "dec_value w < BIG" and at: "atol w = Some (int (dec_value w))"
      using dec_value_bound [OF "1.prems"(1)] power_increasing [of "length w" 9 "10 :: nat"] atol_digits [OF "1.prems"(1)] by simp_all
    have tl: "list_all (\<lambda>d. d = 0) (drop (Suc c) ds)" by (rule list_all_drop_Suc [OF "1.prems"(5)])
    have z: "list_all (\<lambda>d. d = 0) es \<Longrightarrow> canonical es \<and> digits_val es = 0" for es :: "32 word list"
      by (induction es) (simp_all add: canonical_def)
    have "bn_parse_loop w c ds = Some (ds[c := of_int (int (dec_value w))])"
      using False at by (auto simp: bn_parse_loop.simps [of w])
    moreover have "drop c (ds[c := x]) = x # drop (Suc c) ds" for x
      using Cons_nth_drop_Suc [of c "ds[c := x]"] "1.prems"(3,4) by simp
    ultimately show ?thesis using z [OF tl] k digit_word [OF k] "1.prems"(4)
      by (simp only: option.inject ex_simps) (simp add: canonical_def)
  qed
qed

lemma CFBigNumFromCString_digits:
  assumes "list_all is_digit s" "length (dropWhile (\<lambda>c. c = CHR ''0'') s) \<le> 45" "sg = [] \<or> sg = ''-'' \<or> sg = ''+''"
  shows "\<exists>ds. CFBigNumFromCString (sg @ s) = Some \<lparr> bn_digits = ds, bn_sign = (if sg = ''-'' then -1 else 0) \<rparr> \<and>
    length ds = 5 \<and> canonical ds \<and> digits_val ds = dec_value s"
proof -
  define w where "w = dropWhile (\<lambda>c. c = CHR ''0'') s"
  have split: "(case sg @ s of [] \<Rightarrow> (0, [])
      | c # cs \<Rightarrow> if c = CHR ''-'' then (-1, cs) else if c = CHR ''+'' then (0, cs) else (0, sg @ s)) =
      (if sg = ''-'' then - 1 else 0 :: int, s)"
    using assms(1,3) digit_not_special(2,3) by (cases s) auto
  have wd: "list_all is_digit w" using assms(1) by (auto simp: w_def list_all_iff dest: set_dropWhileD)
  have "replicate 5 (0 :: 32 word) = [0, 0, 0, 0, 0]" by (simp add: eval_nat_numeral)
  then have z: "canonical (replicate 5 0)" "digits_val (replicate 5 0) = 0" "list_all (\<lambda>d. d = 0) (replicate 5 (0 :: 32 word))"
    by (simp_all add: canonical_def)
  show ?thesis
  proof (cases "w = []")
    case True
    have "dec_value s = dec_value w" by (simp only: w_def dec_value_dropWhile)
    then have "dec_value s = 0" by (simp only: True dec_value_Nil)
    then show ?thesis using z unfolding CFBigNumFromCString_def split Let_def prod.case w_def [symmetric] if_P [OF True]
      by (intro exI [of _ "replicate 5 0"]) simp
  next
    case False
    obtain ds where "bn_parse_loop w 0 (replicate 5 0) = Some ds" "length ds = 5" "canonical ds" "digits_val ds = dec_value w"
      using bn_parse_loop_works [OF wd, of 0 "replicate 5 0"] assms(2) z(3) by (auto simp: w_def)
    then show ?thesis using dec_value_dropWhile [of s] unfolding CFBigNumFromCString_def split Let_def prod.case w_def [symmetric] if_not_P [OF False]
      by (intro exI [of _ ds]) simp
  qed
qed

text \<open>What is printed: the sign and digits that have the value of the number.\<close>

definition sign_string :: "CFBigNum \<Rightarrow> bool \<Rightarrow> string" where
  "sign_string v lp = (if bn_sign v < 0 then ''-'' else if lp then ''+'' else [])"

lemma printed_digits:
  assumes "length ds = 5" "canonical ds"
    and "t = print_09u (unat (ds ! 4)) @ print_09u (unat (ds ! 3)) @ print_09u (unat (ds ! 2)) @
      print_09u (unat (ds ! 1)) @ print_09u (unat (ds ! 0))"
  shows "length t = 45" "list_all is_digit t" "dec_value t = digits_val ds"
proof -
  obtain a b c d e where ds: "ds = [a, b, c, d, e]" using assms(1) five_digits by blast
  have n: "unat a < BIG" "unat b < BIG" "unat c < BIG" "unat d < BIG" "unat e < BIG"
    using assms(2) by (simp_all add: ds canonical_def)
  have t: "t = print_09u (unat e) @ print_09u (unat d) @ print_09u (unat c) @ print_09u (unat b) @ print_09u (unat a)"
    using assms(3) by (simp add: ds)
  note p = n [THEN print_09u_digits(1)] n [THEN print_09u_digits(2)] n [THEN print_09u_digits(3)]
  show "length t = 45" by (simp add: t p)
  show "list_all is_digit t" by (simp add: t p)
  show "dec_value t = digits_val ds" by (simp add: t ds p dec_value_append)
qed

lemma drop_to_nul:
  assumes "list_all is_digit t" "length t = 45"
  shows "let tmp = t @ [NUL]; rest = dropWhile (\<lambda>c. c = CHR ''0'') tmp;
      s = takeWhile (\<lambda>c. c \<noteq> NUL) (if hd rest = NUL then drop 44 tmp else rest)
    in list_all is_digit s \<and> length s \<le> 45 \<and> dec_value s = dec_value t"
proof -
  let ?z = "\<lambda>c. c = CHR ''0''"
  have nn: "list_all is_digit u \<Longrightarrow> takeWhile (\<lambda>c. c \<noteq> NUL) (u @ [NUL]) = u" for u
    using digit_not_special(4) by (induction u) auto
  have r: "dropWhile ?z (t @ [NUL]) = dropWhile ?z t @ [NUL]"
    by (induction t) (simp_all add: NUL_def)
  have d44: "drop 44 (t @ [NUL]) = drop 44 t @ [NUL]" using assms(2) by simp
  show ?thesis
  proof (cases "dropWhile ?z t")
    case Nil
    then have "\<forall>c \<in> set t. c = CHR ''0''" by (simp add: dropWhile_eq_Nil_conv)
    then have "list_all is_digit (drop 44 t)" "dec_value t = 0"
      using assms(1) dec_value_dropWhile [of t] Nil by (auto simp: list_all_iff dest: in_set_dropD)
    moreover have "dec_value (drop 44 t) = 0"
      using dec_value_dropWhile [of "drop 44 t"] \<open>\<forall>c \<in> set t. c = CHR ''0''\<close>
      by (simp add: dropWhile_eq_Nil_conv [THEN iffD2] in_set_dropD [of _ 44 t])
    moreover have "length (drop 44 t) \<le> 45" by (simp add: assms(2))
    ultimately show ?thesis using nn [of "drop 44 t"]
      unfolding Let_def r Nil append_Nil list.sel d44 by (simp only: if_True refl simp_thms)
  next
    case (Cons c u)
    have d: "list_all is_digit (c # u)" using assms(1) unfolding Cons [symmetric] by (auto simp: list_all_iff dest: set_dropWhileD)
    moreover have "c \<noteq> NUL" using d digit_not_special(4) by simp
    moreover have "length (c # u) \<le> 45" using assms(2) Cons length_dropWhile_le [of ?z t] by simp
    moreover have "dec_value (c # u) = dec_value t" using dec_value_dropWhile [of t] Cons by simp
    ultimately show ?thesis using nn [OF d]
      unfolding Let_def r Cons append_Cons list.sel by (simp only: if_False simp_thms)
  qed
qed

lemma CFBigNumToCString_prints:
  assumes "bn_inv v" "47 \<le> buflen"
  shows "\<exists>s. CFBigNumToCString v lz lp buflen = Some (sign_string v lp @ s @ [NUL]) \<and> list_all is_digit s \<and>
    length (dropWhile (\<lambda>c. c = CHR ''0'') s) \<le> 45 \<and> dec_value s = digits_val (bn_digits v)"
proof -
  define t where "t = print_09u (unat (bn_digits v ! 4)) @ print_09u (unat (bn_digits v ! 3)) @
    print_09u (unat (bn_digits v ! 2)) @ print_09u (unat (bn_digits v ! 1)) @ print_09u (unat (bn_digits v ! 0))"
  have t: "length t = 45" "list_all is_digit t" "dec_value t = digits_val (bn_digits v)"
    using printed_digits [OF _ _ t_def] assms(1) by (simp_all add: bn_inv_def)
  have sl: "length (sign_string v lp) \<le> 1" by (simp add: sign_string_def)
  define b where "b = buflen - length (sign_string v lp)"
  have b: "46 \<le> b" "\<not> buflen < length (sign_string v lp)" using assms(2) sl by (simp_all add: b_def)
  have tk: "take 45 t = t" by (simp add: t(1))
  note E = CFBigNumToCString_def [of v lz lp buflen, unfolded Let_def, folded t_def sign_string_def b_def, unfolded if_not_P [OF b(2)] tk]
  show ?thesis
  proof (cases lz)
    case True
    have z: "dropWhile (\<lambda>c. c = CHR ''0'') (replicate k CHR ''0'' @ t) = dropWhile (\<lambda>c. c = CHR ''0'') t" for k
      by (induction k) simp_all
    have "CFBigNumToCString v lz lp buflen = Some (sign_string v lp @ (replicate (b - 46) CHR ''0'' @ t) @ [NUL])"
      unfolding E using True b(1) t(1) by (simp add: min_absorb1)
    moreover have "list_all is_digit (replicate k CHR ''0'')" for k by (induction k) (simp_all add: is_digit_def)
    ultimately show ?thesis using t z length_dropWhile_le [of "\<lambda>c. c = CHR ''0''" t] by (auto simp: dec_value_append)
  next
    case False
    define rest where "rest = dropWhile (\<lambda>c. c = CHR ''0'') (t @ [NUL])"
    define s where "s = takeWhile (\<lambda>c. c \<noteq> NUL) (if hd rest = NUL then drop 44 (t @ [NUL]) else rest)"
    have s: "list_all is_digit s" "length s \<le> 45" "dec_value s = dec_value t"
      using drop_to_nul [OF t(2,1)] by (simp_all only: Let_def s_def rest_def)
    have "CFBigNumToCString v lz lp buflen = Some (sign_string v lp @ take (b - 1) s @ [NUL])"
      unfolding E s_def rest_def using False b(1) by simp
    then show ?thesis using s b(1) t(3) length_dropWhile_le [of "\<lambda>c. c = CHR ''0''" s] by auto
  qed
qed

lemma high_digits_zero:
  "list_all (\<lambda>d. d = 0) (drop 1 (bn_digits (CFBigNumInitWithInt8 v)))"
  "list_all (\<lambda>d. d = 0) (drop 1 (bn_digits (CFBigNumInitWithInt16 w)))"
  "bn_digits (CFBigNumInitWithInt32 x) ! 2 = 0" "bn_digits (CFBigNumInitWithInt32 x) ! 3 = 0"
  "bn_digits (CFBigNumInitWithInt32 x) ! 4 = 0"
  "bn_digits (CFBigNumInitWithInt64 y) ! 3 = 0" "bn_digits (CFBigNumInitWithInt64 y) ! 4 = 0"
  by (simp_all add: CFBigNumInitWithInt8_def CFBigNumInitWithUInt8_def CFBigNumInitWithInt16_def CFBigNumInitWithUInt16_def
      CFBigNumInitWithInt32_def CFBigNumInitWithUInt32_def CFBigNumInitWithInt64_def CFBigNumInitWithUInt64_def Let_def)

lemma bn_eqI:
  assumes "bn_inv n" "bn_inv m" "bn_val n = bn_val m"
  shows "n = m"
  using assms canonical_unique [of "bn_digits n" "bn_digits m"] by (auto simp: bn_inv_def bn_val_def split: if_splits)

lemma init_32_eqI:
  assumes "bn_inv m" "bn_val m = sint x"
  shows "CFBigNumInitWithInt32 x = m"
  by (rule bn_eqI) (simp_all add: assms init_signed)

lemmas bn_eval = bn_inv_def bn_val_def canonical_def

lemma small_init_32:
  "CFBigNumInitWithInt32 0 = \<lparr> bn_digits = [0, 0, 0, 0, 0], bn_sign = 0 \<rparr>"
  "CFBigNumInitWithInt32 1 = \<lparr> bn_digits = [1, 0, 0, 0, 0], bn_sign = 0 \<rparr>"
  "CFBigNumInitWithInt32 5 = \<lparr> bn_digits = [5, 0, 0, 0, 0], bn_sign = 0 \<rparr>"
  "CFBigNumInitWithInt32 7 = \<lparr> bn_digits = [7, 0, 0, 0, 0], bn_sign = 0 \<rparr>"
  "CFBigNumInitWithInt32 (- 5) = \<lparr> bn_digits = [5, 0, 0, 0, 0], bn_sign = - 1 \<rparr>"
  "CFBigNumInitWithInt32 999999999 = \<lparr> bn_digits = [999999999, 0, 0, 0, 0], bn_sign = 0 \<rparr>"
  "CFBigNumInitWithInt32 1000000000 = \<lparr> bn_digits = [0, 1, 0, 0, 0], bn_sign = 0 \<rparr>"
  "CFBigNumInitWithInt32 (- 1999999999) = \<lparr> bn_digits = [999999999, 1, 0, 0, 0], bn_sign = - 1 \<rparr>"
  by (rule init_32_eqI; simp add: bn_eval)+









lemmas bn_compute = CFBigNumAdd_def CFBigNumSub_def CFBigNumNeg_def CFBigNumCompare_def CFBigNumAbsoluteLessThan_def
  BIG_DIGITS_LIMIT_def Let_def kCFCompareLessThan_def kCFCompareEqualTo_def kCFCompareGreaterThan_def

lemma five: "5 = Suc (Suc (Suc (Suc (Suc 0))))"
  by simp

section \<open>Properties\<close>

text \<open>
  C25. Every machine integer of 8 to 128 bits becomes five digits below one billion and a sign, with
  no negative zero, that stand for its value, and the getter of its type gives it back.
\<close>

theorem CFBigNum_conversions:
  "(bn_inv (CFBigNumInitWithInt8 v) \<and> bn_val (CFBigNumInitWithInt8 v) = sint v \<and> CFBigNumGetInt8 (CFBigNumInitWithInt8 v) = v) \<and>
   (bn_inv (CFBigNumInitWithInt16 w) \<and> bn_val (CFBigNumInitWithInt16 w) = sint w \<and> CFBigNumGetInt16 (CFBigNumInitWithInt16 w) = w) \<and>
   (bn_inv (CFBigNumInitWithInt32 x) \<and> bn_val (CFBigNumInitWithInt32 x) = sint x \<and> CFBigNumGetInt32 (CFBigNumInitWithInt32 x) = x) \<and>
   (bn_inv (CFBigNumInitWithInt64 y) \<and> bn_val (CFBigNumInitWithInt64 y) = sint y \<and> CFBigNumGetInt64 (CFBigNumInitWithInt64 y) = y) \<and>
   (bn_inv (CFBigNumInitWithInt128 z) \<and> bn_val (CFBigNumInitWithInt128 z) = sint z \<and> CFBigNumGetInt128 (CFBigNumInitWithInt128 z) = z)"
proof -
  note i = init_signed [THEN conjunct1] and e = init_signed [THEN conjunct2]
  have "CFBigNumGetInt8 (CFBigNumInitWithInt8 v) = v"
    using get_signed(4) [OF i(1) high_digits_zero(1)] by (simp only: e of_int_sint scast_id)
  moreover have "CFBigNumGetInt16 (CFBigNumInitWithInt16 w) = w"
    using get_signed(5) [OF i(2) high_digits_zero(2)] by (simp only: e of_int_sint scast_id)
  moreover have "CFBigNumGetInt32 (CFBigNumInitWithInt32 x) = x"
    using get_signed(2) [OF i(3) high_digits_zero(3-5)] by (simp only: e of_int_sint scast_id)
  moreover have "CFBigNumGetInt64 (CFBigNumInitWithInt64 y) = y"
    using get_signed(3) [OF i(4) high_digits_zero(6,7)] by (simp only: e of_int_sint scast_id)
  moreover have "CFBigNumGetInt128 (CFBigNumInitWithInt128 z) = z"
    using get_signed(1) [OF i(5)] by (simp only: e of_int_sint scast_id)
  ultimately show ?thesis by (simp only: i e simp_thms)
qed

text \<open>
  C24. On well-formed numbers \<open>_CFBigNumCompare\<close> is the comparison of the values, and numbers that
  compare equal are the same.
\<close>

theorem CFBigNumCompare_correct:
  assumes "bn_inv a" "bn_inv b"
  shows "(CFBigNumCompare a b = kCFCompareLessThan \<longleftrightarrow> bn_val a < bn_val b) \<and>
    (CFBigNumCompare a b = kCFCompareGreaterThan \<longleftrightarrow> bn_val b < bn_val a) \<and>
    (CFBigNumCompare a b = kCFCompareEqualTo \<longleftrightarrow> a = b)"
proof -
  have "bn_val a = bn_val b \<longleftrightarrow> a = b" using bn_eqI [OF assms] by blast
  then show ?thesis using CFBigNumCompare_val [OF assms]
    by (auto simp: kCFCompareLessThan_def kCFCompareEqualTo_def kCFCompareGreaterThan_def)
qed

theorem CFBigNumCompare_correct_witness:
  "CFBigNumCompare (CFBigNumInitWithInt64 (- 5000000000)) (CFBigNumInitWithInt8 7) = kCFCompareLessThan"
proof -
  have "bn_val (CFBigNumInitWithInt64 (- 5000000000)) < bn_val (CFBigNumInitWithInt8 7)" by (simp add: init_signed)
  then show ?thesis
    using CFBigNumCompare_correct [of "CFBigNumInitWithInt64 (- 5000000000)" "CFBigNumInitWithInt8 7"] init_signed by blast
qed

text \<open>
  C15. Addition and subtraction give the sum and the difference of the values: what five digits
  cannot hold is the carry, which is at most one, and no digit exceeds one billion (a digit equal
  to one billion can be left over, just where \<open>reaches_limit\<close> says); opposite signs leave no carry.
\<close>

theorem CFBigNumAdd_Sub_correct:
  assumes "bn_inv a" "bn_inv b" "CFBigNumAdd a b = (r, c)" "CFBigNumSub a b = (r', c')"
  shows "bn_val r + carry_val r c = bn_val a + bn_val b \<and> bn_val r' + carry_val r' c' = bn_val a - bn_val b \<and>
    c \<le> 1 \<and> c' \<le> 1 \<and> length (bn_digits r) = 5 \<and> length (bn_digits r') = 5 \<and>
    list_all (\<lambda>d. unat d \<le> BIG_DIGITS_LIMIT) (bn_digits r) \<and> list_all (\<lambda>d. unat d \<le> BIG_DIGITS_LIMIT) (bn_digits r') \<and>
    (bn_sign a \<noteq> bn_sign b \<longrightarrow> canonical (bn_digits r) \<and> c = 0)"
proof -
  note n = CFBigNumNeg_val [OF assms(2)]
  have s: "CFBigNumAdd a (CFBigNumNeg b) = (r', c')" using assms(4) by (simp add: CFBigNumSub_def)
  show ?thesis using CFBigNumAdd_val [OF assms(1-3)] CFBigNumAdd_val [OF assms(1) n(1) s] n(2)
    unfolding BIG_DIGITS_LIMIT_def by auto
qed

theorem CFBigNumAdd_Sub_correct_witness:
  "let a = CFBigNumInitWithInt32 (- 1999999999); b = CFBigNumInitWithInt32 7; s = CFBigNumAdd a b; d = CFBigNumSub a b
   in bn_val (fst s) = - 1999999992 \<and> bn_val (fst d) = - 2000000006"
proof -
  let ?a = "CFBigNumInitWithInt32 (- 1999999999)" and ?b = "CFBigNumInitWithInt32 7"
  have i: "bn_inv ?a" "bn_inv ?b" "bn_val ?a = - 1999999999" "bn_val ?b = 7" by (simp_all add: init_signed)
  have r: "CFBigNumAdd ?a ?b = (\<lparr> bn_digits = [999999992, 1, 0, 0, 0], bn_sign = - 1 \<rparr>, 0)"
    "CFBigNumSub ?a ?b = (\<lparr> bn_digits = [6, 2, 0, 0, 0], bn_sign = - 1 \<rparr>, 0)"
    by (simp_all add: small_init_32 bn_compute five)
  show ?thesis using CFBigNumAdd_Sub_correct [OF i(1,2) r] unfolding Let_def r fst_conv i(3,4) carry_val_def by simp
qed

text \<open>
  C32. When a sum is well formed.  The sum of two numbers of one sign is well formed just if at no
  place the sum of the digits up to there is one billion: the carry is taken only above one billion,
  so that place keeps the digit one billion.  The sum of two numbers of opposite signs is well formed
  just if it is not zero or the first number is not the negative one: a negative number and its
  opposite give a negative zero.  A sum that is not well formed compares unequal to every well-formed
  number, the one with its own value included.
\<close>

theorem CFBigNumAdd_well_formed_iff:
  assumes "bn_inv a" "bn_inv b" "CFBigNumAdd a b = (r, c)"
  shows "(bn_inv r \<longleftrightarrow>
      (if bn_sign a = bn_sign b then \<forall>i < 5. \<not> reaches_limit (bn_digits a) (bn_digits b) i
       else bn_val a + bn_val b \<noteq> 0 \<or> 0 \<le> bn_val a)) \<and>
    (bn_inv z \<and> \<not> bn_inv r \<longrightarrow> CFBigNumCompare r z \<noteq> kCFCompareEqualTo)"
  using CFBigNumAdd_same_sign [OF assms] CFBigNumAdd_opposite_sign [OF assms] CFBigNumAdd_val(3) [OF assms]
    CFBigNumCompare_same by (metis (full_types))

theorem CFBigNumAdd_well_formed_iff_witness:
  "(let s = CFBigNumAdd (CFBigNumInitWithInt32 999999999) (CFBigNumInitWithInt32 1); z = CFBigNumInitWithInt32 1000000000
    in bn_val (fst s) = bn_val z \<and> \<not> bn_inv (fst s) \<and> CFBigNumCompare (fst s) z \<noteq> kCFCompareEqualTo) \<and>
   (let s = CFBigNumAdd (CFBigNumInitWithInt32 (- 5)) (CFBigNumInitWithInt32 5); z = CFBigNumInitWithInt32 0
    in bn_val (fst s) = bn_val z \<and> \<not> bn_inv (fst s) \<and> CFBigNumCompare (fst s) z \<noteq> kCFCompareEqualTo) \<and>
   bn_inv (fst (CFBigNumAdd (CFBigNumInitWithInt32 5) (CFBigNumInitWithInt32 (- 5))))"
proof -
  have i: "bn_inv (CFBigNumInitWithInt32 x)" for x by (simp add: init_signed)
  note w = CFBigNumAdd_well_formed_iff [OF i i]
  have r: "CFBigNumAdd (CFBigNumInitWithInt32 999999999) (CFBigNumInitWithInt32 1) = (\<lparr> bn_digits = [1000000000, 0, 0, 0, 0], bn_sign = 0 \<rparr>, 0)"
    "CFBigNumAdd (CFBigNumInitWithInt32 (- 5)) (CFBigNumInitWithInt32 5) = (\<lparr> bn_digits = [0, 0, 0, 0, 0], bn_sign = - 1 \<rparr>, 0)"
    "CFBigNumAdd (CFBigNumInitWithInt32 5) (CFBigNumInitWithInt32 (- 5)) = (\<lparr> bn_digits = [0, 0, 0, 0, 0], bn_sign = 0 \<rparr>, 0)"
    by (simp_all add: small_init_32 bn_compute five)
  have "reaches_limit (bn_digits (CFBigNumInitWithInt32 999999999)) (bn_digits (CFBigNumInitWithInt32 1)) 0"
    by (simp add: reaches_limit_def small_init_32)
  then have "\<not> (\<forall>i < 5. \<not> reaches_limit (bn_digits (CFBigNumInitWithInt32 999999999)) (bn_digits (CFBigNumInitWithInt32 1)) i)"
    by (auto intro!: exI [of _ 0])
  moreover have "bn_sign (CFBigNumInitWithInt32 999999999) = bn_sign (CFBigNumInitWithInt32 1)" by (simp add: small_init_32)
  ultimately have lim: "\<not> bn_inv (fst (CFBigNumAdd (CFBigNumInitWithInt32 999999999) (CFBigNumInitWithInt32 1)))"
    "CFBigNumCompare (fst (CFBigNumAdd (CFBigNumInitWithInt32 999999999) (CFBigNumInitWithInt32 1))) (CFBigNumInitWithInt32 1000000000) \<noteq> kCFCompareEqualTo"
    using w [OF r(1), of "CFBigNumInitWithInt32 1000000000"] i unfolding r(1) fst_conv by simp_all
  have s: "bn_sign (CFBigNumInitWithInt32 (- 5)) \<noteq> bn_sign (CFBigNumInitWithInt32 5)" by (simp add: small_init_32)
  have v: "bn_val (CFBigNumInitWithInt32 (- 5)) = - 5" "bn_val (CFBigNumInitWithInt32 5) = 5" "bn_val (CFBigNumInitWithInt32 0) = 0"
    "bn_val (CFBigNumInitWithInt32 1000000000) = 1000000000" by (simp_all add: init_signed)
  have zero: "\<not> bn_inv (fst (CFBigNumAdd (CFBigNumInitWithInt32 (- 5)) (CFBigNumInitWithInt32 5)))"
    "CFBigNumCompare (fst (CFBigNumAdd (CFBigNumInitWithInt32 (- 5)) (CFBigNumInitWithInt32 5))) (CFBigNumInitWithInt32 0) \<noteq> kCFCompareEqualTo"
    "bn_inv (fst (CFBigNumAdd (CFBigNumInitWithInt32 5) (CFBigNumInitWithInt32 (- 5))))"
    using w [OF r(2), of "CFBigNumInitWithInt32 0"] w [OF r(3)] i s s [symmetric] v unfolding r fst_conv by simp_all
  show ?thesis using lim zero unfolding Let_def r fst_conv v by (simp add: bn_val_def)
qed



text \<open>
  C6. In a buffer of at least 47 bytes \<open>_CFBigNumToCString\<close> writes a terminated string without
  inner terminators, for either choice of leading zeros and plus sign, from which
  \<open>_CFBigNumFromCString\<close> reads the same number.
\<close>

theorem CFBigNum_string_round_trip:
  assumes "bn_inv v" "47 \<le> buflen"
  shows "\<exists>s. CFBigNumToCString v leading_zeros leading_plus buflen = Some (s @ [NUL]) \<and> NUL \<notin> set s \<and>
    CFBigNumFromCString s = Some v"
proof -
  obtain s where s: "CFBigNumToCString v leading_zeros leading_plus buflen = Some (sign_string v leading_plus @ s @ [NUL])"
      "list_all is_digit s" "length (dropWhile (\<lambda>c. c = CHR ''0'') s) \<le> 45" "dec_value s = digits_val (bn_digits v)"
    using CFBigNumToCString_prints [OF assms] by blast
  have sg: "sign_string v leading_plus = [] \<or> sign_string v leading_plus = ''-'' \<or> sign_string v leading_plus = ''+''"
    "(if sign_string v leading_plus = ''-'' then -1 else 0) = bn_sign v"
    using assms(1) by (auto simp: sign_string_def bn_inv_def)
  obtain ds where ds: "CFBigNumFromCString (sign_string v leading_plus @ s) = Some \<lparr> bn_digits = ds, bn_sign = bn_sign v \<rparr>"
      "length ds = 5" "canonical ds" "digits_val ds = dec_value s"
    using CFBigNumFromCString_digits [OF s(2,3) sg(1)] unfolding sg(2) by blast
  have "ds = bn_digits v" using ds s(4) assms(1) by (intro canonical_unique) (simp_all add: bn_inv_def)
  then have "CFBigNumFromCString (sign_string v leading_plus @ s) = Some v" using ds(1) by simp
  moreover have "NUL \<notin> set s" using s(2) digit_not_special(4) by (auto simp: list_all_iff)
  then have "NUL \<notin> set (sign_string v leading_plus @ s)" by (simp add: sign_string_def NUL_def)
  ultimately show ?thesis using s(1) by (intro exI [of _ "sign_string v leading_plus @ s"]) simp
qed

theorem CFBigNum_string_round_trip_witness:
  "\<exists>s. CFBigNumToCString (CFBigNumInitWithInt64 (- 12000000034)) False True 64 = Some (s @ [NUL]) \<and> NUL \<notin> set s \<and>
    CFBigNumFromCString s = Some (CFBigNumInitWithInt64 (- 12000000034))"
  by (rule CFBigNum_string_round_trip) (simp_all add: init_signed)

end
