(* ===== verification/CF_Memory.thy ===== *)
theory CF_Memory
  imports CF_Prelude
begin

text \<open>
  Shared lemmas on blocks of memory, as slices of cells and the cells an operation may change, and
  on the counts of references a sequence of retain and release calls leaves.
\<close>

section \<open>Slices of memory\<close>

definition slice :: "'a cells \<Rightarrow> nat \<Rightarrow> nat \<Rightarrow> 'a cells" where
  "slice m i n = take n (drop i m)"

lemma length_slice [simp]: "i + n \<le> length m \<Longrightarrow> length (slice m i n) = n"
  by (simp add: slice_def)

lemma slice_0 [simp]: "slice m i 0 = []"
  by (simp add: slice_def)

lemma slice_append: "slice m i (j + k) = slice m i j @ slice m (i + j) k"
  by (simp add: slice_def take_add add.commute)

lemma slice_all: "slice m 0 (length m) = m"
  by (simp add: slice_def)

lemma slice_Suc: "i + Suc n \<le> length m \<Longrightarrow> slice m i (Suc n) = m ! i # slice m (Suc i) n"
  by (simp add: slice_def Cons_nth_drop_Suc [symmetric])

lemma nth_slice: "k < n \<Longrightarrow> i + n \<le> length m \<Longrightarrow> slice m i n ! k = m ! (i + k)"
  by (simp add: slice_def)

lemma slice_eqI:
  assumes "i + n \<le> length m" "j + n \<le> length m'" "\<And>k. k < n \<Longrightarrow> m ! (i + k) = m' ! (j + k)"
  shows "slice m i n = slice m' j n"
  using assms by (intro nth_equalityI) (simp_all add: nth_slice)

text \<open>\<open>m'\<close> is \<open>m\<close> with a change only in \<open>n\<close> cells from \<open>i\<close> on.\<close>

definition changed_in :: "'a cells \<Rightarrow> 'a cells \<Rightarrow> nat \<Rightarrow> nat \<Rightarrow> bool" where
  "changed_in m m' i n \<longleftrightarrow> length m' = length m \<and> (\<forall>j < length m. j < i \<or> i + n \<le> j \<longrightarrow> m' ! j = m ! j)"

lemma changed_in_length: "changed_in m m' i n \<Longrightarrow> length m' = length m"
  by (simp add: changed_in_def)

lemma changed_in_slice:
  assumes "changed_in m m' i n" "j + k \<le> i \<or> i + n \<le> j" "j + k \<le> length m"
  shows "slice m' j k = slice m j k"
  using assms by (intro slice_eqI) (auto simp: changed_in_def)

lemma changed_in_refl [simp]: "changed_in m m i n"
  by (simp add: changed_in_def)

lemma changed_in_trans:
  "changed_in m m' i n \<Longrightarrow> changed_in m' m'' i n \<Longrightarrow> changed_in m m'' i n"
  by (simp add: changed_in_def)

lemma changed_in_mono:
  "changed_in m m' i n \<Longrightarrow> j \<le> i \<Longrightarrow> i + n \<le> j + k \<Longrightarrow> changed_in m m' j k"
  by (auto simp: changed_in_def)

lemma changed_in_none: "changed_in m m' i 0 \<Longrightarrow> m' = m"
  by (auto simp: changed_in_def intro!: nth_equalityI)

lemma memmove_slice:
  assumes "si + n \<le> length src" "di + n \<le> length dst"
  shows "\<exists>m. memmove_cells dst di src si n = Some m \<and> changed_in dst m di n \<and> slice m di n = slice src si n"
proof -
  let ?m = "take di dst @ take n (drop si src) @ drop (di + n) dst"
  have "memmove_cells dst di src si n = Some ?m" using assms by (simp add: memmove_cells_def)
  moreover have "changed_in dst ?m di n" using assms by (auto simp: changed_in_def nth_append)
  moreover have "slice ?m di n = slice src si n" using assms by (simp add: slice_def)
  ultimately show ?thesis by blast
qed

lemma st_changed: "i < length m \<Longrightarrow> \<exists>m'. st m i v = Some m' \<and> changed_in m m' i 1 \<and> m' ! i = Some v"
  by (auto simp: st_def changed_in_def nth_list_update)

lemma changed_in_union:
  assumes "changed_in m m' i 1" "changed_in m' m'' (Suc i) n"
  shows "changed_in m m'' i (Suc n)"
  using assms by (auto simp: changed_in_def)

lemma slice_map_Some: "slice (map Some xs) i n = map Some (take n (drop i xs))"
  by (simp add: slice_def take_map drop_map)

lemma slice_slice: "j + k \<le> n \<Longrightarrow> slice (slice m i n) j k = slice m (i + j) k"
  by (simp add: slice_def take_drop add.commute min_absorb1)

lemma sub_slice: "slice m i (length xs) = map Some xs \<Longrightarrow> j + k \<le> length xs \<Longrightarrow> slice m (i + j) k = map Some (take k (drop j xs))"
  by (metis slice_slice slice_map_Some)

lemma flsl_split: "0 < n \<Longrightarrow> 2 ^ (flsl n - 1) \<le> n \<and> n < 2 * 2 ^ (flsl n - 1)"
  using flsl_lower [of n] flsl_upper [of n] flsl_pos [of n] by simp

section \<open>Searching lists\<close>

text \<open>The index of the first element that satisfies a predicate.\<close>

fun first_match :: "('a \<Rightarrow> bool) \<Rightarrow> 'a list \<Rightarrow> nat option" where
  "first_match P [] = None"
| "first_match P (x # xs) = (if P x then Some 0 else map_option Suc (first_match P xs))"

lemma first_match_Some: "first_match P xs = Some k \<longleftrightarrow> k < length xs \<and> P (xs ! k) \<and> (\<forall>j < k. \<not> P (xs ! j))"
  by (induction xs arbitrary: k) (auto simp: less_Suc_eq_0_disj nth_Cons split: nat.splits)

lemma first_match_None: "first_match P xs = None \<longleftrightarrow> (\<forall>x \<in> set xs. \<not> P x)"
  by (induction xs) auto

text \<open>What a search from the left and a search from the right find.\<close>

lemma first_last_match:
  assumes "length r = n" "\<exists>x \<in> set r. P x"
  shows "\<exists>i j. first_match P r = Some i \<and> first_match P (rev r) = Some (n - 1 - j) \<and> i \<le> j \<and> j < n \<and> P (r ! i) \<and> P (r ! j) \<and>
    (\<forall>k < n. P (r ! k) \<longrightarrow> i \<le> k \<and> k \<le> j)"
proof -
  obtain i j where i: "first_match P r = Some i" and j: "first_match P (rev r) = Some j"
    using first_match_None [of P r] first_match_None [of P "rev r"] assms(2) by auto
  have I: "i < n" "P (r ! i)" "\<forall>k < i. \<not> P (r ! k)" using first_match_Some [of P r i] i assms(1) by auto
  have J: "j < n" "P (rev r ! j)" "\<And>k. k < j \<Longrightarrow> \<not> P (rev r ! k)" using first_match_Some [of P "rev r" j] j assms(1) by auto
  have le: "k \<le> n - 1 - j" if "k < n" "P (r ! k)" for k
    using J(3) [of "n - 1 - k"] that assms(1) by (cases "n - 1 - k < j") (auto simp: rev_nth)
  have "P (r ! (n - 1 - j))" using J(1,2) assms(1) by (simp add: rev_nth)
  moreover have "i \<le> k" if "P (r ! k)" for k using I(3) that not_less by blast
  moreover have "n - 1 - (n - 1 - j) = j" "n - 1 - j < n" using J(1) by simp_all
  ultimately show ?thesis using I(1,2) i j le by (intro exI [of _ i] exI [of _ "n - 1 - j"]) simp
qed

section \<open>Reference counts\<close>

text \<open>Retains minus releases of a pointer, and calls that never take a count below zero.\<close>

definition refs :: "cf_call list \<Rightarrow> ptr \<Rightarrow> int" where
  "refs calls p = int (count_list calls (Retain p)) - int (count_list calls (Release p))"

definition never_over_released :: "ptr list \<Rightarrow> cf_call list \<Rightarrow> bool" where
  "never_over_released xs calls \<longleftrightarrow> (\<forall>k p. 0 \<le> int (count_list xs p) + refs (take k calls) p)"

lemma refs_simps [simp]:
  "refs [] p = 0" "refs (us @ vs) p = refs us p + refs vs p"
  "refs (Retain v # us) p = (if v = p then 1 else 0) + refs us p" "refs (Release v # us) p = refs us p - (if v = p then 1 else 0)"
  by (simp_all add: refs_def)

lemma refs_map [simp]: "refs (map Retain vs) p = int (count_list vs p)" "refs (map Release vs) p = - int (count_list vs p)"
  by (induction vs) auto

lemma count_list_take_le: "count_list (take k xs) p \<le> count_list xs p"
  by (metis append_take_drop_id count_list_append le_add1)

lemma never_over_released_exchange:
  assumes "\<And>p. count_list us p \<le> count_list xs p"
  shows "never_over_released xs (map Retain vs @ map Release us)"
proof -
  have "0 \<le> int (count_list xs p) + (int (count_list (take k vs) p) - int (count_list (take (k - length vs) us) p))" for k p
    using count_list_take_le [of "k - length vs" us p] assms [of p] by linarith
  then show ?thesis by (simp add: never_over_released_def take_map)
qed

lemma never_over_released_append:
  assumes "never_over_released xs us" "never_over_released ys vs" "\<And>p. refs us p = int (count_list ys p) - int (count_list xs p)"
  shows "never_over_released xs (us @ vs)"
proof -
  have "0 \<le> int (count_list xs p) + (refs (take k us) p + refs (take (k - length us) vs) p)" for k p
  proof (cases "k \<le> length us")
    case False
    have "0 \<le> int (count_list ys p) + refs (take (k - length us) vs) p" using assms(2) by (simp only: never_over_released_def)
    then show ?thesis using assms(3) [of p] False by simp
  qed (use assms(1) in \<open>simp add: never_over_released_def\<close>)
  then show ?thesis by (simp add: never_over_released_def)
qed

lemma count_split: "A + B \<le> length xs \<Longrightarrow>
  count_list xs p = count_list (take A xs) p + count_list (take B (drop A xs)) p + count_list (drop (A + B) xs) p"
  by (metis (no_types, lifting) append_take_drop_id count_list_append drop_drop add.commute add.assoc)

lemma count_take_drop: "count_list xs p = count_list (take i xs) p + count_list (drop i xs) p"
  by (metis append_take_drop_id count_list_append)

lemma count_drop_nth: "i < length xs \<Longrightarrow> count_list (drop i xs) p = (if xs ! i = p then 1 else 0) + count_list (drop (Suc i) xs) p"
  by (simp add: Cons_nth_drop_Suc [symmetric])

lemma count_update:
  "i < length xs \<Longrightarrow> int (count_list (xs[i := v]) p) = int (count_list xs p) - (if xs ! i = p then 1 else 0) + (if v = p then 1 else 0)"
  using count_take_drop [of xs p i] count_drop_nth [of i xs p] by (simp add: upd_conv_take_nth_drop)

lemma count_nth_le: "i < length xs \<Longrightarrow> count_list [xs ! i] p \<le> count_list xs p"
  using count_take_drop [of xs p i] count_drop_nth [of i xs p] by simp

lemma count_exchange:
  assumes "i < length xs" "j < length xs"
  shows "count_list (xs[i := xs ! j, j := xs ! i]) p = count_list xs p"
proof -
  have "j < length (xs[i := xs ! j])" using assms(2) by simp
  then have "int (count_list (xs[i := xs ! j, j := xs ! i]) p) = int (count_list xs p)"
    using count_update [OF assms(1), of "xs ! j" p] count_update [of j "xs[i := xs ! j]" "xs ! i" p] assms
    by (cases "i = j") simp_all
  then show ?thesis by simp
qed


end
