(* ===== verification/CF_Sequence.thy ===== *)
theory CF_Sequence
  imports CF_Memory
begin

text \<open>
  The interface of a container whose editing operations all go through one function that replaces a
  range of the contents, as those of an array go through \<open>CFArrayReplaceValues\<close>.
\<close>

section \<open>Sequences with a replace operation\<close>

text \<open>
  The contract of an object that holds a sequence and can replace a range of it.  \<open>hdr\<close> is the part
  of the object the contents do not change, \<open>keep\<close> what is stored for a value, and \<open>came\<close> and \<open>went\<close>
  are the callbacks made for the values that come and go.  Appending, inserting and removing are
  derived from it.
\<close>

locale replaceable_sequence =
  fixes rep :: "'s \<Rightarrow> 'a list \<Rightarrow> bool"
    and replace :: "'s \<Rightarrow> nat \<Rightarrow> nat \<Rightarrow> 'a list \<Rightarrow> ('s \<times> 'c list) option"
    and hdr :: "'s \<Rightarrow> 'h"
    and keep :: "'h \<Rightarrow> 'a \<Rightarrow> 'a"
    and came :: "'h \<Rightarrow> 'a list \<Rightarrow> 'c list"
    and went :: "'h \<Rightarrow> 'a list \<Rightarrow> 'c list"
    and limit :: nat
  assumes replace_rep: "rep s xs \<Longrightarrow> A + B \<le> length xs \<Longrightarrow> length xs - B + length vs \<le> limit \<Longrightarrow>
      \<exists>s'. replace s A B vs = Some (s', came (hdr s) vs @ went (hdr s) (take B (drop A xs))) \<and>
        rep s' (take A xs @ map (keep (hdr s)) vs @ drop (A + B) xs) \<and> hdr s' = hdr s"
    and nothing [simp]: "came h [] = []" "went h [] = []"
    and came_append: "came h (us @ vs) = came h us @ came h vs"
begin

text \<open>A sequence of one-value appends.\<close>

fun append_each :: "'s \<Rightarrow> nat \<Rightarrow> 'a list \<Rightarrow> ('s \<times> 'c list) option" where
  "append_each s n [] = Some (s, [])"
| "append_each s n (v # vs) = do {
     (s, calls) \<leftarrow> replace s n 0 [v];
     (s, rest) \<leftarrow> append_each s (Suc n) vs;
     Some (s, calls @ rest)
   }"

lemma insert_rep:
  assumes "rep s xs" "i \<le> length xs" "length xs < limit"
  shows "\<exists>s'. replace s i 0 [v] = Some (s', came (hdr s) [v]) \<and> rep s' (take i xs @ keep (hdr s) v # drop i xs) \<and>
    hdr s' = hdr s"
  using replace_rep [OF assms(1), of i 0 "[v]"] assms(2,3) by simp

lemma append_rep:
  assumes "rep s xs" "length xs < limit"
  shows "\<exists>s'. replace s (length xs) 0 [v] = Some (s', came (hdr s) [v]) \<and> rep s' (xs @ [keep (hdr s) v]) \<and>
    hdr s' = hdr s"
  using insert_rep [OF assms(1) order_refl assms(2)] by simp

lemma remove_rep:
  assumes "rep s xs" "i < length xs" "length xs \<le> limit"
  shows "\<exists>s'. replace s i 1 [] = Some (s', went (hdr s) [xs ! i]) \<and> rep s' (take i xs @ drop (Suc i) xs) \<and>
    hdr s' = hdr s"
proof -
  have "take 1 (drop i xs) = [xs ! i]" using assms(2) by (simp add: take_Suc_conv_app_nth)
  then show ?thesis using replace_rep [OF assms(1), of i 1 "[]"] assms(2,3) by simp
qed

lemma append_each_rep:
  assumes "rep s xs" "length xs + length vs \<le> limit"
  shows "\<exists>s'. append_each s (length xs) vs = Some (s', came (hdr s) vs) \<and> rep s' (xs @ map (keep (hdr s)) vs) \<and>
    hdr s' = hdr s"
  using assms
proof (induction vs arbitrary: s xs)
  case (Cons v vs)
  obtain s1 where s1: "replace s (length xs) 0 [v] = Some (s1, came (hdr s) [v])" "rep s1 (xs @ [keep (hdr s) v])"
      "hdr s1 = hdr s"
    using append_rep [OF Cons.prems(1), of v] Cons.prems(2) by auto
  obtain s2 where "append_each s1 (Suc (length xs)) vs = Some (s2, came (hdr s) vs)" "rep s2 (xs @ map (keep (hdr s)) (v # vs))"
      "hdr s2 = hdr s"
    using Cons.IH [OF s1(2)] Cons.prems(2) s1 by auto
  then show ?case using s1(1) came_append [of "hdr s" "[v]" vs] by simp
qed simp

end


end
