(* ===== verification/CF_Array.thy ===== *)
theory CF_Array
  imports CF_SortConcurrent CF_Sequence "HOL-Library.Signed_Division"
begin

text \<open>
  \<open>CFArray.c\<close>: arrays of pointers, immutable ones with their buckets in the object and mutable
  ones with a deque of buckets in a separate block.

  A range is a pair of arguments, its location and its length.  The library is built without
  debug assertions, so the range and index checks are not there; an access outside the block is
  undefined (\<open>None\<close>).  Objects are not collected by a garbage collector and not bridged to
  Objective-C.  Allocation failure dereferences a null pointer in most functions and is then
  undefined too.
\<close>

section \<open>Objects\<close>

record CFArrayCallBacks =
  acb_retain :: fnptr
  acb_release :: fnptr
  acb_copyDescription :: fnptr
  acb_equal :: fnptr

record CFArrayDeque =
  dq_leftIdx :: nat
  dq_capacity :: nat
  dq_buckets :: "ptr cells"

text \<open>\<open>ar_mutable\<close> is the type bit \<open>__kCFArrayDeque\<close>; \<open>ar_buckets\<close> are the buckets of an immutable array.\<close>

record CFArray =
  ar_mutable :: bool
  ar_callBacks :: CFArrayCallBacks
  ar_count :: nat
  ar_mutations :: nat
  ar_buckets :: "ptr cells"
  ar_store :: "CFArrayDeque option"

definition kCFNullArrayCallBacks :: CFArrayCallBacks where
  "kCFNullArrayCallBacks = \<lparr> acb_retain = NULL, acb_release = NULL, acb_copyDescription = NULL, acb_equal = NULL \<rparr>"

text \<open>The functions of the CF type callbacks; their addresses are chosen here, only their identity matters.\<close>

definition kCFTypeArrayCallBacks :: CFArrayCallBacks where
  "kCFTypeArrayCallBacks = \<lparr> acb_retain = 16, acb_release = 32, acb_copyDescription = 48, acb_equal = 64 \<rparr>"

definition CFArrayDequeRoundUpCapacity :: "nat \<Rightarrow> nat option" where
  "CFArrayDequeRoundUpCapacity capacity =
     (if capacity < 4 then Some 4 else map_option (\<lambda>c. min c (2 ^ 63 - 1)) (int_shl1 (flsl capacity)))"

definition CFArrayCallBacksMatchNull :: "CFArrayCallBacks option \<Rightarrow> bool" where
  "CFArrayCallBacksMatchNull c = (case c of None \<Rightarrow> True
     | Some c \<Rightarrow> acb_retain c = acb_retain kCFNullArrayCallBacks \<and> acb_release c = acb_release kCFNullArrayCallBacks \<and>
         acb_copyDescription c = acb_copyDescription kCFNullArrayCallBacks \<and> acb_equal c = acb_equal kCFNullArrayCallBacks)"

definition CFArrayCallBacksMatchCFType :: "CFArrayCallBacks \<Rightarrow> bool" where
  "CFArrayCallBacksMatchCFType c \<longleftrightarrow> acb_retain c = acb_retain kCFTypeArrayCallBacks \<and>
     acb_release c = acb_release kCFTypeArrayCallBacks \<and>
     acb_copyDescription c = acb_copyDescription kCFTypeArrayCallBacks \<and> acb_equal c = acb_equal kCFTypeArrayCallBacks"

section \<open>Buckets\<close>

text \<open>\<open>__CFArrayGetBucketAtIndex\<close> and a read or write through it.\<close>

definition bucket_ld :: "CFArray \<Rightarrow> nat \<Rightarrow> ptr option" where
  "bucket_ld array idx =
     (if ar_mutable array then do {
        deque \<leftarrow> ar_store array;
        ld (dq_buckets deque) (dq_leftIdx deque + idx)
      } else ld (ar_buckets array) idx)"

definition bucket_st :: "CFArray \<Rightarrow> nat \<Rightarrow> ptr \<Rightarrow> CFArray option" where
  "bucket_st array idx item =
     (if ar_mutable array then do {
        deque \<leftarrow> ar_store array;
        m \<leftarrow> st (dq_buckets deque) (dq_leftIdx deque + idx) item;
        Some (array\<lparr>ar_store := Some (deque\<lparr>dq_buckets := m\<rparr>)\<rparr>)
      } else do {
        m \<leftarrow> st (ar_buckets array) idx item;
        Some (array\<lparr>ar_buckets := m\<rparr>)
      })"

text \<open>The release loop over \<open>n\<close> buckets from \<open>i\<close> on; it clears the buckets.\<close>

fun array_release_loop :: "bool \<Rightarrow> CFArray \<Rightarrow> nat \<Rightarrow> nat \<Rightarrow> (CFArray \<times> cf_call list) option" where
  "array_release_loop callRelease array i 0 = Some (array, [])"
| "array_release_loop callRelease array i (Suc n) = do {
     calls \<leftarrow> (if callRelease then do { item \<leftarrow> bucket_ld array i; Some [Release item] } else Some []);
     array \<leftarrow> bucket_st array i NULL;
     (array, rest) \<leftarrow> array_release_loop callRelease array (Suc i) n;
     Some (array, calls @ rest)
   }"

definition CFArrayReleaseValues :: "CFArray \<Rightarrow> nat \<Rightarrow> nat \<Rightarrow> bool \<Rightarrow> (CFArray \<times> cf_call list) option" where
  "CFArrayReleaseValues array location len releaseStorageIfPossible =
     (let release = acb_release (ar_callBacks array)
      in if \<not> ar_mutable array then
           (if release \<noteq> NULL \<and> 0 < len then array_release_loop True array location len else Some (array, []))
         else do {
           (array', calls) \<leftarrow>
             (if 0 < len \<and> ar_store array \<noteq> None then array_release_loop (release \<noteq> NULL) array location len
              else Some (array, []));
           if releaseStorageIfPossible \<and> location = 0 \<and> ar_count array' = len
           then Some (array'\<lparr>ar_count := 0, ar_store := None\<rparr>, calls)
           else Some (array', calls)
         })"

fun array_equal_loop :: "cf_env \<Rightarrow> fnptr \<Rightarrow> CFArray \<Rightarrow> CFArray \<Rightarrow> nat \<Rightarrow> nat \<Rightarrow> bool option" where
  "array_equal_loop env equal array1 array2 idx 0 = Some True"
| "array_equal_loop env equal array1 array2 idx (Suc n) = do {
     val1 \<leftarrow> bucket_ld array1 idx;
     val2 \<leftarrow> bucket_ld array2 idx;
     if val1 \<noteq> val2 \<and> (equal = NULL \<or> \<not> env_equal env equal val1 val2) then Some False
     else array_equal_loop env equal array1 array2 (Suc idx) n
   }"

text \<open>\<open>same\<close> is the test whether the two references are equal.\<close>

definition CFArrayEqual :: "cf_env \<Rightarrow> bool \<Rightarrow> CFArray \<Rightarrow> CFArray \<Rightarrow> bool option" where
  "CFArrayEqual env same array1 array2 =
     (let cnt = ar_count array1; equal = acb_equal (ar_callBacks array1)
      in if same then Some True
         else if cnt \<noteq> ar_count array2 then Some False
         else if equal \<noteq> acb_equal (ar_callBacks array2) then Some False
         else array_equal_loop env equal array1 array2 0 cnt)"

definition CFArrayHash :: "CFArray \<Rightarrow> nat" where
  "CFArrayHash array = ar_count array"

definition CFArrayDeallocate :: "CFArray \<Rightarrow> (CFArray \<times> cf_call list) option" where
  "CFArrayDeallocate array = CFArrayReleaseValues array 0 (ar_count array) True"

section \<open>Creation\<close>

text \<open>
  \<open>__CFArrayInit\<close>.  The object's fields take 32 bytes behind the runtime header, custom callbacks
  40 more; \<open>size\<close> is a 32-bit variable, so the buckets there is room for can be fewer than asked
  for.  \<open>None\<close> is \<open>NULL\<close>.
\<close>

definition CFArrayInit :: "cf_env \<Rightarrow> bool \<Rightarrow> nat \<Rightarrow> CFArrayCallBacks option \<Rightarrow> CFArray option" where
  "CFArrayInit env mutable capacity callBacks =
     (let cb = (if CFArrayCallBacksMatchNull callBacks then kCFNullArrayCallBacks else the callBacks);
          fields = 32 + (if CFArrayCallBacksMatchNull callBacks \<or> CFArrayCallBacksMatchCFType cb then 0 else 40);
          size = (fields + (if mutable then 0 else capacity * 8)) mod 2 ^ 32
      in if CFRuntimeCreateInstance env size
         then Some \<lparr> ar_mutable = mutable, ar_callBacks = cb, ar_count = 0, ar_mutations = (if mutable then 1 else 0),
                     ar_buckets = fresh_cells ((size - fields) div 8), ar_store = None \<rparr>
         else None)"

text \<open>Retaining a value with a callback, when there is one.\<close>

definition array_retain :: "cf_env \<Rightarrow> CFArrayCallBacks \<Rightarrow> ptr \<Rightarrow> ptr \<times> cf_call list" where
  "array_retain env cb value =
     (if acb_retain cb \<noteq> NULL then (env_retain env (acb_retain cb) value, [Retain value]) else (value, []))"

fun array_fill_loop :: "cf_env \<Rightarrow> CFArray \<Rightarrow> nat \<Rightarrow> ptr list \<Rightarrow> (CFArray \<times> cf_call list) option" where
  "array_fill_loop env array idx [] = Some (array, [])"
| "array_fill_loop env array idx (value # values) = do {
     let (item, calls) = array_retain env (ar_callBacks array) value;
     array \<leftarrow> bucket_st array idx item;
     (array, rest) \<leftarrow> array_fill_loop env array (Suc idx) values;
     Some (array, calls @ rest)
   }"

definition CFArrayCreateTransfer :: "cf_env \<Rightarrow> ptr list \<Rightarrow> CFArray option option" where
  "CFArrayCreateTransfer env values =
     (let size = (32 + length values * 8) mod 2 ^ 32
      in if CFRuntimeCreateInstance env size then do {
           m \<leftarrow> memmove_cells (fresh_cells ((size - 32) div 8)) 0 (map Some values) 0 (length values);
           Some (Some \<lparr> ar_mutable = False, ar_callBacks = kCFTypeArrayCallBacks, ar_count = length values, ar_mutations = 0,
                        ar_buckets = m, ar_store = None \<rparr>)
         } else Some None)"

definition CFArrayCreate :: "cf_env \<Rightarrow> ptr list \<Rightarrow> CFArrayCallBacks option \<Rightarrow> (CFArray \<times> cf_call list) option" where
  "CFArrayCreate env values callBacks = do {
     result \<leftarrow> CFArrayInit env False (length values) callBacks;
     (result, calls) \<leftarrow> array_fill_loop env result 0 values;
     Some (result\<lparr>ar_count := length values\<rparr>, calls)
   }"

definition CFArrayCreateMutable :: "cf_env \<Rightarrow> nat \<Rightarrow> CFArrayCallBacks option \<Rightarrow> CFArray option" where
  "CFArrayCreateMutable env capacity callBacks = CFArrayInit env True capacity callBacks"

definition CFArrayGetCount :: "CFArray \<Rightarrow> nat" where
  "CFArrayGetCount array = ar_count array"

definition CFArrayGetValueAtIndex :: "CFArray \<Rightarrow> nat \<Rightarrow> ptr option" where
  "CFArrayGetValueAtIndex array idx = bucket_ld array idx"

fun array_copy_loop :: "cf_env \<Rightarrow> CFArray \<Rightarrow> CFArray \<Rightarrow> nat \<Rightarrow> nat \<Rightarrow> (CFArray \<times> cf_call list) option" where
  "array_copy_loop env array result idx 0 = Some (result, [])"
| "array_copy_loop env array result idx (Suc n) = do {
     value \<leftarrow> CFArrayGetValueAtIndex array idx;
     let (item, calls) = array_retain env (ar_callBacks result) value;
     result \<leftarrow> bucket_st result idx item;
     (result, rest) \<leftarrow> array_copy_loop env array result (Suc idx) n;
     Some (result, calls @ rest)
   }"

definition CFArrayCreateCopy :: "cf_env \<Rightarrow> CFArray \<Rightarrow> (CFArray \<times> cf_call list) option" where
  "CFArrayCreateCopy env array = do {
     let numValues = CFArrayGetCount array;
     result \<leftarrow> CFArrayInit env False numValues (Some (ar_callBacks array));
     (result, calls) \<leftarrow> array_copy_loop env array result 0 numValues;
     Some (result\<lparr>ar_count := numValues\<rparr>, calls)
   }"

section \<open>Looking at the values\<close>

definition array_item_match :: "cf_env \<Rightarrow> CFArray \<Rightarrow> ptr \<Rightarrow> ptr \<Rightarrow> bool" where
  "array_item_match env array value item \<longleftrightarrow>
     value = item \<or> (acb_equal (ar_callBacks array) \<noteq> NULL \<and> env_equal env (acb_equal (ar_callBacks array)) value item)"

fun array_count_loop :: "cf_env \<Rightarrow> CFArray \<Rightarrow> ptr \<Rightarrow> nat \<Rightarrow> nat \<Rightarrow> nat option" where
  "array_count_loop env array value i 0 = Some 0"
| "array_count_loop env array value i (Suc n) = do {
     item \<leftarrow> CFArrayGetValueAtIndex array i;
     rest \<leftarrow> array_count_loop env array value (Suc i) n;
     Some (if array_item_match env array value item then Suc rest else rest)
   }"

definition CFArrayGetCountOfValue :: "cf_env \<Rightarrow> CFArray \<Rightarrow> nat \<Rightarrow> nat \<Rightarrow> ptr \<Rightarrow> nat option" where
  "CFArrayGetCountOfValue env array location len value = array_count_loop env array value location len"

fun array_first_loop :: "cf_env \<Rightarrow> CFArray \<Rightarrow> ptr \<Rightarrow> nat \<Rightarrow> nat \<Rightarrow> int option" where
  "array_first_loop env array value i 0 = Some kCFNotFound"
| "array_first_loop env array value i (Suc n) = do {
     item \<leftarrow> CFArrayGetValueAtIndex array i;
     if array_item_match env array value item then Some (int i) else array_first_loop env array value (Suc i) n
   }"

definition CFArrayContainsValue :: "cf_env \<Rightarrow> CFArray \<Rightarrow> nat \<Rightarrow> nat \<Rightarrow> ptr \<Rightarrow> bool option" where
  "CFArrayContainsValue env array location len value =
     map_option (\<lambda>i. i \<noteq> kCFNotFound) (array_first_loop env array value location len)"

definition CFArrayGetFirstIndexOfValue :: "cf_env \<Rightarrow> CFArray \<Rightarrow> nat \<Rightarrow> nat \<Rightarrow> ptr \<Rightarrow> int option" where
  "CFArrayGetFirstIndexOfValue env array location len value = array_first_loop env array value location len"

fun array_last_loop :: "cf_env \<Rightarrow> CFArray \<Rightarrow> ptr \<Rightarrow> nat \<Rightarrow> nat \<Rightarrow> int option" where
  "array_last_loop env array value location 0 = Some kCFNotFound"
| "array_last_loop env array value location (Suc idx) = do {
     item \<leftarrow> CFArrayGetValueAtIndex array (location + idx);
     if array_item_match env array value item then Some (int (idx + location)) else array_last_loop env array value location idx
   }"

definition CFArrayGetLastIndexOfValue :: "cf_env \<Rightarrow> CFArray \<Rightarrow> nat \<Rightarrow> nat \<Rightarrow> ptr \<Rightarrow> int option" where
  "CFArrayGetLastIndexOfValue env array location len value = array_last_loop env array value location len"

text \<open>\<open>_CFArrayCheckAndGetValueAtIndex\<close>: the pointer \<open>-1\<close> for an index out of bounds.\<close>

definition CFArrayCheckAndGetValueAtIndex :: "CFArray \<Rightarrow> int \<Rightarrow> ptr option" where
  "CFArrayCheckAndGetValueAtIndex array idx =
     (if 0 \<le> idx \<and> idx < int (ar_count array) then bucket_ld array (nat idx) else Some (2 ^ 64 - 1))"

text \<open>The block of the buckets and the offset of the left-most value, \<open>__CFArrayGetBucketsPtr\<close>.\<close>

definition CFArrayGetBucketsPtr :: "CFArray \<Rightarrow> (ptr cells \<times> nat) option" where
  "CFArrayGetBucketsPtr array =
     (if ar_mutable array then do { deque \<leftarrow> ar_store array; Some (dq_buckets deque, dq_leftIdx deque) }
      else Some (ar_buckets array, 0))"

definition CFArrayGetValues :: "CFArray \<Rightarrow> nat \<Rightarrow> nat \<Rightarrow> ptr cells \<Rightarrow> ptr cells option" where
  "CFArrayGetValues array location len values =
     (if 0 < len then do {
        (m, left) \<leftarrow> CFArrayGetBucketsPtr array;
        memmove_cells values 0 m (left + location) len
      } else Some values)"

text \<open>The values passed to the applier, in order.\<close>

fun array_apply_loop :: "CFArray \<Rightarrow> nat \<Rightarrow> nat \<Rightarrow> ptr list option" where
  "array_apply_loop array i 0 = Some []"
| "array_apply_loop array i (Suc n) = do {
     item \<leftarrow> CFArrayGetValueAtIndex array i;
     rest \<leftarrow> array_apply_loop array (Suc i) n;
     Some (item # rest)
   }"

definition CFArrayApplyFunction :: "CFArray \<Rightarrow> nat \<Rightarrow> nat \<Rightarrow> ptr list option" where
  "CFArrayApplyFunction array location len = array_apply_loop array location len"

text \<open>
  \<open>_CFArrayFastEnumeration\<close>: the number of items at the items pointer, a block and an offset, and the
  new state.  The mutations pointer is to a constant for an immutable array and to the field
  \<open>_mutations\<close> for a mutable one.
\<close>

datatype mutations_ptr = ConstMu | ArrayMutations

record FastEnumerationState =
  fe_state :: nat
  fe_itemsPtr :: "(ptr cells \<times> nat) option"
  fe_mutationsPtr :: "mutations_ptr option"

definition CFArrayFastEnumeration :: "CFArray \<Rightarrow> FastEnumerationState \<Rightarrow> (nat \<times> FastEnumerationState) option" where
  "CFArrayFastEnumeration array state =
     (if ar_count array = 0 then Some (0, state)
      else if fe_state state = 0 then do {
        items \<leftarrow> CFArrayGetBucketsPtr array;
        Some (ar_count array, \<lparr> fe_state = 1, fe_itemsPtr = Some items,
                                fe_mutationsPtr = Some (if ar_mutable array then ArrayMutations else ConstMu) \<rparr>)
      } else Some (0, state))"

section \<open>Changing the values\<close>

text \<open>
  \<open>__CFArrayRepositionDequeRegions\<close>: make room for \<open>newCount\<close> values in place of a range.  \<open>L\<close> and
  \<open>R\<close> are the free buckets on the left and right, \<open>A\<close>, \<open>B\<close> and \<open>C\<close> the values before, in and
  after the range.  The comparison of the capacity is with the future count cut to 32 bits.
\<close>

definition memmove_opt :: "ptr cells \<Rightarrow> int \<Rightarrow> ptr cells \<Rightarrow> nat \<Rightarrow> int \<Rightarrow> ptr cells option" where
  "memmove_opt dst di src si n =
     (if 0 < n then (if di < 0 then None else memmove_cells dst (nat di) src si (nat n)) else Some dst)"

definition memset_null :: "ptr cells \<Rightarrow> int \<Rightarrow> int \<Rightarrow> ptr cells option" where
  "memset_null dst di n =
     (if 0 < n then (if di < 0 then None else memset_cells dst (nat di) NULL (nat n)) else Some dst)"

definition reposition_grow :: "cf_env \<Rightarrow> CFArrayDeque \<Rightarrow> nat \<Rightarrow> nat \<Rightarrow> int \<Rightarrow> nat \<Rightarrow> nat \<Rightarrow> nat \<Rightarrow> CFArrayDeque option" where
  "reposition_grow env deque A B C newCount futureCnt wiggle = do {
     capacity \<leftarrow> CFArrayDequeRoundUpCapacity (futureCnt + wiggle);
     if \<not> env_alloc env (16 + capacity * 8) then None
     else do {
       let newBuckets = fresh_cells capacity;
       let oldL = dq_leftIdx deque;
       let newL = (int capacity - int futureCnt) sdiv 2;
       let oldC0 = oldL + A + B;
       let newC0 = newL + int A + int newCount;
       newBuckets \<leftarrow> memmove_opt newBuckets newL (dq_buckets deque) oldL (int A);
       newBuckets \<leftarrow> memmove_opt newBuckets newC0 (dq_buckets deque) oldC0 C;
       if newL < 0 then None
       else Some \<lparr> dq_leftIdx = nat newL, dq_capacity = capacity, dq_buckets = newBuckets \<rparr>
     }
   }"

definition reposition_move_C :: "CFArrayDeque \<Rightarrow> nat \<Rightarrow> nat \<Rightarrow> int \<Rightarrow> nat \<Rightarrow> CFArrayDeque option" where
  "reposition_move_C deque A B C newCount = do {
     let oldC0 = dq_leftIdx deque + A + B;
     let newC0 = dq_leftIdx deque + A + newCount;
     m \<leftarrow> memmove_opt (dq_buckets deque) (int newC0) (dq_buckets deque) oldC0 C;
     m \<leftarrow> memset_null m (int newC0 + C) (int oldC0 - int newC0);
     Some (deque\<lparr>dq_buckets := m\<rparr>)
   }"

definition reposition_move_A :: "CFArrayDeque \<Rightarrow> nat \<Rightarrow> int \<Rightarrow> CFArrayDeque option" where
  "reposition_move_A deque A numNewElems = do {
     let oldL = dq_leftIdx deque;
     let newL = int oldL - numNewElems;
     m \<leftarrow> memmove_opt (dq_buckets deque) newL (dq_buckets deque) oldL (int A);
     m \<leftarrow> memset_null m (int oldL) (newL - int oldL);
     if newL < 0 then None else Some (deque\<lparr>dq_leftIdx := nat newL, dq_buckets := m\<rparr>)
   }"

definition reposition_center :: "CFArrayDeque \<Rightarrow> nat \<Rightarrow> nat \<Rightarrow> int \<Rightarrow> int \<Rightarrow> nat \<Rightarrow> CFArrayDeque option" where
  "reposition_center deque A B C R newCount = do {
     let oldL = dq_leftIdx deque;
     let half = (int oldL + R - (int newCount - int B)) sdiv 2;
     let newL = half - half sdiv 2;
     let oldC0 = oldL + A + B;
     let newC0 = newL + int A + int newCount;
     m \<leftarrow> (if newL < int oldL then do {
             m \<leftarrow> memmove_opt (dq_buckets deque) newL (dq_buckets deque) oldL (int A);
             m \<leftarrow> memmove_opt m newC0 m oldC0 C;
             memset_null m (newC0 + C) (int oldC0 - newC0)
           } else do {
             m \<leftarrow> memmove_opt (dq_buckets deque) newC0 (dq_buckets deque) oldC0 C;
             m \<leftarrow> memmove_opt m newL m oldL (int A);
             memset_null m (int oldL) (newL - int oldL)
           });
     if newL < 0 then None else Some (deque\<lparr>dq_leftIdx := nat newL, dq_buckets := m\<rparr>)
   }"

definition CFArrayRepositionDequeRegions :: "cf_env \<Rightarrow> CFArray \<Rightarrow> nat \<Rightarrow> nat \<Rightarrow> nat \<Rightarrow> CFArray option" where
  "CFArrayRepositionDequeRegions env array location len newCount = do {
     deque \<leftarrow> ar_store array;
     let cnt = ar_count array;
     let futureCnt = cnt - len + newCount;
     let L = dq_leftIdx deque;
     let A = location;
     let B = len;
     let C = int cnt - int B - int A;
     let R = int (dq_capacity deque) - int cnt - int L;
     let numNewElems = int newCount - int B;
     let wiggle = max 4 (dq_capacity deque div 2 ^ 17);
     deque \<leftarrow>
       (if dq_capacity deque < futureCnt mod 2 ^ 32 \<or> (cnt < futureCnt \<and> int L + R < int wiggle) then
          reposition_grow env deque A B C newCount futureCnt wiggle
        else if (numNewElems < 0 \<and> C < int A) \<or> (numNewElems \<le> R \<and> C < int A) then
          reposition_move_C deque A B C newCount
        else if numNewElems < 0 \<or> (numNewElems \<le> int L \<and> int A \<le> C) then
          reposition_move_A deque A numNewElems
        else reposition_center deque A B C R newCount);
     Some (array\<lparr>ar_store := Some deque\<rparr>)
   }"

text \<open>\<open>_CFArraySetCapacity\<close>; running out of memory halts.\<close>

definition CFArraySetCapacity :: "cf_env \<Rightarrow> CFArray \<Rightarrow> nat \<Rightarrow> CFArray option" where
  "CFArraySetCapacity env array cap =
     (if ar_mutable array then do {
        capacity \<leftarrow> CFArrayDequeRoundUpCapacity cap;
        if \<not> env_alloc env (16 + capacity * 8) then None
        else case ar_store array of
          None \<Rightarrow> Some (array\<lparr>ar_store := Some \<lparr> dq_leftIdx = capacity div 2, dq_capacity = capacity, dq_buckets = fresh_cells capacity \<rparr>\<rparr>)
        | Some olddeque \<Rightarrow> do {
            m \<leftarrow> memmove_cells (fresh_cells capacity) 0 (dq_buckets olddeque) 0 (dq_capacity olddeque);
            Some (array\<lparr>ar_store := Some \<lparr> dq_leftIdx = dq_leftIdx olddeque, dq_capacity = capacity, dq_buckets = m \<rparr>\<rparr>)
          }
      } else Some array)"

text \<open>
  \<open>_CFArrayReplaceValues\<close>.  The new values are retained in a temporary buffer, which is allocated
  when there are more than 256.  A range that is not in the array is undefined, as documented.
\<close>

fun array_retain_all :: "cf_env \<Rightarrow> CFArrayCallBacks \<Rightarrow> ptr list \<Rightarrow> ptr list \<times> cf_call list" where
  "array_retain_all env cb [] = ([], [])"
| "array_retain_all env cb (value # values) =
     (let (item, calls) = array_retain env cb value; (items, rest) = array_retain_all env cb values
      in (item # items, calls @ rest))"

definition CFArrayReplaceValues :: "cf_env \<Rightarrow> CFArray \<Rightarrow> nat \<Rightarrow> nat \<Rightarrow> ptr list \<Rightarrow> (CFArray \<times> cf_call list) option" where
  "CFArrayReplaceValues env array location len newValues = do {
     let newCount = length newValues;
     let futureCnt = ar_count array - len + newCount;
     let cb = ar_callBacks array;
     (newv, retains) \<leftarrow>
       (if ar_count array < location + len then None
        else if acb_retain cb \<noteq> NULL \<and> 256 < newCount \<and> \<not> env_alloc env (newCount * 8) then None
        else Some (array_retain_all env cb newValues));
     let array = array\<lparr>ar_mutations := ar_mutations array + 1\<rparr>;
     (array, releases) \<leftarrow> (if 0 < len then CFArrayReleaseValues array location len False else Some (array, []));
     array \<leftarrow> (case ar_store array of
         None \<Rightarrow> do {
           capacity \<leftarrow> CFArrayDequeRoundUpCapacity futureCnt;
           if \<not> env_alloc env (16 + capacity * 8) then None
           else Some (array\<lparr>ar_store := Some \<lparr> dq_leftIdx = (capacity - newCount) div 2, dq_capacity = capacity,
                                              dq_buckets = fresh_cells capacity \<rparr>\<rparr>)
         }
       | Some _ \<Rightarrow> if len \<noteq> newCount then CFArrayRepositionDequeRegions env array location len newCount else Some array);
     array \<leftarrow>
       (if 0 < newCount then do {
          deque \<leftarrow> ar_store array;
          m \<leftarrow> memmove_cells (dq_buckets deque) (dq_leftIdx deque + location) (map Some newv) 0 newCount;
          Some (array\<lparr>ar_store := Some (deque\<lparr>dq_buckets := m\<rparr>)\<rparr>)
        } else Some array);
     Some (array\<lparr>ar_count := futureCnt\<rparr>, retains @ releases)
   }"

definition CFArrayAppendValue :: "cf_env \<Rightarrow> CFArray \<Rightarrow> ptr \<Rightarrow> (CFArray \<times> cf_call list) option" where
  "CFArrayAppendValue env array value = CFArrayReplaceValues env array (ar_count array) 0 [value]"

definition CFArraySetValueAtIndex :: "cf_env \<Rightarrow> CFArray \<Rightarrow> nat \<Rightarrow> ptr \<Rightarrow> (CFArray \<times> cf_call list) option" where
  "CFArraySetValueAtIndex env array idx value =
     (if idx = ar_count array then CFArrayReplaceValues env array idx 0 [value]
      else do {
        let cb = ar_callBacks array;
        let (item, retains) = array_retain env cb value;
        old_value \<leftarrow> bucket_ld array idx;
        array \<leftarrow> bucket_st array idx item;
        Some (array\<lparr>ar_mutations := ar_mutations array + 1\<rparr>,
              retains @ (if acb_release cb \<noteq> NULL then [Release old_value] else []))
      })"

definition CFArrayInsertValueAtIndex :: "cf_env \<Rightarrow> CFArray \<Rightarrow> nat \<Rightarrow> ptr \<Rightarrow> (CFArray \<times> cf_call list) option" where
  "CFArrayInsertValueAtIndex env array idx value = CFArrayReplaceValues env array idx 0 [value]"

definition CFArrayExchangeValuesAtIndices :: "CFArray \<Rightarrow> nat \<Rightarrow> nat \<Rightarrow> CFArray option" where
  "CFArrayExchangeValuesAtIndices array idx1 idx2 = do {
     tmp \<leftarrow> bucket_ld array idx1;
     item2 \<leftarrow> bucket_ld array idx2;
     array \<leftarrow> bucket_st array idx1 item2;
     array \<leftarrow> bucket_st array idx2 tmp;
     Some (array\<lparr>ar_mutations := ar_mutations array + 1\<rparr>)
   }"

definition CFArrayRemoveValueAtIndex :: "cf_env \<Rightarrow> CFArray \<Rightarrow> nat \<Rightarrow> (CFArray \<times> cf_call list) option" where
  "CFArrayRemoveValueAtIndex env array idx = CFArrayReplaceValues env array idx 1 []"

definition CFArrayRemoveAllValues :: "CFArray \<Rightarrow> (CFArray \<times> cf_call list) option" where
  "CFArrayRemoveAllValues array = do {
     (array, calls) \<leftarrow> CFArrayReleaseValues array 0 (ar_count array) True;
     Some (array\<lparr>ar_count := 0, ar_mutations := ar_mutations array + 1\<rparr>, calls)
   }"

fun array_append_loop :: "cf_env \<Rightarrow> CFArray \<Rightarrow> CFArray \<Rightarrow> nat \<Rightarrow> nat \<Rightarrow> (CFArray \<times> cf_call list) option" where
  "array_append_loop env array other idx 0 = Some (array, [])"
| "array_append_loop env array other idx (Suc n) = do {
     value \<leftarrow> CFArrayGetValueAtIndex other idx;
     (array, calls) \<leftarrow> CFArrayAppendValue env array value;
     (array, rest) \<leftarrow> array_append_loop env array other (Suc idx) n;
     Some (array, calls @ rest)
   }"

definition CFArrayAppendArray :: "cf_env \<Rightarrow> CFArray \<Rightarrow> CFArray \<Rightarrow> nat \<Rightarrow> nat \<Rightarrow> (CFArray \<times> cf_call list) option" where
  "CFArrayAppendArray env array otherArray location len = array_append_loop env array otherArray location len"

definition CFArrayCreateMutableCopy :: "cf_env \<Rightarrow> nat \<Rightarrow> CFArray \<Rightarrow> (CFArray \<times> cf_call list) option" where
  "CFArrayCreateMutableCopy env capacity array = do {
     let numValues = CFArrayGetCount array;
     result \<leftarrow> CFArrayInit env True capacity (Some (ar_callBacks array));
     result \<leftarrow> (if capacity = 0 then CFArraySetCapacity env result numValues else Some result);
     array_append_loop env result array 0 numValues
   }"

section \<open>Sorting and searching\<close>

text \<open>\<open>__CFZSort\<close>, a bubble sort: one pass over \<open>n\<close> neighbours from \<open>idx\<close> on, and the passes.\<close>

fun zsort_pass :: "(ptr \<Rightarrow> ptr \<Rightarrow> int) \<Rightarrow> CFArray \<Rightarrow> nat \<Rightarrow> nat \<Rightarrow> CFArray option" where
  "zsort_pass cmp array idx 0 = Some array"
| "zsort_pass cmp array idx (Suc n) = do {
     a \<leftarrow> CFArrayGetValueAtIndex array idx;
     b \<leftarrow> CFArrayGetValueAtIndex array (idx + 1);
     array \<leftarrow> (if cmp b a < 0 then CFArrayExchangeValuesAtIndices array idx (idx + 1) else Some array);
     zsort_pass cmp array (idx + 1) n
   }"

fun CFZSort :: "(ptr \<Rightarrow> ptr \<Rightarrow> int) \<Rightarrow> CFArray \<Rightarrow> nat \<Rightarrow> nat \<Rightarrow> CFArray option" where
  "CFZSort cmp array location cnt =
     (if 1 < cnt then do {
        array \<leftarrow> zsort_pass cmp array location (cnt - 1);
        CFZSort cmp array location (cnt - 1)
      } else Some array)"

declare CFZSort.simps [simp del]

text \<open>The values of initialised cells, for passing them on to a function.\<close>

definition cell_values :: "ptr cells \<Rightarrow> ptr list option" where
  "cell_values m = (if list_all (\<lambda>c. c \<noteq> None) m then Some (map the m) else None)"

text \<open>
  Sorting with \<open>CFQSortArray\<close> on a copy of the values, which is a local buffer for up to 256 values.
  An array with only one of the two callbacks \<open>retain\<close> and \<open>release\<close> is sorted in place; an
  immutable one is left as it is.
\<close>

definition CFArraySortValues :: "cf_env \<Rightarrow> (ptr \<Rightarrow> ptr \<Rightarrow> int) \<Rightarrow> CFArray \<Rightarrow> nat \<Rightarrow> nat \<Rightarrow> (CFArray \<times> cf_call list) option" where
  "CFArraySortValues env cmp array location len =
     (let cb = ar_callBacks array; immutable = (\<not> ar_mutable array)
      in if \<not> immutable \<and> (acb_retain cb \<noteq> NULL \<and> acb_release cb = NULL \<or> acb_retain cb = NULL \<and> acb_release cb \<noteq> NULL) then do {
           array \<leftarrow> CFZSort cmp array location len;
           Some (array, [])
         } else if len < 2 then Some (array, [])
         else if 256 < len \<and> \<not> env_alloc env (len * 8) then None
         else do {
           values \<leftarrow> CFArrayGetValues array location len (fresh_cells len);
           values \<leftarrow> CFQSortArray cmp values len 8;
           if immutable then Some (array, [])
           else do {
             newValues \<leftarrow> cell_values values;
             CFArrayReplaceValues env array location len newValues
           }
         })"

text \<open>\<open>_CFArraySortValues\<close>: the same for the whole of a mutable array, always on a copy.\<close>

definition CFArraySortAllValues :: "cf_env \<Rightarrow> (ptr \<Rightarrow> ptr \<Rightarrow> int) \<Rightarrow> CFArray \<Rightarrow> (CFArray \<times> cf_call list) option" where
  "CFArraySortAllValues env cmp array =
     (let len = CFArrayGetCount array
      in if len < 2 then Some (array, [])
         else if 256 < len \<and> \<not> env_alloc env (len * 8) then None
         else do {
           values \<leftarrow> CFArrayGetValues array 0 len (fresh_cells len);
           values \<leftarrow> CFQSortArray cmp values len 8;
           newValues \<leftarrow> cell_values values;
           CFArrayReplaceValues env array 0 len newValues
         })"

text \<open>The probing loop of the binary search; \<open>idx\<close> is \<open>-1\<close> or an index in the range.\<close>

fun array_bsearch_loop :: "(ptr \<Rightarrow> ptr \<Rightarrow> int) \<Rightarrow> CFArray \<Rightarrow> nat \<Rightarrow> ptr \<Rightarrow> int \<Rightarrow> nat \<Rightarrow> int option" where
  "array_bsearch_loop cmp array location value idx 0 = Some idx"
| "array_bsearch_loop cmp array location value idx (Suc lg) = do {
     step \<leftarrow> int_shl1 lg;
     item \<leftarrow> CFArrayGetValueAtIndex array (nat (int location + idx + int step));
     array_bsearch_loop cmp array location value (if cmp item value < 0 then idx + int step else idx) lg
   }"

definition CFArrayBSearchValues :: "(ptr \<Rightarrow> ptr \<Rightarrow> int) \<Rightarrow> CFArray \<Rightarrow> nat \<Rightarrow> nat \<Rightarrow> ptr \<Rightarrow> int option" where
  "CFArrayBSearchValues cmp array location len value =
     (if len = 0 then Some (int location)
      else do {
        item \<leftarrow> CFArrayGetValueAtIndex array (location + len - 1);
        if cmp item value < 0 then Some (int (location + len))
        else do {
          item \<leftarrow> CFArrayGetValueAtIndex array location;
          if cmp value item < 0 then Some (int location)
          else do {
            let lg = flsl len - 1;
            step \<leftarrow> int_shl1 lg;
            item \<leftarrow> CFArrayGetValueAtIndex array (location + step - 1);
            let idx = (if cmp item value < 0 then int len - int step else - 1);
            idx \<leftarrow> array_bsearch_loop cmp array location value idx lg;
            Some (idx + 1 + int location)
          }
        }
      })"

lemma sdiv_2: "int n sdiv 2 = int (n div 2)"
  by (simp add: signed_divide_int_def sgn_if zdiv_int)

lemma memmove_opt_slice:
  assumes "di = int k" "n = int j" "0 < j \<Longrightarrow> si + j \<le> length src \<and> k + j \<le> length dst"
  shows "\<exists>m. memmove_opt dst di src si n = Some m \<and> changed_in dst m k j \<and> slice m k j = slice src si j"
proof (cases "0 < j")
  case True
  then show ?thesis using memmove_slice [of si j src k dst] assms by (simp add: memmove_opt_def)
qed (use assms in \<open>simp add: memmove_opt_def\<close>)

lemma memset_null_slice:
  assumes "di = int k" "n = int j - int i" "i < j \<Longrightarrow> k + (j - i) \<le> length dst"
  shows "\<exists>m. memset_null dst di n = Some m \<and> changed_in dst m k (j - i)"
proof (cases "i < j")
  case True
  then have "nat n = j - i" using assms(2) by simp
  then show ?thesis using assms True by (auto simp: memset_null_def memset_cells_def changed_in_def nth_append)
qed (use assms in \<open>simp add: memset_null_def\<close>)

lemma memmove_opt_length: "memmove_opt dst di src si n = Some m \<Longrightarrow> length m = length dst"
  by (auto simp: memmove_opt_def memmove_cells_def split: if_splits)

lemma memset_null_length: "memset_null dst di n = Some m \<Longrightarrow> length m = length dst"
  by (auto simp: memset_null_def memset_cells_def split: if_splits)

section \<open>Contents of an array\<close>

definition array_block :: "CFArray \<Rightarrow> ptr cells option" where
  "array_block array = (if ar_mutable array then map_option dq_buckets (ar_store array) else Some (ar_buckets array))"

definition array_off :: "CFArray \<Rightarrow> nat" where
  "array_off array = (if ar_mutable array then (case ar_store array of None \<Rightarrow> 0 | Some d \<Rightarrow> dq_leftIdx d) else 0)"

definition set_block :: "CFArray \<Rightarrow> ptr cells \<Rightarrow> CFArray" where
  "set_block array m =
     (if ar_mutable array then array\<lparr>ar_store := map_option (\<lambda>d. d\<lparr>dq_buckets := m\<rparr>) (ar_store array)\<rparr>
      else array\<lparr>ar_buckets := m\<rparr>)"

text \<open>
  The representation: the values are the initialised buckets from the offset on, a deque's
  capacity is its number of buckets, at most \<open>2 ^ 30\<close>, and a mutable array without a deque is empty.
\<close>

definition array_holds :: "CFArray \<Rightarrow> ptr list \<Rightarrow> bool" where
  "array_holds array xs \<longleftrightarrow> ar_count array = length xs \<and>
     (case array_block array of None \<Rightarrow> xs = []
      | Some m \<Rightarrow> array_off array + length xs \<le> length m \<and> slice m (array_off array) (length xs) = map Some xs) \<and>
     (\<forall>d. ar_mutable array \<longrightarrow> ar_store array = Some d \<longrightarrow> dq_capacity d = length (dq_buckets d) \<and> dq_capacity d \<le> 2 ^ 30)"

lemma bucket_ld_block: "bucket_ld array i = do { m \<leftarrow> array_block array; ld m (array_off array + i) }"
  by (cases "ar_store array") (auto simp: bucket_ld_def array_block_def array_off_def)

lemma bucket_st_block:
  "bucket_st array i v = do { m \<leftarrow> array_block array; m' \<leftarrow> st m (array_off array + i) v; Some (set_block array m') }"
  by (cases "ar_store array") (auto simp: bucket_st_def array_block_def array_off_def set_block_def)

lemma set_block_simps [simp]:
  "array_block array = Some m0 \<Longrightarrow> array_block (set_block array m) = Some m"
  "array_off (set_block array m) = array_off array"
  "ar_count (set_block array m) = ar_count array" "ar_callBacks (set_block array m) = ar_callBacks array"
  "ar_mutations (set_block array m) = ar_mutations array" "ar_mutable (set_block array m) = ar_mutable array"
  "set_block (set_block array m) m' = set_block array m'"
  by (auto simp: array_block_def set_block_def array_off_def option.map_comp comp_def split: option.splits)

lemma set_block_id [simp]: "array_block array = Some m \<Longrightarrow> set_block array m = array"
  by (auto simp: array_block_def set_block_def)

section \<open>Releasing values\<close>

lemma array_release_loop_works:
  assumes "array_block array = Some m" "array_off array + i + n \<le> length m"
    "c \<Longrightarrow> slice m (array_off array + i) n = map Some ys"
  shows "\<exists>m'. array_release_loop c array i n = Some (set_block array m', if c then map Release ys else []) \<and>
    changed_in m m' (array_off array + i) n"
  using assms
proof (induction n arbitrary: array i m ys)
  case 0
  then show ?case by (intro exI [of _ m]) auto
next
  case (Suc n)
  let ?o = "array_off array"
  obtain m1 where m1: "st m (?o + i) NULL = Some m1" "changed_in m m1 (?o + i) 1"
    using st_changed [of "?o + i" m NULL] Suc.prems(2) by auto
  have blk: "array_block (set_block array m1) = Some m1" "array_off (set_block array m1) + Suc i + n \<le> length m1"
    using Suc.prems(1,2) changed_in_length [OF m1(2)] by simp_all
  have item: "c \<Longrightarrow> m ! (?o + i) = Some (hd ys) \<and> ys = hd ys # tl ys \<and> slice m (Suc (?o + i)) n = map Some (tl ys)"
    using Suc.prems(2,3) by (cases ys) (simp_all add: slice_Suc)
  have "c \<Longrightarrow> slice m1 (array_off (set_block array m1) + Suc i) n = map Some (tl ys)"
    using item changed_in_slice [OF m1(2), of "Suc (?o + i)" n] Suc.prems(2) by simp
  from Suc.IH [OF blk this] obtain m' where m': "array_release_loop c (set_block array m1) (Suc i) n = Some (set_block array m', if c then map Release (tl ys) else [])"
      "changed_in m1 m' (Suc (?o + i)) n"
    by auto
  have "changed_in m m' (?o + i) (Suc n)" using changed_in_union [OF m1(2) m'(2)] .
  moreover have "c \<Longrightarrow> bucket_ld array i = Some (hd ys)"
    using item Suc.prems(1,2) by (simp add: bucket_ld_block ld_def)
  moreover have "bucket_st array i NULL = Some (set_block array m1)" using m1(1) Suc.prems(1) by (simp add: bucket_st_block)
  ultimately show ?case using m'(1) item by (intro exI [of _ m']) (cases ys; cases c; auto)
qed

section \<open>Making room\<close>

text \<open>
  What repositioning promises: the values before and after the range are where the new left
  index says, with room for the new ones between them.
\<close>

definition repositioned :: "CFArrayDeque \<Rightarrow> CFArrayDeque \<Rightarrow> nat \<Rightarrow> nat \<Rightarrow> nat \<Rightarrow> nat \<Rightarrow> bool" where
  "repositioned d d' A B C new \<longleftrightarrow> dq_capacity d' = length (dq_buckets d') \<and>
     dq_leftIdx d' + A + new + C \<le> length (dq_buckets d') \<and>
     slice (dq_buckets d') (dq_leftIdx d') A = slice (dq_buckets d) (dq_leftIdx d) A \<and>
     slice (dq_buckets d') (dq_leftIdx d' + A + new) C = slice (dq_buckets d) (dq_leftIdx d + A + B) C"

lemma reposition_move_C_works:
  assumes "dq_capacity d = length (dq_buckets d)" "dq_leftIdx d + A + B + C \<le> length (dq_buckets d)"
    "dq_leftIdx d + A + new + C \<le> length (dq_buckets d)"
  shows "\<exists>d'. reposition_move_C d A B (int C) new = Some d' \<and> repositioned d d' A B C new"
proof -
  let ?b = "dq_buckets d" and ?L = "dq_leftIdx d"
  obtain m1 where m1: "memmove_opt ?b (int (?L + A + new)) ?b (?L + A + B) (int C) = Some m1"
      "changed_in ?b m1 (?L + A + new) C" "slice m1 (?L + A + new) C = slice ?b (?L + A + B) C"
    using memmove_opt_slice [OF refl refl, of C "?L + A + B" ?b "?L + A + new" ?b] assms by blast
  obtain m2 where m2: "memset_null m1 (int (?L + A + new) + int C) (int (?L + A + B) - int (?L + A + new)) = Some m2"
      "changed_in m1 m2 (?L + A + new + C) (?L + A + B - (?L + A + new))"
    using memset_null_slice [OF _ refl, of "int (?L + A + new) + int C" "?L + A + new + C" "?L + A + new" "?L + A + B" m1]
      assms changed_in_length [OF m1(2)] by auto
  have len: "length m1 = length ?b" "length m2 = length ?b" using m1(2) m2(2) by (simp_all add: changed_in_def)
  have "slice m2 ?L A = slice ?b ?L A"
    using changed_in_slice [OF m2(2), of ?L A] changed_in_slice [OF m1(2), of ?L A] assms len by simp
  moreover have "slice m2 (?L + A + new) C = slice ?b (?L + A + B) C"
    using changed_in_slice [OF m2(2), of "?L + A + new" C] m1(3) assms len by simp
  ultimately show ?thesis using m1(1) m2(1) assms len
    by (intro exI [of _ "d\<lparr>dq_buckets := m2\<rparr>"]) (simp add: reposition_move_C_def repositioned_def)
qed

lemma reposition_move_A_works:
  assumes "dq_capacity d = length (dq_buckets d)" "dq_leftIdx d + A + B + C \<le> length (dq_buckets d)"
    "int new - int B \<le> int (dq_leftIdx d)"
  shows "\<exists>d'. reposition_move_A d A (int new - int B) = Some d' \<and> repositioned d d' A B C new"
proof -
  let ?b = "dq_buckets d" and ?L = "dq_leftIdx d" and ?n = "dq_leftIdx d + B - new"
  have n: "int ?L - (int new - int B) = int ?n" using assms(3) by linarith
  obtain m1 where m1: "memmove_opt ?b (int ?n) ?b ?L (int A) = Some m1" "changed_in ?b m1 ?n A" "slice m1 ?n A = slice ?b ?L A"
    using memmove_opt_slice [OF refl refl, of A ?L ?b ?n ?b] assms by fastforce
  obtain m2 where m2: "memset_null m1 (int ?L) (int ?n - int ?L) = Some m2" "changed_in m1 m2 ?L (?n - ?L)"
    using memset_null_slice [OF refl refl, of ?L ?n ?L m1] assms changed_in_length [OF m1(2)] by fastforce
  have len: "length m1 = length ?b" "length m2 = length ?b" using m1(2) m2(2) by (simp_all add: changed_in_def)
  have "slice m2 ?n A = slice ?b ?L A"
    using changed_in_slice [OF m2(2), of ?n A] changed_in_none [of m1 m2 ?L] m2(2) m1(3) assms len by (cases "?L \<le> ?n") simp_all
  moreover have "slice m2 (?L + A + B) C = slice ?b (?L + A + B) C"
  proof -
    have "?n + A \<le> ?L + A + B" "?L + (?n - ?L) \<le> ?L + A + B" by arith+
    then show ?thesis
      using changed_in_slice [OF m2(2) disjI2, of "?L + A + B" C] changed_in_slice [OF m1(2) disjI2, of "?L + A + B" C] assms len by simp
  qed
  moreover have N: "?n + A + new = ?L + A + B" using assms(3) by linarith
  moreover have "reposition_move_A d A (int new - int B) = Some (d\<lparr>dq_leftIdx := ?n, dq_buckets := m2\<rparr>)"
    unfolding reposition_move_A_def Let_def n m1(1) bind.bind_lunit m2(1) by (simp del: of_nat_diff)
  ultimately show ?thesis using assms(1,2) len
    by (intro exI [of _ "d\<lparr>dq_leftIdx := ?n, dq_buckets := m2\<rparr>"]) (simp add: repositioned_def N del: add_diff_assoc2)
qed

lemma reposition_center_works:
  assumes "dq_capacity d = length (dq_buckets d)" "dq_leftIdx d + A + B + C + R = length (dq_buckets d)"
    "int new - int B \<le> int (dq_leftIdx d) + int R" "B \<le> new"
  shows "\<exists>d'. reposition_center d A B (int C) (int R) new = Some d' \<and> repositioned d d' A B C new"
proof -
  let ?b = "dq_buckets d" and ?L = "dq_leftIdx d"
  define h where "h = (dq_leftIdx d + R + B - new) div 2"
  define n where "n = h - h div 2"
  have "int ?L + int R - (int new - int B) = int (?L + R + B - new)" using assms(3) by linarith
  then have half: "(int ?L + int R - (int new - int B)) sdiv 2 = int h" by (simp only: sdiv_2 h_def)
  have hn: "int h - int h sdiv 2 = int n" unfolding n_def by (simp add: sdiv_2)
  have nb: "n + A + new + C \<le> length ?b" using assms unfolding n_def h_def by linarith
  define left where "left = do {
      m \<leftarrow> memmove_opt ?b (int n) ?b ?L (int A);
      m \<leftarrow> memmove_opt m (int n + int A + int new) m (?L + A + B) (int C);
      memset_null m (int n + int A + int new + int C) (int (?L + A + B) - (int n + int A + int new)) }"
  define right where "right = do {
      m \<leftarrow> memmove_opt ?b (int n + int A + int new) ?b (?L + A + B) (int C);
      m \<leftarrow> memmove_opt m (int n) m ?L (int A);
      memset_null m (int ?L) (int n - int ?L) }"
  have E: "reposition_center d A B (int C) (int R) new =
      map_option (\<lambda>m. d\<lparr>dq_leftIdx := n, dq_buckets := m\<rparr>) (if n < ?L then left else right)"
    unfolding reposition_center_def left_def right_def Let_def half hn
    by (auto split: bind_splits simp: map_option_case)
  have "\<exists>m. (if n < ?L then left else right) = Some m \<and> length m = length ?b \<and> slice m n A = slice ?b ?L A \<and>
      slice m (n + A + new) C = slice ?b (?L + A + B) C"
  proof (cases "n < ?L")
    case True
    obtain m1 where m1: "memmove_opt ?b (int n) ?b ?L (int A) = Some m1" "changed_in ?b m1 n A" "slice m1 n A = slice ?b ?L A"
      using memmove_opt_slice [OF refl refl, of A ?L ?b n ?b] assms True by fastforce
    have l1: "length m1 = length ?b" using m1(2) by (rule changed_in_length)
    obtain m2 where m2: "memmove_opt m1 (int n + int A + int new) m1 (?L + A + B) (int C) = Some m2"
        "changed_in m1 m2 (n + A + new) C" "slice m2 (n + A + new) C = slice m1 (?L + A + B) C"
      using memmove_opt_slice [OF _ refl, of "int n + int A + int new" "n + A + new" C "?L + A + B" m1 m1] assms nb l1 by auto
    have l2: "length m2 = length ?b" using changed_in_length [OF m2(2)] l1 by simp
    obtain m3 where m3: "memset_null m2 (int n + int A + int new + int C) (int (?L + A + B) - (int n + int A + int new)) = Some m3"
        "changed_in m2 m3 (n + A + new + C) (?L + A + B - (n + A + new))"
      using memset_null_slice [of "int n + int A + int new + int C" "n + A + new + C" "int (?L + A + B) - (int n + int A + int new)"
          "?L + A + B" "n + A + new" m2] assms l2 by auto
    have "slice m3 n A = slice ?b ?L A"
      using changed_in_slice [OF m3(2), of n A] changed_in_slice [OF m2(2), of n A] m1(3) nb l1 l2 by simp
    moreover have "slice m3 (n + A + new) C = slice ?b (?L + A + B) C"
      using changed_in_slice [OF m3(2), of "n + A + new" C] m2(3) changed_in_slice [OF m1(2), of "?L + A + B" C] nb l1 l2 assms True by simp
    ultimately show ?thesis using True m1(1) m2(1) m3 l2 changed_in_length [OF m3(2)] by (simp add: left_def)
  next
    case False
    obtain m1 where m1: "memmove_opt ?b (int n + int A + int new) ?b (?L + A + B) (int C) = Some m1"
        "changed_in ?b m1 (n + A + new) C" "slice m1 (n + A + new) C = slice ?b (?L + A + B) C"
      using memmove_opt_slice [OF _ refl, of "int n + int A + int new" "n + A + new" C "?L + A + B" ?b ?b] assms nb by auto
    have l1: "length m1 = length ?b" using m1(2) by (rule changed_in_length)
    obtain m2 where m2: "memmove_opt m1 (int n) m1 ?L (int A) = Some m2" "changed_in m1 m2 n A" "slice m2 n A = slice m1 ?L A"
      using memmove_opt_slice [OF refl refl, of A ?L m1 n m1] nb l1 assms by fastforce
    have l2: "length m2 = length ?b" using changed_in_length [OF m2(2)] l1 by simp
    obtain m3 where m3: "memset_null m2 (int ?L) (int n - int ?L) = Some m3" "changed_in m2 m3 ?L (n - ?L)"
      using memset_null_slice [OF refl refl, of ?L n ?L m2] nb l2 by fastforce
    have "slice m3 n A = slice ?b ?L A"
      using changed_in_slice [OF m3(2), of n A] m2(3) changed_in_slice [OF m1(2), of ?L A] nb l1 l2 False assms by simp
    moreover have "slice m3 (n + A + new) C = slice ?b (?L + A + B) C"
      using changed_in_slice [OF m3(2), of "n + A + new" C] changed_in_slice [OF m2(2), of "n + A + new" C] m1(3) nb l1 l2 False by simp
    ultimately show ?thesis using False m1(1) m2(1) m3 l2 changed_in_length [OF m3(2)] by (simp add: right_def)
  qed
  then show ?thesis using nb assms(1) unfolding E by (auto simp: repositioned_def)
qed

lemma CFArrayDequeRoundUpCapacity_works:
  assumes "n < 2 ^ 30"
  shows "\<exists>c. CFArrayDequeRoundUpCapacity n = Some c \<and> n \<le> c \<and> c \<le> 2 ^ 30"
proof (cases "n < 4")
  case False
  have "(2 :: nat) ^ flsl n \<le> 2 ^ 30" using flsl_le [OF assms] by (intro power_increasing) simp_all
  moreover have "n < 2 ^ flsl n" by (rule flsl_upper)
  moreover have "min (2 ^ flsl n) (2 ^ 63 - 1) = (2 :: nat) ^ flsl n" using calculation(1) by (simp add: min_def)
  ultimately show ?thesis using False int_shl1_flsl [OF assms] by (simp add: CFArrayDequeRoundUpCapacity_def)
qed (simp add: CFArrayDequeRoundUpCapacity_def)

lemma reposition_grow_works:
  assumes "dq_leftIdx d + A + B + C \<le> length (dq_buckets d)" "f = A + new + C" "f + w < 2 ^ 30" "\<And>n. env_alloc env n"
  shows "\<exists>d'. reposition_grow env d A B (int C) new f w = Some d' \<and> repositioned d d' A B C new \<and> dq_capacity d' \<le> 2 ^ 30"
proof -
  let ?b = "dq_buckets d" and ?L = "dq_leftIdx d"
  obtain c where c: "CFArrayDequeRoundUpCapacity (f + w) = Some c" "f + w \<le> c" "c \<le> 2 ^ 30"
    using CFArrayDequeRoundUpCapacity_works [OF assms(3)] by blast
  define n where "n = (c - f) div 2"
  have "int c - int f = int (c - f)" using c(2) by simp
  then have n: "(int c - int f) sdiv 2 = int n" by (simp only: sdiv_2 n_def)
  have nb: "n + A + new + C \<le> c" using c(2) assms(2) unfolding n_def by linarith
  obtain m1 where m1: "memmove_opt (fresh_cells c) (int n) ?b ?L (int A) = Some m1" "changed_in (fresh_cells c) m1 n A"
      "slice m1 n A = slice ?b ?L A"
    using memmove_opt_slice [OF refl refl, of A ?L ?b n "fresh_cells c"] assms(1) nb by fastforce
  have l1: "length m1 = c" using changed_in_length [OF m1(2)] by simp
  obtain m2 where m2: "memmove_opt m1 (int n + int A + int new) ?b (?L + A + B) (int C) = Some m2"
      "changed_in m1 m2 (n + A + new) C" "slice m2 (n + A + new) C = slice ?b (?L + A + B) C"
    using memmove_opt_slice [OF _ refl, of "int n + int A + int new" "n + A + new" C "?L + A + B" ?b m1] assms(1) nb l1 by auto
  have "slice m2 n A = slice ?b ?L A" using changed_in_slice [OF m2(2), of n A] m1(3) nb l1 by simp
  then show ?thesis using c m1(1) m2 nb changed_in_length [OF m2(2)] l1 assms(4)
    by (intro exI [of _ "\<lparr> dq_leftIdx = n, dq_capacity = c, dq_buckets = m2 \<rparr>"])
       (simp add: reposition_grow_def repositioned_def Let_def n)
qed

lemma CFArrayRepositionDequeRegions_works:
  assumes "ar_store array = Some d" "dq_capacity d = length (dq_buckets d)" "dq_capacity d \<le> 2 ^ 30"
    "ar_count array = A + B + C" "dq_leftIdx d + A + B + C \<le> length (dq_buckets d)" "A + new + C \<le> 2 ^ 29" "B \<noteq> new" "\<And>n. env_alloc env n"
  shows "\<exists>d'. CFArrayRepositionDequeRegions env array A B new = Some (array\<lparr>ar_store := Some d'\<rparr>) \<and>
    repositioned d d' A B C new \<and> dq_capacity d' \<le> 2 ^ 30"
proof -
  let ?f = "A + new + C" and ?w = "max 4 (dq_capacity d div 2 ^ 17)" and ?L = "dq_leftIdx d"
  define R where "R = length (dq_buckets d) - (?L + A + B + C)"
  have R: "?L + A + B + C + R = length (dq_buckets d)" using assms(5) by (simp add: R_def)
  have ints: "int (ar_count array) - int B - int A = int C" "int (dq_capacity d) - int (ar_count array) - int ?L = int R"
    using assms(2,4) R by linarith+
  have f: "ar_count array - B + new = ?f" "?f mod 2 ^ 32 = ?f" using assms(4,6) by simp_all
  have "dq_capacity d div 2 ^ 17 \<le> 2 ^ 30 div 2 ^ 17" using assms(3) by (rule div_le_mono)
  then have w: "?f + ?w < 2 ^ 30" using assms(6) by simp
  have cap: "repositioned d d' A B C new \<Longrightarrow> length (dq_buckets d') = length (dq_buckets d) \<Longrightarrow> dq_capacity d' \<le> 2 ^ 30" for d'
    using assms(2,3) by (simp add: repositioned_def)
  note E = CFArrayRepositionDequeRegions_def [of env array A B new] Let_def assms(1) bind.bind_lunit ints f
  consider (grow) "dq_capacity d < ?f \<or> (ar_count array < ?f \<and> int ?L + int R < int ?w)"
    | (C) "\<not> (dq_capacity d < ?f \<or> (ar_count array < ?f \<and> int ?L + int R < int ?w))"
        "(int new - int B < 0 \<and> int C < int A) \<or> (int new - int B \<le> int R \<and> int C < int A)"
    | (A) "\<not> (dq_capacity d < ?f \<or> (ar_count array < ?f \<and> int ?L + int R < int ?w))"
        "\<not> ((int new - int B < 0 \<and> int C < int A) \<or> (int new - int B \<le> int R \<and> int C < int A))"
        "int new - int B < 0 \<or> (int new - int B \<le> int ?L \<and> int A \<le> int C)"
    | (center) "\<not> (dq_capacity d < ?f \<or> (ar_count array < ?f \<and> int ?L + int R < int ?w))"
        "\<not> ((int new - int B < 0 \<and> int C < int A) \<or> (int new - int B \<le> int R \<and> int C < int A))"
        "\<not> (int new - int B < 0 \<or> (int new - int B \<le> int ?L \<and> int A \<le> int C))"
    by blast
  then show ?thesis
  proof cases
    case grow
    then show ?thesis using reposition_grow_works [OF assms(5) refl w assms(8)] unfolding E by auto
  next
    case C
    then have "?L + A + new + C \<le> length (dq_buckets d)" using R by linarith
    then obtain d' where d': "reposition_move_C d A B (int C) new = Some d'" "repositioned d d' A B C new"
      using reposition_move_C_works [OF assms(2,5)] by blast
    have "length (dq_buckets d') = length (dq_buckets d)"
      using d'(1) by (auto simp: reposition_move_C_def Let_def memmove_opt_length memset_null_length split: bind_splits)
    then show ?thesis unfolding E if_not_P [OF C(1)] if_P [OF C(2)] using d' cap by (intro exI [of _ d']) simp
  next
    case A
    then have "int new - int B \<le> int ?L" using R by linarith
    then obtain d' where d': "reposition_move_A d A (int new - int B) = Some d'" "repositioned d d' A B C new"
      using reposition_move_A_works [OF assms(2,5)] by blast
    have "length (dq_buckets d') = length (dq_buckets d)"
      using d'(1) by (auto simp: reposition_move_A_def Let_def memmove_opt_length memset_null_length split: bind_splits if_splits)
    then show ?thesis unfolding E if_not_P [OF A(1)] if_not_P [OF A(2)] if_P [OF A(3)] using d' cap by (intro exI [of _ d']) simp
  next
    case center
    then have "int new - int B \<le> int ?L + int R" "B \<le> new" using R assms(2,4) by linarith+
    then obtain d' where d': "reposition_center d A B (int C) (int R) new = Some d'" "repositioned d d' A B C new"
      using reposition_center_works [OF assms(2) R] by blast
    have "length (dq_buckets d') = length (dq_buckets d)"
      using d'(1) by (auto simp: reposition_center_def Let_def memmove_opt_length memset_null_length split: bind_splits if_splits)
    then show ?thesis unfolding E if_not_P [OF center(1)] if_not_P [OF center(2)] if_not_P [OF center(3)] using d' cap by (intro exI [of _ d']) simp
  qed
qed

section \<open>Replacing a range\<close>

definition retained_item :: "cf_env \<Rightarrow> CFArrayCallBacks \<Rightarrow> ptr \<Rightarrow> ptr" where
  "retained_item env cb value = (if acb_retain cb \<noteq> NULL then env_retain env (acb_retain cb) value else value)"

definition retain_calls :: "CFArrayCallBacks \<Rightarrow> ptr list \<Rightarrow> cf_call list" where
  "retain_calls cb vs = (if acb_retain cb \<noteq> NULL then map Retain vs else [])"

definition release_calls :: "CFArrayCallBacks \<Rightarrow> ptr list \<Rightarrow> cf_call list" where
  "release_calls cb vs = (if acb_release cb \<noteq> NULL then map Release vs else [])"

lemma array_retain_eq: "array_retain env cb v = (retained_item env cb v, retain_calls cb [v])"
  by (simp add: array_retain_def retained_item_def retain_calls_def)

lemma array_retain_all_eq: "array_retain_all env cb vs = (map (retained_item env cb) vs, retain_calls cb vs)"
  by (induction vs) (simp_all add: array_retain_eq retain_calls_def)

lemma release_calls_Nil [simp]: "release_calls cb [] = []"
  by (simp add: release_calls_def)

lemma repositioned_refl:
  "dq_capacity d = length (dq_buckets d) \<Longrightarrow> dq_leftIdx d + A + B + C \<le> length (dq_buckets d) \<Longrightarrow> repositioned d d A B C B"
  by (simp add: repositioned_def)

lemma array_holds_deque:
  assumes "ar_mutable array" "ar_store array = Some d"
  shows "array_holds array xs \<longleftrightarrow> ar_count array = length xs \<and> dq_leftIdx d + length xs \<le> length (dq_buckets d) \<and>
    slice (dq_buckets d) (dq_leftIdx d) (length xs) = map Some xs \<and> dq_capacity d = length (dq_buckets d) \<and> dq_capacity d \<le> 2 ^ 30"
  using assms by (auto simp: array_holds_def array_block_def array_off_def)

lemma array_holds_mutations [simp]: "array_holds (array\<lparr>ar_mutations := k\<rparr>) xs \<longleftrightarrow> array_holds array xs"
  by (cases "ar_store array") (simp_all add: array_holds_def array_block_def array_off_def)

text \<open>The copying of the new values, and the contents it leaves.\<close>

lemma copy_in_works:
  assumes "repositioned d d' A B C (length ys)" "slice (dq_buckets d) (dq_leftIdx d) A = map Some as"
    "slice (dq_buckets d) (dq_leftIdx d + A + B) C = map Some cs" "length as = A" "length cs = C" "dq_capacity d' \<le> 2 ^ 30"
    and "ar_mutable array" "ar_store array = Some d'"
  shows "\<exists>array'. (if 0 < length ys then do {
          deque \<leftarrow> ar_store array;
          m \<leftarrow> memmove_cells (dq_buckets deque) (dq_leftIdx deque + A) (map Some ys) 0 (length ys);
          Some (array\<lparr>ar_store := Some (deque\<lparr>dq_buckets := m\<rparr>)\<rparr>)
        } else Some array) = Some array' \<and> ar_callBacks array' = ar_callBacks array \<and> ar_mutable array' \<and>
      ar_mutations array' = ar_mutations array \<and> array_holds (array'\<lparr>ar_count := A + length ys + C\<rparr>) (as @ ys @ cs)"
proof -
  let ?b = "dq_buckets d'" and ?L = "dq_leftIdx d'" and ?n = "length ys"
  have r: "?L + A + ?n + C \<le> length ?b" "dq_capacity d' = length ?b" "slice ?b ?L A = map Some as" "slice ?b (?L + A + ?n) C = map Some cs"
    using assms(1-3) by (simp_all add: repositioned_def)
  obtain m where m: "memmove_cells ?b (?L + A) (map Some ys) 0 ?n = Some m" "changed_in ?b m (?L + A) ?n" "slice m (?L + A) ?n = map Some ys"
    using memmove_slice [of 0 ?n "map Some ys" "?L + A" ?b] r(1) by (auto simp: slice_map_Some)
  have len: "length m = length ?b" using m(2) by (rule changed_in_length)
  have "slice m ?L A = map Some as" "slice m (?L + A + ?n) C = map Some cs"
    using changed_in_slice [OF m(2), of ?L A] changed_in_slice [OF m(2), of "?L + A + ?n" C] r by simp_all
  then have all: "slice m ?L (A + ?n + C) = map Some (as @ ys @ cs)" using m(3) by (simp add: slice_append add.assoc)
  have "?n = 0 \<Longrightarrow> m = ?b" using m(2) changed_in_none by simp
  then show ?thesis using assms(4-8) m(1) all r len
    by (intro exI [of _ "array\<lparr>ar_store := Some (d'\<lparr>dq_buckets := m\<rparr>)\<rparr>"]) (auto simp: array_holds_deque add.assoc)
qed

lemma release_range_works:
  assumes "array_holds array xs" "ar_mutable array" "ar_store array = Some d" "A + B \<le> length xs"
  shows "\<exists>m. (if 0 < B then CFArrayReleaseValues array A B False else Some (array, [])) =
      Some (array\<lparr>ar_store := Some (d\<lparr>dq_buckets := m\<rparr>)\<rparr>, release_calls (ar_callBacks array) (take B (drop A xs))) \<and>
    changed_in (dq_buckets d) m (dq_leftIdx d + A) B"
proof (cases "0 < B")
  case True
  have b: "array_block array = Some (dq_buckets d)" "array_off array = dq_leftIdx d" "set_block array m = array\<lparr>ar_store := Some (d\<lparr>dq_buckets := m\<rparr>)\<rparr>" for m
    using assms(2,3) by (simp_all add: array_block_def array_off_def set_block_def)
  have h: "dq_leftIdx d + length xs \<le> length (dq_buckets d)" "slice (dq_buckets d) (dq_leftIdx d) (length xs) = map Some xs"
    using assms by (simp_all add: array_holds_deque)
  let ?c = "acb_release (ar_callBacks array) \<noteq> NULL"
  obtain m where "array_release_loop ?c array A B = Some (set_block array m, if ?c then map Release (take B (drop A xs)) else [])"
      "changed_in (dq_buckets d) m (dq_leftIdx d + A) B"
    using array_release_loop_works [OF b(1), of A B ?c "take B (drop A xs)"] sub_slice [OF h(2) assms(4)] h(1) assms(4) b(2) by fastforce
  then show ?thesis using True assms(2,3) by (auto simp: CFArrayReleaseValues_def Let_def b(3) release_calls_def)
next
  case False
  then show ?thesis using assms(3) by (intro exI [of _ "dq_buckets d"]) simp
qed

lemma replace_in_deque:
  assumes h: "array_holds array xs" and mut: "ar_mutable array" and d: "ar_store array = Some d" and r: "A + B \<le> length xs"
    and f: "length xs - B + length ys \<le> 2 ^ 29" and al: "\<And>n. env_alloc env n" and cs: "cs = drop (A + B) xs"
  shows "\<exists>m d'. (if 0 < B then CFArrayReleaseValues array A B False else Some (array, [])) =
      Some (array\<lparr>ar_store := Some (d\<lparr>dq_buckets := m\<rparr>)\<rparr>, release_calls (ar_callBacks array) (take B (drop A xs))) \<and>
    (if B \<noteq> length ys then CFArrayRepositionDequeRegions env (array\<lparr>ar_store := Some (d\<lparr>dq_buckets := m\<rparr>)\<rparr>) A B (length ys)
     else Some (array\<lparr>ar_store := Some (d\<lparr>dq_buckets := m\<rparr>)\<rparr>)) = Some (array\<lparr>ar_store := Some d'\<rparr>) \<and>
    repositioned (d\<lparr>dq_buckets := m\<rparr>) d' A B (length cs) (length ys) \<and> dq_capacity d' \<le> 2 ^ 30 \<and>
    slice m (dq_leftIdx d) A = map Some (take A xs) \<and> slice m (dq_leftIdx d + A + B) (length cs) = map Some cs"
proof -
  let ?L = "dq_leftIdx d" and ?C = "length cs"
  have hd: "ar_count array = length xs" "?L + length xs \<le> length (dq_buckets d)" "slice (dq_buckets d) ?L (length xs) = map Some xs"
      "dq_capacity d = length (dq_buckets d)" "dq_capacity d \<le> 2 ^ 30"
    using h mut d by (simp_all add: array_holds_deque)
  have lc: "length xs = A + B + ?C" using r cs by simp
  obtain m where m: "(if 0 < B then CFArrayReleaseValues array A B False else Some (array, [])) =
      Some (array\<lparr>ar_store := Some (d\<lparr>dq_buckets := m\<rparr>)\<rparr>, release_calls (ar_callBacks array) (take B (drop A xs)))"
      "changed_in (dq_buckets d) m (?L + A) B"
    using release_range_works [OF h mut d r] by blast
  let ?d = "d\<lparr>dq_buckets := m\<rparr>"
  have len: "length m = length (dq_buckets d)" using m(2) by (rule changed_in_length)
  have "slice m ?L A = map Some (take A xs)"
    using changed_in_slice [OF m(2), of ?L A] sub_slice [OF hd(3), of 0 A] hd(2) lc by simp
  moreover have "slice m (?L + A + B) ?C = map Some cs"
  proof -
    have b: "?L + A + B + ?C \<le> length (dq_buckets d)" "A + B + ?C \<le> length xs" using hd(2) lc by linarith+
    have "take ?C (drop (A + B) xs) = cs" using cs by simp
    then show ?thesis
      using changed_in_slice [OF m(2) disjI2 b(1)] sub_slice [OF hd(3) b(2)] by (simp add: add.assoc)
  qed
  moreover have "\<exists>d'. (if B \<noteq> length ys then CFArrayRepositionDequeRegions env (array\<lparr>ar_store := Some ?d\<rparr>) A B (length ys)
     else Some (array\<lparr>ar_store := Some ?d\<rparr>)) = Some (array\<lparr>ar_store := Some d'\<rparr>) \<and>
    repositioned ?d d' A B ?C (length ys) \<and> dq_capacity d' \<le> 2 ^ 30"
  proof (cases "B = length ys")
    case True
    then show ?thesis using repositioned_refl [of ?d A B ?C] hd lc len by (intro exI [of _ ?d]) simp
  next
    case False
    then show ?thesis
      using CFArrayRepositionDequeRegions_works [of "array\<lparr>ar_store := Some ?d\<rparr>" ?d A B ?C "length ys" env] hd lc len f al by simp
  qed
  ultimately show ?thesis using m(1) by blast
qed

lemma CFArrayReplaceValues_works:
  assumes "array_holds array xs" "ar_mutable array" "A + B \<le> length xs" "length xs - B + length vs \<le> 2 ^ 29" "\<And>n. env_alloc env n"
  shows "\<exists>array'. CFArrayReplaceValues env array A B vs =
      Some (array', retain_calls (ar_callBacks array) vs @ release_calls (ar_callBacks array) (take B (drop A xs))) \<and>
    array_holds array' (take A xs @ map (retained_item env (ar_callBacks array)) vs @ drop (A + B) xs) \<and>
    ar_mutable array' \<and> ar_callBacks array' = ar_callBacks array \<and> ar_mutations array' = ar_mutations array + 1"
proof -
  let ?cb = "ar_callBacks array" and ?array = "array\<lparr>ar_mutations := ar_mutations array + 1\<rparr>"
  let ?ys = "map (retained_item env ?cb) vs" and ?cs = "drop (A + B) xs"
  have cnt: "ar_count array = length xs" using assms(1) by (simp add: array_holds_def)
  have f: "length xs - B + length vs = A + length ?ys + length ?cs" using assms(3) by simp
  have h: "array_holds ?array xs" "ar_mutable ?array" using assms(1,2) by simp_all
  note E = CFArrayReplaceValues_def [of env array A B vs, unfolded array_retain_all_eq]
  show ?thesis
  proof (cases "ar_store array")
    case None
    then have xs: "xs = []" "A = 0" "B = 0" using assms(1-3) by (auto simp: array_holds_def array_block_def)
    then obtain c where c: "CFArrayDequeRoundUpCapacity (length vs) = Some c" "length vs \<le> c" "c \<le> 2 ^ 30"
      using CFArrayDequeRoundUpCapacity_works [of "length vs"] assms(4) by auto
    let ?d = "\<lparr> dq_leftIdx = (c - length vs) div 2, dq_capacity = c, dq_buckets = fresh_cells c \<rparr>"
    have "(c - length vs) div 2 + length vs \<le> c" using c(2) by linarith
    then have "repositioned ?d ?d 0 0 0 (length ?ys)" by (simp add: repositioned_def)
    from copy_in_works [OF this, of "[]" "[]" "?array\<lparr>ar_store := Some ?d\<rparr>"] c(3) h(2) obtain array' where
      "(if 0 < length ?ys then do {
          deque \<leftarrow> ar_store (?array\<lparr>ar_store := Some ?d\<rparr>);
          m \<leftarrow> memmove_cells (dq_buckets deque) (dq_leftIdx deque + 0) (map Some ?ys) 0 (length ?ys);
          Some (?array\<lparr>ar_store := Some ?d, ar_store := Some (deque\<lparr>dq_buckets := m\<rparr>)\<rparr>)
        } else Some (?array\<lparr>ar_store := Some ?d\<rparr>)) = Some array'"
      "ar_callBacks array' = ?cb" "ar_mutable array'" "ar_mutations array' = ar_mutations array + 1"
      "array_holds (array'\<lparr>ar_count := length ?ys\<rparr>) ?ys"
      by auto
    moreover from this(1) have "CFArrayReplaceValues env array A B vs = Some (array'\<lparr>ar_count := length ?ys\<rparr>, retain_calls ?cb vs)"
      unfolding E using None xs c assms(5) cnt by (simp add: Let_def cong: if_cong)
    ultimately show ?thesis using xs
      by (intro exI [of _ "array'\<lparr>ar_count := length ?ys\<rparr>"]) auto
  next
    case (Some d)
    have d: "ar_store ?array = Some d" using Some by simp
    obtain m d' where m: "(if 0 < B then CFArrayReleaseValues ?array A B False else Some (?array, [])) =
          Some (?array\<lparr>ar_store := Some (d\<lparr>dq_buckets := m\<rparr>)\<rparr>, release_calls ?cb (take B (drop A xs)))"
        "(if B \<noteq> length ?ys then CFArrayRepositionDequeRegions env (?array\<lparr>ar_store := Some (d\<lparr>dq_buckets := m\<rparr>)\<rparr>) A B (length ?ys)
         else Some (?array\<lparr>ar_store := Some (d\<lparr>dq_buckets := m\<rparr>)\<rparr>)) = Some (?array\<lparr>ar_store := Some d'\<rparr>)"
        "repositioned (d\<lparr>dq_buckets := m\<rparr>) d' A B (length ?cs) (length ?ys)" "dq_capacity d' \<le> 2 ^ 30"
        "slice m (dq_leftIdx d) A = map Some (take A xs)" "slice m (dq_leftIdx d + A + B) (length ?cs) = map Some ?cs"
      using replace_in_deque [OF h d assms(3) _ assms(5) refl, of ?ys] assms(4) by auto
    from copy_in_works [OF m(3), of "take A xs" ?cs "?array\<lparr>ar_store := Some d'\<rparr>"] m(4-6) h(2) assms(3) obtain array' where a:
      "(if 0 < length ?ys then do {
          deque \<leftarrow> ar_store (?array\<lparr>ar_store := Some d'\<rparr>);
          m \<leftarrow> memmove_cells (dq_buckets deque) (dq_leftIdx deque + A) (map Some ?ys) 0 (length ?ys);
          Some (?array\<lparr>ar_store := Some d', ar_store := Some (deque\<lparr>dq_buckets := m\<rparr>)\<rparr>)
        } else Some (?array\<lparr>ar_store := Some d'\<rparr>)) = Some array'"
      "ar_callBacks array' = ?cb" "ar_mutable array'" "ar_mutations array' = ar_mutations array + 1"
      "array_holds (array'\<lparr>ar_count := A + length ?ys + length ?cs\<rparr>) (take A xs @ ?ys @ ?cs)"
      by auto
    have "CFArrayReplaceValues env array A B vs =
        Some (array'\<lparr>ar_count := A + length ?ys + length ?cs\<rparr>, retain_calls ?cb vs @ release_calls ?cb (take B (drop A xs)))"
      using m(1,2) a(1) assms(3,5) unfolding E cnt f Let_def by (simp del: length_drop cong: if_cong)
    then show ?thesis using a(2-5)
      by (intro exI [of _ "array'\<lparr>ar_count := A + length ?ys + length ?cs\<rparr>"]) (simp del: length_drop)
  qed
qed

section \<open>Reading and writing single values\<close>

lemma array_block_holds:
  assumes "array_holds array xs" "xs \<noteq> []"
  obtains m where "array_block array = Some m" "array_off array + length xs \<le> length m" "slice m (array_off array) (length xs) = map Some xs"
  using assms by (auto simp: array_holds_def split: option.splits)

lemma bucket_ld_holds:
  assumes "array_holds array xs" "i < length xs"
  shows "bucket_ld array i = Some (xs ! i)"
proof -
  have ne: "xs \<noteq> []" using assms(2) by auto
  obtain m where m: "array_block array = Some m" "array_off array + length xs \<le> length m" "slice m (array_off array) (length xs) = map Some xs"
    using array_block_holds [OF assms(1) ne] .
  have "m ! (array_off array + i) = map Some xs ! i" using nth_slice [OF assms(2) m(2)] m(3) by simp
  then show ?thesis using m(1,2) assms(2) by (simp add: bucket_ld_block ld_def)
qed

lemma set_block_holds:
  assumes "array_holds array xs" "array_block array = Some m" "length m' = length m" "length ys = length xs"
    "slice m' (array_off array) (length ys) = map Some ys"
  shows "array_holds (set_block array m') ys"
proof -
  have "\<forall>d. ar_mutable array \<longrightarrow> ar_store (set_block array m') = Some d \<longrightarrow> dq_capacity d = length (dq_buckets d) \<and> dq_capacity d \<le> 2 ^ 30"
    using assms(1-3) by (auto simp: array_holds_def set_block_def array_block_def)
  then show ?thesis using assms by (auto simp: array_holds_def)
qed

lemma bucket_st_holds:
  assumes "array_holds array xs" "i < length xs"
  shows "\<exists>array'. bucket_st array i v = Some array' \<and> array_holds array' (xs[i := v]) \<and> ar_mutable array' = ar_mutable array \<and>
    ar_callBacks array' = ar_callBacks array \<and> ar_mutations array' = ar_mutations array"
proof -
  have ne: "xs \<noteq> []" using assms(2) by auto
  obtain m where m: "array_block array = Some m" "array_off array + length xs \<le> length m" "slice m (array_off array) (length xs) = map Some xs"
    using array_block_holds [OF assms(1) ne] .
  let ?o = "array_off array"
  let ?m = "m[?o + i := Some v]"
  have "slice ?m ?o (length xs) = map Some (xs[i := v])"
  proof (rule nth_equalityI)
    show "length (slice ?m ?o (length xs)) = length (map Some (xs[i := v]))" using m(2) by simp
    fix k assume "k < length (slice ?m ?o (length xs))"
    then have k: "k < length xs" using m(2) by simp
    have "m ! (?o + k) = map Some xs ! k" using nth_slice [OF k m(2)] m(3) by simp
    then show "slice ?m ?o (length xs) ! k = map Some (xs[i := v]) ! k"
      using k m(2) by (cases "k = i") (simp_all add: nth_slice)
  qed
  then have "array_holds (set_block array ?m) (xs[i := v])" using set_block_holds [OF assms(1) m(1)] by simp
  moreover have "bucket_st array i v = Some (set_block array ?m)" using m(1,2) assms(2) by (simp add: bucket_st_block st_def)
  ultimately show ?thesis by simp
qed

section \<open>Loops over the values\<close>

lemma take_drop_Suc: "i < length xs \<Longrightarrow> take (Suc n) (drop i xs) = xs ! i # take n (drop (Suc i) xs)"
  by (simp add: Cons_nth_drop_Suc [symmetric])

lemmas array_reads = CFArrayGetValueAtIndex_def bucket_ld_holds take_drop_Suc

lemma array_apply_loop_holds:
  "array_holds array xs \<Longrightarrow> i + n \<le> length xs \<Longrightarrow> array_apply_loop array i n = Some (take n (drop i xs))"
  by (induction n arbitrary: i) (simp_all add: array_reads)

lemma array_count_loop_holds:
  "array_holds array xs \<Longrightarrow> i + n \<le> length xs \<Longrightarrow>
   array_count_loop env array value i n = Some (length (filter (array_item_match env array value) (take n (drop i xs))))"
  by (induction n arbitrary: i) (simp_all add: array_reads)

lemma array_equal_loop_holds:
  "array_holds array1 xs \<Longrightarrow> array_holds array2 ys \<Longrightarrow> i + n \<le> length xs \<Longrightarrow> i + n \<le> length ys \<Longrightarrow>
   array_equal_loop env equal array1 array2 i n =
     Some (list_all2 (\<lambda>a b. a = b \<or> equal \<noteq> NULL \<and> env_equal env equal a b) (take n (drop i xs)) (take n (drop i ys)))"
  by (induction n arbitrary: i) (auto simp: array_reads)

lemma array_copy_loop_fill:
  "array_holds array xs \<Longrightarrow> i + n \<le> length xs \<Longrightarrow>
   array_copy_loop env array result i n = array_fill_loop env result i (take n (drop i xs))"
  by (induction n arbitrary: i result) (simp_all add: array_reads)

lemma array_first_loop_holds:
  "array_holds array xs \<Longrightarrow> i + n \<le> length xs \<Longrightarrow>
   array_first_loop env array value i n =
     Some (case first_match (array_item_match env array value) (take n (drop i xs)) of None \<Rightarrow> kCFNotFound | Some k \<Rightarrow> int (i + k))"
  by (induction n arbitrary: i) (auto simp: array_reads split: option.splits)

lemma array_last_loop_holds:
  "array_holds array xs \<Longrightarrow> i + n \<le> length xs \<Longrightarrow>
   array_last_loop env array value i n =
     Some (case first_match (array_item_match env array value) (rev (take n (drop i xs))) of
       None \<Rightarrow> kCFNotFound | Some k \<Rightarrow> int (i + n - 1 - k))"
proof (induction n)
  case (Suc n)
  then have "take (Suc n) (drop i xs) = take n (drop i xs) @ [xs ! (i + n)]" by (simp add: take_Suc_conv_app_nth)
  then show ?case using Suc by (auto simp: CFArrayGetValueAtIndex_def bucket_ld_holds add.commute split: option.splits)
qed simp

lemma CFArrayGetBucketsPtr_holds: "array_block array = Some m \<Longrightarrow> CFArrayGetBucketsPtr array = Some (m, array_off array)"
  by (auto simp: CFArrayGetBucketsPtr_def array_block_def array_off_def)

lemma CFArrayGetValues_holds:
  assumes "array_holds array xs" "i + n \<le> length xs" "n \<le> length values"
  shows "CFArrayGetValues array i n values = Some (map Some (take n (drop i xs)) @ drop n values)"
proof (cases "0 < n")
  case True
  then have ne: "xs \<noteq> []" using assms(2) by auto
  obtain m where m: "array_block array = Some m" "array_off array + length xs \<le> length m" "slice m (array_off array) (length xs) = map Some xs"
    using array_block_holds [OF assms(1) ne] .
  have "take n (drop (array_off array + i) m) = map Some (take n (drop i xs))"
    using sub_slice [OF m(3) assms(2)] by (simp add: slice_def)
  then show ?thesis using True m(1,2) assms(2,3)
    by (simp add: CFArrayGetValues_def CFArrayGetBucketsPtr_holds memmove_cells_def)
qed (simp add: CFArrayGetValues_def)

section \<open>Creation\<close>

lemma array_fill_loop_works:
  assumes "array_block array = Some m" "array_off array + i + length vs \<le> length m"
  shows "\<exists>m'. array_fill_loop env array i vs = Some (set_block array m', retain_calls (ar_callBacks array) vs) \<and>
    changed_in m m' (array_off array + i) (length vs) \<and>
    slice m' (array_off array + i) (length vs) = map Some (map (retained_item env (ar_callBacks array)) vs)"
  using assms
proof (induction vs arbitrary: array i m)
  case Nil
  then show ?case by (intro exI [of _ m]) (simp add: retain_calls_def)
next
  case (Cons v vs)
  let ?o = "array_off array" and ?cb = "ar_callBacks array"
  obtain m1 where m1: "st m (?o + i) (retained_item env ?cb v) = Some m1" "changed_in m m1 (?o + i) 1" "m1 ! (?o + i) = Some (retained_item env ?cb v)"
    using st_changed [of "?o + i" m] Cons.prems(2) by fastforce
  have blk: "array_block (set_block array m1) = Some m1" "array_off (set_block array m1) + Suc i + length vs \<le> length m1"
    using Cons.prems changed_in_length [OF m1(2)] by simp_all
  obtain m' where m': "array_fill_loop env (set_block array m1) (Suc i) vs = Some (set_block array m', retain_calls ?cb vs)"
      "changed_in m1 m' (Suc (?o + i)) (length vs)"
      "slice m' (Suc (?o + i)) (length vs) = map Some (map (retained_item env ?cb) vs)"
    using Cons.IH [OF blk] by auto
  have "bucket_st array i (retained_item env ?cb v) = Some (set_block array m1)" using m1(1) Cons.prems(1) by (simp add: bucket_st_block)
  then have "array_fill_loop env array i (v # vs) = Some (set_block array m', retain_calls ?cb (v # vs))"
    using m'(1) by (simp add: array_retain_eq retain_calls_def)
  moreover have ch: "changed_in m m' (?o + i) (length (v # vs))" using changed_in_union [OF m1(2) m'(2)] by simp
  moreover have "m' ! (?o + i) = m1 ! (?o + i)" using m'(2) Cons.prems(2) changed_in_length [OF m1(2)] by (simp add: changed_in_def)
  then have "slice m' (?o + i) (length (v # vs)) = map Some (map (retained_item env ?cb) (v # vs))"
    using slice_Suc [of "?o + i" "length vs" m'] m'(3) m1(3) Cons.prems(2) changed_in_length [OF ch] by simp
  ultimately show ?case by blast
qed

text \<open>The callbacks an array is created with.\<close>

definition array_callbacks :: "CFArrayCallBacks option \<Rightarrow> CFArrayCallBacks" where
  "array_callbacks callBacks = (if CFArrayCallBacksMatchNull callBacks then kCFNullArrayCallBacks else the callBacks)"

lemma array_callbacks_Some [simp]: "array_callbacks (Some cb) = cb"
  by (auto simp: array_callbacks_def CFArrayCallBacksMatchNull_def kCFNullArrayCallBacks_def)

lemma CFArrayInit_immutable:
  assumes "n \<le> 2 ^ 28" "\<And>k. env_alloc env k"
  shows "CFArrayInit env False n callBacks =
    Some \<lparr> ar_mutable = False, ar_callBacks = array_callbacks callBacks, ar_count = 0, ar_mutations = 0,
           ar_buckets = fresh_cells n, ar_store = None \<rparr>"
proof -
  have "(72 + n * 8) mod 2 ^ 32 = 72 + n * 8" "(32 + n * 8) mod 2 ^ 32 = 32 + n * 8" using assms(1) by simp_all
  then show ?thesis using assms(2) by (simp add: CFArrayInit_def array_callbacks_def CFRuntimeCreateInstance_def Let_def)
qed

lemma array_fill_fresh:
  assumes "ar_mutable array = False" "ar_buckets array = fresh_cells (length vs)"
  shows "\<exists>array'. array_fill_loop env array 0 vs = Some (array', retain_calls (ar_callBacks array) vs) \<and>
    array_holds (array'\<lparr>ar_count := length vs\<rparr>) (map (retained_item env (ar_callBacks array)) vs) \<and>
    \<not> ar_mutable array' \<and> ar_callBacks array' = ar_callBacks array"
proof -
  have b: "array_block array = Some (fresh_cells (length vs))" "array_off array = 0" using assms by (simp_all add: array_block_def array_off_def)
  obtain m where m: "array_fill_loop env array 0 vs = Some (set_block array m, retain_calls (ar_callBacks array) vs)"
      "changed_in (fresh_cells (length vs)) m 0 (length vs)" "slice m 0 (length vs) = map Some (map (retained_item env (ar_callBacks array)) vs)"
    using array_fill_loop_works [OF b(1), of 0 vs env] b(2) by auto
  have "length m = length vs" using changed_in_length [OF m(2)] by simp
  then show ?thesis using m(1,3) assms by (simp add: array_holds_def array_block_def array_off_def set_block_def)
qed

lemma CFArrayCreate_works:
  assumes "length vs \<le> 2 ^ 28" "\<And>k. env_alloc env k"
  shows "\<exists>array. CFArrayCreate env vs callBacks = Some (array, retain_calls (array_callbacks callBacks) vs) \<and>
    array_holds array (map (retained_item env (array_callbacks callBacks)) vs) \<and> \<not> ar_mutable array \<and>
    ar_callBacks array = array_callbacks callBacks"
  using array_fill_fresh [of "\<lparr> ar_mutable = False, ar_callBacks = array_callbacks callBacks, ar_count = 0, ar_mutations = 0,
           ar_buckets = fresh_cells (length vs), ar_store = None \<rparr>" vs env] CFArrayInit_immutable [OF assms]
  by (auto simp: CFArrayCreate_def)

lemma CFArrayCreateCopy_works:
  assumes "array_holds array xs" "length xs \<le> 2 ^ 28" "\<And>k. env_alloc env k"
  shows "\<exists>copy. CFArrayCreateCopy env array = Some (copy, retain_calls (ar_callBacks array) xs) \<and>
    array_holds copy (map (retained_item env (ar_callBacks array)) xs) \<and> \<not> ar_mutable copy \<and>
    ar_callBacks copy = ar_callBacks array"
proof -
  have "CFArrayCreateCopy env array = CFArrayCreate env xs (Some (ar_callBacks array))"
    using assms(1) array_copy_loop_fill [OF assms(1), of 0 "length xs"]
    by (simp add: CFArrayCreateCopy_def CFArrayCreate_def CFArrayGetCount_def array_holds_def Let_def)
  then show ?thesis using CFArrayCreate_works [OF assms(2,3), of "Some (ar_callBacks array)"] by simp
qed

lemma CFArrayCreateTransfer_works:
  assumes "length vs \<le> 2 ^ 28" "\<And>k. env_alloc env k"
  shows "\<exists>array. CFArrayCreateTransfer env vs = Some (Some array) \<and> array_holds array vs \<and> \<not> ar_mutable array \<and>
    ar_callBacks array = kCFTypeArrayCallBacks"
proof -
  have "(32 + length vs * 8) mod 2 ^ 32 = 32 + length vs * 8" using assms(1) by simp
  then show ?thesis using assms(2)
    by (simp add: CFArrayCreateTransfer_def CFRuntimeCreateInstance_def memmove_cells_def Let_def array_holds_def array_block_def array_off_def slice_def)
qed

lemma CFArrayCreateMutable_works:
  assumes "\<And>k. env_alloc env k"
  shows "\<exists>array. CFArrayCreateMutable env capacity callBacks = Some array \<and> array_holds array [] \<and> ar_mutable array \<and>
    ar_callBacks array = array_callbacks callBacks \<and> ar_store array = None"
  using assms
  by (simp add: CFArrayCreateMutable_def CFArrayInit_def array_callbacks_def CFRuntimeCreateInstance_def Let_def
      array_holds_def array_block_def array_off_def)

section \<open>Changing single values\<close>

lemma CFArraySetValueAtIndex_works:
  assumes "array_holds array xs" "i < length xs"
  shows "\<exists>array'. CFArraySetValueAtIndex env array i v =
      Some (array', retain_calls (ar_callBacks array) [v] @ release_calls (ar_callBacks array) [xs ! i]) \<and>
    array_holds array' (xs[i := retained_item env (ar_callBacks array) v]) \<and>
    ar_mutable array' = ar_mutable array \<and> ar_callBacks array' = ar_callBacks array \<and> ar_mutations array' = ar_mutations array + 1"
proof -
  have "i \<noteq> ar_count array" using assms by (simp add: array_holds_def)
  moreover obtain array' where "bucket_st array i (retained_item env (ar_callBacks array) v) = Some array'"
      "array_holds array' (xs[i := retained_item env (ar_callBacks array) v])" "ar_mutable array' = ar_mutable array"
      "ar_callBacks array' = ar_callBacks array" "ar_mutations array' = ar_mutations array"
    using bucket_st_holds [OF assms] by blast
  ultimately show ?thesis using bucket_ld_holds [OF assms]
    by (simp add: CFArraySetValueAtIndex_def array_retain_eq release_calls_def Let_def)
qed

lemma CFArrayExchangeValuesAtIndices_works:
  assumes "array_holds array xs" "i < length xs" "j < length xs"
  shows "\<exists>array'. CFArrayExchangeValuesAtIndices array i j = Some array' \<and> array_holds array' (xs[i := xs ! j, j := xs ! i]) \<and>
    ar_mutable array' = ar_mutable array \<and> ar_callBacks array' = ar_callBacks array \<and> ar_mutations array' = ar_mutations array + 1"
proof -
  obtain a1 where a1: "bucket_st array i (xs ! j) = Some a1" "array_holds a1 (xs[i := xs ! j])" "ar_mutable a1 = ar_mutable array"
      "ar_callBacks a1 = ar_callBacks array" "ar_mutations a1 = ar_mutations array"
    using bucket_st_holds [OF assms(1,2)] by blast
  obtain a2 where a2: "bucket_st a1 j (xs ! i) = Some a2" "array_holds a2 (xs[i := xs ! j, j := xs ! i])" "ar_mutable a2 = ar_mutable array"
      "ar_callBacks a2 = ar_callBacks array" "ar_mutations a2 = ar_mutations array"
    using bucket_st_holds [OF a1(2), of j "xs ! i"] assms(3) a1 by auto
  show ?thesis using a1(1) a2 bucket_ld_holds [OF assms(1)] assms(2,3) by (simp add: CFArrayExchangeValuesAtIndices_def)
qed

lemma CFArrayReleaseValues_all:
  assumes "array_holds array xs"
  shows "\<exists>array'. CFArrayReleaseValues array 0 (ar_count array) True = Some (array', release_calls (ar_callBacks array) xs) \<and>
    (ar_mutable array \<longrightarrow> array_holds array' []) \<and> ar_mutable array' = ar_mutable array \<and>
    ar_callBacks array' = ar_callBacks array \<and> ar_mutations array' = ar_mutations array"
proof (cases "xs = []")
  case True
  then show ?thesis using assms
    by (auto simp: CFArrayReleaseValues_def Let_def array_holds_def array_block_def array_off_def)
next
  case False
  then obtain m where m: "array_block array = Some m" "array_off array + length xs \<le> length m" "slice m (array_off array) (length xs) = map Some xs"
    using array_block_holds [OF assms] by blast
  have n: "ar_count array = length xs" using assms by (simp add: array_holds_def)
  let ?c = "acb_release (ar_callBacks array) \<noteq> NULL"
  obtain m' where "array_release_loop ?c array 0 (length xs) = Some (set_block array m', release_calls (ar_callBacks array) xs)"
    using array_release_loop_works [OF m(1), of 0 "length xs" ?c xs] m(2,3) by (auto simp: release_calls_def)
  moreover have "ar_mutable array \<Longrightarrow> ar_store array \<noteq> None" using m(1) by (auto simp: array_block_def)
  ultimately show ?thesis using n False
    by (auto simp: CFArrayReleaseValues_def Let_def array_holds_def array_block_def array_off_def release_calls_def)
qed

lemma CFArrayRemoveAllValues_works:
  assumes "array_holds array xs" "ar_mutable array"
  shows "\<exists>array'. CFArrayRemoveAllValues array = Some (array', release_calls (ar_callBacks array) xs) \<and> array_holds array' [] \<and>
    ar_mutable array' \<and> ar_callBacks array' = ar_callBacks array \<and> ar_mutations array' = ar_mutations array + 1"
proof -
  obtain array' where a: "CFArrayReleaseValues array 0 (ar_count array) True = Some (array', release_calls (ar_callBacks array) xs)"
      "array_holds array' []" "ar_mutable array'" "ar_callBacks array' = ar_callBacks array" "ar_mutations array' = ar_mutations array"
    using CFArrayReleaseValues_all [OF assms(1)] assms(2) by auto
  have "array'\<lparr>ar_count := 0\<rparr> = array'" using a(2) by (simp add: array_holds_def)
  then show ?thesis using a by (auto simp: CFArrayRemoveAllValues_def)
qed

section \<open>Examples\<close>

lemma array_holds_reads:
  assumes "array_holds array xs"
  shows "CFArrayGetCount array = length xs" "i < length xs \<Longrightarrow> CFArrayGetValueAtIndex array i = Some (xs ! i)"
    "CFArrayGetValues array 0 (length xs) (fresh_cells (length xs)) = Some (map Some xs)"
    "CFArrayApplyFunction array 0 (length xs) = Some xs"
  using assms bucket_ld_holds [OF assms] CFArrayGetValues_holds [OF assms, of 0 "length xs" "fresh_cells (length xs)"]
    array_apply_loop_holds [OF assms, of 0 "length xs"]
  by (simp_all add: CFArrayGetCount_def CFArrayGetValueAtIndex_def CFArrayApplyFunction_def array_holds_def)

text \<open>One call of the enumeration delivers all values, the next one none.\<close>

definition enumeration_start :: FastEnumerationState where
  "enumeration_start = \<lparr> fe_state = 0, fe_itemsPtr = None, fe_mutationsPtr = None \<rparr>"

definition enumerates :: "CFArray \<Rightarrow> ptr list \<Rightarrow> bool" where
  "enumerates array xs \<longleftrightarrow>
     (case CFArrayFastEnumeration array enumeration_start of
        Some (n, state) \<Rightarrow> n = length xs \<and> CFArrayFastEnumeration array state = Some (0, state) \<and>
          (n = 0 \<or> (case fe_itemsPtr state of Some (m, i) \<Rightarrow> slice m i n = map Some xs | None \<Rightarrow> False))
      | None \<Rightarrow> False)"

lemma array_holds_enumerates:
  assumes "array_holds array xs"
  shows "enumerates array xs"
proof (cases "xs = []")
  case True
  then show ?thesis using assms by (simp add: enumerates_def CFArrayFastEnumeration_def array_holds_def)
next
  case False
  then obtain m where m: "array_block array = Some m" "slice m (array_off array) (length xs) = map Some xs"
    using array_block_holds [OF assms] by blast
  have "ar_count array = length xs" using assms by (simp add: array_holds_def)
  then show ?thesis using m False CFArrayGetBucketsPtr_holds [OF m(1)]
    by (simp add: enumerates_def CFArrayFastEnumeration_def enumeration_start_def)
qed

definition array_env :: cf_env where
  "array_env = \<lparr> env_alloc = \<lambda>_. True, env_retain = \<lambda>_ p. p, env_equal = \<lambda>_ p q. p mod 100 = q mod 100, env_compare = \<lambda>_ _ p q. 0 \<rparr>"

lemma array_env_simps [simp]: "env_alloc array_env n" "env_retain array_env f p = p" "env_equal array_env f p q \<longleftrightarrow> p mod 100 = q mod 100"
  by (simp_all add: array_env_def)

lemma retained_item_array_env [simp]: "retained_item array_env cb = (\<lambda>v. v)"
  by (auto simp: retained_item_def)

definition empty_array :: CFArray where
  "empty_array = \<lparr> ar_mutable = True, ar_callBacks = kCFTypeArrayCallBacks, ar_count = 0, ar_mutations = 1, ar_buckets = [], ar_store = None \<rparr>"

lemma empty_array_simps [simp]: "array_holds empty_array []" "ar_mutable empty_array" "ar_callBacks empty_array = kCFTypeArrayCallBacks"
  by (simp_all add: empty_array_def array_holds_def array_block_def)

definition digits_array :: CFArray where
  "digits_array = \<lparr> ar_mutable = True, ar_callBacks = kCFNullArrayCallBacks, ar_count = 4, ar_mutations = 1, ar_buckets = [],
     ar_store = Some \<lparr> dq_leftIdx = 1, dq_capacity = 8, dq_buckets = [None, Some 5, Some 32, Some 21, Some 12, None, None, None] \<rparr> \<rparr>"

lemma digits_array_simps [simp]:
  "array_holds digits_array [5, 32, 21, 12]" "ar_mutable digits_array" "ar_callBacks digits_array = kCFNullArrayCallBacks"
  by (simp_all add: digits_array_def array_holds_def array_block_def array_off_def slice_def)

end
