(* ===== verification/CF_ArraySort.thy ===== *)
theory CF_ArraySort
  imports CF_Array
begin

text \<open>Sorting and binary search of arrays: the lemmas and properties of \<open>CFArraySortValues\<close>, \<open>__CFZSort\<close> and \<open>CFArrayBSearchValues\<close>.\<close>

section \<open>Sorting\<close>

text \<open>One pass of the bubble sort and the whole sort, on lists.\<close>

fun bubble :: "('a \<Rightarrow> 'a \<Rightarrow> int) \<Rightarrow> 'a list \<Rightarrow> 'a list" where
  "bubble cmp (x # y # zs) = (if cmp y x < 0 then y # bubble cmp (x # zs) else x # bubble cmp (y # zs))"
| "bubble cmp xs = xs"

lemma mset_bubble [simp]: "mset (bubble cmp xs) = mset xs"
  by (induction cmp xs rule: bubble.induct) auto

lemma length_bubble [simp]: "length (bubble cmp xs) = length xs"
  by (induction cmp xs rule: bubble.induct) auto

lemma bubble_Nil_iff [simp]: "bubble cmp xs = [] \<longleftrightarrow> xs = []"
  by (metis length_bubble length_0_conv)

lemma zsort_pass_works:
  assumes "array_holds array (pre @ seg @ post)" "seg \<noteq> []"
  shows "\<exists>array'. zsort_pass cmp array (length pre) (length seg - 1) = Some array' \<and> array_holds array' (pre @ bubble cmp seg @ post) \<and>
    ar_mutable array' = ar_mutable array \<and> ar_callBacks array' = ar_callBacks array"
  using assms
proof (induction cmp seg arbitrary: array pre rule: bubble.induct)
  case (1 cmp x y zs)
  have ld: "CFArrayGetValueAtIndex array (length pre) = Some x" "CFArrayGetValueAtIndex array (length pre + 1) = Some y"
    using bucket_ld_holds [OF 1(3), of "length pre"] bucket_ld_holds [OF 1(3), of "length pre + 1"]
    by (simp_all add: CFArrayGetValueAtIndex_def nth_append)
  show ?case
  proof (cases "cmp y x < 0")
    case True
    have "(pre @ (x # y # zs) @ post)[length pre := y, length pre + 1 := x] = (pre @ [y]) @ (x # zs) @ post"
      by (simp add: list_update_append)
    then obtain a1 where a1: "CFArrayExchangeValuesAtIndices array (length pre) (length pre + 1) = Some a1"
        "array_holds a1 ((pre @ [y]) @ (x # zs) @ post)" "ar_mutable a1 = ar_mutable array" "ar_callBacks a1 = ar_callBacks array"
      using CFArrayExchangeValuesAtIndices_works [OF 1(3), of "length pre" "length pre + 1"] by (auto simp: nth_append)
    then show ?thesis using 1(1) [OF True a1(2)] True ld by simp
  next
    case False
    then show ?thesis using 1(2) [OF False, of array "pre @ [x]"] 1(3) ld by simp
  qed
qed simp_all

function bubble_sort :: "('a \<Rightarrow> 'a \<Rightarrow> int) \<Rightarrow> 'a list \<Rightarrow> 'a list" where
  "bubble_sort cmp xs =
     (if 1 < length xs then bubble_sort cmp (butlast (bubble cmp xs)) @ [last (bubble cmp xs)] else xs)"
  by auto
termination by (relation "measure (\<lambda>(cmp, xs). length xs)") auto

declare bubble_sort.simps [simp del]

lemma CFZSort_works:
  assumes "array_holds array (pre @ seg @ post)"
  shows "\<exists>array'. CFZSort cmp array (length pre) (length seg) = Some array' \<and> array_holds array' (pre @ bubble_sort cmp seg @ post) \<and>
    ar_mutable array' = ar_mutable array \<and> ar_callBacks array' = ar_callBacks array"
  using assms
proof (induction cmp seg arbitrary: array post rule: bubble_sort.induct)
  case (1 cmp seg)
  show ?case
  proof (cases "1 < length seg")
    case True
    let ?b = "bubble cmp seg"
    have ne: "seg \<noteq> []" using True by auto
    obtain a1 where a1: "zsort_pass cmp array (length pre) (length seg - 1) = Some a1" "array_holds a1 (pre @ ?b @ post)"
        "ar_mutable a1 = ar_mutable array" "ar_callBacks a1 = ar_callBacks array"
      using zsort_pass_works [OF 1(2) ne] by blast
    have "?b = butlast ?b @ [last ?b]" using ne by simp
    then have "pre @ ?b @ post = pre @ butlast ?b @ last ?b # post" by (metis append_assoc append_Cons append_Nil)
    with a1(2) have "array_holds a1 (pre @ butlast ?b @ last ?b # post)" by (simp only:)
    then obtain a2 where "CFZSort cmp a1 (length pre) (length (butlast ?b)) = Some a2"
        "array_holds a2 (pre @ bubble_sort cmp (butlast ?b) @ last ?b # post)"
        "ar_mutable a2 = ar_mutable array" "ar_callBacks a2 = ar_callBacks array"
      using 1(1) [OF True, of a1 "last ?b # post"] a1(3,4) by auto
    then show ?thesis using True a1(1) by (simp add: CFZSort.simps [of cmp array] bubble_sort.simps [of cmp seg])
  next
    case False
    then show ?thesis using 1(2) by (simp add: CFZSort.simps [of cmp array] bubble_sort.simps [of cmp seg])
  qed
qed

context comparator
begin

lemma bubble_last: "z \<in> set (bubble cmp (x # xs)) \<Longrightarrow> cmp z (last (bubble cmp (x # xs))) \<le> 0"
proof (induction xs arbitrary: x z)
  case (Cons y zs)
  have set: "set (bubble cmp (u # zs)) = set (u # zs)" for u by (metis mset_bubble set_mset_mset)
  show ?case
  proof (cases "cmp y x < 0")
    case True
    then have "cmp y (last (bubble cmp (x # zs))) \<le> 0" using cmp_le_trans [of y x] Cons.IH [of x x] set [of x] by simp
    then show ?thesis using True Cons.IH [of z x] Cons.prems by auto
  next
    case False
    then have "cmp x y \<le> 0" using cmp_swap [of x y] by simp
    then have "cmp x (last (bubble cmp (y # zs))) \<le> 0" using cmp_le_trans [of x y] Cons.IH [of y y] set [of y] by simp
    then show ?thesis using False Cons.IH [of z y] Cons.prems by auto
  qed
qed simp

lemma filter_bubble: "filter (\<lambda>z. cmp a z = 0) (bubble cmp (x # xs)) = filter (\<lambda>z. cmp a z = 0) (x # xs)"
proof (induction xs arbitrary: x)
  case (Cons y zs)
  show ?case
  proof (cases "cmp y x < 0")
    case True
    then show ?thesis using Cons.IH [of x] cmp_eq_common [of a y x] by auto
  next
    case False
    then show ?thesis using Cons.IH [of y] by simp
  qed
qed simp

lemma bubble_sort_stable: "stably_sorted cmp xs (bubble_sort cmp xs)"
proof (induction "length xs" arbitrary: xs)
  case 0
  then show ?case by (simp add: bubble_sort.simps stably_sorted_def)
next
  case (Suc n)
  then obtain y ys where xs: "xs = y # ys" by (cases xs) auto
  let ?b = "bubble cmp xs"
  show ?case
  proof (cases "1 < length xs")
    case True
    have b: "?b = butlast ?b @ [last ?b]" using xs by (metis append_butlast_last_id bubble_Nil_iff list.distinct(1))
    have IH: "stably_sorted cmp (butlast ?b) (bubble_sort cmp (butlast ?b))" using Suc by simp
    then have "set (bubble_sort cmp (butlast ?b)) = set (butlast ?b)" unfolding stably_sorted_def by (metis set_mset_mset)
    then have le: "\<forall>z \<in> set (bubble_sort cmp (butlast ?b)). cmp z (last ?b) \<le> 0"
      using bubble_last [of _ y ys] xs by (auto dest: in_set_butlastD)
    have "mset (bubble_sort cmp xs) = mset (butlast ?b @ [last ?b])"
      using IH True by (simp add: bubble_sort.simps [of cmp xs] stably_sorted_def)
    moreover have "filter (\<lambda>z. cmp a z = 0) (bubble_sort cmp xs) = filter (\<lambda>z. cmp a z = 0) (butlast ?b @ [last ?b])" for a
      using IH True by (simp add: bubble_sort.simps [of cmp xs] stably_sorted_def)
    moreover have "sorted_wrt (\<lambda>a b. cmp a b \<le> 0) (bubble_sort cmp xs)"
      using IH True le by (simp add: bubble_sort.simps [of cmp xs] stably_sorted_def sorted_wrt_append)
    ultimately show ?thesis using filter_bubble [of _ y ys] unfolding b [symmetric] stably_sorted_def xs by simp
  next
    case False
    then show ?thesis using xs by (simp add: bubble_sort.simps stably_sorted_def)
  qed
qed

end

lemma length_stably_sorted: "stably_sorted cmp xs ys \<Longrightarrow> length ys = length xs"
  unfolding stably_sorted_def by (metis mset_eq_length)

lemma CFArraySortAllValues_eq:
  assumes "array_holds array xs" "ar_mutable array" "acb_retain (ar_callBacks array) = NULL \<longleftrightarrow> acb_release (ar_callBacks array) = NULL"
  shows "CFArraySortAllValues env cmp array = CFArraySortValues env cmp array 0 (length xs)"
proof -
  have "CFArrayGetCount array = length xs" using assms(1) by (simp add: CFArrayGetCount_def array_holds_def)
  then show ?thesis using assms(2,3) by (auto simp: CFArraySortAllValues_def CFArraySortValues_def Let_def)
qed

lemma CFArraySortValues_works:
  assumes "comparator cmp" "array_holds array xs" "ar_mutable array" "A + n \<le> length xs" "length xs \<le> 2 ^ 29" "\<And>k. env_alloc env k"
    and cb: "cb = ar_callBacks array" and both: "both \<longleftrightarrow> acb_retain cb \<noteq> NULL \<and> acb_release cb \<noteq> NULL \<and> 2 \<le> n"
  shows "\<exists>ys array'. stably_sorted cmp (take n (drop A xs)) ys \<and>
    CFArraySortValues env cmp array A n =
      Some (array', if both then map Retain ys @ map Release (take n (drop A xs)) else []) \<and>
    array_holds array' (take A xs @ (if both then map (retained_item env cb) ys else ys) @ drop (A + n) xs) \<and>
    ar_mutable array' \<and> ar_callBacks array' = cb"
proof -
  let ?seg = "take n (drop A xs)"
  have xs: "xs = take A xs @ ?seg @ drop (A + n) xs" by (metis append_take_drop_id drop_drop add.commute)
  have len: "length ?seg = n" "length (take A xs) = A" using assms(4) by simp_all
  let ?z = "acb_retain cb \<noteq> NULL \<and> acb_release cb = NULL \<or> acb_retain cb = NULL \<and> acb_release cb \<noteq> NULL"
  consider "?z" | "\<not> ?z" "n < 2" | "\<not> ?z" "2 \<le> n" by linarith
  then show ?thesis
  proof cases
    case 1
    have "array_holds array (take A xs @ ?seg @ drop (A + n) xs)" using assms(2) xs by simp
    then obtain array' where "CFZSort cmp array A n = Some array'" "array_holds array' (take A xs @ bubble_sort cmp ?seg @ drop (A + n) xs)"
        "ar_mutable array'" "ar_callBacks array' = cb"
      using CFZSort_works [of array "take A xs" ?seg "drop (A + n) xs" cmp] len assms(3) cb by auto
    then show ?thesis using 1 assms(3) comparator.bubble_sort_stable [OF assms(1), of ?seg] both cb
      by (intro exI [of _ "bubble_sort cmp ?seg"] exI [of _ array']) (auto simp: CFArraySortValues_def Let_def)
  next
    case 2
    have "stably_sorted cmp ?seg ?seg" using 2(2) len(1) by (cases ?seg) (auto simp: stably_sorted_def)
    then show ?thesis using 2 assms(2,3) both cb xs
      by (intro exI [of _ ?seg] exI [of _ array]) (auto simp: CFArraySortValues_def Let_def)
  next
    case 3
    obtain ys where ys: "CFQSortArray cmp (map Some ?seg) n 8 = Some (map Some ys)" "stably_sorted cmp ?seg ys"
      using sort_array_works [OF assms(1), of 0 8 ?seg "[]"] len(1) assms(4,5) by (auto simp: CFQSortArray_def)
    have "length ys = n" using length_stably_sorted [OF ys(2)] len(1) by simp
    then obtain array' where a: "CFArrayReplaceValues env array A n ys = Some (array', retain_calls cb ys @ release_calls cb ?seg)"
        "array_holds array' (take A xs @ map (retained_item env cb) ys @ drop (A + n) xs)" "ar_mutable array'" "ar_callBacks array' = cb"
      using CFArrayReplaceValues_works [OF assms(2-4), of ys env] assms(4-6) cb by auto
    have "CFArraySortValues env cmp array A n = CFArrayReplaceValues env array A n ys"
      using 3 assms(3,4,6) cb ys(1) CFArrayGetValues_holds [OF assms(2,4), of "fresh_cells n"]
      by (auto simp: CFArraySortValues_def Let_def cell_values_def comp_def list_all_length)
    moreover have "\<not> both \<Longrightarrow> map (retained_item env cb) ys = ys \<and> retain_calls cb ys = [] \<and> release_calls cb ?seg = []"
      using 3 both by (auto simp: retained_item_def retain_calls_def release_calls_def intro: map_idI)
    moreover have "both \<Longrightarrow> retain_calls cb ys = map Retain ys \<and> release_calls cb ?seg = map Release ?seg"
      using both by (simp add: retain_calls_def release_calls_def)
    ultimately show ?thesis using a ys(2) by (intro exI [of _ ys] exI [of _ array']) auto
  qed
qed

section \<open>Binary search\<close>

text \<open>The place of a value in a sorted list: what comes before is smaller and nothing from there on is.\<close>

definition insertion_point :: "('a \<Rightarrow> 'a \<Rightarrow> int) \<Rightarrow> 'a list \<Rightarrow> 'a \<Rightarrow> nat \<Rightarrow> bool" where
  "insertion_point cmp r v k \<longleftrightarrow>
     k \<le> length r \<and> (\<forall>j < k. cmp (r ! j) v < 0) \<and> (\<forall>j < length r. k \<le> j \<longrightarrow> \<not> cmp (r ! j) v < 0)"

context comparator
begin

lemma smaller_down:
  assumes "sorted_wrt (\<lambda>a b. cmp a b \<le> 0) r" "i \<le> j" "j < length r" "cmp (r ! j) v < 0"
  shows "cmp (r ! i) v < 0"
proof (cases "i = j")
  case False
  have "cmp (r ! i) (r ! j) \<le> 0" using assms(1-3) False by (simp add: sorted_wrt_iff_nth_less)
  moreover have "cmp v (r ! i) \<le> 0 \<Longrightarrow> cmp v (r ! j) \<le> 0" using cmp_le_trans calculation by blast
  ultimately show ?thesis using assms(4) cmp_swap [of v] by (metis neg_0_less_iff_less not_le)
qed (use assms in simp)

lemma insertion_pointI:
  assumes "sorted_wrt (\<lambda>a b. cmp a b \<le> 0) r" "k \<le> length r"
    "0 < k \<longrightarrow> cmp (r ! (k - 1)) v < 0" "k < length r \<longrightarrow> \<not> cmp (r ! k) v < 0"
  shows "insertion_point cmp r v k"
proof -
  have "cmp (r ! j) v < 0" if "j < k" for j
  proof -
    have "j \<le> k - 1" "k - 1 < length r" "0 < k" using that assms(2) by linarith+
    then show ?thesis using smaller_down [OF assms(1)] assms(3) by blast
  qed
  moreover have "\<not> cmp (r ! j) v < 0" if "j < length r" "k \<le> j" for j
  proof -
    have "k < length r" using that by linarith
    then show ?thesis using smaller_down [OF assms(1) that(2,1)] assms(4) by blast
  qed
  ultimately show ?thesis using assms(2) by (simp add: insertion_point_def)
qed

end

text \<open>\<open>u\<close> items are known to be smaller, and the item \<open>2 ^ lg\<close> further is not or is past the end.\<close>

lemma array_bsearch_loop_works:
  assumes ld: "\<And>i. i < n \<Longrightarrow> CFArrayGetValueAtIndex array (A + i) = Some (r ! i)" and "lg \<le> 30" "u + 2 ^ lg \<le> n + 1"
    "0 < u \<longrightarrow> cmp (r ! (u - 1)) v < 0" "u + 2 ^ lg \<le> n \<longrightarrow> \<not> cmp (r ! (u + 2 ^ lg - 1)) v < 0"
  shows "\<exists>k. array_bsearch_loop cmp array A v (int u - 1) lg = Some (int k - 1) \<and> k \<le> n \<and>
    (0 < k \<longrightarrow> cmp (r ! (k - 1)) v < 0) \<and> (k < n \<longrightarrow> \<not> cmp (r ! k) v < 0)"
  using assms(2-)
proof (induction lg arbitrary: u)
  case 0
  then show ?case by (intro exI [of _ u]) auto
next
  case (Suc lg)
  let ?s = "2 ^ lg :: nat"
  let ?i = "u + ?s - 1"
  have one: "1 \<le> ?s" by simp
  have step: "int_shl1 lg = Some ?s" using Suc.prems(1) by (simp add: int_shl1_def)
  have "int A + (int u - 1) + int ?s = int (A + ?i)" using one by linarith
  then have ni: "nat (int A + (int u - 1) + int ?s) = A + ?i" by linarith
  have bound: "u + 2 * ?s \<le> n + 1" using Suc.prems(2) by simp
  then have "?i < n" using one by linarith
  note item = ld [OF this]
  have E: "array_bsearch_loop cmp array A v (int u - 1) (Suc lg) =
      array_bsearch_loop cmp array A v (if cmp (r ! ?i) v < 0 then int (u + ?s) - 1 else int u - 1) lg"
    unfolding array_bsearch_loop.simps(2) step bind.bind_lunit ni item by (simp add: algebra_simps)
  show ?case
  proof (cases "cmp (r ! ?i) v < 0")
    case True
    have "(u + ?s) + ?s \<le> n \<Longrightarrow> \<not> cmp (r ! ((u + ?s) + ?s - 1)) v < 0" using Suc.prems(4) by (simp add: add.assoc mult_2)
    then show ?thesis using Suc.IH [of "u + ?s"] Suc.prems(1) True bound E by simp
  next
    case False
    then show ?thesis using Suc.IH [of u] Suc.prems(1,3) bound E by simp
  qed
qed

text \<open>The first probe: \<open>s\<close> is the largest power of two that is at most \<open>n\<close>.\<close>

lemma bsearch_first_probe:
  assumes "comparator cmp" "sorted_wrt (\<lambda>a b. cmp a b \<le> 0) r" "s \<le> length r" "length r < 2 * s" "1 \<le> s"
    and u: "u = (if cmp (r ! (s - 1)) v < 0 then length r + 1 - s else 0)"
  shows "u + s \<le> length r + 1" "0 < u \<longrightarrow> cmp (r ! (u - 1)) v < 0" "u + s \<le> length r \<longrightarrow> \<not> cmp (r ! (u + s - 1)) v < 0"
    "(if cmp (r ! (s - 1)) v < 0 then int (length r) - int s else - 1) = int u - 1"
  using assms(3-5) comparator.smaller_down [OF assms(1,2), of "u - 1" "s - 1" v]
  by (simp_all add: u split: if_splits)

lemma CFArrayBSearchValues_works:
  assumes "comparator cmp" "array_holds array xs" "A + n \<le> length xs" "n < 2 ^ 31"
    "sorted_wrt (\<lambda>a b. cmp a b \<le> 0) (take n (drop A xs))"
  shows "\<exists>k. CFArrayBSearchValues cmp array A n v = Some (int (A + k)) \<and> insertion_point cmp (take n (drop A xs)) v k"
proof (cases "n = 0")
  case True
  then show ?thesis by (intro exI [of _ 0]) (simp add: CFArrayBSearchValues_def insertion_point_def)
next
  case False
  define r where "r = take n (drop A xs)"
  have n: "length r = n" using assms(3) by (simp add: r_def)
  have ld: "CFArrayGetValueAtIndex array (A + i) = Some (r ! i)" if "i < n" for i
    using bucket_ld_holds [OF assms(2)] assms(3) that by (simp add: CFArrayGetValueAtIndex_def r_def)
  note ipI = comparator.insertion_pointI [OF assms(1,5) [folded r_def], unfolded n]
  let ?lg = "flsl n - 1"
  let ?s = "2 ^ ?lg :: nat"
  have s: "?s \<le> n" "n < 2 * ?s" "1 \<le> ?s" using flsl_split [of n] False by simp_all
  have lg: "?lg \<le> 30" using flsl_le [OF assms(4)] by simp
  then have step: "int_shl1 ?lg = Some ?s" by (simp add: int_shl1_def)
  have lds: "CFArrayGetValueAtIndex array (A + n - 1) = Some (r ! (n - 1))" "CFArrayGetValueAtIndex array A = Some (r ! 0)"
      "CFArrayGetValueAtIndex array (A + ?s - 1) = Some (r ! (?s - 1))"
    using ld [of "n - 1"] ld [of 0] ld [of "?s - 1"] False s by simp_all
  have "\<exists>k. CFArrayBSearchValues cmp array A n v = Some (int (A + k)) \<and> k \<le> n \<and>
    (0 < k \<longrightarrow> cmp (r ! (k - 1)) v < 0) \<and> (k < n \<longrightarrow> \<not> cmp (r ! k) v < 0)"
  proof (cases "cmp (r ! (n - 1)) v < 0")
    case True
    then show ?thesis using False lds by (intro exI [of _ n]) (simp add: CFArrayBSearchValues_def)
  next
    case nl: False
    show ?thesis
    proof (cases "cmp v (r ! 0) < 0")
      case True
      then have "\<not> cmp (r ! 0) v < 0" using comparator.cmp_swap [OF assms(1), of v "r ! 0"] by simp
      then show ?thesis using True nl False lds by (intro exI [of _ 0]) (simp add: CFArrayBSearchValues_def)
    next
      case nf: False
      note probe = bsearch_first_probe [OF assms(1,5) [folded r_def], of ?s _ v, unfolded n, OF s refl]
      obtain k where "array_bsearch_loop cmp array A v (if cmp (r ! (?s - 1)) v < 0 then int n - int ?s else - 1) ?lg = Some (int k - 1)"
          "k \<le> n" "0 < k \<longrightarrow> cmp (r ! (k - 1)) v < 0" "k < n \<longrightarrow> \<not> cmp (r ! k) v < 0"
        using array_bsearch_loop_works [where cmp = cmp and v = v, OF ld lg probe(1-3)] unfolding probe(4) by blast
      then show ?thesis using nl nf False lds step by (intro exI [of _ k]) (auto simp: CFArrayBSearchValues_def Let_def split: if_splits)
    qed
  qed
  then show ?thesis using ipI unfolding r_def [symmetric] by blast
qed

section \<open>Properties\<close>

text \<open>
  C16.  Sorting a range leaves its values stably sorted and the rest of the array as it was, by the
  merge sort on a copy or the bubble sort in place that an array with only one of the retain and
  release callbacks uses; the copy's values are retained before the old ones are released.  The
  function that sorts the whole array does the same.
\<close>

theorem CFArraySortValues_correct:
  assumes "comparator cmp" "array_holds array xs" "ar_mutable array" "A + n \<le> length xs" "length xs \<le> 2 ^ 29" "\<forall>k. env_alloc env k"
    "cb = ar_callBacks array" "both \<longleftrightarrow> acb_retain cb \<noteq> NULL \<and> acb_release cb \<noteq> NULL \<and> 2 \<le> n"
  shows "\<exists>ys array'. stably_sorted cmp (take n (drop A xs)) ys \<and>
    CFArraySortValues env cmp array A n =
      Some (array', if both then map Retain ys @ map Release (take n (drop A xs)) else []) \<and>
    array_holds array' (take A xs @ (if both then map (retained_item env cb) ys else ys) @ drop (A + n) xs) \<and>
    (A = 0 \<and> n = length xs \<and> (acb_retain cb = NULL \<longleftrightarrow> acb_release cb = NULL) \<longrightarrow>
      CFArraySortAllValues env cmp array = CFArraySortValues env cmp array A n)"
  using CFArraySortValues_works [OF assms(1-5) _ assms(7,8)] assms(6) CFArraySortAllValues_eq [OF assms(2,3), of env cmp] assms(7) by blast

theorem CFArraySortValues_correct_witness:
  "\<exists>ys array'. stably_sorted digit_compare [32, 21, 12] ys \<and>
     CFArraySortValues array_env digit_compare digits_array 1 3 = Some (array', []) \<and> array_holds array' (5 # ys)"
  using CFArraySortValues_correct [OF digit_compare.comparator_axioms digits_array_simps(1,2), of 1 3 array_env kCFNullArrayCallBacks False]
  by (simp add: kCFNullArrayCallBacks_def)

text \<open>
  C17.  Binary search in a sorted range of fewer than \<open>2 ^ 31\<close> values ends and returns the index at
  which the value belongs: everything in the range before it is smaller, nothing from it on is.
\<close>

theorem CFArrayBSearchValues_correct:
  assumes "comparator cmp" "array_holds array xs" "A + n \<le> length xs" "n < 2 ^ 31"
    "sorted_wrt (\<lambda>a b. cmp a b \<le> 0) (take n (drop A xs))"
  shows "\<exists>k. CFArrayBSearchValues cmp array A n v = Some (int (A + k)) \<and> insertion_point cmp (take n (drop A xs)) v k"
  by (rule CFArrayBSearchValues_works [OF assms])

theorem CFArrayBSearchValues_correct_witness:
  "\<exists>k. CFArrayBSearchValues digit_compare digits_array 2 2 1042 = Some (int (2 + k)) \<and> insertion_point digit_compare [21, 12] 1042 k"
  using CFArrayBSearchValues_correct [OF digit_compare.comparator_axioms digits_array_simps(1), of 2 2 1042]
  by (simp add: digit_compare_def)

end
