(* ===== verification/CF_ArrayEdit.thy ===== *)
theory CF_ArrayEdit
  imports CF_Array
begin

text \<open>
  Arrays as sequences that are edited: the interpretation of the replaceable sequence, the other
  operations derived from it, any sequence of edits against the same edits of a list, and the
  references an array owns during its life.
\<close>

section \<open>Arrays as replaceable sequences\<close>

text \<open>A mutable array in an environment where allocation succeeds.\<close>

definition array_rep :: "cf_env \<times> CFArray \<Rightarrow> ptr list \<Rightarrow> bool" where
  "array_rep s xs \<longleftrightarrow> array_holds (snd s) xs \<and> ar_mutable (snd s) \<and> (\<forall>n. env_alloc (fst s) n)"

definition array_replace :: "cf_env \<times> CFArray \<Rightarrow> nat \<Rightarrow> nat \<Rightarrow> ptr list \<Rightarrow> ((cf_env \<times> CFArray) \<times> cf_call list) option" where
  "array_replace s A B vs = map_option (\<lambda>(array, calls). ((fst s, array), calls)) (CFArrayReplaceValues (fst s) (snd s) A B vs)"

lemma retain_calls_simps [simp]: "retain_calls cb [] = []" "retain_calls cb (us @ vs) = retain_calls cb us @ retain_calls cb vs"
  by (simp_all add: retain_calls_def)

definition array_hdr :: "cf_env \<times> CFArray \<Rightarrow> cf_env \<times> CFArrayCallBacks" where
  "array_hdr s = (fst s, ar_callBacks (snd s))"

lemma array_replace_rep:
  assumes "array_rep s xs" "A + B \<le> length xs" "length xs - B + length vs \<le> 2 ^ 29"
  shows "\<exists>s'. array_replace s A B vs = Some (s', retain_calls (snd (array_hdr s)) vs @ release_calls (snd (array_hdr s)) (take B (drop A xs))) \<and>
      array_rep s' (take A xs @ map (case_prod retained_item (array_hdr s)) vs @ drop (A + B) xs) \<and> array_hdr s' = array_hdr s"
proof -
  obtain env array where s: "s = (env, array)" by fastforce
  obtain array' where "CFArrayReplaceValues env array A B vs =
        Some (array', retain_calls (ar_callBacks array) vs @ release_calls (ar_callBacks array) (take B (drop A xs)))"
      "array_holds array' (take A xs @ map (retained_item env (ar_callBacks array)) vs @ drop (A + B) xs)"
      "ar_mutable array'" "ar_callBacks array' = ar_callBacks array"
    using CFArrayReplaceValues_works [of array xs A B vs env] assms s by (auto simp: array_rep_def)
  then show ?thesis
    using assms(1) s by (intro exI [of _ "(env, array')"]) (simp add: array_replace_def array_rep_def array_hdr_def)
qed

interpretation array_seq: replaceable_sequence array_rep array_replace array_hdr "case_prod retained_item"
  "\<lambda>h. retain_calls (snd h)" "\<lambda>h. release_calls (snd h)" "2 ^ 29"
  by unfold_locales (rule array_replace_rep, simp_all)

lemma array_append_loop_each:
  "array_rep (env, array) xs \<Longrightarrow> array_holds other ys \<Longrightarrow> i + n \<le> length ys \<Longrightarrow> length xs + n \<le> 2 ^ 29 \<Longrightarrow>
   map_option (\<lambda>(array, calls). ((env, array), calls)) (array_append_loop env array other i n) =
     array_seq.append_each (env, array) (length xs) (take n (drop i ys))"
proof (induction n arbitrary: array xs i)
  case (Suc n)
  have cnt: "ar_count array = length xs" using Suc.prems(1) by (simp add: array_rep_def array_holds_def)
  have v: "CFArrayGetValueAtIndex other i = Some (ys ! i)" using bucket_ld_holds [OF Suc.prems(2), of i] Suc.prems(3) by (simp add: CFArrayGetValueAtIndex_def)
  obtain array' where a: "array_replace (env, array) (length xs) 0 [ys ! i] = Some ((env, array'), retain_calls (ar_callBacks array) [ys ! i])"
      "array_rep (env, array') (xs @ [retained_item env (ar_callBacks array) (ys ! i)])"
    using array_seq.append_rep [OF Suc.prems(1), of "ys ! i"] Suc.prems(4) by (auto simp: array_replace_def array_hdr_def)
  then have "CFArrayAppendValue env array (ys ! i) = Some (array', retain_calls (ar_callBacks array) [ys ! i])"
    by (auto simp: CFArrayAppendValue_def array_replace_def cnt)
  moreover have IH: "map_option (\<lambda>(array, calls). ((env, array), calls)) (array_append_loop env array' other (Suc i) n) =
      array_seq.append_each (env, array') (Suc (length xs)) (take n (drop (Suc i) ys))"
    using Suc.IH [OF a(2) Suc.prems(2), of "Suc i"] Suc.prems(3,4) by simp
  ultimately show ?case using Suc.prems(3) v a(1)
    by (cases "array_append_loop env array' other (Suc i) n") (auto simp: take_drop_Suc IH [symmetric])
qed simp

lemma array_append_loop_works:
  assumes "array_rep (env, array) xs" "array_holds other ys" "i + n \<le> length ys" "length xs + n \<le> 2 ^ 29"
  shows "\<exists>array'. array_append_loop env array other i n = Some (array', retain_calls (ar_callBacks array) (take n (drop i ys))) \<and>
    array_holds array' (xs @ map (retained_item env (ar_callBacks array)) (take n (drop i ys))) \<and>
    ar_mutable array' \<and> ar_callBacks array' = ar_callBacks array"
proof -
  have "length xs + length (take n (drop i ys)) \<le> 2 ^ 29" using assms(3,4) by simp
  from array_seq.append_each_rep [OF assms(1) this] array_append_loop_each [OF assms] obtain s' where
    "map_option (\<lambda>(array, calls). ((env, array), calls)) (array_append_loop env array other i n) = Some (s', retain_calls (ar_callBacks array) (take n (drop i ys)))"
    "array_rep s' (xs @ map (retained_item env (ar_callBacks array)) (take n (drop i ys)))" "array_hdr s' = (env, ar_callBacks array)"
    by (auto simp: array_hdr_def)
  then show ?thesis by (cases s') (auto simp: array_rep_def array_hdr_def)
qed

lemma CFArraySetCapacity_works:
  assumes "array_holds array xs" "ar_mutable array" "CFArrayDequeRoundUpCapacity cap = Some c" "c \<le> 2 ^ 30" "\<And>k. env_alloc env k"
    "\<And>d. ar_store array = Some d \<Longrightarrow> dq_capacity d \<le> c"
  shows "\<exists>array'. CFArraySetCapacity env array cap = Some array' \<and> array_holds array' xs \<and> ar_mutable array' \<and>
    ar_callBacks array' = ar_callBacks array"
proof (cases "ar_store array")
  case None
  then have "xs = []" using assms(1,2) by (simp add: array_holds_def array_block_def)
  then show ?thesis using None assms by (simp add: CFArraySetCapacity_def array_holds_def array_block_def array_off_def)
next
  case (Some d)
  have d: "ar_count array = length xs" "dq_leftIdx d + length xs \<le> length (dq_buckets d)" "slice (dq_buckets d) (dq_leftIdx d) (length xs) = map Some xs"
      "dq_capacity d = length (dq_buckets d)"
    using assms(1,2) Some by (simp_all add: array_holds_deque)
  then obtain m where m: "memmove_cells (fresh_cells c) 0 (dq_buckets d) 0 (dq_capacity d) = Some m" "length m = c"
      "slice m 0 (length (dq_buckets d)) = slice (dq_buckets d) 0 (length (dq_buckets d))"
    using memmove_slice [of 0 "dq_capacity d" "dq_buckets d" 0 "fresh_cells c"] assms(6) [OF Some] by (auto dest: changed_in_length)
  have "slice m (dq_leftIdx d) (length xs) = slice (slice m 0 (length (dq_buckets d))) (dq_leftIdx d) (length xs)"
    using d(2) by (simp add: slice_slice)
  also have "\<dots> = map Some xs" using d(2,3) by (simp add: m(3) slice_slice)
  finally show ?thesis using Some assms m d by (auto simp: CFArraySetCapacity_def array_holds_deque)
qed

lemma CFArraySetCapacity_overrun:
  assumes "array_holds array xs" "ar_mutable array" "CFArrayDequeRoundUpCapacity cap = Some c" "ar_store array = Some d" "c < dq_capacity d"
  shows "CFArraySetCapacity env array cap = None"
  using assms by (simp add: CFArraySetCapacity_def memmove_cells_def)

lemma CFArrayCreateMutableCopy_works:
  assumes "array_holds array xs" "length xs \<le> 2 ^ 29" "\<And>k. env_alloc env k"
  shows "\<exists>copy. CFArrayCreateMutableCopy env capacity array = Some (copy, retain_calls (ar_callBacks array) xs) \<and>
    array_holds copy (map (retained_item env (ar_callBacks array)) xs) \<and> ar_mutable copy \<and> ar_callBacks copy = ar_callBacks array"
proof -
  obtain r where r: "CFArrayInit env True capacity (Some (ar_callBacks array)) = Some r" "array_holds r []" "ar_mutable r"
      "ar_callBacks r = ar_callBacks array" "ar_store r = None"
    using CFArrayCreateMutable_works [OF assms(3)] by (metis CFArrayCreateMutable_def array_callbacks_Some)
  have n: "CFArrayGetCount array = length xs" using assms(1) by (simp add: CFArrayGetCount_def array_holds_def)
  obtain c where "CFArrayDequeRoundUpCapacity (length xs) = Some c" "c \<le> 2 ^ 30"
    using CFArrayDequeRoundUpCapacity_works [of "length xs"] assms(2) by auto
  then obtain r' where r': "(if capacity = 0 then CFArraySetCapacity env r (length xs) else Some r) = Some r'" "array_holds r' []" "ar_mutable r'"
      "ar_callBacks r' = ar_callBacks array"
    using CFArraySetCapacity_works [OF r(2,3), of "length xs" c env] r assms(3) by (cases "capacity = 0") auto
  then have "array_rep (env, r') []" using assms(3) by (simp add: array_rep_def)
  from array_append_loop_works [OF this assms(1), of 0 "length xs"] assms(2) r'(4) obtain copy where
    "array_append_loop env r' array 0 (length xs) = Some (copy, retain_calls (ar_callBacks array) xs)"
    "array_holds copy (map (retained_item env (ar_callBacks array)) xs)" "ar_mutable copy" "ar_callBacks copy = ar_callBacks array"
    by auto
  then show ?thesis using r(1) r'(1) n by (simp add: CFArrayCreateMutableCopy_def)
qed

section \<open>Edits\<close>

text \<open>The operations that change a mutable array, as data, with their meaning on lists and the callbacks they make.\<close>

datatype array_edit =
    Append ptr
  | SetAt nat ptr
  | InsertAt nat ptr
  | Exchange nat nat
  | RemoveAt nat
  | RemoveAll
  | Replace nat nat "ptr list"

primrec run_edit :: "cf_env \<Rightarrow> CFArray \<Rightarrow> array_edit \<Rightarrow> (CFArray \<times> cf_call list) option" where
  "run_edit env array (Append v) = CFArrayAppendValue env array v"
| "run_edit env array (SetAt i v) = CFArraySetValueAtIndex env array i v"
| "run_edit env array (InsertAt i v) = CFArrayInsertValueAtIndex env array i v"
| "run_edit env array (Exchange i j) = map_option (\<lambda>array. (array, [])) (CFArrayExchangeValuesAtIndices array i j)"
| "run_edit env array (RemoveAt i) = CFArrayRemoveValueAtIndex env array i"
| "run_edit env array RemoveAll = CFArrayRemoveAllValues array"
| "run_edit env array (Replace A B vs) = CFArrayReplaceValues env array A B vs"

text \<open>The contents after an edit; \<open>None\<close> if an index is out of bounds or the array would exceed \<open>limit\<close> values.\<close>

primrec edit_list :: "nat \<Rightarrow> (ptr \<Rightarrow> ptr) \<Rightarrow> ptr list \<Rightarrow> array_edit \<Rightarrow> ptr list option" where
  "edit_list limit keep xs (Append v) = (if length xs < limit then Some (xs @ [keep v]) else None)"
| "edit_list limit keep xs (SetAt i v) =
     (if i < length xs then Some (xs[i := keep v])
      else if i = length xs \<and> length xs < limit then Some (xs @ [keep v]) else None)"
| "edit_list limit keep xs (InsertAt i v) =
     (if i \<le> length xs \<and> length xs < limit then Some (take i xs @ keep v # drop i xs) else None)"
| "edit_list limit keep xs (Exchange i j) =
     (if i < length xs \<and> j < length xs then Some (xs[i := xs ! j, j := xs ! i]) else None)"
| "edit_list limit keep xs (RemoveAt i) = (if i < length xs \<and> length xs \<le> limit then Some (take i xs @ drop (Suc i) xs) else None)"
| "edit_list limit keep xs RemoveAll = Some []"
| "edit_list limit keep xs (Replace A B vs) =
     (if A + B \<le> length xs \<and> length xs - B + length vs \<le> limit then Some (take A xs @ map keep vs @ drop (A + B) xs) else None)"

primrec edit_calls :: "CFArrayCallBacks \<Rightarrow> ptr list \<Rightarrow> array_edit \<Rightarrow> cf_call list" where
  "edit_calls cb xs (Append v) = retain_calls cb [v]"
| "edit_calls cb xs (SetAt i v) = retain_calls cb [v] @ (if i < length xs then release_calls cb [xs ! i] else [])"
| "edit_calls cb xs (InsertAt i v) = retain_calls cb [v]"
| "edit_calls cb xs (Exchange i j) = []"
| "edit_calls cb xs (RemoveAt i) = release_calls cb [xs ! i]"
| "edit_calls cb xs RemoveAll = release_calls cb xs"
| "edit_calls cb xs (Replace A B vs) = retain_calls cb vs @ release_calls cb (take B (drop A xs))"

lemma array_seq_edits:
  assumes "array_rep (env, array) xs"
  shows "i \<le> length xs \<Longrightarrow> length xs < 2 ^ 29 \<Longrightarrow> \<exists>array'. CFArrayReplaceValues env array i 0 [v] = Some (array', retain_calls (ar_callBacks array) [v]) \<and>
      array_rep (env, array') (take i xs @ retained_item env (ar_callBacks array) v # drop i xs) \<and> ar_callBacks array' = ar_callBacks array"
    and "i < length xs \<Longrightarrow> length xs \<le> 2 ^ 29 \<Longrightarrow> \<exists>array'. CFArrayReplaceValues env array i 1 [] = Some (array', release_calls (ar_callBacks array) [xs ! i]) \<and>
      array_rep (env, array') (take i xs @ drop (Suc i) xs) \<and> ar_callBacks array' = ar_callBacks array"
  using array_seq.insert_rep [OF assms, of i v] array_seq.remove_rep [OF assms, of i]
  by (auto simp: array_replace_def array_hdr_def)

lemma run_edit_works:
  assumes "array_rep (env, array) xs" "edit_list (2 ^ 29) (retained_item env (ar_callBacks array)) xs e = Some ys"
  shows "\<exists>array'. run_edit env array e = Some (array', edit_calls (ar_callBacks array) xs e) \<and> array_rep (env, array') ys \<and>
    ar_callBacks array' = ar_callBacks array"
proof -
  have h: "array_holds array xs" "ar_mutable array" "\<And>n. env_alloc env n" using assms(1) by (simp_all add: array_rep_def)
  then have cnt: "ar_count array = length xs" by (simp add: array_holds_def)
  note ins = array_seq_edits(1) [OF assms(1)]
  show ?thesis
  proof (cases e)
    case (Append v)
    then show ?thesis using assms(2) ins [of "length xs" v] cnt by (auto simp: CFArrayAppendValue_def split: if_splits)
  next
    case (SetAt i v)
    show ?thesis
    proof (cases "i < length xs")
      case True
      then show ?thesis using SetAt assms(2) CFArraySetValueAtIndex_works [OF h(1) True, of env v] h(2,3) by (auto simp: array_rep_def)
    next
      case False
      then show ?thesis using SetAt assms(2) ins [of "length xs" v] cnt by (auto simp: CFArraySetValueAtIndex_def split: if_splits)
    qed
  next
    case (InsertAt i v)
    then show ?thesis using assms(2) ins [of i v] by (auto simp: CFArrayInsertValueAtIndex_def split: if_splits)
  next
    case (Exchange i j)
    then show ?thesis using assms(2) CFArrayExchangeValuesAtIndices_works [OF h(1), of i j] h(2,3) by (auto simp: array_rep_def split: if_splits)
  next
    case (RemoveAt i)
    then show ?thesis using assms(2) array_seq_edits(2) [OF assms(1), of i] by (auto simp: CFArrayRemoveValueAtIndex_def split: if_splits)
  next
    case RemoveAll
    then show ?thesis using assms(2) CFArrayRemoveAllValues_works [OF h(1,2)] h(3) by (auto simp: array_rep_def)
  next
    case (Replace A B vs)
    then show ?thesis using assms(2) CFArrayReplaceValues_works [OF h(1,2), of A B vs env] h(3) by (auto simp: array_rep_def split: if_splits)
  qed
qed

primrec run_edits :: "cf_env \<Rightarrow> CFArray \<Rightarrow> array_edit list \<Rightarrow> (CFArray \<times> cf_call list) option" where
  "run_edits env array [] = Some (array, [])"
| "run_edits env array (e # es) = do {
     (array, calls) \<leftarrow> run_edit env array e;
     (array, rest) \<leftarrow> run_edits env array es;
     Some (array, calls @ rest)
   }"

primrec edit_lists :: "nat \<Rightarrow> (ptr \<Rightarrow> ptr) \<Rightarrow> ptr list \<Rightarrow> array_edit list \<Rightarrow> ptr list option" where
  "edit_lists limit keep xs [] = Some xs"
| "edit_lists limit keep xs (e # es) = do { xs \<leftarrow> edit_list limit keep xs e; edit_lists limit keep xs es }"

primrec edits_calls :: "nat \<Rightarrow> (ptr \<Rightarrow> ptr) \<Rightarrow> CFArrayCallBacks \<Rightarrow> ptr list \<Rightarrow> array_edit list \<Rightarrow> cf_call list" where
  "edits_calls limit keep cb xs [] = []"
| "edits_calls limit keep cb xs (e # es) =
     edit_calls cb xs e @ (case edit_list limit keep xs e of None \<Rightarrow> [] | Some ys \<Rightarrow> edits_calls limit keep cb ys es)"

lemma run_edits_works:
  assumes "array_rep (env, array) xs" "edit_lists (2 ^ 29) (retained_item env (ar_callBacks array)) xs es = Some ys"
  shows "\<exists>array'. run_edits env array es = Some (array', edits_calls (2 ^ 29) (retained_item env (ar_callBacks array)) (ar_callBacks array) xs es) \<and>
    array_rep (env, array') ys \<and> ar_callBacks array' = ar_callBacks array"
  using assms
proof (induction es arbitrary: array xs)
  case (Cons e es)
  let ?keep = "retained_item env (ar_callBacks array)"
  obtain zs where zs: "edit_list (2 ^ 29) ?keep xs e = Some zs" "edit_lists (2 ^ 29) ?keep zs es = Some ys"
    using Cons.prems(2) by (auto split: bind_splits)
  obtain a1 where a1: "run_edit env array e = Some (a1, edit_calls (ar_callBacks array) xs e)" "array_rep (env, a1) zs"
      "ar_callBacks a1 = ar_callBacks array"
    using run_edit_works [OF Cons.prems(1) zs(1)] by blast
  then show ?case using Cons.IH [OF a1(2)] zs by auto
qed simp

section \<open>References of an edited array\<close>

text \<open>An edit that takes out \<open>us\<close> and puts in \<open>vs\<close>.\<close>

lemma edit_calls_shape:
  assumes "acb_retain cb \<noteq> NULL" "acb_release cb \<noteq> NULL" and keep: "\<And>v. keep v = v" and "edit_list limit keep xs e = Some ys"
  shows "\<exists>vs us. edit_calls cb xs e = map Retain vs @ map Release us \<and> (\<forall>p. count_list us p \<le> count_list xs p) \<and>
    (\<forall>p. int (count_list ys p) = int (count_list xs p) + int (count_list vs p) - int (count_list us p))"
proof (cases e)
  case (Append v)
  then show ?thesis using assms by (intro exI [of _ "[v]"] exI [of _ "[]"]) (auto simp: retain_calls_def split: if_splits)
next
  case (SetAt i v)
  then show ?thesis
  proof (cases "i < length xs")
    case True
    then show ?thesis using SetAt assms count_update [OF True, of v] count_nth_le [OF True]
      by (intro exI [of _ "[v]"] exI [of _ "[xs ! i]"]) (auto simp: retain_calls_def release_calls_def)
  next
    case False
    then show ?thesis using SetAt assms by (intro exI [of _ "[v]"] exI [of _ "[]"]) (auto simp: retain_calls_def split: if_splits)
  qed
next
  case (InsertAt i v)
  then show ?thesis using assms count_take_drop [of xs _ i]
    by (intro exI [of _ "[v]"] exI [of _ "[]"]) (auto simp: retain_calls_def split: if_splits)
next
  case (Exchange i j)
  then show ?thesis using assms
    by (intro exI [of _ "[]"] exI [of _ "[]"]) (auto simp: count_exchange split: if_splits)
next
  case (RemoveAt i)
  then have i: "i < length xs" and ys: "ys = take i xs @ drop (Suc i) xs" using assms(4) by (simp_all split: if_splits)
  have "int (count_list ys p) = int (count_list xs p) - int (count_list [xs ! i] p)" for p
    unfolding ys using count_take_drop [of xs p i] count_drop_nth [OF i, of p] by simp
  then show ?thesis using RemoveAt assms(2) count_nth_le [OF i]
    by (intro exI [of _ "[]"] exI [of _ "[xs ! i]"]) (simp add: release_calls_def)
next
  case RemoveAll
  then show ?thesis using assms by (intro exI [of _ "[]"] exI [of _ xs]) (simp add: release_calls_def)
next
  case (Replace A B vs)
  then have AB: "A + B \<le> length xs" and ys: "ys = take A xs @ vs @ drop (A + B) xs"
    using assms(4) by (simp_all add: keep map_idI split: if_splits)
  have le: "count_list (take B (drop A xs)) p \<le> count_list xs p" for p using count_split [OF AB, of p] by linarith
  have "int (count_list ys p) = int (count_list xs p) + int (count_list vs p) - int (count_list (take B (drop A xs)) p)" for p
    unfolding ys using count_split [OF AB, of p] by simp
  then show ?thesis using Replace assms(1,2) le
    by (intro exI [of _ vs] exI [of _ "take B (drop A xs)"]) (simp add: retain_calls_def release_calls_def)
qed

lemma edits_calls_balanced:
  assumes "acb_retain cb \<noteq> NULL" "acb_release cb \<noteq> NULL" and keep: "\<And>v. keep v = v" and "edit_lists limit keep xs es = Some ys"
  shows "(\<forall>p. refs (edits_calls limit keep cb xs es) p = int (count_list ys p) - int (count_list xs p)) \<and>
    never_over_released xs (edits_calls limit keep cb xs es)"
  using assms(4)
proof (induction es arbitrary: xs)
  case Nil
  then show ?case by (simp add: never_over_released_def)
next
  case (Cons e es)
  obtain zs where zs: "edit_list limit keep xs e = Some zs" "edit_lists limit keep zs es = Some ys"
    using Cons.prems by (cases "edit_list limit keep xs e") simp_all
  obtain vs us where s: "edit_calls cb xs e = map Retain vs @ map Release us" "\<And>p. count_list us p \<le> count_list xs p"
      "\<And>p. int (count_list zs p) = int (count_list xs p) + int (count_list vs p) - int (count_list us p)"
    using edit_calls_shape [OF assms(1,2) keep zs(1)] by blast
  have r: "refs (edit_calls cb xs e) p = int (count_list zs p) - int (count_list xs p)" for p using s(1,3) by simp
  note IH = Cons.IH [OF zs(2)]
  have "never_over_released xs (edit_calls cb xs e @ edits_calls limit keep cb zs es)"
    using never_over_released_append [OF _ _ r] never_over_released_exchange [OF s(2)] s(1) IH by simp
  then show ?case using IH r zs(1) by simp
qed

section \<open>Properties\<close>

text \<open>
  C3.  Any sequence of appends, insertions, assignments, exchanges, removals and range replacements
  that is in bounds at each step runs without undefined behaviour on the deque, whatever regions it
  has to move or grow, and leaves the array with the contents the same edits give on a list; the
  reading functions return these.
\<close>

theorem CFArray_edits_refine:
  assumes "array_holds array xs" "ar_mutable array" "\<forall>n. env_alloc env n"
    "edit_lists (2 ^ 29) (retained_item env (ar_callBacks array)) xs es = Some ys"
  shows "\<exists>array' calls. run_edits env array es = Some (array', calls) \<and> array_holds array' ys \<and> ar_mutable array' \<and>
    CFArrayGetCount array' = length ys \<and> (\<forall>i < length ys. CFArrayGetValueAtIndex array' i = Some (ys ! i)) \<and>
    CFArrayGetValues array' 0 (length ys) (fresh_cells (length ys)) = Some (map Some ys) \<and>
    CFArrayApplyFunction array' 0 (length ys) = Some ys \<and> enumerates array' ys"
proof -
  obtain array' calls where a: "run_edits env array es = Some (array', calls)" "array_holds array' ys" "ar_mutable array'"
    using run_edits_works [OF _ assms(4)] assms(1-3) by (auto simp: array_rep_def)
  then show ?thesis using array_holds_reads [OF a(2)] array_holds_enumerates [OF a(2)] by blast
qed

theorem CFArray_edits_refine_witness:
  "\<exists>array' calls. run_edits array_env empty_array [Append 10, Append 20, InsertAt 1 30, Exchange 0 2, Replace 1 1 [40, 50, 60], RemoveAt 0] =
      Some (array', calls) \<and> array_holds array' [40, 50, 60, 10] \<and> CFArrayGetCount array' = 4"
proof -
  have "edit_lists (2 ^ 29) (retained_item array_env (ar_callBacks empty_array)) []
      [Append 10, Append 20, InsertAt 1 30, Exchange 0 2, Replace 1 1 [40, 50, 60], RemoveAt 0] = Some [40, 50, 60, 10]"
    by simp
  from CFArray_edits_refine [OF empty_array_simps(1,2) _ this] show ?thesis by auto
qed

text \<open>
  C13.  The references of an array with retain and release callbacks: at every moment of a life of
  edits no value has been released more often than retained, in between the array owns one
  reference for each occurrence of a value, and once it is deallocated all are given back.  The
  \<open>retain\<close> callback returns its argument, as that of the type callbacks does.
\<close>

theorem CFArray_references_balanced:
  assumes "acb_retain cb \<noteq> NULL" "acb_release cb \<noteq> NULL" "\<forall>n. env_alloc env n" "\<forall>v. env_retain env (acb_retain cb) v = v"
    "edit_lists (2 ^ 29) (\<lambda>v. v) [] es = Some ys"
  shows "\<exists>array array' gone calls releases. CFArrayCreateMutable env capacity (Some cb) = Some array \<and>
    run_edits env array es = Some (array', calls) \<and> CFArrayDeallocate array' = Some (gone, releases) \<and>
    never_over_released [] (calls @ releases) \<and> (\<forall>p. refs calls p = int (count_list ys p)) \<and> (\<forall>p. refs (calls @ releases) p = 0)"
proof -
  obtain array where a: "CFArrayCreateMutable env capacity (Some cb) = Some array" "array_holds array []" "ar_mutable array" "ar_callBacks array = cb"
    using CFArrayCreateMutable_works [of env capacity "Some cb"] assms(3) by auto
  have keep: "retained_item env cb = (\<lambda>v. v)" using assms(4) by (auto simp: retained_item_def)
  let ?calls = "edits_calls (2 ^ 29) (\<lambda>v. v) cb [] es"
  obtain array' where a': "run_edits env array es = Some (array', ?calls)" "array_holds array' ys" "ar_callBacks array' = cb"
    using run_edits_works [of env array "[]" es ys] a assms(3,5) keep by (auto simp: array_rep_def)
  obtain gone where g: "CFArrayDeallocate array' = Some (gone, map Release ys)"
    using CFArrayReleaseValues_all [OF a'(2)] a'(3) assms(2) by (auto simp: CFArrayDeallocate_def release_calls_def)
  have b: "refs ?calls p = int (count_list ys p)" "never_over_released [] ?calls" for p
    using edits_calls_balanced [OF assms(1,2) _ assms(5)] by simp_all
  have "never_over_released ys (map Release ys)" using never_over_released_exchange [of ys ys "[]"] by simp
  then have "never_over_released [] (?calls @ map Release ys)" using never_over_released_append [OF b(2)] b(1) by simp
  then show ?thesis using a(1) a'(1) g b(1) by auto
qed

theorem CFArray_references_balanced_witness:
  "\<exists>array array' gone calls releases. CFArrayCreateMutable array_env 0 (Some kCFTypeArrayCallBacks) = Some array \<and>
    run_edits array_env array [Append 10, Append 10, SetAt 0 20, Replace 0 1 [10, 30]] = Some (array', calls) \<and>
    CFArrayDeallocate array' = Some (gone, releases) \<and> never_over_released [] (calls @ releases) \<and>
    refs calls 10 = 2 \<and> (\<forall>p. refs (calls @ releases) p = 0)"
proof -
  have es: "edit_lists (2 ^ 29) (\<lambda>v. v) [] [Append 10, Append 10, SetAt 0 20, Replace 0 1 [10, 30]] = Some [10, 30, 10]"
    by simp
  have cb: "acb_retain kCFTypeArrayCallBacks \<noteq> NULL" "acb_release kCFTypeArrayCallBacks \<noteq> NULL" by (simp_all add: kCFTypeArrayCallBacks_def)
  have env: "\<forall>n. env_alloc array_env n" "\<forall>v. env_retain array_env (acb_retain kCFTypeArrayCallBacks) v = v" by simp_all
  have two: "int (count_list [10, 30, 10 :: nat] 10) = 2" by simp
  from CFArray_references_balanced [OF cb env es, of 0] show ?thesis unfolding two [symmetric] by blast
qed

text \<open>
  C34.  An array created from values, its immutable copy and its mutable copy of any initial capacity
  hold these values, make the same retain calls and are equal for \<open>CFEqual\<close>, hence with equal hashes,
  provided that the \<open>retain\<close> callback returns its argument.
\<close>

theorem CFArray_copies_equal:
  assumes "length vs \<le> 2 ^ 28" "\<forall>n. env_alloc env n" "\<forall>v. env_retain env (acb_retain cb) v = v"
  shows "\<exists>array copy mcopy. CFArrayCreate env vs (Some cb) = Some (array, retain_calls cb vs) \<and>
    CFArrayCreateCopy env array = Some (copy, retain_calls cb vs) \<and>
    CFArrayCreateMutableCopy env capacity array = Some (mcopy, retain_calls cb vs) \<and>
    array_holds array vs \<and> array_holds copy vs \<and> array_holds mcopy vs \<and>
    CFArrayEqual env False array copy = Some True \<and> CFArrayEqual env False array mcopy = Some True \<and>
    CFArrayHash copy = CFArrayHash array \<and> CFArrayHash mcopy = CFArrayHash array"
proof -
  have keep: "map (retained_item env cb) vs = vs" using assms(3) by (simp add: retained_item_def map_idI)
  obtain array where a: "CFArrayCreate env vs (Some cb) = Some (array, retain_calls cb vs)" "array_holds array vs" "ar_callBacks array = cb"
    using CFArrayCreate_works [OF assms(1), of env "Some cb"] assms(2) keep by auto
  obtain copy where c: "CFArrayCreateCopy env array = Some (copy, retain_calls cb vs)" "array_holds copy vs" "ar_callBacks copy = cb"
    using CFArrayCreateCopy_works [OF a(2) assms(1), of env] assms(2) keep a(3) by auto
  obtain mcopy where m: "CFArrayCreateMutableCopy env capacity array = Some (mcopy, retain_calls cb vs)" "array_holds mcopy vs" "ar_callBacks mcopy = cb"
    using CFArrayCreateMutableCopy_works [OF a(2), of env capacity] assms(1,2) keep a(3) by auto
  have cnt: "ar_count array = length vs" "ar_count copy = length vs" "ar_count mcopy = length vs"
    using a(2) c(2) m(2) by (simp_all only: array_holds_def)
  have "CFArrayEqual env False array b = Some True" if "array_holds b vs" "ar_callBacks b = cb" "ar_count b = length vs" for b
    using array_equal_loop_holds [OF a(2) that(1), of 0 "length vs" env] a(3) that(2,3) cnt(1)
    by (simp add: CFArrayEqual_def Let_def list.rel_refl)
  then show ?thesis using a c m cnt by (auto simp: CFArrayHash_def)
qed

theorem CFArray_copies_equal_witness:
  "\<exists>array copy mcopy. CFArrayCreate array_env [7, 8, 7] (Some kCFTypeArrayCallBacks) = Some (array, [Retain 7, Retain 8, Retain 7]) \<and>
    CFArrayCreateCopy array_env array = Some (copy, [Retain 7, Retain 8, Retain 7]) \<and>
    CFArrayCreateMutableCopy array_env 0 array = Some (mcopy, [Retain 7, Retain 8, Retain 7]) \<and>
    array_holds array [7, 8, 7] \<and> array_holds copy [7, 8, 7] \<and> array_holds mcopy [7, 8, 7] \<and>
    CFArrayEqual array_env False array copy = Some True \<and> CFArrayEqual array_env False array mcopy = Some True"
  using CFArray_copies_equal [of "[7, 8, 7]" array_env kCFTypeArrayCallBacks 0]
  by (auto simp: retain_calls_def kCFTypeArrayCallBacks_def)

text \<open>
  Counting and finding a value in a range: the functions count the matches, say whether there
  is one and give the index of the first and of the last one, \<open>kCFNotFound\<close> if there is none.  A
  match is the same pointer or one the equality callback accepts.
\<close>

theorem CFArray_searches_correct:
  assumes "array_holds array xs" "A + n \<le> length xs" "r = take n (drop A xs)" "P = array_item_match env array value"
  shows "CFArrayGetCountOfValue env array A n value = Some (length (filter P r)) \<and>
    CFArrayContainsValue env array A n value = Some (\<exists>x \<in> set r. P x) \<and>
    (if \<exists>x \<in> set r. P x
     then \<exists>i j. CFArrayGetFirstIndexOfValue env array A n value = Some (int (A + i)) \<and>
       CFArrayGetLastIndexOfValue env array A n value = Some (int (A + j)) \<and> i \<le> j \<and> j < n \<and> P (r ! i) \<and> P (r ! j) \<and>
       (\<forall>k < n. P (r ! k) \<longrightarrow> i \<le> k \<and> k \<le> j)
     else CFArrayGetFirstIndexOfValue env array A n value = Some kCFNotFound \<and>
       CFArrayGetLastIndexOfValue env array A n value = Some kCFNotFound)"
proof -
  have n: "length r = n" using assms(2,3) by simp
  note first = array_first_loop_holds [OF assms(1,2), of env "value", folded assms(3,4)]
  note last = array_last_loop_holds [OF assms(1,2), of env "value", folded assms(3,4)]
  have cnt: "CFArrayGetCountOfValue env array A n value = Some (length (filter P r))"
    using array_count_loop_holds [OF assms(1,2), of env "value"] assms(3,4) by (simp add: CFArrayGetCountOfValue_def)
  show ?thesis
  proof (cases "\<exists>x \<in> set r. P x")
    case True
    then obtain i j where "first_match P r = Some i" "first_match P (rev r) = Some (n - 1 - j)" "i \<le> j" "j < n" "P (r ! i)" "P (r ! j)"
        "\<forall>k < n. P (r ! k) \<longrightarrow> i \<le> k \<and> k \<le> j"
      using first_last_match [OF n] by blast
    then show ?thesis using True cnt first last
      by (auto simp: CFArrayContainsValue_def CFArrayGetFirstIndexOfValue_def CFArrayGetLastIndexOfValue_def kCFNotFound_def
          intro!: exI [of _ i] exI [of _ j])
  next
    case False
    then have "first_match P r = None" "first_match P (rev r) = None" using first_match_None [of P] by auto
    then show ?thesis using False cnt first last
      by (simp add: CFArrayContainsValue_def CFArrayGetFirstIndexOfValue_def CFArrayGetLastIndexOfValue_def)
  qed
qed

theorem CFArray_searches_correct_witness:
  "CFArrayGetCountOfValue array_env digits_array 0 4 21 = Some 1 \<and> CFArrayContainsValue array_env digits_array 0 2 21 = Some False"
  using CFArray_searches_correct [OF digits_array_simps(1) _ refl refl, of 0 4 array_env 21]
    CFArray_searches_correct [OF digits_array_simps(1) _ refl refl, of 0 2 array_env 21]
  by (simp add: array_item_match_def kCFNullArrayCallBacks_def)

text \<open>
  C35.  Setting the capacity of a mutable array keeps the contents if the rounded capacity is at least
  the old one; otherwise it copies the whole old block into a shorter one, past its end.
\<close>

theorem CFArraySetCapacity_correct:
  assumes "array_holds array xs" "ar_mutable array" "cap < 2 ^ 30" "\<forall>k. env_alloc env k"
  shows "\<exists>c. CFArrayDequeRoundUpCapacity cap = Some c \<and> cap \<le> c \<and>
    (if \<exists>d. ar_store array = Some d \<and> c < dq_capacity d then CFArraySetCapacity env array cap = None
     else \<exists>array'. CFArraySetCapacity env array cap = Some array' \<and> array_holds array' xs)"
proof -
  obtain c where c: "CFArrayDequeRoundUpCapacity cap = Some c" "cap \<le> c" "c \<le> 2 ^ 30" using CFArrayDequeRoundUpCapacity_works [OF assms(3)] by blast
  show ?thesis
  proof (cases "\<exists>d. ar_store array = Some d \<and> c < dq_capacity d")
    case True
    then show ?thesis using c CFArraySetCapacity_overrun [OF assms(1,2) c(1)] by auto
  next
    case False
    then have "ar_store array = Some d \<Longrightarrow> dq_capacity d \<le> c" for d by (meson not_less)
    then show ?thesis using c False CFArraySetCapacity_works [OF assms(1,2) c(1,3), of env] assms(4) by auto
  qed
qed

theorem CFArraySetCapacity_correct_witness:
  "CFArraySetCapacity array_env digits_array 0 = None \<and> (\<exists>array'. CFArraySetCapacity array_env digits_array 9 = Some array' \<and> array_holds array' [5, 32, 21, 12])"
proof -
  have "flsl 9 = 4" by (simp add: flsl_pos)
  then have c: "CFArrayDequeRoundUpCapacity 0 = Some 4" "CFArrayDequeRoundUpCapacity 9 = Some 16"
    by (simp_all add: CFArrayDequeRoundUpCapacity_def int_shl1_def)
  show ?thesis
    using CFArraySetCapacity_correct [OF digits_array_simps(1,2), of 0 array_env] CFArraySetCapacity_correct [OF digits_array_simps(1,2), of 9 array_env]
    by (simp add: c) (simp add: digits_array_def)
qed

end
