(* ===== verification/CF_BitVector.thy ===== *)
theory CF_BitVector
  imports CF_Memory "HOL-Library.Word"
begin

unbundle bit_operations_syntax

text \<open>
  \<open>CFBitVector.c\<close>: vectors of bits in buckets of one byte, bit 0 of a bucket being the most
  significant one.

  Memory from \<open>realloc\<close> holds unspecified bytes, which the code reads, masks and writes back: they
  are an argument \<open>junk\<close> of the operations that grow a vector.  An access outside the buckets is
  undefined (\<open>None\<close>).  A \<open>CFBit\<close> is a 32-bit integer.  Counts and capacities are natural numbers:
  rounding a capacity up leaves the range of a \<open>CFIndex\<close> only for counts within 64 of its end, more
  bits than an address space of 64 bits is asked for.
\<close>

section \<open>Objects\<close>

type_synonym bucket = "8 word"
type_synonym CFBit = "32 word"

record CFBitVector =
  bv_mutable :: bool
  bv_count :: nat
  bv_capacity :: nat
  bv_buckets :: "bucket list"

definition CFBitVectorRoundUpCapacity :: "nat \<Rightarrow> nat" where
  "CFBitVectorRoundUpCapacity capacity = (((if capacity = 0 then 1 else capacity) + 63) div 64) * 64"

definition CFBitVectorNumBuckets :: "nat \<Rightarrow> nat" where
  "CFBitVectorNumBuckets capacity = capacity div 8 + 1"

definition bucket_at :: "bucket list \<Rightarrow> nat \<Rightarrow> bucket option" where
  "bucket_at buckets i = (if i < length buckets then Some (buckets ! i) else None)"

definition set_bucket :: "bucket list \<Rightarrow> nat \<Rightarrow> bucket \<Rightarrow> bucket list option" where
  "set_bucket buckets i b = (if i < length buckets then Some (buckets[i := b]) else None)"

definition CFBitBucketMask :: "nat \<Rightarrow> nat \<Rightarrow> bucket" where
  "CFBitBucketMask bottomBit topBit =
     (let shiftL = 8 - topBit + bottomBit - 1
      in drop_bit bottomBit (push_bit shiftL (NOT 0)))"

definition CFBitVectorBit :: "bucket list \<Rightarrow> nat \<Rightarrow> CFBit option" where
  "CFBitVectorBit buckets idx = do {
     b \<leftarrow> bucket_at buckets (idx div 8);
     Some (ucast (drop_bit (8 - 1 - idx mod 8) b) AND 1)
   }"

definition CFSetBitVectorBit :: "bucket list \<Rightarrow> nat \<Rightarrow> CFBit \<Rightarrow> bucket list option" where
  "CFSetBitVectorBit buckets idx value = do {
     b \<leftarrow> bucket_at buckets (idx div 8);
     let m = push_bit (8 - 1 - idx mod 8) 1;
     set_bucket buckets (idx div 8) (if value \<noteq> 0 then b OR m else b AND NOT m)
   }"

definition CFFlipBitVectorBit :: "bucket list \<Rightarrow> nat \<Rightarrow> bucket list option" where
  "CFFlipBitVectorBit buckets idx = do {
     b \<leftarrow> bucket_at buckets (idx div 8);
     set_bucket buckets (idx div 8) (b XOR push_bit (8 - 1 - idx mod 8) 1)
   }"

section \<open>Comparison\<close>

fun bv_equal_loop :: "bucket list \<Rightarrow> bucket list \<Rightarrow> nat \<Rightarrow> nat \<Rightarrow> bool option" where
  "bv_equal_loop b1 b2 idx 0 = Some True"
| "bv_equal_loop b1 b2 idx (Suc n) = do {
     val1 \<leftarrow> bucket_at b1 idx;
     val2 \<leftarrow> bucket_at b2 idx;
     if val1 \<noteq> val2 then Some False else bv_equal_loop b1 b2 (Suc idx) n
   }"

definition CFBitVectorEqual :: "CFBitVector \<Rightarrow> CFBitVector \<Rightarrow> bool option" where
  "CFBitVectorEqual bv1 bv2 =
     (let cnt = bv_count bv1
      in if cnt \<noteq> bv_count bv2 then Some False
         else if cnt = 0 then Some True
         else bv_equal_loop (bv_buckets bv1) (bv_buckets bv2) 0 (cnt div 8 + 1))"

definition CFBitVectorHash :: "CFBitVector \<Rightarrow> nat" where
  "CFBitVectorHash bv = bv_count bv"

section \<open>Creation\<close>

text \<open>The number of bytes that hold a number of bits.\<close>

definition bytes_for :: "nat \<Rightarrow> nat" where
  "bytes_for numBits = numBits div 8 + (if numBits mod 8 \<noteq> 0 then 1 else 0)"

text \<open>
  \<open>__CFBitVectorInit\<close>; the capacity asked for is not used.  The outer option is for undefined
  behaviour, when there are fewer bytes than bits need, the inner one for \<open>NULL\<close>.
\<close>

definition CFBitVectorInit :: "cf_env \<Rightarrow> bool \<Rightarrow> nat \<Rightarrow> bucket list option \<Rightarrow> nat \<Rightarrow> CFBitVector option option" where
  "CFBitVectorInit env mutable capacity bytes numBits =
     (let cap = CFBitVectorRoundUpCapacity numBits;
          nBytes = bytes_for numBits
      in if \<not> CFRuntimeCreateInstance env 24 then Some None
         else if \<not> env_alloc env (CFBitVectorNumBuckets cap) then Some None
         else do {
           let buckets = replicate (CFBitVectorNumBuckets cap) 0;
           buckets \<leftarrow> (case bytes of
               None \<Rightarrow> Some buckets
             | Some src \<Rightarrow> if length src < nBytes \<or> length buckets < nBytes then None
                           else Some (take nBytes src @ drop nBytes buckets));
           Some (Some \<lparr> bv_mutable = mutable, bv_count = numBits, bv_capacity = cap, bv_buckets = buckets \<rparr>)
         })"

definition CFBitVectorCreate :: "cf_env \<Rightarrow> bucket list option \<Rightarrow> nat \<Rightarrow> CFBitVector option option" where
  "CFBitVectorCreate env bytes numBits = CFBitVectorInit env False numBits bytes numBits"

definition CFBitVectorCreateMutable :: "cf_env \<Rightarrow> nat \<Rightarrow> CFBitVector option option" where
  "CFBitVectorCreateMutable env capacity = CFBitVectorInit env True capacity None 0"

definition CFBitVectorCreateCopy :: "cf_env \<Rightarrow> CFBitVector \<Rightarrow> CFBitVector option option" where
  "CFBitVectorCreateCopy env bv = CFBitVectorInit env False (bv_count bv) (Some (bv_buckets bv)) (bv_count bv)"

definition CFBitVectorCreateMutableCopy :: "cf_env \<Rightarrow> nat \<Rightarrow> CFBitVector \<Rightarrow> CFBitVector option option" where
  "CFBitVectorCreateMutableCopy env capacity bv = CFBitVectorInit env True capacity (Some (bv_buckets bv)) (bv_count bv)"

definition CFBitVectorGetCount :: "CFBitVector \<Rightarrow> nat" where
  "CFBitVectorGetCount bv = bv_count bv"

section \<open>Mapping over a range\<close>

text \<open>A mapper takes a bucket, the mask of the bits that matter and its context, and gives a bucket and a context.\<close>

type_synonym 'c mapper = "bucket \<Rightarrow> bucket \<Rightarrow> 'c \<Rightarrow> (bucket \<times> 'c) option"

definition bv_map_masked :: "'c mapper \<Rightarrow> bucket \<Rightarrow> bucket list \<Rightarrow> nat \<Rightarrow> 'c \<Rightarrow> (bucket list \<times> 'c) option" where
  "bv_map_masked mapper bucketValMask buckets bucketIdx ctx = do {
     b \<leftarrow> bucket_at buckets bucketIdx;
     (newBucketVal, ctx) \<leftarrow> mapper b bucketValMask ctx;
     buckets \<leftarrow> set_bucket buckets bucketIdx ((b AND NOT bucketValMask) OR (newBucketVal AND bucketValMask));
     Some (buckets, ctx)
   }"

fun bv_map_loop :: "'c mapper \<Rightarrow> bucket list \<Rightarrow> nat \<Rightarrow> nat \<Rightarrow> 'c \<Rightarrow> (bucket list \<times> 'c) option" where
  "bv_map_loop mapper buckets bucketIdx 0 ctx = Some (buckets, ctx)"
| "bv_map_loop mapper buckets bucketIdx (Suc nBuckets) ctx = do {
     b \<leftarrow> bucket_at buckets bucketIdx;
     (newBucketVal, ctx) \<leftarrow> mapper b (NOT 0) ctx;
     buckets \<leftarrow> set_bucket buckets bucketIdx newBucketVal;
     bv_map_loop mapper buckets (Suc bucketIdx) nBuckets ctx
   }"

definition CFBitVectorInternalMap :: "bucket list \<Rightarrow> nat \<Rightarrow> nat \<Rightarrow> 'c mapper \<Rightarrow> 'c \<Rightarrow> (bucket list \<times> 'c) option" where
  "CFBitVectorInternalMap buckets location len mapper ctx =
     (if len = 0 then Some (buckets, ctx)
      else do {
        let bucketIdx = location div 8;
        let bitOfBucket = location mod 8;
        let (bucketValMask, rest) =
          (if bitOfBucket + len < 8 then (CFBitBucketMask bitOfBucket (bitOfBucket + len - 1), 0)
           else (CFBitBucketMask bitOfBucket (8 - 1), len - (8 - bitOfBucket)));
        (buckets, ctx) \<leftarrow> bv_map_masked mapper bucketValMask buckets bucketIdx ctx;
        let bucketIdx = bucketIdx + 1;
        let nBuckets = rest div 8;
        let rest = rest - nBuckets * 8;
        (buckets, ctx) \<leftarrow> bv_map_loop mapper buckets bucketIdx nBuckets ctx;
        let bucketIdx = bucketIdx + nBuckets;
        if rest \<noteq> 0 then bv_map_masked mapper (CFBitBucketMask 0 (rest - 1)) buckets bucketIdx ctx
        else Some (buckets, ctx)
      })"

section \<open>Reading\<close>

definition CFNibbleBitCount :: "nat list" where
  "CFNibbleBitCount = [0, 1, 1, 2, 1, 2, 2, 3, 1, 2, 2, 3, 2, 3, 3, 4]"

text \<open>The counting mapper; its loop runs over the two nibbles of a bucket.\<close>

fun bv_nibble_loop :: "nat \<Rightarrow> bucket \<Rightarrow> nat \<Rightarrow> nat" where
  "bv_nibble_loop 0 val occurs = occurs"
| "bv_nibble_loop (Suc n) val occurs = bv_nibble_loop n (drop_bit 4 val) (occurs + CFNibbleBitCount ! unat (val AND 15))"

definition CFBitVectorCountBits :: "CFBit \<Rightarrow> nat mapper" where
  "CFBitVectorCountBits value bucketValue bucketValueMask occurs =
     (let val = (if value \<noteq> 0 then bucketValue AND bucketValueMask else NOT bucketValue AND bucketValueMask)
      in Some (bucketValue, bv_nibble_loop (1 * 2) val occurs))"

definition CFBitVectorGetCountOfBit :: "CFBitVector \<Rightarrow> nat \<Rightarrow> nat \<Rightarrow> CFBit \<Rightarrow> nat option" where
  "CFBitVectorGetCountOfBit bv location len value =
     (if len = 0 then Some 0
      else map_option snd (CFBitVectorInternalMap (bv_buckets bv) location len (CFBitVectorCountBits value) 0))"

definition CFBitVectorContainsBit :: "CFBitVector \<Rightarrow> nat \<Rightarrow> nat \<Rightarrow> CFBit \<Rightarrow> bool option" where
  "CFBitVectorContainsBit bv location len value = map_option (\<lambda>n. n \<noteq> 0) (CFBitVectorGetCountOfBit bv location len value)"

definition CFBitVectorGetBitAtIndex :: "CFBitVector \<Rightarrow> nat \<Rightarrow> CFBit option" where
  "CFBitVectorGetBitAtIndex bv idx = CFBitVectorBit (bv_buckets bv) idx"

text \<open>The mapper that extracts bits: \<open>gb_bytes\<close> is the output buffer and \<open>gb_curByte\<close> an index into it.\<close>

record getBitsContext =
  gb_bytes :: "bucket cells"
  gb_curByte :: nat
  gb_initBits :: nat
  gb_totalBits :: int
  gb_ignoreFirstInitBits :: bool

fun bv_getbits_loop :: "nat \<Rightarrow> bucket \<Rightarrow> getBitsContext \<Rightarrow> (int \<times> bucket \<times> getBitsContext) option" where
  "bv_getbits_loop nBits val ctx =
     (if 8 \<le> nBits then do {
        bytes \<leftarrow> st (gb_bytes ctx) (gb_curByte ctx) (drop_bit (8 - 8) val);
        bv_getbits_loop (nBits - 8) 0 (ctx\<lparr>gb_bytes := bytes, gb_curByte := gb_curByte ctx + 1,
                                           gb_totalBits := gb_totalBits ctx - int (gb_initBits ctx)\<rparr>)
      } else Some (int nBits, val, ctx))"

declare bv_getbits_loop.simps [simp del]

definition CFBitVectorGetBits_mapper :: "getBitsContext mapper" where
  "CFBitVectorGetBits_mapper bucketValue bucketValueMask ctx = do {
     let val = bucketValue AND bucketValueMask;
     let nBits = min (8 - int (gb_initBits ctx)) (gb_totalBits ctx);
     (val, ctx) \<leftarrow>
       (if 0 < gb_initBits ctx then do {
          ctx \<leftarrow>
            (if \<not> gb_ignoreFirstInitBits ctx then do {
               old \<leftarrow> ld (gb_bytes ctx) (gb_curByte ctx);
               bytes \<leftarrow> st (gb_bytes ctx) (gb_curByte ctx) (old OR drop_bit (8 - gb_initBits ctx) val);
               Some (ctx\<lparr>gb_bytes := bytes, gb_curByte := gb_curByte ctx + 1,
                         gb_totalBits := gb_totalBits ctx - int (gb_initBits ctx), gb_ignoreFirstInitBits := False\<rparr>)
             } else Some ctx);
          Some (push_bit (gb_initBits ctx) val, ctx)
        } else Some (val, ctx));
     (nBits, val, ctx) \<leftarrow> bv_getbits_loop (nat nBits) val ctx;
     ctx \<leftarrow>
       (if 0 < nBits then do {
          bytes \<leftarrow> st (gb_bytes ctx) (gb_curByte ctx) (drop_bit (8 - 8) val);
          Some (ctx\<lparr>gb_bytes := bytes, gb_totalBits := gb_totalBits ctx - nBits\<rparr>)
        } else Some ctx);
     Some (bucketValue, ctx)
   }"

definition CFBitVectorGetBits :: "CFBitVector \<Rightarrow> nat \<Rightarrow> nat \<Rightarrow> bucket cells \<Rightarrow> bucket cells option" where
  "CFBitVectorGetBits bv location len bytes =
     (if len = 0 then Some bytes
      else map_option (\<lambda>(_, ctx). gb_bytes ctx)
        (CFBitVectorInternalMap (bv_buckets bv) location len CFBitVectorGetBits_mapper
           \<lparr> gb_bytes = bytes, gb_curByte = 0, gb_initBits = location mod 8, gb_totalBits = int len, gb_ignoreFirstInitBits = True \<rparr>))"

fun bv_first_loop :: "CFBitVector \<Rightarrow> CFBit \<Rightarrow> nat \<Rightarrow> nat \<Rightarrow> int option" where
  "bv_first_loop bv value i 0 = Some kCFNotFound"
| "bv_first_loop bv value i (Suc n) = do {
     b \<leftarrow> CFBitVectorGetBitAtIndex bv i;
     if value = b then Some (int i) else bv_first_loop bv value (Suc i) n
   }"

definition CFBitVectorGetFirstIndexOfBit :: "CFBitVector \<Rightarrow> nat \<Rightarrow> nat \<Rightarrow> CFBit \<Rightarrow> int option" where
  "CFBitVectorGetFirstIndexOfBit bv location len value = bv_first_loop bv value location len"

fun bv_last_loop :: "CFBitVector \<Rightarrow> CFBit \<Rightarrow> nat \<Rightarrow> nat \<Rightarrow> int option" where
  "bv_last_loop bv value location 0 = Some kCFNotFound"
| "bv_last_loop bv value location (Suc idx) = do {
     b \<leftarrow> CFBitVectorGetBitAtIndex bv (location + idx);
     if value = b then Some (int (location + idx)) else bv_last_loop bv value location idx
   }"

definition CFBitVectorGetLastIndexOfBit :: "CFBitVector \<Rightarrow> nat \<Rightarrow> nat \<Rightarrow> CFBit \<Rightarrow> int option" where
  "CFBitVectorGetLastIndexOfBit bv location len value = bv_last_loop bv value location len"

section \<open>Changing\<close>

text \<open>\<open>__CFBitVectorGrow\<close>: the new buckets hold the bytes \<open>junk\<close>; running out of memory halts.\<close>

definition CFBitVectorGrow :: "cf_env \<Rightarrow> (nat \<Rightarrow> bucket) \<Rightarrow> CFBitVector \<Rightarrow> nat \<Rightarrow> CFBitVector option" where
  "CFBitVectorGrow env junk bv numNewValues =
     (let capacity = CFBitVectorRoundUpCapacity (bv_count bv + numNewValues);
          n = CFBitVectorNumBuckets capacity;
          old = bv_buckets bv
      in if \<not> env_alloc env n then None
         else Some (bv\<lparr>bv_capacity := capacity, bv_buckets := take n old @ map junk [length old..<n]\<rparr>))"

definition CFBitVectorZeroBits :: "unit mapper" where
  "CFBitVectorZeroBits bucketValue bucketValueMask ctx = Some (0, ctx)"

definition CFBitVectorOneBits :: "unit mapper" where
  "CFBitVectorOneBits bucketValue bucketValueMask ctx = Some (NOT 0, ctx)"

definition CFBitVectorFlipBits_mapper :: "unit mapper" where
  "CFBitVectorFlipBits_mapper bucketValue bucketValueMask ctx = Some (NOT 0 XOR bucketValue, ctx)"

text \<open>Running a mapper without context on a range of a vector.\<close>

definition bv_map :: "CFBitVector \<Rightarrow> nat \<Rightarrow> nat \<Rightarrow> unit mapper \<Rightarrow> CFBitVector option" where
  "bv_map bv location len mapper =
     map_option (\<lambda>(buckets, _). bv\<lparr>bv_buckets := buckets\<rparr>) (CFBitVectorInternalMap (bv_buckets bv) location len mapper ())"

definition CFBitVectorSetCount :: "cf_env \<Rightarrow> (nat \<Rightarrow> bucket) \<Rightarrow> CFBitVector \<Rightarrow> nat \<Rightarrow> CFBitVector option" where
  "CFBitVectorSetCount env junk bv newCount = do {
     let cnt = bv_count bv;
     bv \<leftarrow> (if bv_mutable bv \<and> cnt < newCount then CFBitVectorGrow env junk bv (newCount - cnt) else Some bv);
     bv \<leftarrow> (if cnt < newCount then bv_map bv cnt (newCount - cnt) CFBitVectorZeroBits else Some bv);
     Some (bv\<lparr>bv_count := newCount\<rparr>)
   }"

definition CFBitVectorFlipBitAtIndex :: "CFBitVector \<Rightarrow> nat \<Rightarrow> CFBitVector option" where
  "CFBitVectorFlipBitAtIndex bv idx = map_option (\<lambda>b. bv\<lparr>bv_buckets := b\<rparr>) (CFFlipBitVectorBit (bv_buckets bv) idx)"

definition CFBitVectorFlipBits :: "CFBitVector \<Rightarrow> nat \<Rightarrow> nat \<Rightarrow> CFBitVector option" where
  "CFBitVectorFlipBits bv location len =
     (if len = 0 then Some bv else bv_map bv location len CFBitVectorFlipBits_mapper)"

definition CFBitVectorSetBitAtIndex :: "CFBitVector \<Rightarrow> nat \<Rightarrow> CFBit \<Rightarrow> CFBitVector option" where
  "CFBitVectorSetBitAtIndex bv idx value = map_option (\<lambda>b. bv\<lparr>bv_buckets := b\<rparr>) (CFSetBitVectorBit (bv_buckets bv) idx value)"

definition CFBitVectorSetBits :: "CFBitVector \<Rightarrow> nat \<Rightarrow> nat \<Rightarrow> CFBit \<Rightarrow> CFBitVector option" where
  "CFBitVectorSetBits bv location len value =
     (if len = 0 then Some bv
      else if value \<noteq> 0 then bv_map bv location len CFBitVectorOneBits
      else bv_map bv location len CFBitVectorZeroBits)"

definition CFBitVectorSetAllBits :: "CFBitVector \<Rightarrow> CFBit \<Rightarrow> CFBitVector option" where
  "CFBitVectorSetAllBits bv value = do {
     let nBuckets = bv_count bv div 8;
     let leftover = bv_count bv - nBuckets * 8;
     bv \<leftarrow> (if 0 < leftover then
               (if value \<noteq> 0 then bv_map bv (nBuckets * 8) leftover CFBitVectorOneBits
                else bv_map bv (nBuckets * 8) leftover CFBitVectorZeroBits)
             else Some bv);
     if length (bv_buckets bv) < nBuckets then None
     else Some (bv\<lparr>bv_buckets := replicate nBuckets (if value \<noteq> 0 then NOT 0 else 0) @ drop nBuckets (bv_buckets bv)\<rparr>)
   }"

section \<open>Bits of buckets\<close>

definition bit_at :: "bucket list \<Rightarrow> nat \<Rightarrow> bool" where
  "bit_at buckets i \<longleftrightarrow> bit (buckets ! (i div 8)) (7 - i mod 8)"

definition bv_bits :: "CFBitVector \<Rightarrow> bool list" where
  "bv_bits bv = map (bit_at (bv_buckets bv)) [0..<bv_count bv]"

text \<open>What every vector satisfies: the count is within the capacity, which says how many buckets there are.\<close>

definition bv_ok :: "CFBitVector \<Rightarrow> bool" where
  "bv_ok bv \<longleftrightarrow> bv_count bv \<le> bv_capacity bv \<and> length (bv_buckets bv) = CFBitVectorNumBuckets (bv_capacity bv)"

lemma bit_at_update:
  "j < length buckets \<Longrightarrow> bit_at (buckets[j := b]) i \<longleftrightarrow> (if i div 8 = j then bit b (7 - i mod 8) else bit_at buckets i)"
  by (simp add: bit_at_def)

lemma bit_mask:
  assumes "lo \<le> hi" "hi < 8" "n < 8"
  shows "bit (CFBitBucketMask lo hi) n \<longleftrightarrow> lo \<le> 7 - n \<and> 7 - n \<le> hi"
  using assms by (auto simp: CFBitBucketMask_def Let_def bit_simps)

lemma full_mask: "CFBitBucketMask 0 7 = NOT 0"
  by (rule bit_word_eqI) (simp add: bit_mask bit_simps)

lemma bucket_at_Some [simp]: "i < length buckets \<Longrightarrow> bucket_at buckets i = Some (buckets ! i)"
  by (simp add: bucket_at_def)

lemma set_bucket_Some [simp]: "i < length buckets \<Longrightarrow> set_bucket buckets i b = Some (buckets[i := b])"
  by (simp add: set_bucket_def)

section \<open>The steps of a range\<close>

text \<open>The buckets a range touches, with the masks of its bits in them.\<close>

fun map_steps :: "nat \<Rightarrow> nat \<Rightarrow> (nat \<times> bucket) list" where
  "map_steps location len =
     (if len = 0 then []
      else let k = min (8 - location mod 8) len
           in (location div 8, CFBitBucketMask (location mod 8) (location mod 8 + k - 1)) # map_steps (location + k) (len - k))"

declare map_steps.simps [simp del]

fun run_steps :: "'c mapper \<Rightarrow> bucket list \<Rightarrow> 'c \<Rightarrow> (nat \<times> bucket) list \<Rightarrow> (bucket list \<times> 'c) option" where
  "run_steps mapper buckets ctx [] = Some (buckets, ctx)"
| "run_steps mapper buckets ctx ((i, bm) # ss) = do {
     (buckets, ctx) \<leftarrow> bv_map_masked mapper bm buckets i ctx;
     run_steps mapper buckets ctx ss
   }"

lemma run_steps_append:
  "run_steps mapper buckets ctx (us @ vs) = do {
     (buckets, ctx) \<leftarrow> run_steps mapper buckets ctx us;
     run_steps mapper buckets ctx vs
   }"
  by (induction mapper buckets ctx us rule: run_steps.induct) (auto split: bind_splits)

lemma bv_map_loop_steps:
  "bv_map_loop mapper buckets q n ctx = run_steps mapper buckets ctx (map (\<lambda>i. (i, NOT 0)) [q..<q + n])"
proof (induction n arbitrary: q buckets ctx)
  case (Suc n)
  have "[q..<q + Suc n] = q # [Suc q..<Suc q + n]" by (simp add: upt_conv_Cons)
  then show ?case by (simp add: bv_map_masked_def Suc.IH split: bind_splits)
qed simp

lemma map_steps_0 [simp]: "map_steps location 0 = []"
  by (simp add: map_steps.simps)

lemma map_steps_aligned:
  "r < 8 \<Longrightarrow> map_steps (8 * q) (8 * n + r) =
     map (\<lambda>i. (i, NOT 0)) [q..<q + n] @ (if r = 0 then [] else [(q + n, CFBitBucketMask 0 (r - 1))])"
proof (induction n arbitrary: q)
  case 0
  then show ?case by (subst map_steps.simps) simp
next
  case (Suc n)
  have "map_steps (8 * q) (8 * Suc n + r) = (q, NOT 0) # map_steps (8 * Suc q) (8 * n + r)"
    by (subst map_steps.simps) (simp add: full_mask add.commute)
  moreover have "[q..<q + Suc n] = q # [Suc q..<Suc q + n]" "Suc q + n = q + Suc n" by (simp_all add: upt_conv_Cons)
  ultimately show ?case using Suc.IH [OF Suc.prems, of "Suc q"] by (simp only: list.map append_Cons)
qed

lemma CFBitVectorInternalMap_steps:
  "CFBitVectorInternalMap buckets location len mapper ctx = run_steps mapper buckets ctx (map_steps location len)"
proof (cases "len = 0 \<or> location mod 8 + len < 8")
  case True
  then show ?thesis
    by (subst map_steps.simps) (auto simp: CFBitVectorInternalMap_def Let_def min_def split: bind_splits)
next
  case False
  define rest where "rest = len - (8 - location mod 8)"
  let ?q = "location div 8 + 1" and ?n = "rest div 8" and ?r = "rest mod 8"
  have "8 - location mod 8 \<le> len" using False by linarith
  then have k: "min (8 - location mod 8) len = 8 - location mod 8" "location mod 8 + (8 - location mod 8) - 1 = 7"
    by (simp_all add: min_absorb1)
  have q: "location + (8 - location mod 8) = 8 * ?q" by presburger
  have "map_steps location len = (location div 8, CFBitBucketMask (location mod 8) 7) # map_steps (8 * ?q) rest"
    using False by (subst map_steps.simps) (simp only: Let_def k q rest_def de_Morgan_disj simp_thms if_False)
  moreover have "map_steps (8 * ?q) rest =
      map (\<lambda>i. (i, NOT 0)) [?q..<?q + ?n] @ (if ?r = 0 then [] else [(?q + ?n, CFBitBucketMask 0 (?r - 1))])"
    using map_steps_aligned [of ?r ?q ?n, unfolded mult_div_mod_eq] by simp
  ultimately have steps: "map_steps location len =
      (location div 8, CFBitBucketMask (location mod 8) 7) # map (\<lambda>i. (i, NOT 0)) [?q..<?q + ?n] @
        (if ?r = 0 then [] else [(?q + ?n, CFBitBucketMask 0 (?r - 1))])"
    by (simp only:)
  have r: "rest - ?n * 8 = ?r" by (simp add: minus_div_mult_eq_mod)
  show ?thesis
    unfolding steps CFBitVectorInternalMap_def using False r
    by (simp add: Let_def rest_def [symmetric] bv_map_loop_steps run_steps_append split: bind_splits)
qed

section \<open>Mappers\<close>

text \<open>The bits of a range that are in its first bucket.\<close>

lemma first_bucket:
  fixes location len i n :: nat
  assumes "k = min (8 - location mod 8) len" "0 < len"
  shows "0 < k" "k \<le> len" "location mod 8 + k - 1 < 8" "location mod 8 \<le> location mod 8 + k - 1"
    "i div 8 = location div 8 \<and> location mod 8 \<le> i mod 8 \<and> i mod 8 \<le> location mod 8 + k - 1 \<longleftrightarrow> location \<le> i \<and> i < location + k"
    "location + len \<le> 8 * n \<Longrightarrow> location div 8 < n"
proof -
  have m: "location mod 8 < 8" "location = 8 * (location div 8) + location mod 8" "i = 8 * (i div 8) + i mod 8" "i mod 8 < 8" by simp_all
  show "0 < k" "k \<le> len" "location mod 8 + k - 1 < 8" "location mod 8 \<le> location mod 8 + k - 1" using assms m(1) by linarith+
  have k: "location mod 8 + k \<le> 8" "0 < k" using assms m(1) by linarith+
  show "i div 8 = location div 8 \<and> location mod 8 \<le> i mod 8 \<and> i mod 8 \<le> location mod 8 + k - 1 \<longleftrightarrow> location \<le> i \<and> i < location + k"
  proof
    assume i: "location \<le> i \<and> i < location + k"
    then have "\<not> i div 8 < location div 8" "\<not> location div 8 < i div 8" using m k by linarith+
    then have "i div 8 = location div 8" using nat_neq_iff by blast
    then show "i div 8 = location div 8 \<and> location mod 8 \<le> i mod 8 \<and> i mod 8 \<le> location mod 8 + k - 1"
      using m k i by (intro conjI) linarith+
  qed (use m k in linarith)
  show "location + len \<le> 8 * n \<Longrightarrow> location div 8 < n" using assms(2) m(2) by linarith
qed

lemma map_steps_Cons:
  assumes "k = min (8 - location mod 8) len" "0 < len"
  shows "map_steps location len = (location div 8, CFBitBucketMask (location mod 8) (location mod 8 + k - 1)) # map_steps (location + k) (len - k)"
  using assms by (subst map_steps.simps) (simp add: Let_def)

text \<open>A mapper that computes each bit of the bucket from the old bit, whatever the mask.\<close>

locale bitwise_mapper =
  fixes mapper :: "unit mapper" and h :: "bool \<Rightarrow> bool"
  assumes mapper_bits: "\<exists>b'. mapper b bm () = Some (b', ()) \<and> (\<forall>n < 8. bit b' n \<longleftrightarrow> h (bit b n))"
begin

lemma map_masked_bits:
  assumes "j < length buckets"
  shows "\<exists>b'. bv_map_masked mapper bm buckets j () = Some (buckets[j := b'], ()) \<and>
    (\<forall>n < 8. bit b' n \<longleftrightarrow> (if bit bm n then h (bit (buckets ! j) n) else bit (buckets ! j) n))"
proof -
  obtain b' where "mapper (buckets ! j) bm () = Some (b', ())" "\<forall>n < 8. bit b' n \<longleftrightarrow> h (bit (buckets ! j) n)"
    using mapper_bits by blast
  then show ?thesis using assms
    by (intro exI [of _ "(buckets ! j AND NOT bm) OR (b' AND bm)"]) (auto simp: bv_map_masked_def bit_simps)
qed

lemma run_steps_bits:
  "location + len \<le> 8 * length buckets \<Longrightarrow>
   \<exists>buckets'. run_steps mapper buckets () (map_steps location len) = Some (buckets', ()) \<and> length buckets' = length buckets \<and>
     (\<forall>i. bit_at buckets' i \<longleftrightarrow> (if location \<le> i \<and> i < location + len then h (bit_at buckets i) else bit_at buckets i))"
proof (induction location len arbitrary: buckets rule: map_steps.induct)
  case (1 location len)
  show ?case
  proof (cases "len = 0")
    case False
    define k where "k = min (8 - location mod 8) len"
    let ?bm = "CFBitBucketMask (location mod 8) (location mod 8 + k - 1)" and ?j = "location div 8"
    have pos: "0 < len" using False by simp
    note first = first_bucket [OF k_def pos]
    have j: "?j < length buckets" using first(6) "1.prems" .
    obtain b' where b': "bv_map_masked mapper ?bm buckets ?j () = Some (buckets[?j := b'], ())"
        "\<And>n. n < 8 \<Longrightarrow> bit b' n \<longleftrightarrow> (if bit ?bm n then h (bit (buckets ! ?j) n) else bit (buckets ! ?j) n)"
      using map_masked_bits [OF j] by blast
    have bits: "bit_at (buckets[?j := b']) i \<longleftrightarrow> (if location \<le> i \<and> i < location + k then h (bit_at buckets i) else bit_at buckets i)" for i
    proof -
      have bm: "bit ?bm (7 - i mod 8) \<longleftrightarrow> location mod 8 \<le> i mod 8 \<and> i mod 8 \<le> location mod 8 + k - 1"
        using bit_mask [OF first(4,3), of "7 - i mod 8"] by simp
      show ?thesis
      proof (cases "i div 8 = ?j")
        case True
        then have "bit ?bm (7 - i mod 8) \<longleftrightarrow> location \<le> i \<and> i < location + k" using bm first(5) [of i] by blast
        then show ?thesis using True b'(2) [of "7 - i mod 8"] j by (simp only: bit_at_update bit_at_def if_True) simp
      next
        case False
        then have "\<not> (location \<le> i \<and> i < location + k)" using first(5) [of i] by blast
        then show ?thesis using False j by (simp only: bit_at_update if_False)
      qed
    qed
    have "location + k + (len - k) \<le> 8 * length (buckets[?j := b'])" using "1.prems" first(2) by simp
    from "1.IH" [OF False k_def this] obtain buckets' where
      "run_steps mapper (buckets[?j := b']) () (map_steps (location + k) (len - k)) = Some (buckets', ())" "length buckets' = length buckets"
      "\<And>i. bit_at buckets' i \<longleftrightarrow> (if location + k \<le> i \<and> i < location + k + (len - k) then h (bit_at (buckets[?j := b']) i) else bit_at (buckets[?j := b']) i)"
      by auto
    then show ?thesis using first(1,2) bits b'(1) 
      by (intro exI [of _ buckets']) (auto simp: map_steps_Cons [OF k_def pos])
  qed auto
qed

lemma bv_map_bits:
  assumes "location + len \<le> 8 * length (bv_buckets bv)"
  shows "\<exists>buckets'. bv_map bv location len mapper = Some (bv\<lparr>bv_buckets := buckets'\<rparr>) \<and> length buckets' = length (bv_buckets bv) \<and>
    (\<forall>i. bit_at buckets' i \<longleftrightarrow> (if location \<le> i \<and> i < location + len then h (bit_at (bv_buckets bv) i) else bit_at (bv_buckets bv) i))"
  using run_steps_bits [OF assms] by (auto simp: bv_map_def CFBitVectorInternalMap_steps)

end

interpretation zero_bits: bitwise_mapper CFBitVectorZeroBits "\<lambda>_. False"
  by unfold_locales (simp add: CFBitVectorZeroBits_def)

interpretation one_bits: bitwise_mapper CFBitVectorOneBits "\<lambda>_. True"
  by unfold_locales (simp add: CFBitVectorOneBits_def bit_simps)

interpretation flip_bits: bitwise_mapper CFBitVectorFlipBits_mapper Not
  by unfold_locales (auto simp: CFBitVectorFlipBits_mapper_def bit_simps)

section \<open>Counting\<close>

lemma nibble_count: "CFNibbleBitCount ! unat (v AND 15) = length (filter (bit v) [0..<4])" for v :: bucket
proof -
  have u: "[0..<4] = [0, 1, 2, 3::nat]" by (simp add: upt_rec)
  have "v AND 15 = take_bit 4 v" by (simp add: take_bit_eq_mask mask_eq_exp_minus_1)
  also have "\<dots> = horner_sum of_bool 2 (map (bit v) [0..<4])" by (simp only: horner_sum_bit_eq_take_bit)
  also have "\<dots> = of_bool (bit v 0) + 2 * (of_bool (bit v 1) + 2 * (of_bool (bit v 2) + 2 * of_bool (bit v 3)))"
    by (simp add: u)
  finally show ?thesis
    by (cases "bit v 0"; cases "bit v 1"; cases "bit v 2"; cases "bit v 3") (simp_all add: CFNibbleBitCount_def u)
qed

lemma bv_nibble_loop_bits: "bv_nibble_loop 2 v n = n + length (filter (bit v) [0..<8])"
proof -
  have "length (filter (bit v) [4..<8]) = length (filter (bit (drop_bit 4 v)) [0..<4])"
    by (simp add: upt_rec bit_simps)
  moreover have "[0..<8] = [0..<4] @ [4..<8::nat]" by (simp add: upt_rec)
  ultimately show ?thesis by (simp add: numeral_2_eq_2 nibble_count)
qed

lemma byte_index: "(8 * q + (7 - n)) div 8 = q" "(8 * q + (7 - n)) mod 8 = 7 - n" for q n :: nat
proof -
  have "7 - n < 8" by simp
  then show "(8 * q + (7 - n)) div 8 = q" "(8 * q + (7 - n)) mod 8 = 7 - n"
    by (simp_all only: div_mult_self4 mod_mult_self4 div_less mod_less zero_neq_numeral not_False_eq_True add_0_right)
qed

text \<open>The number of indexes in a range that satisfy a predicate.\<close>

definition count_range :: "(nat \<Rightarrow> bool) \<Rightarrow> nat \<Rightarrow> nat \<Rightarrow> nat" where
  "count_range P location len = length (filter P [location..<location + len])"

lemma count_range_split: "k \<le> len \<Longrightarrow> count_range P location len = count_range P location k + count_range P (location + k) (len - k)"
proof -
  assume "k \<le> len"
  then have "[location..<location + len] = [location..<location + k] @ [location + k..<location + k + (len - k)]"
    using upt_add_eq_append [of location "location + k" "len - k"] by simp
  then show ?thesis by (simp add: count_range_def)
qed

lemma count_range_card: "count_range P location len = card {i. location \<le> i \<and> i < location + len \<and> P i}"
proof -
  have "set (filter P [location..<location + len]) = {i. location \<le> i \<and> i < location + len \<and> P i}" by auto
  then show ?thesis unfolding count_range_def by (metis distinct_card distinct_filter distinct_upt)
qed

lemma count_first_bucket:
  assumes k: "k = min (8 - location mod 8) len" and pos: "0 < len"
    and bm: "bm = CFBitBucketMask (location mod 8) (location mod 8 + k - 1)" and q: "q = location div 8"
  shows "length (filter (\<lambda>n. bit bm n \<and> (bit (buckets ! q) n \<longleftrightarrow> v)) [0..<8]) = count_range (\<lambda>i. bit_at buckets i \<longleftrightarrow> v) location k"
proof -
  note first = first_bucket [OF k pos]
  let ?B = "{n. n < 8 \<and> bit bm n \<and> (bit (buckets ! q) n \<longleftrightarrow> v)}"
  let ?R = "{i. location \<le> i \<and> i < location + k \<and> (bit_at buckets i \<longleftrightarrow> v)}"
  have "bij_betw (\<lambda>i. 7 - i mod 8) ?R ?B"
  proof (rule bij_betw_byWitness [where f' = "\<lambda>n. 8 * q + (7 - n)"])
    show "\<forall>i \<in> ?R. 8 * q + (7 - (7 - i mod 8)) = i"
    proof
      fix i assume "i \<in> ?R"
      then have "i div 8 = q" using first(5) [of i] q by simp
      then show "8 * q + (7 - (7 - i mod 8)) = i" by auto
    qed
    show "\<forall>n \<in> ?B. 7 - (8 * q + (7 - n)) mod 8 = n" unfolding byte_index by auto
    show "(\<lambda>i. 7 - i mod 8) ` ?R \<subseteq> ?B"
    proof
      fix n assume "n \<in> (\<lambda>i. 7 - i mod 8) ` ?R"
      then obtain i where i: "n = 7 - i mod 8" "i \<in> ?R" by blast
      then have "i div 8 = q \<and> location mod 8 \<le> i mod 8 \<and> i mod 8 \<le> location mod 8 + k - 1" using first(5) [of i] q by simp
      then show "n \<in> ?B" using i bit_mask [OF first(4,3), of n] bm by (simp add: bit_at_def)
    qed
    show "(\<lambda>n. 8 * q + (7 - n)) ` ?B \<subseteq> ?R"
    proof
      fix i assume "i \<in> (\<lambda>n. 8 * q + (7 - n)) ` ?B"
      then obtain n where n: "i = 8 * q + (7 - n)" "n \<in> ?B" by blast
      have d: "i div 8 = q" "i mod 8 = 7 - n" unfolding n(1) by (rule byte_index)+
      moreover have "location mod 8 \<le> 7 - n \<and> 7 - n \<le> location mod 8 + k - 1" using n(2) bit_mask [OF first(4,3), of n] bm by simp
      ultimately have "location \<le> i \<and> i < location + k" using first(5) [of i] q by simp
      moreover have "bit_at buckets i \<longleftrightarrow> v" using n(2) d by (simp add: bit_at_def)
      ultimately show "i \<in> ?R" by simp
    qed
  qed
  then have "card ?R = card ?B" by (rule bij_betw_same_card)
  moreover have "length (filter (\<lambda>n. bit bm n \<and> (bit (buckets ! q) n \<longleftrightarrow> v)) [0..<8]) = card ?B"
    using count_range_card [of "\<lambda>n. bit bm n \<and> (bit (buckets ! q) n \<longleftrightarrow> v)" 0 8] by (simp add: count_range_def)
  ultimately show ?thesis by (simp add: count_range_card)
qed

lemma mask_self: "(b AND NOT m) OR (b AND m) = b" for b m :: bucket
  by (rule bit_word_eqI) (auto simp: bit_simps)

lemma count_mapper_step:
  assumes "j < length buckets"
  shows "bv_map_masked (CFBitVectorCountBits value) bm buckets j c =
    Some (buckets, c + length (filter (\<lambda>n. bit bm n \<and> (bit (buckets ! j) n \<longleftrightarrow> value \<noteq> 0)) [0..<8]))"
proof -
  let ?v = "if value \<noteq> 0 then buckets ! j AND bm else NOT (buckets ! j) AND bm"
  have "filter (bit ?v) [0..<8] = filter (\<lambda>n. bit bm n \<and> (bit (buckets ! j) n \<longleftrightarrow> value \<noteq> 0)) [0..<8]"
    by (rule filter_cong) (auto simp: bit_simps)
  then show ?thesis using assms
    by (simp add: bv_map_masked_def CFBitVectorCountBits_def Let_def mask_self bv_nibble_loop_bits [unfolded numeral_2_eq_2]
        numeral_2_eq_2 del: bv_nibble_loop.simps)
qed

lemma run_steps_count:
  "location + len \<le> 8 * length buckets \<Longrightarrow>
   run_steps (CFBitVectorCountBits value) buckets c (map_steps location len) =
     Some (buckets, c + count_range (\<lambda>i. bit_at buckets i \<longleftrightarrow> value \<noteq> 0) location len)"
proof (induction location len arbitrary: c rule: map_steps.induct)
  case (1 location len)
  show ?case
  proof (cases "len = 0")
    case False
    define k where "k = min (8 - location mod 8) len"
    have pos: "0 < len" using False by simp
    note first = first_bucket [OF k_def pos]
    have j: "location div 8 < length buckets" using first(6) "1.prems" .
    have "location + k + (len - k) \<le> 8 * length buckets" using "1.prems" first(2) by simp
    note IH = "1.IH" [OF False k_def this]
    show ?thesis
      unfolding map_steps_Cons [OF k_def pos] run_steps.simps count_mapper_step [OF j] count_first_bucket [OF k_def pos refl refl]
      using IH count_range_split [OF first(2), of "\<lambda>i. bit_at buckets i \<longleftrightarrow> value \<noteq> 0" location] by simp
  qed (simp add: count_range_def)
qed

section \<open>Reading single bits\<close>

lemma CFBitVectorBit_at:
  assumes "i < 8 * length buckets"
  shows "CFBitVectorBit buckets i = Some (of_bool (bit_at buckets i))"
proof -
  have "(ucast (drop_bit (7 - i mod 8) b) AND 1 :: CFBit) = of_bool (bit b (7 - i mod 8))" for b :: bucket
    by (rule bit_word_eqI) (auto simp: bit_simps bit_1_iff)
  moreover have "i div 8 < length buckets" using assms by (simp add: less_mult_imp_div_less mult.commute)
  ultimately show ?thesis by (simp add: CFBitVectorBit_def bit_at_def)
qed

lemma bv_ok_bound: "bv_ok bv \<Longrightarrow> bv_count bv < 8 * length (bv_buckets bv)"
  unfolding bv_ok_def CFBitVectorNumBuckets_def by presburger

lemma length_bv_bits [simp]: "length (bv_bits bv) = bv_count bv"
  by (simp add: bv_bits_def)

lemma nth_bv_bits [simp]: "i < bv_count bv \<Longrightarrow> bv_bits bv ! i = bit_at (bv_buckets bv) i"
  by (simp add: bv_bits_def)

lemma bv_bits_eqI:
  "bv_count bv = length bs \<Longrightarrow> (\<And>i. i < length bs \<Longrightarrow> bit_at (bv_buckets bv) i = bs ! i) \<Longrightarrow> bv_bits bv = bs"
  by (rule nth_equalityI) simp_all

lemma CFBitVectorGetBitAtIndex_ok:
  "bv_ok bv \<Longrightarrow> i < bv_count bv \<Longrightarrow> CFBitVectorGetBitAtIndex bv i = Some (of_bool (bv_bits bv ! i))"
  using bv_ok_bound [of bv] CFBitVectorBit_at [of i "bv_buckets bv"] by (simp add: CFBitVectorGetBitAtIndex_def)

lemma bv_first_loop_ok:
  "bv_ok bv \<Longrightarrow> i + n \<le> bv_count bv \<Longrightarrow>
   bv_first_loop bv (of_bool v) i n =
     Some (case first_match (\<lambda>b. b = v) (take n (drop i (bv_bits bv))) of None \<Rightarrow> kCFNotFound | Some k \<Rightarrow> int (i + k))"
proof (induction n arbitrary: i)
  case (Suc n)
  then have "take (Suc n) (drop i (bv_bits bv)) = bv_bits bv ! i # take n (drop (Suc i) (bv_bits bv))"
    by (simp add: Cons_nth_drop_Suc [symmetric])
  then show ?case using Suc by (auto simp: CFBitVectorGetBitAtIndex_ok split: option.splits)
qed simp

lemma bv_last_loop_ok:
  "bv_ok bv \<Longrightarrow> i + n \<le> bv_count bv \<Longrightarrow>
   bv_last_loop bv (of_bool v) i n =
     Some (case first_match (\<lambda>b. b = v) (rev (take n (drop i (bv_bits bv)))) of None \<Rightarrow> kCFNotFound | Some k \<Rightarrow> int (i + n - 1 - k))"
proof (induction n)
  case (Suc n)
  then have "take (Suc n) (drop i (bv_bits bv)) = take n (drop i (bv_bits bv)) @ [bv_bits bv ! (i + n)]"
    by (simp add: take_Suc_conv_app_nth)
  then show ?case using Suc by (auto simp: CFBitVectorGetBitAtIndex_ok add.commute split: option.splits)
qed simp

lemma count_range_bits:
  assumes "location + len \<le> bv_count bv"
  shows "count_range (\<lambda>i. bit_at (bv_buckets bv) i \<longleftrightarrow> v) location len = length (filter (\<lambda>b. b = v) (take len (drop location (bv_bits bv))))"
proof -
  have "take len (drop location (bv_bits bv)) = map (bit_at (bv_buckets bv)) [location..<location + len]"
    using assms by (intro nth_equalityI) auto
  then show ?thesis by (simp add: count_range_def filter_map comp_def)
qed

lemma CFBitVectorGetCountOfBit_ok:
  assumes "bv_ok bv" "location + len \<le> bv_count bv"
  shows "CFBitVectorGetCountOfBit bv location len (value :: CFBit) = Some (length (filter (\<lambda>b. b = (value \<noteq> 0)) (take len (drop location (bv_bits bv)))))"
proof -
  have "location + len \<le> 8 * length (bv_buckets bv)" using assms bv_ok_bound [OF assms(1)] by linarith
  then show ?thesis using count_range_bits [OF assms(2)] run_steps_count
    by (simp add: CFBitVectorGetCountOfBit_def CFBitVectorInternalMap_steps)
qed

section \<open>Comparison and creation\<close>

lemma bv_equal_loop_take:
  "i + n \<le> length b1 \<Longrightarrow> i + n \<le> length b2 \<Longrightarrow> bv_equal_loop b1 b2 i n = Some (take n (drop i b1) = take n (drop i b2))"
  by (induction n arbitrary: i) (auto simp: Cons_nth_drop_Suc [symmetric])

lemma bv_ok_buckets: "bv_ok bv \<Longrightarrow> bv_count bv div 8 + 1 \<le> length (bv_buckets bv)"
  using div_le_mono [of "bv_count bv" "bv_capacity bv" 8] by (simp add: bv_ok_def CFBitVectorNumBuckets_def)

lemma CFBitVectorEqual_ok:
  assumes "bv_ok bv1" "bv_ok bv2"
  shows "CFBitVectorEqual bv1 bv2 =
    Some (bv_count bv1 = bv_count bv2 \<and> (bv_count bv1 = 0 \<or> take (bv_count bv1 div 8 + 1) (bv_buckets bv1) = take (bv_count bv1 div 8 + 1) (bv_buckets bv2)))"
proof -
  have "bv_count bv1 = bv_count bv2 \<Longrightarrow> bv_equal_loop (bv_buckets bv1) (bv_buckets bv2) 0 (bv_count bv1 div 8 + 1) =
      Some (take (bv_count bv1 div 8 + 1) (bv_buckets bv1) = take (bv_count bv1 div 8 + 1) (bv_buckets bv2))"
    using bv_ok_buckets [OF assms(1)] bv_ok_buckets [OF assms(2)] by (simp add: bv_equal_loop_take del: bv_equal_loop.simps)
  then show ?thesis by (simp add: CFBitVectorEqual_def Let_def del: bv_equal_loop.simps)
qed

text \<open>The bits of the last bucket that do not count are clear.\<close>

definition padding_clear :: "CFBitVector \<Rightarrow> bool" where
  "padding_clear bv \<longleftrightarrow> (\<forall>i. bv_count bv \<le> i \<longrightarrow> i < 8 * (bv_count bv div 8 + 1) \<longrightarrow> \<not> bit_at (bv_buckets bv) i)"

lemma bucket_eq_bits: "(\<And>t. t < 8 \<Longrightarrow> bit_at b1 (8 * j + t) = bit_at b2 (8 * j + t)) \<Longrightarrow> b1 ! j = b2 ! j"
proof (rule bit_word_eqI)
  fix n assume h: "\<And>t. t < 8 \<Longrightarrow> bit_at b1 (8 * j + t) = bit_at b2 (8 * j + t)" and "n < LENGTH(8)"
  then have "n < 8" by simp
  then show "bit (b1 ! j) n = bit (b2 ! j) n" using h [of "7 - n"] by (simp add: bit_at_def byte_index del: add_diff_assoc)
qed

lemma take_buckets_bits:
  assumes "n \<le> length b1" "n \<le> length b2"
  shows "take n b1 = take n b2 \<longleftrightarrow> (\<forall>i < 8 * n. bit_at b1 i = bit_at b2 i)"
proof
  assume "take n b1 = take n b2"
  then have "b1 ! j = b2 ! j" if "j < n" for j using that by (metis nth_take)
  then show "\<forall>i < 8 * n. bit_at b1 i = bit_at b2 i" by (simp add: bit_at_def less_mult_imp_div_less mult.commute)
next
  assume h: "\<forall>i < 8 * n. bit_at b1 i = bit_at b2 i"
  have "b1 ! j = b2 ! j" if "j < n" for j using h that by (intro bucket_eq_bits) auto
  then show "take n b1 = take n b2" using assms by (intro nth_equalityI) auto
qed

end
