(* ===== verification/CF_BitVectorOps.thy ===== *)
theory CF_BitVectorOps
  imports CF_BitVector
begin

unbundle bit_operations_syntax

text \<open>
  The operations of \<open>CFBitVector.c\<close> as operations on the list of bits of a vector: comparison and
  creation, copying bits out, the operations that change a vector and sequences of them.
\<close>

section \<open>Comparison and creation\<close>

lemma CFBitVectorEqual_sound:
  assumes "bv_ok bv1" "bv_ok bv2" "CFBitVectorEqual bv1 bv2 = Some True"
  shows "bv_bits bv1 = bv_bits bv2"
proof (cases "bv_count bv1 = 0")
  case True
  then show ?thesis using assms by (simp add: CFBitVectorEqual_ok bv_bits_def)
next
  case False
  let ?n = "bv_count bv1 div 8 + 1"
  have c: "bv_count bv1 = bv_count bv2" "take ?n (bv_buckets bv1) = take ?n (bv_buckets bv2)" 
    using assms(3) False unfolding CFBitVectorEqual_ok [OF assms(1,2)] option.inject by blast+
  have "\<forall>i < 8 * ?n. bit_at (bv_buckets bv1) i = bit_at (bv_buckets bv2) i"
    using c take_buckets_bits [of ?n "bv_buckets bv1" "bv_buckets bv2"] bv_ok_buckets [OF assms(1)] bv_ok_buckets [OF assms(2)] by simp
  moreover have "bv_count bv1 \<le> 8 * ?n" by presburger
  ultimately show ?thesis using c(1) by (intro bv_bits_eqI) simp_all
qed

lemma CFBitVectorEqual_complete:
  assumes "bv_ok bv1" "bv_ok bv2" "padding_clear bv1" "padding_clear bv2" "bv_bits bv1 = bv_bits bv2"
  shows "CFBitVectorEqual bv1 bv2 = Some True"
proof -
  let ?n = "bv_count bv1 div 8 + 1"
  have c: "bv_count bv1 = bv_count bv2" using arg_cong [OF assms(5), of length] by simp
  have "bit_at (bv_buckets bv1) i = bit_at (bv_buckets bv2) i" if "i < 8 * ?n" for i
  proof (cases "i < bv_count bv1")
    case True
    then show ?thesis using assms(5) c by (metis nth_bv_bits)
  next
    case False
    then have "\<not> bit_at (bv_buckets bv1) i" "\<not> bit_at (bv_buckets bv2) i"
      using assms(3,4) that c unfolding padding_clear_def by (metis not_less)+
    then show ?thesis by simp
  qed
  then show ?thesis
    using c take_buckets_bits [of ?n "bv_buckets bv1" "bv_buckets bv2"] bv_ok_buckets [OF assms(1)] bv_ok_buckets [OF assms(2)]
    by (simp add: CFBitVectorEqual_ok [OF assms(1,2)])
qed

section \<open>Creation\<close>

lemma CFBitVectorRoundUpCapacity_le: "n \<le> CFBitVectorRoundUpCapacity n"
proof -
  have "k \<le> ((k + 63) div 64) * 64" for k :: nat using div_mult_mod_eq [of "k + 63" 64] mod_less_divisor [of 64 "k + 63"] by linarith
  then show ?thesis by (simp add: CFBitVectorRoundUpCapacity_def)
qed

lemma bytes_for_bound: "n \<le> 8 * bytes_for n" "i < n \<Longrightarrow> i div 8 < bytes_for n"
proof -
  have "n = 8 * (n div 8) + n mod 8" "n mod 8 < 8" by simp_all
  moreover have "n mod 8 = 0 \<and> bytes_for n = n div 8 \<or> bytes_for n = n div 8 + 1" by (simp add: bytes_for_def)
  ultimately show b: "n \<le> 8 * bytes_for n" by linarith
  show "i < n \<Longrightarrow> i div 8 < bytes_for n" using b times_div_less_eq_dividend [of 8 i] by linarith
qed

lemma bytes_for_le: "bytes_for n \<le> n div 8 + 1"
  by (simp add: bytes_for_def)

lemma CFBitVectorInit_ok:
  assumes "\<And>k. env_alloc env k" "\<And>src. bytes = Some src \<Longrightarrow> bytes_for numBits \<le> length src"
  shows "\<exists>bv. CFBitVectorInit env mutable capacity bytes numBits = Some (Some bv) \<and> bv_ok bv \<and> bv_mutable bv = mutable \<and> bv_count bv = numBits \<and>
    (\<forall>i. bit_at (bv_buckets bv) i \<longrightarrow> i < 8 * length (bv_buckets bv) \<longrightarrow> i < 8 * bytes_for numBits) \<and>
    (\<forall>i < 8 * bytes_for numBits. bit_at (bv_buckets bv) i = (case bytes of None \<Rightarrow> False | Some src \<Rightarrow> bit_at src i))"
proof -
  let ?cap = "CFBitVectorRoundUpCapacity numBits"
  let ?z = "replicate (CFBitVectorNumBuckets ?cap) 0 :: bucket list" and ?n = "bytes_for numBits"
  have n: "?n \<le> length ?z"
    using bytes_for_le [of numBits] div_le_mono [OF CFBitVectorRoundUpCapacity_le [of numBits], of 8]
    by (simp add: CFBitVectorNumBuckets_def)
  define b where "b = (case bytes of None \<Rightarrow> ?z | Some src \<Rightarrow> take ?n src @ drop ?n ?z)"
  have len: "length b = CFBitVectorNumBuckets ?cap" using n assms(2) by (auto simp: b_def split: option.splits)
  have bits: "bit_at b i \<longleftrightarrow> (if i < 8 * ?n then (case bytes of None \<Rightarrow> False | Some src \<Rightarrow> bit_at src i) else False)" if "i < 8 * length b" for i
  proof -
    have "i div 8 < length b" "i < 8 * ?n \<longleftrightarrow> i div 8 < ?n" using that by (simp_all add: less_mult_imp_div_less mult.commute div_less_iff_less_mult)
    then show ?thesis using len n assms(2) by (auto simp: b_def bit_at_def nth_append split: option.splits)
  qed
  have "CFBitVectorInit env mutable capacity bytes numBits = Some (Some \<lparr> bv_mutable = mutable, bv_count = numBits, bv_capacity = ?cap, bv_buckets = b \<rparr>)"
    using assms n by (auto simp: CFBitVectorInit_def CFRuntimeCreateInstance_def Let_def b_def split: option.splits)
  moreover have "8 * ?n \<le> 8 * length b" using n len by simp
  ultimately show ?thesis using bits len CFBitVectorRoundUpCapacity_le [of numBits] by (auto simp: bv_ok_def split: if_splits)
qed

text \<open>A copy has the bits of the original, and is equal to it if the padding is clear.\<close>

lemma bv_copy_ok:
  assumes "\<And>k. env_alloc env k" "bv_ok bv"
  shows "\<exists>copy. CFBitVectorInit env mutable capacity (Some (bv_buckets bv)) (bv_count bv) = Some (Some copy) \<and> bv_ok copy \<and>
    bv_mutable copy = mutable \<and> bv_bits copy = bv_bits bv \<and> (padding_clear bv \<longrightarrow> CFBitVectorEqual copy bv = Some True)"
proof -
  let ?n = "bv_count bv"
  have "bytes_for ?n \<le> length (bv_buckets bv)" using bytes_for_le [of ?n] bv_ok_buckets [OF assms(2)] by linarith
  then obtain copy where c: "CFBitVectorInit env mutable capacity (Some (bv_buckets bv)) ?n = Some (Some copy)" "bv_ok copy"
      "bv_mutable copy = mutable" "bv_count copy = ?n"
      "\<And>i. bit_at (bv_buckets copy) i \<Longrightarrow> i < 8 * length (bv_buckets copy) \<Longrightarrow> i < 8 * bytes_for ?n"
      "\<And>i. i < 8 * bytes_for ?n \<Longrightarrow> bit_at (bv_buckets copy) i = bit_at (bv_buckets bv) i"
    using CFBitVectorInit_ok [OF assms(1), of "Some (bv_buckets bv)" ?n mutable capacity] by auto
  have bits: "bv_bits copy = bv_bits bv"
    using c(4,6) bytes_for_bound(1) [of ?n] by (intro bv_bits_eqI) simp_all
  moreover have "CFBitVectorEqual copy bv = Some True" if pc: "padding_clear bv"
  proof -
    have "padding_clear copy" unfolding padding_clear_def
    proof (intro allI impI notI)
      fix i assume i: "bv_count copy \<le> i" "i < 8 * (bv_count copy div 8 + 1)" "bit_at (bv_buckets copy) i"
      have "i < 8 * length (bv_buckets copy)" using i(2) mult_le_mono2 [OF bv_ok_buckets [OF c(2)], of 8] by linarith
      then have "bit_at (bv_buckets bv) i" using c(6) [OF c(5) [OF i(3)]] i(3) by simp
      then show False using pc i(1,2) c(4) by (simp add: padding_clear_def)
    qed
    then show ?thesis using CFBitVectorEqual_complete [OF c(2) assms(2) _ pc bits] by simp
  qed
  ultimately show ?thesis using c(1-3) by blast
qed

section \<open>Extracting bits\<close>

text \<open>Packing bits into bytes, the first bit being the most significant one and missing bits clear.\<close>

definition byte_of :: "bool list \<Rightarrow> bucket" where
  "byte_of bs = horner_sum of_bool 2 (rev (take 8 (bs @ replicate 8 False)))"

lemma bit_byte_of:
  assumes "n < 8"
  shows "bit (byte_of bs) n \<longleftrightarrow> 7 - n < length bs \<and> bs ! (7 - n)"
proof -
  let ?l = "take 8 (bs @ replicate 8 False)"
  have len: "length ?l = 8" by simp
  then have "bit (byte_of bs) n \<longleftrightarrow> rev ?l ! n" using assms by (simp only: byte_of_def bit_horner_sum_bit_iff length_rev) simp
  also have "\<dots> \<longleftrightarrow> ?l ! (7 - n)" using assms rev_nth [of n ?l] unfolding len by simp
  also have "\<dots> \<longleftrightarrow> (bs @ replicate 8 False) ! (7 - n)" by (simp del: take_append)
  also have "\<dots> \<longleftrightarrow> 7 - n < length bs \<and> bs ! (7 - n)" by (cases "7 - n < length bs") (simp_all add: nth_append)
  finally show ?thesis .
qed

definition pack_bits :: "bool list \<Rightarrow> bucket list" where
  "pack_bits bs = map (\<lambda>j. byte_of (take 8 (drop (8 * j) bs))) [0..<bytes_for (length bs)]"

lemma bytes_for_add: "0 < k \<Longrightarrow> k \<le> 8 \<Longrightarrow> bytes_for (8 * n + k) = n + 1"
  by (cases "k = 8") (simp_all add: bytes_for_def)

text \<open>The mapper with all bits aligned writes one byte per bucket.\<close>

lemma getbits_step_aligned:
  assumes "gb_initBits ctx = 0" "8 \<le> gb_totalBits ctx" "gb_curByte ctx < length (gb_bytes ctx)" "j < length buckets"
  shows "bv_map_masked CFBitVectorGetBits_mapper bm buckets j ctx =
    Some (buckets, ctx\<lparr>gb_bytes := (gb_bytes ctx)[gb_curByte ctx := Some (buckets ! j AND bm)], gb_curByte := gb_curByte ctx + 1\<rparr>)"
proof -
  have "nat (min 8 (gb_totalBits ctx)) = 8" using assms(2) by simp
  moreover have "bv_getbits_loop 8 v ctx = Some (0, 0, ctx\<lparr>gb_bytes := (gb_bytes ctx)[gb_curByte ctx := Some v], gb_curByte := gb_curByte ctx + 1\<rparr>)" for v
    using assms by (simp add: bv_getbits_loop.simps st_def)
  ultimately show ?thesis using assms
    by (simp add: bv_map_masked_def CFBitVectorGetBits_mapper_def mask_self Let_def)
qed

lemma run_getbits_aligned:
  assumes "gb_initBits ctx = 0" "8 \<le> gb_totalBits ctx" "gb_curByte ctx + length ss \<le> length (gb_bytes ctx)" "\<forall>(j, bm) \<in> set ss. j < length buckets"
  shows "\<exists>ctx'. run_steps CFBitVectorGetBits_mapper buckets ctx ss = Some (buckets, ctx') \<and>
    gb_bytes ctx' = take (gb_curByte ctx) (gb_bytes ctx) @ map (\<lambda>(j, bm). Some (buckets ! j AND bm)) ss @ drop (gb_curByte ctx + length ss) (gb_bytes ctx)"
  using assms
proof (induction ss arbitrary: ctx)
  case (Cons s ss)
  obtain j bm where s: "s = (j, bm)" by fastforce
  let ?c = "gb_curByte ctx" and ?b = "gb_bytes ctx"
  let ?ctx = "ctx\<lparr>gb_bytes := ?b[?c := Some (buckets ! j AND bm)], gb_curByte := ?c + 1\<rparr>"
  have step: "bv_map_masked CFBitVectorGetBits_mapper bm buckets j ctx = Some (buckets, ?ctx)"
    using getbits_step_aligned [of ctx j buckets bm] Cons.prems s by simp
  obtain ctx' where "run_steps CFBitVectorGetBits_mapper buckets ?ctx ss = Some (buckets, ctx')"
      "gb_bytes ctx' = take (?c + 1) (?b[?c := Some (buckets ! j AND bm)]) @ map (\<lambda>(j, bm). Some (buckets ! j AND bm)) ss @ drop (?c + 1 + length ss) ?b"
    using Cons.IH [of ?ctx] Cons.prems by auto
  moreover have "take (?c + 1) (?b[?c := x]) = take ?c ?b @ [x]" for x using Cons.prems(3) by (simp add: take_Suc_conv_app_nth)
  ultimately show ?case using step s by simp
qed simp

text \<open>
  The mapper with bits to skip and with fewer than eight bits: it writes the byte at the current
  position, which it does not advance.
\<close>

lemma getbits_step_short:
  assumes "gb_ignoreFirstInitBits ctx" "gb_initBits ctx < 8" "0 < gb_totalBits ctx" "0 < gb_initBits ctx \<or> gb_totalBits ctx < 8"
    "gb_curByte ctx < length (gb_bytes ctx)" "j < length buckets"
  shows "bv_map_masked CFBitVectorGetBits_mapper bm buckets j ctx =
    Some (buckets, ctx\<lparr>gb_bytes := (gb_bytes ctx)[gb_curByte ctx := Some (push_bit (gb_initBits ctx) (buckets ! j AND bm))],
      gb_totalBits := gb_totalBits ctx - min (8 - int (gb_initBits ctx)) (gb_totalBits ctx)\<rparr>)"
proof -
  let ?n = "min (8 - int (gb_initBits ctx)) (gb_totalBits ctx)"
  have n: "0 < ?n" "nat ?n < 8" using assms(2-4) by auto
  have "bv_getbits_loop (nat ?n) v ctx = Some (?n, v, ctx)" for v
    using n by (subst bv_getbits_loop.simps) simp
  then show ?thesis using assms n
    by (cases "0 < gb_initBits ctx") (simp_all add: bv_map_masked_def CFBitVectorGetBits_mapper_def mask_self st_def Let_def)
qed

lemma run_getbits_short:
  assumes "gb_ignoreFirstInitBits ctx" "gb_initBits ctx = s" "0 < s" "s < 8" "gb_curByte ctx < length (gb_bytes ctx)"
    "ss \<noteq> []" "\<forall>(j, bm) \<in> set ss. j < length buckets" "int (length ss - 1) * (8 - int s) < gb_totalBits ctx"
  shows "\<exists>ctx'. run_steps CFBitVectorGetBits_mapper buckets ctx ss = Some (buckets, ctx') \<and>
    gb_bytes ctx' = (gb_bytes ctx)[gb_curByte ctx := Some (push_bit s (case last ss of (j, bm) \<Rightarrow> buckets ! j AND bm))]"
  using assms
proof (induction ss arbitrary: ctx)
  case (Cons p ss)
  obtain j bm where p: "p = (j, bm)" by fastforce
  let ?c = "gb_curByte ctx" and ?b = "gb_bytes ctx" and ?n = "min (8 - int s) (gb_totalBits ctx)"
  let ?ctx = "ctx\<lparr>gb_bytes := ?b[?c := Some (push_bit s (buckets ! j AND bm))], gb_totalBits := gb_totalBits ctx - ?n\<rparr>"
  have "0 \<le> int (length ss) * (8 - int s)" using Cons.prems(4) by simp
  then have pos: "0 < gb_totalBits ctx" using Cons.prems(8) by simp
  have step: "bv_map_masked CFBitVectorGetBits_mapper bm buckets j ctx = Some (buckets, ?ctx)"
    using getbits_step_short [of ctx j buckets bm] Cons.prems pos p by simp
  show ?case
  proof (cases "ss = []")
    case True
    then show ?thesis using step p by simp
  next
    case False
    have "int (length ss) * (8 - int s) = int (length ss - 1) * (8 - int s) + (8 - int s)"
      using False by (cases ss) (simp_all add: algebra_simps)
    then have "int (length ss - 1) * (8 - int s) < gb_totalBits ?ctx" using Cons.prems(8) by simp
    then show ?thesis using Cons.IH [of ?ctx] Cons.prems False step p by auto
  qed
qed simp

lemma bytes_for_step: "0 < n \<Longrightarrow> bytes_for n = (n - 1) div 8 + 1"
proof -
  assume "0 < n"
  then obtain m where m: "n = Suc m" by (cases n) auto
  then show ?thesis by (simp add: bytes_for_def div_Suc)
qed

lemma map_steps_bytes:
  "map_steps (8 * q) len = map (\<lambda>t. (q + t, CFBitBucketMask 0 (min 7 (len - 8 * t - 1)))) [0..<bytes_for len]"
proof -
  let ?m = "len div 8" and ?r = "len mod 8"
  have E: "map_steps (8 * q) len = map (\<lambda>i. (i, NOT 0)) [q..<q + ?m] @ (if ?r = 0 then [] else [(q + ?m, CFBitBucketMask 0 (?r - 1))])"
    using map_steps_aligned [of ?r q ?m, unfolded mult_div_mod_eq] by simp
  have "[q..<q + ?m] = map ((+) q) [0..<?m]" by (intro nth_equalityI) simp_all
  then have full: "map (\<lambda>i. (i, NOT 0)) [q..<q + ?m] = map (\<lambda>t. (q + t, CFBitBucketMask 0 (min 7 (len - 8 * t - 1)))) [0..<?m]"
  proof -
    have "min 7 (len - 8 * t - 1) = 7" if "t < ?m" for t
    proof -
      have "8 * ?m \<le> len" by simp
      then show ?thesis using that by simp
    qed
    then show ?thesis using \<open>[q..<q + ?m] = _\<close> by (simp add: full_mask)
  qed
  have "min 7 (len - 8 * ?m - 1) = ?r - 1" by (simp add: minus_mult_div_eq_mod)
  then show ?thesis unfolding E full by (simp add: bytes_for_def)
qed

text \<open>The bits of a byte of the range.\<close>

lemma nth_range:
  "i < len \<Longrightarrow> location + len \<le> bv_count bv \<Longrightarrow> take len (drop location (bv_bits bv)) ! i \<longleftrightarrow> bit_at (bv_buckets bv) (location + i)"
  by simp

lemma packed_byte:
  assumes "8 * q + len \<le> bv_count bv" "8 * t < len"
  shows "bv_buckets bv ! (q + t) AND CFBitBucketMask 0 (min 7 (len - 8 * t - 1)) =
    byte_of (take 8 (drop (8 * t) (take len (drop (8 * q) (bv_bits bv)))))"
proof (rule bit_word_eqI)
  fix n assume "n < LENGTH(8)"
  then have n: "n < 8" by simp
  let ?r = "take len (drop (8 * q) (bv_bits bv))"
  have m: "bit (CFBitBucketMask 0 (min 7 (len - 8 * t - 1))) n \<longleftrightarrow> 7 - n \<le> len - 8 * t - 1" using n by (simp add: bit_mask)
  have lr: "length ?r = len" using assms(1) by simp
  then have l: "length (take 8 (drop (8 * t) ?r)) = min 8 (len - 8 * t)" by simp
  have "7 - n < min 8 (len - 8 * t) \<longleftrightarrow> 7 - n \<le> len - 8 * t - 1" using assms(2) by linarith
  moreover have "take 8 (drop (8 * t) ?r) ! (7 - n) \<longleftrightarrow> bit (bv_buckets bv ! (q + t)) n" if "7 - n \<le> len - 8 * t - 1"
  proof -
    have i: "8 * t + (7 - n) < len" using that assms(2) by linarith
    have "take 8 (drop (8 * t) ?r) ! (7 - n) \<longleftrightarrow> ?r ! (8 * t + (7 - n))"
      using nth_drop [of "8 * t" ?r "7 - n"] assms(2) unfolding lr by simp
    also have "\<dots> \<longleftrightarrow> bit_at (bv_buckets bv) (8 * (q + t) + (7 - n))"
      using nth_range [OF i assms(1)] by (simp only: distrib_left add.assoc)
    also have "\<dots> \<longleftrightarrow> bit (bv_buckets bv ! (q + t)) n" using n unfolding bit_at_def byte_index by simp
    finally show ?thesis .
  qed
  ultimately show "bit (bv_buckets bv ! (q + t) AND CFBitBucketMask 0 (min 7 (len - 8 * t - 1))) n \<longleftrightarrow> bit (byte_of (take 8 (drop (8 * t) ?r))) n"
    using m l bit_byte_of [OF n, of "take 8 (drop (8 * t) ?r)"] by (auto simp: bit_and_iff)
qed

lemma short_byte:
  assumes "location + len \<le> bv_count bv" "0 < len" "location mod 8 + len \<le> 8"
  shows "push_bit (location mod 8) (bv_buckets bv ! (location div 8) AND CFBitBucketMask (location mod 8) (location mod 8 + len - 1)) =
    byte_of (take len (drop location (bv_bits bv)))"
proof (rule bit_word_eqI)
  define s q where "s = location mod 8" and "q = location div 8"
  have loc: "location = 8 * q + s" by (simp add: s_def q_def)
  have s: "s + len \<le> 8" using assms(3) by (simp add: s_def)
  fix n assume "n < LENGTH(8)"
  then have n: "n < 8" by simp
  let ?b = "bv_buckets bv ! q" and ?r = "take len (drop location (bv_bits bv))"
  have bm: "bit (CFBitBucketMask s (s + len - 1)) (n - s) \<longleftrightarrow> 7 - n < len" if "s \<le> n"
  proof -
    have "s \<le> 7 - (n - s)" "7 - (n - s) \<le> s + len - 1 \<longleftrightarrow> 7 - n < len" "s \<le> s + len - 1" "s + len - 1 < 8" "n - s < 8"
      using assms(2) s n that by linarith+
    then show ?thesis by (simp only: bit_mask simp_thms)
  qed
  have "bit (push_bit s (?b AND CFBitBucketMask s (s + len - 1))) n \<longleftrightarrow> s \<le> n \<and> bit ?b (n - s) \<and> bit (CFBitBucketMask s (s + len - 1)) (n - s)"
    using n by (simp add: bit_push_bit_iff bit_and_iff del: push_bit_and)
  moreover have "7 - n < len \<Longrightarrow> s \<le> n" using s n by linarith
  ultimately have lhs: "bit (push_bit s (?b AND CFBitBucketMask s (s + len - 1))) n \<longleftrightarrow> 7 - n < len \<and> bit ?b (n - s)" using bm by blast
  have range: "?r ! (7 - n) \<longleftrightarrow> bit ?b (n - s)" if "7 - n < len"
  proof -
    have e: "location + (7 - n) = 8 * q + (7 - (n - s))" using that s n unfolding loc by linarith
    have "n - s < 8" using n by linarith
    then show ?thesis unfolding nth_range [OF that assms(1)] e bit_at_def byte_index by simp
  qed
  have "length ?r = len" using assms(1) by simp
  then have "bit (byte_of ?r) n \<longleftrightarrow> 7 - n < len \<and> ?r ! (7 - n)" using bit_byte_of [OF n, of ?r] by (simp only:)
  then show "bit (push_bit (location mod 8) (bv_buckets bv ! (location div 8) AND CFBitBucketMask (location mod 8) (location mod 8 + len - 1))) n \<longleftrightarrow>
      bit (byte_of ?r) n"
    unfolding s_def [symmetric] q_def [symmetric] using lhs range by blast
qed

lemma bv_ok_steps:
  assumes "bv_ok bv" "location + len \<le> bv_count bv"
  shows "\<forall>(j, bm) \<in> set (map_steps location len). j < length (bv_buckets bv)"
proof -
  have "location + len \<le> 8 * n \<Longrightarrow> \<forall>(j, bm) \<in> set (map_steps location len). j < n" for n
  proof (induction location len rule: map_steps.induct)
    case (1 location len)
    show ?case
    proof (cases "len = 0")
      case False
      define k where "k = min (8 - location mod 8) len"
      have pos: "0 < len" using False by simp
      note first = first_bucket [OF k_def pos]
      have "location + k + (len - k) \<le> 8 * n" using "1.prems" first(2) by simp
      then show ?thesis using "1.IH" [OF False k_def] first(6) "1.prems" by (simp add: map_steps_Cons [OF k_def pos])
    qed simp
  qed
  then show ?thesis using assms bv_ok_bound [OF assms(1)] by simp
qed

abbreviation (input) getbits_start :: "nat \<Rightarrow> nat \<Rightarrow> bucket cells \<Rightarrow> getBitsContext" where
  "getbits_start location len bytes \<equiv>
     \<lparr> gb_bytes = bytes, gb_curByte = 0, gb_initBits = location mod 8, gb_totalBits = int len, gb_ignoreFirstInitBits = True \<rparr>"

lemma CFBitVectorGetBits_ok:
  assumes ok: "bv_ok bv" and b: "location + len \<le> bv_count bv" and out: "bytes_for len \<le> length bytes"
    and fits: "location mod 8 = 0 \<or> location mod 8 + len \<le> 8"
  shows "CFBitVectorGetBits bv location len bytes = Some (map Some (pack_bits (take len (drop location (bv_bits bv)))) @ drop (bytes_for len) bytes)"
proof -
  let ?r = "take len (drop location (bv_bits bv))"
  have lr: "length ?r = len" using b by simp
  consider "len = 0" | "0 < len" "location mod 8 + len \<le> 8" "0 < location mod 8 \<or> len < 8" | "location mod 8 = 0" "8 \<le> len"
    using fits by linarith
  then show ?thesis
  proof cases
    case 1
    then show ?thesis by (simp add: CFBitVectorGetBits_def pack_bits_def bytes_for_def)
  next
    case 2
    have k: "len = min (8 - location mod 8) len" using 2(2) by linarith
    have j: "location div 8 < length (bv_buckets bv)" using first_bucket(6) [OF k 2(1)] bv_ok_bound [OF ok] b by simp
    have one: "bytes_for len = 1" using 2 bytes_for_add [of len 0] by simp
    then obtain x xs where bytes: "bytes = x # xs" using out by (cases bytes) auto
    have "run_steps CFBitVectorGetBits_mapper (bv_buckets bv) (getbits_start location len bytes) (map_steps location len) =
        Some (bv_buckets bv, (getbits_start location len bytes)\<lparr>gb_bytes := Some (byte_of ?r) # xs, gb_totalBits := 0\<rparr>)"
      unfolding map_steps_Cons [OF k 2(1)]
      using getbits_step_short [of "getbits_start location len bytes" "location div 8" "bv_buckets bv"] 2 j bytes short_byte [OF b 2(1,2)]
      by (auto simp: min_def)
    moreover have "pack_bits ?r = [byte_of ?r]" using one 2 lr by (simp add: pack_bits_def)
    ultimately show ?thesis using 2(1) one bytes by (simp add: CFBitVectorGetBits_def CFBitVectorInternalMap_steps)
  next
    case 3
    obtain q where q: "location = 8 * q" using 3(1) by (metis mult_div_mod_eq add.right_neutral)
    let ?ss = "map_steps location len"
    have "length ?ss = bytes_for len" unfolding q map_steps_bytes by simp
    then obtain ctx' where "run_steps CFBitVectorGetBits_mapper (bv_buckets bv) (getbits_start location len bytes) ?ss = Some (bv_buckets bv, ctx')"
        "gb_bytes ctx' = map (\<lambda>(j, bm). Some (bv_buckets bv ! j AND bm)) ?ss @ drop (bytes_for len) bytes"
      using run_getbits_aligned [of "getbits_start location len bytes" ?ss "bv_buckets bv"] 3 out bv_ok_steps [OF ok b] by auto
    moreover have "map (\<lambda>(j, bm). Some (bv_buckets bv ! j AND bm)) ?ss = map Some (pack_bits ?r)"
    proof -
      have "8 * t < len" if "t < bytes_for len" for t using that bytes_for_step [of len] 3(2) times_div_less_eq_dividend [of 8 "len - 1"] by simp
      then show ?thesis using packed_byte [of q len bv] b lr unfolding q map_steps_bytes pack_bits_def by (simp add: comp_def)
    qed
    ultimately show ?thesis using 3(2) by (simp add: CFBitVectorGetBits_def CFBitVectorInternalMap_steps)
  qed
qed

text \<open>The last bucket of a range that does not end in its first bucket.\<close>

lemma last_map_steps:
  assumes "8 < location mod 8 + len"
  shows "last (map_steps location len) = ((location + len - 1) div 8, CFBitBucketMask 0 ((location + len - 1) mod 8))"
    "length (map_steps location len) = 1 + bytes_for (len - (8 - location mod 8))"
proof -
  let ?s = "location mod 8"
  define rest where "rest = len - (8 - ?s)"
  have k: "8 - ?s = min (8 - ?s) len" and pos: "0 < len" and rp: "0 < rest" using assms unfolding rest_def by linarith+
  have q: "location + (8 - ?s) = 8 * (location div 8 + 1)" by presburger
  have E: "map_steps location len = (location div 8, CFBitBucketMask ?s (?s + (8 - ?s) - 1)) # map_steps (8 * (location div 8 + 1)) rest"
    unfolding map_steps_Cons [OF k pos] rest_def q ..
  let ?t = "(rest - 1) div 8"
  have lu: "[0..<bytes_for rest] = [0..<?t] @ [?t]" using bytes_for_step [OF rp] by simp
  have e: "location + len - 1 = 8 * (location div 8 + 1) + (rest - 1)" using q assms rp unfolding rest_def by linarith
  have d: "(location + len - 1) div 8 = location div 8 + 1 + ?t" unfolding e by (rule div_mult_self4) simp
  have "rest - 1 - 8 * ?t = (rest - 1) mod 8" by (rule minus_mult_div_eq_mod)
  then have "rest - 8 * ?t - 1 = (rest - 1) mod 8" "(rest - 1) mod 8 < 8" by simp_all
  then have m: "(location + len - 1) mod 8 = min 7 (rest - 8 * ?t - 1)" unfolding e mod_mult_self4 by linarith
  show "last (map_steps location len) = ((location + len - 1) div 8, CFBitBucketMask 0 ((location + len - 1) mod 8))"
    unfolding E map_steps_bytes lu d m by simp
  show "length (map_steps location len) = 1 + bytes_for (len - (8 - ?s))" unfolding E map_steps_bytes by (simp add: rest_def)
qed

lemma CFBitVectorGetBits_split:
  assumes ok: "bv_ok bv" and b: "location + len \<le> bv_count bv" and out: "bytes \<noteq> []"
    and split: "0 < location mod 8" "8 < location mod 8 + len"
  shows "CFBitVectorGetBits bv location len bytes =
    Some (bytes[0 := Some (push_bit (location mod 8) (bv_buckets bv ! ((location + len - 1) div 8) AND CFBitBucketMask 0 ((location + len - 1) mod 8)))])"
proof -
  let ?s = "location mod 8" and ?ss = "map_steps location len"
  note last = last_map_steps [OF split(2)]
  define rest where "rest = len - (8 - ?s)"
  have rp: "0 < rest" "int len = int rest + (8 - int ?s)" using split unfolding rest_def by linarith+
  have "8 * ((rest - 1) div 8) \<le> rest - 1" by simp
  then have "int ((rest - 1) div 8) * 8 < int rest" using rp(1) by linarith
  moreover have "int ((rest - 1) div 8) * (8 - int ?s) \<le> int ((rest - 1) div 8) * 8" by (intro mult_left_mono) simp_all
  ultimately have "int ((rest - 1) div 8) * (8 - int ?s) < int rest" by linarith
  then have tot: "int (length ?ss - 1) * (8 - int ?s) < int len"
    unfolding last(2) rest_def [symmetric] bytes_for_step [OF rp(1)] rp(2) add_diff_cancel_left' of_nat_add of_nat_1 distrib_right mult_1
    by linarith
  have ne: "?ss \<noteq> []" using last(2) by auto
  obtain ctx' where "run_steps CFBitVectorGetBits_mapper (bv_buckets bv) (getbits_start location len bytes) ?ss = Some (bv_buckets bv, ctx')"
      "gb_bytes ctx' = bytes[0 := Some (push_bit ?s (case last ?ss of (j, bm) \<Rightarrow> bv_buckets bv ! j AND bm))]"
    using run_getbits_short [of "getbits_start location len bytes" ?s ?ss "bv_buckets bv"] split(1) out ne bv_ok_steps [OF ok b] tot by auto
  moreover have "len \<noteq> 0" using split by auto
  ultimately show ?thesis by (simp add: CFBitVectorGetBits_def CFBitVectorInternalMap_steps last(1))
qed

section \<open>Changing a vector\<close>

lemma bits_of_range:
  assumes "bv_count bv' = bv_count bv" "A + n \<le> bv_count bv"
    "\<And>i. bit_at (bv_buckets bv') i \<longleftrightarrow> (if A \<le> i \<and> i < A + n then h (bit_at (bv_buckets bv) i) else bit_at (bv_buckets bv) i)"
  shows "bv_bits bv' = take A (bv_bits bv) @ map h (take n (drop A (bv_bits bv))) @ drop (A + n) (bv_bits bv)"
proof (rule bv_bits_eqI)
  show "bv_count bv' = length (take A (bv_bits bv) @ map h (take n (drop A (bv_bits bv))) @ drop (A + n) (bv_bits bv))" using assms(1,2) by simp
  fix i assume "i < length (take A (bv_bits bv) @ map h (take n (drop A (bv_bits bv))) @ drop (A + n) (bv_bits bv))"
  then have i: "i < bv_count bv" using assms(2) by simp
  consider "i < A" | "A \<le> i" "i < A + n" | "A + n \<le> i" by linarith
  then show "bit_at (bv_buckets bv') i = (take A (bv_bits bv) @ map h (take n (drop A (bv_bits bv))) @ drop (A + n) (bv_bits bv)) ! i"
    using i assms(2,3) by cases (auto simp: nth_append)
qed

context bitwise_mapper
begin

lemma bv_map_range:
  assumes "bv_ok bv" "A + n \<le> bv_count bv"
  shows "\<exists>bv'. bv_map bv A n mapper = Some bv' \<and> bv_ok bv' \<and> bv_mutable bv' = bv_mutable bv \<and> bv_count bv' = bv_count bv \<and>
    length (bv_buckets bv') = length (bv_buckets bv) \<and>
    bv_bits bv' = take A (bv_bits bv) @ map h (take n (drop A (bv_bits bv))) @ drop (A + n) (bv_bits bv)"
proof -
  have "A + n \<le> 8 * length (bv_buckets bv)" using assms bv_ok_bound [OF assms(1)] by simp
  then obtain b where b: "bv_map bv A n mapper = Some (bv\<lparr>bv_buckets := b\<rparr>)" "length b = length (bv_buckets bv)"
      "\<And>i. bit_at b i \<longleftrightarrow> (if A \<le> i \<and> i < A + n then h (bit_at (bv_buckets bv) i) else bit_at (bv_buckets bv) i)"
    using bv_map_bits by blast
  then show ?thesis using bits_of_range [of "bv\<lparr>bv_buckets := b\<rparr>" bv A n h] assms by (simp add: bv_ok_def)
qed

end

text \<open>One bit of a bucket.\<close>

lemma bit_single: "n < 8 \<Longrightarrow> bit (push_bit k 1 :: bucket) n \<longleftrightarrow> n = k"
  by (auto simp: bit_simps bit_1_iff)

lemma bv_write_bit:
  assumes "bv_ok bv" "i < bv_count bv" "\<And>n. n < 8 \<Longrightarrow> bit b n \<longleftrightarrow> (if n = 7 - i mod 8 then v else bit (bv_buckets bv ! (i div 8)) n)"
  shows "\<exists>bv'. map_option (\<lambda>b. bv\<lparr>bv_buckets := b\<rparr>) (set_bucket (bv_buckets bv) (i div 8) b) = Some bv' \<and> bv_ok bv' \<and>
    bv_mutable bv' = bv_mutable bv \<and> bv_bits bv' = (bv_bits bv)[i := v]"
proof -
  have j: "i div 8 < length (bv_buckets bv)" using assms(2) bv_ok_bound [OF assms(1)] by (simp add: less_mult_imp_div_less mult.commute)
  have "bit_at ((bv_buckets bv)[i div 8 := b]) k \<longleftrightarrow> (if k = i then v else bit_at (bv_buckets bv) k)" for k
  proof (cases "k div 8 = i div 8")
    case True
    have "7 - k mod 8 = 7 - i mod 8 \<longleftrightarrow> k mod 8 = i mod 8" using mod_less_divisor [of 8 k] mod_less_divisor [of 8 i] by linarith
    then have "7 - k mod 8 = 7 - i mod 8 \<longleftrightarrow> k = i" using True by (metis mult_div_mod_eq)
    then show ?thesis using True j assms(3) [of "7 - k mod 8"] by (simp add: bit_at_update) (simp add: bit_at_def)
  next
    case False
    then show ?thesis using j by (auto simp: bit_at_update)
  qed
  then have "bv_bits (bv\<lparr>bv_buckets := (bv_buckets bv)[i div 8 := b]\<rparr>) = (bv_bits bv)[i := v]"
    using assms(2) by (intro bv_bits_eqI) (auto simp: nth_list_update)
  then show ?thesis using j assms(1) by (simp add: bv_ok_def)
qed

lemma CFBitVectorSetBitAtIndex_ok:
  assumes "bv_ok bv" "i < bv_count bv"
  shows "\<exists>bv'. CFBitVectorSetBitAtIndex bv i v = Some bv' \<and> bv_ok bv' \<and> bv_mutable bv' = bv_mutable bv \<and> bv_bits bv' = (bv_bits bv)[i := v \<noteq> 0]"
proof -
  have j: "i div 8 < length (bv_buckets bv)" using assms(2) bv_ok_bound [OF assms(1)] by (simp add: less_mult_imp_div_less mult.commute)
  let ?b = "bv_buckets bv ! (i div 8)" and ?m = "push_bit (7 - i mod 8) 1 :: bucket"
  have "bit (if v \<noteq> 0 then ?b OR ?m else ?b AND NOT ?m) n \<longleftrightarrow> (if n = 7 - i mod 8 then v \<noteq> 0 else bit ?b n)" if "n < 8" for n
    using that bit_single [OF that, of "7 - i mod 8"] by (auto simp: bit_or_iff bit_and_iff bit_not_iff)
  note upd = bv_write_bit [OF assms this]
  have e: "8 - 1 - i mod 8 = 7 - i mod 8" by simp
  show ?thesis
    unfolding CFBitVectorSetBitAtIndex_def CFSetBitVectorBit_def Let_def bucket_at_Some [OF j] bind.bind_lunit e using upd .
qed

lemma CFBitVectorFlipBitAtIndex_ok:
  assumes "bv_ok bv" "i < bv_count bv"
  shows "\<exists>bv'. CFBitVectorFlipBitAtIndex bv i = Some bv' \<and> bv_ok bv' \<and> bv_mutable bv' = bv_mutable bv \<and> bv_bits bv' = (bv_bits bv)[i := \<not> bv_bits bv ! i]"
proof -
  have j: "i div 8 < length (bv_buckets bv)" using assms(2) bv_ok_bound [OF assms(1)] by (simp add: less_mult_imp_div_less mult.commute)
  let ?b = "bv_buckets bv ! (i div 8)" and ?m = "push_bit (7 - i mod 8) 1 :: bucket"
  have "bit (?b XOR ?m) n \<longleftrightarrow> (if n = 7 - i mod 8 then \<not> bv_bits bv ! i else bit ?b n)" if "n < 8" for n
    using that bit_single [OF that, of "7 - i mod 8"] assms(2) by (auto simp: bit_xor_iff bit_at_def)
  note upd = bv_write_bit [OF assms this]
  have e: "8 - 1 - i mod 8 = 7 - i mod 8" by simp
  show ?thesis
    unfolding CFBitVectorFlipBitAtIndex_def CFFlipBitVectorBit_def bucket_at_Some [OF j] bind.bind_lunit e using upd .
qed

lemma map_const_replicate: "map (\<lambda>_. c) xs = replicate (length xs) c"
  by (induction xs) simp_all

lemma CFBitVectorSetBits_ok:
  assumes "bv_ok bv" "A + n \<le> bv_count bv"
  shows "\<exists>bv'. CFBitVectorSetBits bv A n v = Some bv' \<and> bv_ok bv' \<and> bv_mutable bv' = bv_mutable bv \<and> bv_count bv' = bv_count bv \<and>
    length (bv_buckets bv') = length (bv_buckets bv) \<and>
    bv_bits bv' = take A (bv_bits bv) @ replicate n (v \<noteq> 0) @ drop (A + n) (bv_bits bv)"
proof (cases "n = 0")
  case False
  have "length (take n (drop A (bv_bits bv))) = n" using assms(2) by simp
  then show ?thesis using False zero_bits.bv_map_range [OF assms] one_bits.bv_map_range [OF assms]
    by (auto simp: CFBitVectorSetBits_def map_const_replicate)
qed (use assms in \<open>simp add: CFBitVectorSetBits_def\<close>)

lemma CFBitVectorFlipBits_ok:
  assumes "bv_ok bv" "A + n \<le> bv_count bv"
  shows "\<exists>bv'. CFBitVectorFlipBits bv A n = Some bv' \<and> bv_ok bv' \<and> bv_mutable bv' = bv_mutable bv \<and>
    bv_bits bv' = take A (bv_bits bv) @ map Not (take n (drop A (bv_bits bv))) @ drop (A + n) (bv_bits bv)"
  using flip_bits.bv_map_range [OF assms] assms by (cases "n = 0") (auto simp: CFBitVectorFlipBits_def)

lemma CFBitVectorSetAllBits_ok:
  assumes "bv_ok bv"
  shows "\<exists>bv'. CFBitVectorSetAllBits bv v = Some bv' \<and> bv_ok bv' \<and> bv_mutable bv' = bv_mutable bv \<and> bv_bits bv' = replicate (bv_count bv) (v \<noteq> 0)"
proof -
  let ?n = "bv_count bv div 8"
  let ?l = "bv_count bv - ?n * 8"
  have le: "8 * ?n + ?l = bv_count bv" by simp
  obtain bv1 where b1: "(if 0 < ?l then (if v \<noteq> 0 then bv_map bv (?n * 8) ?l CFBitVectorOneBits else bv_map bv (?n * 8) ?l CFBitVectorZeroBits) else Some bv) = Some bv1"
      "bv_ok bv1" "bv_mutable bv1 = bv_mutable bv" "bv_count bv1 = bv_count bv" "length (bv_buckets bv1) = length (bv_buckets bv)"
      "bv_bits bv1 = take (8 * ?n) (bv_bits bv) @ replicate ?l (v \<noteq> 0)"
    using CFBitVectorSetBits_ok [OF assms, of "8 * ?n" ?l v] le by (auto simp: CFBitVectorSetBits_def mult.commute split: if_splits)
  define bv' where "bv' = bv1\<lparr>bv_buckets := replicate ?n (if v \<noteq> 0 then NOT 0 else 0) @ drop ?n (bv_buckets bv1)\<rparr>"
  have len: "?n \<le> length (bv_buckets bv1)" using bv_ok_buckets [OF b1(2)] b1(4) by simp
  have "bit_at (bv_buckets bv') i \<longleftrightarrow> v \<noteq> 0" if "i < bv_count bv" for i
  proof (cases "i < 8 * ?n")
    case True
    then have "i div 8 < ?n" by (simp add: less_mult_imp_div_less mult.commute)
    moreover have "7 - i mod 8 < 8" by simp
    ultimately show ?thesis by (simp add: bv'_def bit_at_def nth_append bit_not_iff)
  next
    case False
    then have "?n \<le> i div 8" using div_le_mono [of "8 * ?n" i 8] by simp
    then have "bit_at (bv_buckets bv') i \<longleftrightarrow> bit_at (bv_buckets bv1) i" using len by (simp add: bv'_def bit_at_def nth_append)
    also have "\<dots> \<longleftrightarrow> bv_bits bv1 ! i" using that b1(4) by simp
    finally show ?thesis using b1(6) False that by (simp add: nth_append)
  qed
  then have "bv_bits bv' = replicate (bv_count bv) (v \<noteq> 0)" using b1(4) by (intro bv_bits_eqI) (simp_all add: bv'_def)
  moreover have "CFBitVectorSetAllBits bv v = Some bv'" using b1(1) len by (simp add: CFBitVectorSetAllBits_def Let_def bv'_def not_less)
  ultimately show ?thesis using b1(2,3,5) len by (auto simp: bv'_def bv_ok_def)
qed

lemma CFBitVectorGrow_ok:
  assumes "bv_ok bv" "\<And>k. env_alloc env k"
  shows "\<exists>bv'. CFBitVectorGrow env junk bv m = Some bv' \<and> bv_mutable bv' = bv_mutable bv \<and> bv_count bv' = bv_count bv \<and>
    bv_count bv + m \<le> bv_capacity bv' \<and> length (bv_buckets bv') = CFBitVectorNumBuckets (bv_capacity bv') \<and> bv_bits bv' = bv_bits bv"
proof -
  let ?cap = "CFBitVectorRoundUpCapacity (bv_count bv + m)"
  let ?n = "CFBitVectorNumBuckets ?cap" and ?old = "bv_buckets bv"
  let ?b = "take ?n ?old @ map junk [length ?old..<?n]"
  have cap: "bv_count bv + m \<le> ?cap" by (rule CFBitVectorRoundUpCapacity_le)
  have "?b ! (i div 8) = ?old ! (i div 8)" if "i < bv_count bv" for i
  proof -
    have "i div 8 \<le> ?cap div 8" using that cap by (intro div_le_mono) linarith
    then have "i div 8 < ?n" by (simp add: CFBitVectorNumBuckets_def)
    moreover have "i div 8 < length ?old" using that bv_ok_bound [OF assms(1)] by (simp add: less_mult_imp_div_less mult.commute)
    ultimately show ?thesis by (simp add: nth_append)
  qed
  then have "bv_bits (bv\<lparr>bv_capacity := ?cap, bv_buckets := ?b\<rparr>) = bv_bits bv" by (intro bv_bits_eqI) (simp_all add: bit_at_def)
  then show ?thesis using assms(2) cap by (simp add: CFBitVectorGrow_def Let_def)
qed

lemma CFBitVectorSetCount_ok:
  assumes "bv_ok bv" "bv_mutable bv" "\<And>k. env_alloc env k"
  shows "\<exists>bv'. CFBitVectorSetCount env junk bv n = Some bv' \<and> bv_ok bv' \<and> bv_mutable bv' \<and>
    bv_bits bv' = take n (bv_bits bv) @ replicate (n - bv_count bv) False"
proof (cases "bv_count bv < n")
  case True
  obtain bv1 where b1: "CFBitVectorGrow env junk bv (n - bv_count bv) = Some bv1" "bv_mutable bv1" "bv_count bv1 = bv_count bv"
      "n \<le> bv_capacity bv1" "length (bv_buckets bv1) = CFBitVectorNumBuckets (bv_capacity bv1)" "bv_bits bv1 = bv_bits bv"
    using CFBitVectorGrow_ok [OF assms(1,3), of junk "n - bv_count bv"] assms(2) True by auto
  have "bv_capacity bv1 < 8 * length (bv_buckets bv1)" unfolding b1(5) CFBitVectorNumBuckets_def by presburger
  then have "bv_count bv + (n - bv_count bv) \<le> 8 * length (bv_buckets bv1)" using b1(4) True by linarith
  then obtain b where b: "bv_map bv1 (bv_count bv) (n - bv_count bv) CFBitVectorZeroBits = Some (bv1\<lparr>bv_buckets := b\<rparr>)" "length b = length (bv_buckets bv1)"
      "\<And>i. bit_at b i \<longleftrightarrow> (if bv_count bv \<le> i \<and> i < bv_count bv + (n - bv_count bv) then False else bit_at (bv_buckets bv1) i)"
    using zero_bits.bv_map_bits by blast
  let ?bv = "bv1\<lparr>bv_buckets := b, bv_count := n\<rparr>"
  have "bit_at (bv_buckets bv1) i = bv_bits bv ! i" if "i < bv_count bv" for i using that b1(3,6) by (metis nth_bv_bits)
  then have "bv_bits ?bv = bv_bits bv @ replicate (n - bv_count bv) False"
    using True b(3) by (intro bv_bits_eqI) (auto simp: nth_append)
  moreover have "CFBitVectorSetCount env junk bv n = Some ?bv" using True b1(1) b(1) assms(2) by (simp add: CFBitVectorSetCount_def Let_def)
  ultimately show ?thesis using True b1(2,4,5) b(2) by (auto simp: bv_ok_def)
next
  case False
  then have "bv_bits (bv\<lparr>bv_count := n\<rparr>) = take n (bv_bits bv)" by (intro bv_bits_eqI) simp_all
  then show ?thesis using False assms by (auto simp: CFBitVectorSetCount_def Let_def bv_ok_def)
qed

section \<open>Edits\<close>

text \<open>The operations that change a vector, as data; \<open>ResizeTo\<close> comes with the bytes new memory holds.\<close>

datatype bv_edit =
    SetBitAt nat CFBit
  | FlipBitAt nat
  | SetRange nat nat CFBit
  | FlipRange nat nat
  | SetAll CFBit
  | ResizeTo nat "nat \<Rightarrow> bucket"

primrec run_bv_edit :: "cf_env \<Rightarrow> CFBitVector \<Rightarrow> bv_edit \<Rightarrow> CFBitVector option" where
  "run_bv_edit env bv (SetBitAt i v) = CFBitVectorSetBitAtIndex bv i v"
| "run_bv_edit env bv (FlipBitAt i) = CFBitVectorFlipBitAtIndex bv i"
| "run_bv_edit env bv (SetRange A n v) = CFBitVectorSetBits bv A n v"
| "run_bv_edit env bv (FlipRange A n) = CFBitVectorFlipBits bv A n"
| "run_bv_edit env bv (SetAll v) = CFBitVectorSetAllBits bv v"
| "run_bv_edit env bv (ResizeTo n junk) = CFBitVectorSetCount env junk bv n"

text \<open>The same edits of a list of bits; \<open>None\<close> if an index is out of bounds.\<close>

primrec edit_bits :: "bool list \<Rightarrow> bv_edit \<Rightarrow> bool list option" where
  "edit_bits bs (SetBitAt i v) = (if i < length bs then Some (bs[i := v \<noteq> 0]) else None)"
| "edit_bits bs (FlipBitAt i) = (if i < length bs then Some (bs[i := \<not> bs ! i]) else None)"
| "edit_bits bs (SetRange A n v) = (if A + n \<le> length bs then Some (take A bs @ replicate n (v \<noteq> 0) @ drop (A + n) bs) else None)"
| "edit_bits bs (FlipRange A n) =
     (if A + n \<le> length bs then Some (take A bs @ map Not (take n (drop A bs)) @ drop (A + n) bs) else None)"
| "edit_bits bs (SetAll v) = Some (replicate (length bs) (v \<noteq> 0))"
| "edit_bits bs (ResizeTo n junk) = Some (take n bs @ replicate (n - length bs) False)"

lemma run_bv_edit_ok:
  assumes "bv_ok bv" "bv_mutable bv" "\<And>k. env_alloc env k" "edit_bits (bv_bits bv) e = Some bs"
  shows "\<exists>bv'. run_bv_edit env bv e = Some bv' \<and> bv_ok bv' \<and> bv_mutable bv' \<and> bv_bits bv' = bs"
proof (cases e)
  case (SetBitAt i v)
  then show ?thesis using assms(2,4) CFBitVectorSetBitAtIndex_ok [OF assms(1), of i v] by (auto split: if_splits)
next
  case (FlipBitAt i)
  then show ?thesis using assms(2,4) CFBitVectorFlipBitAtIndex_ok [OF assms(1), of i] by (auto split: if_splits)
next
  case (SetRange A n v)
  then show ?thesis using assms(2,4) CFBitVectorSetBits_ok [OF assms(1), of A n v] by (auto split: if_splits)
next
  case (FlipRange A n)
  then show ?thesis using assms(2,4) CFBitVectorFlipBits_ok [OF assms(1), of A n] by (auto split: if_splits)
next
  case (SetAll v)
  then show ?thesis using assms(2,4) CFBitVectorSetAllBits_ok [OF assms(1), of v] by auto
next
  case (ResizeTo n junk)
  then show ?thesis using assms(4) CFBitVectorSetCount_ok [OF assms(1-3), of junk n] by auto
qed

primrec run_bv_edits :: "cf_env \<Rightarrow> CFBitVector \<Rightarrow> bv_edit list \<Rightarrow> CFBitVector option" where
  "run_bv_edits env bv [] = Some bv"
| "run_bv_edits env bv (e # es) = do { bv \<leftarrow> run_bv_edit env bv e; run_bv_edits env bv es }"

primrec edit_bits_list :: "bool list \<Rightarrow> bv_edit list \<Rightarrow> bool list option" where
  "edit_bits_list bs [] = Some bs"
| "edit_bits_list bs (e # es) = do { bs \<leftarrow> edit_bits bs e; edit_bits_list bs es }"

lemma run_bv_edits_ok:
  assumes "\<And>k. env_alloc env k"
  shows "bv_ok bv \<Longrightarrow> bv_mutable bv \<Longrightarrow> edit_bits_list (bv_bits bv) es = Some bs \<Longrightarrow>
    \<exists>bv'. run_bv_edits env bv es = Some bv' \<and> bv_ok bv' \<and> bv_mutable bv' \<and> bv_bits bv' = bs"
proof (induction es arbitrary: bv)
  case (Cons e es)
  obtain cs where cs: "edit_bits (bv_bits bv) e = Some cs" "edit_bits_list cs es = Some bs"
    using Cons.prems(3) by (cases "edit_bits (bv_bits bv) e") simp_all
  obtain bv1 where "run_bv_edit env bv e = Some bv1" "bv_ok bv1" "bv_mutable bv1" "bv_bits bv1 = cs"
    using run_bv_edit_ok [OF Cons.prems(1,2) assms cs(1)] by blast
  then show ?case using Cons.IH cs(2) by auto
qed simp

section \<open>Bits in bytes\<close>

lemma length_pack_bits [simp]: "length (pack_bits bs) = bytes_for (length bs)"
  by (simp add: pack_bits_def)

lemma bit_at_pack_bits: "i < length bs \<Longrightarrow> bit_at (pack_bits bs) i \<longleftrightarrow> bs ! i"
proof -
  assume i: "i < length bs"
  let ?c = "take 8 (drop (8 * (i div 8)) bs)"
  have j: "i div 8 < bytes_for (length bs)" using i bytes_for_bound(2) by blast
  have k: "7 - (7 - i mod 8) = i mod 8" "8 * (i div 8) + i mod 8 = i" "i mod 8 < 8" by simp_all
  have "i mod 8 < length bs - 8 * (i div 8)" using i k(2) by linarith
  then have l: "i mod 8 < length ?c" using k(3) by simp
  have "bit_at (pack_bits bs) i \<longleftrightarrow> bit (byte_of ?c) (7 - i mod 8)" using j by (simp add: bit_at_def pack_bits_def)
  also have "\<dots> \<longleftrightarrow> i mod 8 < length ?c \<and> ?c ! (i mod 8)" using bit_byte_of [of "7 - i mod 8" ?c] by (simp add: k(1))
  also have "\<dots> \<longleftrightarrow> bs ! i" using l k(2) by simp
  finally show ?thesis .
qed

lemma CFBitVectorCreate_pack:
  assumes "\<And>k. env_alloc env k"
  shows "\<exists>bv. CFBitVectorCreate env (Some (pack_bits bs)) (length bs) = Some (Some bv) \<and> bv_ok bv \<and> bv_bits bv = bs"
proof -
  obtain bv where bv: "CFBitVectorInit env False (length bs) (Some (pack_bits bs)) (length bs) = Some (Some bv)" "bv_ok bv" "bv_count bv = length bs"
      "\<forall>i < 8 * bytes_for (length bs). bit_at (bv_buckets bv) i = bit_at (pack_bits bs) i"
    using CFBitVectorInit_ok [OF assms, of "Some (pack_bits bs)" "length bs" False "length bs"] by auto
  have "bit_at (bv_buckets bv) i = bs ! i" if "i < length bs" for i
    using bv(4) that bit_at_pack_bits [OF that] bytes_for_bound(1) [of "length bs"] by auto
  then show ?thesis using bv(1-3) bv_bits_eqI [of bv bs] by (simp add: CFBitVectorCreate_def)
qed

text \<open>The byte read from a range that starts inside a byte and goes on in another bucket.\<close>

lemma CFBitVectorGetBits_last:
  assumes "bv_ok bv" "A + n \<le> bv_count bv" "0 < A mod 8" "8 < A mod 8 + n" "bytes \<noteq> []"
  shows "\<exists>b. CFBitVectorGetBits bv A n bytes = Some (bytes[0 := Some b]) \<and>
    (\<forall>t < 8 - A mod 8. bit b (7 - t) \<longleftrightarrow> t + A mod 8 \<le> (A + n - 1) mod 8 \<and> bv_bits bv ! (8 * ((A + n - 1) div 8) + A mod 8 + t))"
proof -
  let ?s = "A mod 8" and ?j = "(A + n - 1) div 8" and ?e = "(A + n - 1) mod 8"
  let ?b = "push_bit ?s (bv_buckets bv ! ?j AND CFBitBucketMask 0 ?e)"
  have "bit ?b (7 - t) \<longleftrightarrow> t + ?s \<le> ?e \<and> bv_bits bv ! (8 * ?j + ?s + t)" if t: "t < 8 - ?s" for t
  proof -
    have m: "bit (CFBitBucketMask 0 ?e) (7 - (?s + t)) \<longleftrightarrow> t + ?s \<le> ?e" using t by (subst bit_mask) auto
    have "7 - t - ?s = 7 - (?s + t)" "?s \<le> 7 - t" "7 - t < 8" using t by linarith+
    then have b: "bit ?b (7 - t) \<longleftrightarrow> bit (bv_buckets bv ! ?j) (7 - (?s + t)) \<and> t + ?s \<le> ?e" using m by (auto simp: bit_simps)
    have "bv_bits bv ! (8 * ?j + ?s + t) = bit (bv_buckets bv ! ?j) (7 - (?s + t))" if "t + ?s \<le> ?e"
    proof -
      have i: "8 * ?j + ?s + t = 8 * ?j + (?s + t)" "?s + t < 8" using t by linarith+
      have "8 * ?j + ?e = A + n - 1" by simp
      then have "8 * ?j + (?s + t) < bv_count bv" using assms(2,4) that by linarith
      moreover have "(8 * ?j + (?s + t)) div 8 = ?j" "(8 * ?j + (?s + t)) mod 8 = ?s + t"
        using i(2) by (simp_all only: div_mult_self4 mod_mult_self4 div_less mod_less zero_neq_numeral not_False_eq_True add_0_right)
      ultimately show ?thesis unfolding i(1) by (simp only: nth_bv_bits bit_at_def)
    qed
    then show ?thesis using b by blast
  qed
  then show ?thesis using CFBitVectorGetBits_split [OF assms(1,2,5,3,4)] by blast
qed

section \<open>Properties\<close>

text \<open>An environment whose allocations succeed, and a vector of eight bits that once had twenty, all of them set.\<close>

definition bits_env :: cf_env where
  "bits_env = \<lparr> env_alloc = (\<lambda>_. True), env_retain = (\<lambda>_ p. p), env_equal = (\<lambda>_ x y. x = y), env_compare = (\<lambda>_ _ _ _. 0) \<rparr>"

definition shrunk_vector :: CFBitVector where
  "shrunk_vector = \<lparr> bv_mutable = True, bv_count = 8, bv_capacity = 64, bv_buckets = [255, 255, 240, 0, 0, 0, 0, 0, 0] \<rparr>"

lemma bits_env_alloc [simp]: "env_alloc bits_env k"
  by (simp add: bits_env_def)

lemma CFBitVectorCreateMutable_ok:
  assumes "\<And>k. env_alloc env k"
  shows "\<exists>bv. CFBitVectorCreateMutable env capacity = Some (Some bv) \<and> bv_ok bv \<and> bv_mutable bv \<and> bv_bits bv = []"
proof -
  obtain bv where "CFBitVectorInit env True capacity None 0 = Some (Some bv)" "bv_ok bv" "bv_mutable bv" "bv_count bv = 0"
    using CFBitVectorInit_ok [OF assms, of None 0 True capacity] by auto
  then show ?thesis by (simp add: CFBitVectorCreateMutable_def bv_bits_def)
qed

text \<open>
  C5.  Changing a mutable bit vector is changing a list of bits: starting from an empty vector of any
  capacity, every sequence of edits that stays in bounds (setting and flipping one bit or a range,
  setting all bits, changing the count) succeeds, whatever bytes new memory holds.  The vector keeps
  its invariant, has as many bits as the list and reads back the bits of the list.
\<close>

theorem CFBitVector_edits_refine:
  assumes "\<forall>k. env_alloc env k" "edit_bits_list [] es = Some bs"
  shows "\<exists>bv bv'. CFBitVectorCreateMutable env capacity = Some (Some bv) \<and> run_bv_edits env bv es = Some bv' \<and> bv_ok bv' \<and> bv_mutable bv' \<and>
    CFBitVectorGetCount bv' = length bs \<and> (\<forall>i < length bs. CFBitVectorGetBitAtIndex bv' i = Some (of_bool (bs ! i)))"
proof -
  have alloc: "\<And>k. env_alloc env k" using assms(1) by blast
  obtain bv where bv: "CFBitVectorCreateMutable env capacity = Some (Some bv)" "bv_ok bv" "bv_mutable bv" "bv_bits bv = []"
    using CFBitVectorCreateMutable_ok [OF alloc] by blast
  obtain bv' where bv': "run_bv_edits env bv es = Some bv'" "bv_ok bv'" "bv_mutable bv'" "bv_bits bv' = bs"
    using run_bv_edits_ok [OF alloc bv(2,3)] assms(2) bv(4) by auto
  then have "bv_count bv' = length bs" by (metis length_bv_bits)
  then show ?thesis using bv bv' CFBitVectorGetBitAtIndex_ok [OF bv'(2)] by (auto simp: CFBitVectorGetCount_def)
qed

theorem CFBitVector_edits_refine_witness:
  "\<exists>bv bv'. CFBitVectorCreateMutable bits_env 3 = Some (Some bv) \<and>
    run_bv_edits bits_env bv [ResizeTo 20 (\<lambda>_. 255), SetRange 5 9 1, FlipBitAt 7, FlipRange 12 8, ResizeTo 14 (\<lambda>_. 0)] = Some bv' \<and>
    CFBitVectorGetCount bv' = 14 \<and> CFBitVectorGetBitAtIndex bv' 6 = Some 1 \<and> CFBitVectorGetBitAtIndex bv' 7 = Some 0 \<and>
    CFBitVectorGetBitAtIndex bv' 13 = Some 0"
proof -
  let ?es = "[ResizeTo 20 (\<lambda>_. 255), SetRange 5 9 1, FlipBitAt 7, FlipRange 12 8, ResizeTo 14 (\<lambda>_. 0)]"
  let ?bs = "[False, False, False, False, False, True, True, False, True, True, True, True, False, False]"
  have "edit_bits_list [] ?es = Some ?bs" by (simp add: numeral_eq_Suc)
  then obtain bv bv' where "CFBitVectorCreateMutable bits_env 3 = Some (Some bv)" "run_bv_edits bits_env bv ?es = Some bv'"
      and n: "CFBitVectorGetCount bv' = length ?bs" and bits: "\<forall>i < length ?bs. CFBitVectorGetBitAtIndex bv' i = Some (of_bool (?bs ! i))"
    using CFBitVector_edits_refine [of bits_env ?es ?bs 3] by auto
  moreover have "CFBitVectorGetBitAtIndex bv' 6 = Some 1" "CFBitVectorGetBitAtIndex bv' 7 = Some 0" "CFBitVectorGetBitAtIndex bv' 13 = Some 0"
    using bits [rule_format, of 6] bits [rule_format, of 7] bits [rule_format, of 13] by simp_all
  moreover have "CFBitVectorGetCount bv' = 14" using n by simp
  ultimately show ?thesis by blast
qed

text \<open>
  C36.  Counting and finding a bit in a range of a vector: the count is the number of bits equal to the
  value asked for, containment says whether there is one, and the searches give the indices of the
  first and of the last one, \<open>kCFNotFound\<close> if there is none.
\<close>

theorem CFBitVector_searches_correct:
  assumes "bv_ok bv" "A + n \<le> CFBitVectorGetCount bv" "r = take n (drop A (bv_bits bv))"
  shows "CFBitVectorGetCountOfBit bv A n (of_bool v) = Some (length (filter (\<lambda>b. b = v) r)) \<and>
    CFBitVectorContainsBit bv A n (of_bool v) = Some (v \<in> set r) \<and>
    (if v \<in> set r
     then \<exists>i j. CFBitVectorGetFirstIndexOfBit bv A n (of_bool v) = Some (int (A + i)) \<and>
       CFBitVectorGetLastIndexOfBit bv A n (of_bool v) = Some (int (A + j)) \<and> i \<le> j \<and> j < n \<and> r ! i = v \<and> r ! j = v \<and>
       (\<forall>k < n. r ! k = v \<longrightarrow> i \<le> k \<and> k \<le> j)
     else CFBitVectorGetFirstIndexOfBit bv A n (of_bool v) = Some kCFNotFound \<and>
       CFBitVectorGetLastIndexOfBit bv A n (of_bool v) = Some kCFNotFound)"
proof -
  let ?P = "\<lambda>b. b = v"
  have b: "A + n \<le> bv_count bv" using assms(2) by (simp add: CFBitVectorGetCount_def)
  then have n: "length r = n" using assms(3) by simp
  note first = bv_first_loop_ok [OF assms(1) b, of v, folded assms(3) CFBitVectorGetFirstIndexOfBit_def]
  note last = bv_last_loop_ok [OF assms(1) b, of v, folded assms(3) CFBitVectorGetLastIndexOfBit_def]
  have cnt: "CFBitVectorGetCountOfBit bv A n (of_bool v) = Some (length (filter ?P r))"
    using CFBitVectorGetCountOfBit_ok [OF assms(1) b, of "of_bool v"] assms(3) by simp
  have mem: "CFBitVectorContainsBit bv A n (of_bool v) = Some (v \<in> set r)"
    using cnt by (auto simp: CFBitVectorContainsBit_def filter_empty_conv)
  show ?thesis
  proof (cases "v \<in> set r")
    case True
    then have "\<exists>x \<in> set r. ?P x" by blast
    then obtain i j where ij: "first_match ?P r = Some i" "first_match ?P (rev r) = Some (n - 1 - j)" "i \<le> j" "j < n" "r ! i = v" "r ! j = v"
        "\<forall>k < n. r ! k = v \<longrightarrow> i \<le> k \<and> k \<le> j"
      using first_last_match [OF n, of ?P] by blast
    then have "CFBitVectorGetFirstIndexOfBit bv A n (of_bool v) = Some (int (A + i)) \<and>
      CFBitVectorGetLastIndexOfBit bv A n (of_bool v) = Some (int (A + j))" using first last by simp
    then show ?thesis using True cnt mem ij(3-7) by auto
  next
    case False
    then have "\<forall>x \<in> set r. \<not> ?P x" by - (rule ballI, rule notI, hypsubst, erule notE, assumption)
    then have "first_match ?P r = None" "first_match ?P (rev r) = None" unfolding first_match_None set_rev by assumption+
    then show ?thesis using False cnt mem first last by simp
  qed
qed

theorem CFBitVector_searches_correct_witness:
  "CFBitVectorGetCountOfBit shrunk_vector 2 5 1 = Some 5 \<and> CFBitVectorContainsBit shrunk_vector 2 5 0 = Some False \<and>
   CFBitVectorGetFirstIndexOfBit shrunk_vector 2 5 0 = Some kCFNotFound"
proof -
  have "bv_bits shrunk_vector = replicate 8 True" by code_simp
  moreover have "bv_ok shrunk_vector" by code_simp
  ultimately show ?thesis
    using CFBitVector_searches_correct [of shrunk_vector 2 5, OF _ _ refl, of True] CFBitVector_searches_correct [of shrunk_vector 2 5, OF _ _ refl, of False]
    by (simp add: CFBitVectorGetCount_def shrunk_vector_def numeral_eq_Suc)
qed

text \<open>
  C37.  Reading bits out and back: a range that starts at a byte boundary, or lies in one bucket, is
  copied out as its bits packed into bytes from the left, and the rest of the buffer is kept; a vector
  made from the bytes of a whole vector has its bits.  From a range that starts inside a byte and goes
  on in the next bucket only the first byte is written, with bits of the last bucket.
\<close>

theorem CFBitVectorGetBits_correct:
  assumes "bv_ok bv" "A + n \<le> CFBitVectorGetCount bv" "bytes_for n \<le> length bytes" "\<forall>k. env_alloc env k"
  shows "(if A mod 8 = 0 \<or> A mod 8 + n \<le> 8
     then CFBitVectorGetBits bv A n bytes = Some (map Some (pack_bits (take n (drop A (bv_bits bv)))) @ drop (bytes_for n) bytes)
     else \<exists>b. CFBitVectorGetBits bv A n bytes = Some (bytes[0 := Some b]) \<and>
       (\<forall>t < 8 - A mod 8. bit b (7 - t) \<longleftrightarrow> t + A mod 8 \<le> (A + n - 1) mod 8 \<and> bv_bits bv ! (8 * ((A + n - 1) div 8) + A mod 8 + t))) \<and>
    (\<exists>bv'. CFBitVectorCreate env (Some (pack_bits (bv_bits bv))) (CFBitVectorGetCount bv) = Some (Some bv') \<and> bv_ok bv' \<and> bv_bits bv' = bv_bits bv)"
proof (intro conjI)
  have b: "A + n \<le> bv_count bv" using assms(2) by (simp add: CFBitVectorGetCount_def)
  show "if A mod 8 = 0 \<or> A mod 8 + n \<le> 8
     then CFBitVectorGetBits bv A n bytes = Some (map Some (pack_bits (take n (drop A (bv_bits bv)))) @ drop (bytes_for n) bytes)
     else \<exists>b. CFBitVectorGetBits bv A n bytes = Some (bytes[0 := Some b]) \<and>
       (\<forall>t < 8 - A mod 8. bit b (7 - t) \<longleftrightarrow> t + A mod 8 \<le> (A + n - 1) mod 8 \<and> bv_bits bv ! (8 * ((A + n - 1) div 8) + A mod 8 + t))"
  proof (cases "A mod 8 = 0 \<or> A mod 8 + n \<le> 8")
    case True
    then show ?thesis using CFBitVectorGetBits_ok [OF assms(1) b assms(3) True] by simp
  next
    case False
    then have "0 < A mod 8" "8 < A mod 8 + n" "bytes \<noteq> []" using assms(3) bytes_for_bound(1) [of n] by auto
    then show ?thesis using CFBitVectorGetBits_last [OF assms(1) b, of bytes] False by simp
  qed
  show "\<exists>bv'. CFBitVectorCreate env (Some (pack_bits (bv_bits bv))) (CFBitVectorGetCount bv) = Some (Some bv') \<and> bv_ok bv' \<and> bv_bits bv' = bv_bits bv"
    using CFBitVectorCreate_pack [of env "bv_bits bv"] assms(4) by (simp add: CFBitVectorGetCount_def)
qed

theorem CFBitVectorGetBits_correct_witness:
  "CFBitVectorGetBits shrunk_vector 2 5 [None] = Some [Some 248] \<and>
   (\<exists>bv. CFBitVectorCreate bits_env (Some (pack_bits (bv_bits shrunk_vector))) 8 = Some (Some bv) \<and> bv_bits bv = replicate 8 True)"
proof -
  have "bv_bits shrunk_vector = replicate 8 True" "bv_ok shrunk_vector" "pack_bits (take 5 (drop 2 (bv_bits shrunk_vector))) = [248]" by code_simp+
  then show ?thesis using CFBitVectorGetBits_correct [of shrunk_vector 2 5 "[None]" bits_env]
    by (auto simp: CFBitVectorGetCount_def shrunk_vector_def bytes_for_def)
qed

text \<open>
  C38.  Comparing vectors: vectors that compare equal have the same bits and the same hash.  The
  converse needs the bits of the last compared bucket behind the end to be clear, as they are in a
  vector with no bytes given to its creation; under this condition a copy is equal to its original.
\<close>

theorem CFBitVectorEqual_correct:
  assumes "bv_ok bv1" "bv_ok bv2" "\<forall>k. env_alloc env k"
  shows "(CFBitVectorEqual bv1 bv2 = Some True \<longrightarrow> bv_bits bv1 = bv_bits bv2 \<and> CFBitVectorHash bv1 = CFBitVectorHash bv2) \<and>
    (padding_clear bv1 \<and> padding_clear bv2 \<longrightarrow> CFBitVectorEqual bv1 bv2 = Some (bv_bits bv1 = bv_bits bv2)) \<and>
    (\<exists>copy. CFBitVectorCreateCopy env bv1 = Some (Some copy) \<and> bv_ok copy \<and> \<not> bv_mutable copy \<and> bv_bits copy = bv_bits bv1 \<and>
      (padding_clear bv1 \<longrightarrow> CFBitVectorEqual copy bv1 = Some True))"
proof (intro conjI impI)
  assume "CFBitVectorEqual bv1 bv2 = Some True"
  then show "bv_bits bv1 = bv_bits bv2" by (rule CFBitVectorEqual_sound [OF assms(1,2)])
  then show "CFBitVectorHash bv1 = CFBitVectorHash bv2" unfolding CFBitVectorHash_def by (metis length_bv_bits)
next
  assume clear: "padding_clear bv1 \<and> padding_clear bv2"
  show "CFBitVectorEqual bv1 bv2 = Some (bv_bits bv1 = bv_bits bv2)"
  proof (cases "bv_bits bv1 = bv_bits bv2")
    case True
    then show ?thesis using CFBitVectorEqual_complete [OF assms(1,2)] clear by simp
  next
    case False
    then have "CFBitVectorEqual bv1 bv2 \<noteq> Some True" using CFBitVectorEqual_sound [OF assms(1,2)] by blast
    then show ?thesis using False CFBitVectorEqual_ok [OF assms(1,2)] by simp
  qed
next
  show "\<exists>copy. CFBitVectorCreateCopy env bv1 = Some (Some copy) \<and> bv_ok copy \<and> \<not> bv_mutable copy \<and> bv_bits copy = bv_bits bv1 \<and>
      (padding_clear bv1 \<longrightarrow> CFBitVectorEqual copy bv1 = Some True)"
    using bv_copy_ok [of env bv1 False "bv_count bv1"] assms(1,3) by (simp add: CFBitVectorCreateCopy_def)
qed

text \<open>
  The condition matters: the vector of eight set bits that once had more has an unequal copy.
\<close>

theorem CFBitVectorEqual_correct_witness:
  "\<exists>copy. CFBitVectorCreateCopy bits_env shrunk_vector = Some (Some copy) \<and> bv_bits copy = bv_bits shrunk_vector \<and>
    CFBitVectorEqual copy shrunk_vector = Some False \<and> CFBitVectorEqual copy copy = Some True"
proof -
  let ?c = "\<lparr> bv_mutable = False, bv_count = 8, bv_capacity = 64, bv_buckets = [255, 0, 0, 0, 0, 0, 0, 0, 0] \<rparr>"
  have c: "CFBitVectorCreateCopy bits_env shrunk_vector = Some (Some ?c)"
    by code_simp
  have ok: "bv_ok ?c" "bv_ok shrunk_vector" by code_simp+
  have "i div 8 = 1" if "8 \<le> i" "i < 16" for i :: nat using that by (intro div_nat_eqI) simp_all
  then have pad: "padding_clear ?c" by (simp add: padding_clear_def bit_at_def)
  have ne: "CFBitVectorEqual ?c shrunk_vector = Some False" by code_simp
  obtain copy where "CFBitVectorCreateCopy bits_env shrunk_vector = Some (Some copy)" "bv_bits copy = bv_bits shrunk_vector"
    using CFBitVectorEqual_correct [OF ok(2) ok(1), of bits_env] by auto
  moreover have "CFBitVectorEqual ?c ?c = Some (bv_bits ?c = bv_bits ?c)"
    using CFBitVectorEqual_correct [OF ok(1) ok(1), of bits_env] pad by simp
  ultimately show ?thesis using c ne by simp
qed

end
