(* ===== verification/CF_Runtime.thy ===== *)
theory CF_Runtime
  imports CF_Prelude "HOL-Library.Word"
begin

unbundle bit_operations_syntax

text \<open>
  \<open>CFRuntime.c\<close>: the table of classes, the header word of an object and what the functions that
  do not change reference counts read from it and write into it.

  On a 64-bit little-endian machine the fields \<open>_cfinfo\<close> and \<open>_rc\<close> of an object are the lower and
  the upper half of one 64-bit word, which is how the code changes them atomically.  Objects are not
  collectable (no garbage collector), and logging is left out.
\<close>

section \<open>The class table\<close>

text \<open>A class: its flags and the functions reference counting and comparison call, \<open>NULL\<close> if absent.\<close>

record CFRuntimeClass =
  cls_version :: "64 word"
  cls_finalize :: fnptr
  cls_equal :: fnptr
  cls_hash :: fnptr
  cls_reclaim :: fnptr
  cls_refcount :: fnptr

definition kCFRuntimeNotATypeID :: nat where
  "kCFRuntimeNotATypeID = 0"

definition kCFRuntimeResourcefulObject :: "64 word" where
  "kCFRuntimeResourcefulObject = push_bit 2 1"

definition kCFRuntimeCustomRefCount :: "64 word" where
  "kCFRuntimeCustomRefCount = push_bit 3 1"

definition CFMaxRuntimeTypes :: nat where
  "CFMaxRuntimeTypes = 65535"

definition CFRuntimeClassTableSize :: nat where
  "CFRuntimeClassTableSize = 1024"

definition has_custom_rc :: "CFRuntimeClass \<Rightarrow> bool" where
  "has_custom_rc cls \<longleftrightarrow> cls_version cls AND kCFRuntimeCustomRefCount \<noteq> 0"

record CFRuntime =
  rt_table :: "CFRuntimeClass option list"
  rt_count :: nat

definition CFRuntimeClassTable :: "CFRuntime \<Rightarrow> nat \<Rightarrow> CFRuntimeClass option" where
  "CFRuntimeClassTable rt typeID = (if typeID < length (rt_table rt) then rt_table rt ! typeID else None)"

definition CFRuntimeRegisterClass :: "CFRuntime \<Rightarrow> CFRuntimeClass \<Rightarrow> CFRuntime \<times> nat" where
  "CFRuntimeRegisterClass rt cls =
     (if has_custom_rc cls \<and> cls_refcount cls = NULL then (rt, kCFRuntimeNotATypeID)
      else if CFMaxRuntimeTypes \<le> rt_count rt then (rt, kCFRuntimeNotATypeID)
      else if CFRuntimeClassTableSize \<le> rt_count rt then (rt, kCFRuntimeNotATypeID)
      else (rt\<lparr>rt_table := (rt_table rt)[rt_count rt := Some cls], rt_count := rt_count rt + 1\<rparr>, rt_count rt))"

definition CFRuntimeGetClassWithTypeID :: "CFRuntime \<Rightarrow> nat \<Rightarrow> CFRuntimeClass option" where
  "CFRuntimeGetClassWithTypeID rt typeID = CFRuntimeClassTable rt typeID"

definition CFRuntimeUnregisterClassWithTypeID :: "CFRuntime \<Rightarrow> nat \<Rightarrow> CFRuntime" where
  "CFRuntimeUnregisterClassWithTypeID rt typeID = rt\<lparr>rt_table := (rt_table rt)[typeID := None]\<rparr>"

section \<open>Headers\<close>

type_synonym header = "64 word"

definition header_info :: "header \<Rightarrow> 32 word" where
  "header_info h = ucast h"

definition header_rc :: "header \<Rightarrow> 32 word" where
  "header_rc h = ucast (drop_bit 32 h)"

definition make_header :: "32 word \<Rightarrow> 32 word \<Rightarrow> header" where
  "make_header info rc = ucast info OR push_bit 32 (ucast rc)"

text \<open>The macros on bit fields of a 32-bit word, from bit \<open>N2\<close> to bit \<open>N1\<close>.\<close>

definition CFBitfieldMask :: "nat \<Rightarrow> nat \<Rightarrow> 32 word" where
  "CFBitfieldMask N1 N2 = drop_bit (31 - N1) (push_bit (31 - N1 + N2) (NOT 0))"

definition CFBitfieldGetValue :: "32 word \<Rightarrow> nat \<Rightarrow> nat \<Rightarrow> 32 word" where
  "CFBitfieldGetValue V N1 N2 = drop_bit N2 (V AND CFBitfieldMask N1 N2)"

definition CFBitfieldSetValue :: "32 word \<Rightarrow> nat \<Rightarrow> nat \<Rightarrow> 32 word \<Rightarrow> 32 word" where
  "CFBitfieldSetValue V N1 N2 X = (V AND NOT (CFBitfieldMask N1 N2)) OR (push_bit N2 X AND CFBitfieldMask N1 N2)"

text \<open>The header \<open>_CFRuntimeCreateInstance\<close> writes; \<open>None\<close> in the outer option is \<open>HALT\<close>, in the inner one \<open>NULL\<close>.\<close>

definition runtime_info :: "32 word \<Rightarrow> bool \<Rightarrow> nat \<Rightarrow> bool \<Rightarrow> 32 word" where
  "runtime_info rc customRC typeID usesSystemDefaultAllocator =
     push_bit 24 rc OR (if customRC then 0x800000 else 0) OR push_bit 8 (of_nat typeID) OR (if usesSystemDefaultAllocator then 0x80 else 0)"

definition CFRuntimeCreateInstance_header ::
    "cf_env \<Rightarrow> CFRuntime \<Rightarrow> nat \<Rightarrow> nat \<Rightarrow> header option option" where
  "CFRuntimeCreateInstance_header env rt typeID extraBytes =
     (if CFRuntimeClassTableSize \<le> typeID then None
      else case CFRuntimeClassTable rt typeID of
        None \<Rightarrow> Some None
      | Some cls \<Rightarrow>
          let customRC = has_custom_rc cls
          in if customRC \<and> cls_refcount cls = NULL then Some None
             else if \<not> CFRuntimeCreateInstance env extraBytes then Some None
             else let rc = (if customRC then 0xFF else 0);
                      memory_rc = (if customRC then 0xFFFFFFFF else 1)
                  in Some (Some (make_header (runtime_info rc customRC typeID True) memory_rc)))"

text \<open>On 32-bit machines the count is the upper byte of \<open>_cfinfo\<close>.\<close>

definition CFRuntimeCreateInstance_info32 ::
    "cf_env \<Rightarrow> CFRuntime \<Rightarrow> nat \<Rightarrow> nat \<Rightarrow> 32 word option option" where
  "CFRuntimeCreateInstance_info32 env rt typeID extraBytes =
     (if CFRuntimeClassTableSize \<le> typeID then None
      else case CFRuntimeClassTable rt typeID of
        None \<Rightarrow> Some None
      | Some cls \<Rightarrow>
          let customRC = has_custom_rc cls
          in if customRC \<and> cls_refcount cls = NULL then Some None
             else if \<not> CFRuntimeCreateInstance env extraBytes then Some None
             else Some (Some (runtime_info (if customRC then 0xFF else 1) customRC typeID True)))"

text \<open>A static object gets the count zero, which makes it constant.  Classes with counts of their own are refused.\<close>

definition CFRuntimeInitStaticInstance :: "CFRuntime \<Rightarrow> header \<Rightarrow> nat \<Rightarrow> header option" where
  "CFRuntimeInitStaticInstance rt h typeID =
     (if CFRuntimeClassTableSize \<le> typeID then None
      else do {
        cfClass \<leftarrow> CFRuntimeClassTable rt typeID;
        if has_custom_rc cfClass then Some h
        else Some (make_header (runtime_info 0 False typeID True) 0)
      })"

definition CFGenericTypeID :: "header \<Rightarrow> nat" where
  "CFGenericTypeID h = unat (drop_bit 8 (header_info h) AND 0x03FF)"

definition CFRuntimeSetInstanceTypeID :: "CFRuntime \<Rightarrow> header \<Rightarrow> nat \<Rightarrow> header option" where
  "CFRuntimeSetInstanceTypeID rt h newTypeID =
     (if CFRuntimeClassTableSize \<le> newTypeID then None
      else do {
        let currTypeID = CFGenericTypeID h;
        newcfClass \<leftarrow> CFRuntimeClassTable rt newTypeID;
        currcfClass \<leftarrow> CFRuntimeClassTable rt currTypeID;
        if has_custom_rc currcfClass \<or> currTypeID \<noteq> 0 \<and> has_custom_rc newcfClass then Some h
        else Some (make_header ((header_info h AND 0xFFF000FF) OR push_bit 8 (of_nat newTypeID)) (header_rc h))
      })"

text \<open>
  Comparison and hashing dispatch on the class; \<open>hdr\<close> gives the header of an object and \<open>hash\<close> the
  results of the hash functions.  An object without a hash function hashes to its address.
\<close>

definition CFEqual :: "cf_env \<Rightarrow> CFRuntime \<Rightarrow> (ptr \<Rightarrow> header) \<Rightarrow> ptr \<Rightarrow> ptr \<Rightarrow> bool option" where
  "CFEqual env rt hdr cf1 cf2 =
     (if cf1 = NULL then None
      else if cf2 = NULL then None
      else if cf1 = cf2 then Some True
      else if CFGenericTypeID (hdr cf1) \<noteq> CFGenericTypeID (hdr cf2) then Some False
      else do {
        cls \<leftarrow> CFRuntimeClassTable rt (CFGenericTypeID (hdr cf1));
        if cls_equal cls \<noteq> NULL then Some (env_equal env (cls_equal cls) cf1 cf2) else Some False
      })"

definition CFHash :: "(fnptr \<Rightarrow> ptr \<Rightarrow> nat) \<Rightarrow> CFRuntime \<Rightarrow> (ptr \<Rightarrow> header) \<Rightarrow> ptr \<Rightarrow> nat option" where
  "CFHash hash rt hdr cf =
     (if cf = NULL then None
      else do {
        cls \<leftarrow> CFRuntimeClassTable rt (CFGenericTypeID (hdr cf));
        if cls_hash cls \<noteq> NULL then Some (hash (cls_hash cls) cf) else Some cf
      })"

section \<open>Registered classes\<close>

definition runtime_ok :: "CFRuntime \<Rightarrow> bool" where
  "runtime_ok rt \<longleftrightarrow> length (rt_table rt) = CFRuntimeClassTableSize \<and> rt_count rt \<le> CFRuntimeClassTableSize \<and>
     (\<forall>i. rt_count rt \<le> i \<longrightarrow> i < CFRuntimeClassTableSize \<longrightarrow> rt_table rt ! i = None)"

text \<open>
  A class that can be registered gets the next number, under which it is found; the classes
  registered before keep theirs.  A full table or a class with an incomplete count of its own is refused.
\<close>

lemma CFRuntimeRegisterClass_ok:
  assumes "runtime_ok rt" "rt_count rt < CFRuntimeClassTableSize" "has_custom_rc cls \<longrightarrow> cls_refcount cls \<noteq> NULL"
  shows "\<exists>rt'. CFRuntimeRegisterClass rt cls = (rt', rt_count rt) \<and> runtime_ok rt' \<and> CFRuntimeGetClassWithTypeID rt' (rt_count rt) = Some cls \<and>
    (\<forall>i. i \<noteq> rt_count rt \<longrightarrow> CFRuntimeGetClassWithTypeID rt' i = CFRuntimeGetClassWithTypeID rt i)"
proof -
  have "CFRuntimeRegisterClass rt cls =
      (rt\<lparr>rt_table := (rt_table rt)[rt_count rt := Some cls], rt_count := rt_count rt + 1\<rparr>, rt_count rt)"
    using assms by (auto simp: CFRuntimeRegisterClass_def CFMaxRuntimeTypes_def CFRuntimeClassTableSize_def)
  then show ?thesis using assms(1,2) by (auto simp: runtime_ok_def CFRuntimeGetClassWithTypeID_def CFRuntimeClassTable_def)
qed

lemma CFRuntimeRegisterClass_refused:
  assumes "CFRuntimeClassTableSize \<le> rt_count rt \<or> has_custom_rc cls \<and> cls_refcount cls = NULL"
  shows "CFRuntimeRegisterClass rt cls = (rt, kCFRuntimeNotATypeID)"
  using assms by (auto simp: CFRuntimeRegisterClass_def)

lemma CFRuntimeUnregisterClass_ok:
  assumes "runtime_ok rt" "typeID < CFRuntimeClassTableSize"
  shows "CFRuntimeGetClassWithTypeID (CFRuntimeUnregisterClassWithTypeID rt typeID) i =
    (if i = typeID then None else CFRuntimeGetClassWithTypeID rt i)"
  using assms by (auto simp: CFRuntimeUnregisterClassWithTypeID_def CFRuntimeGetClassWithTypeID_def CFRuntimeClassTable_def runtime_ok_def)

text \<open>
  \<open>CFEqual\<close> is reflexive, and symmetric when the comparison function of the class is; objects of
  different classes are different.
\<close>

lemma CFEqual_sym:
  assumes "\<And>f x y. env_equal env f x y = env_equal env f y x" "cf1 \<noteq> NULL" "cf2 \<noteq> NULL"
  shows "CFEqual env rt hdr cf1 cf2 = CFEqual env rt hdr cf2 cf1"
  using assms(2,3) by (cases "CFRuntimeClassTable rt (CFGenericTypeID (hdr cf1))") (auto simp: CFEqual_def assms(1) [of _ cf1 cf2])

lemma CFEqual_classes:
  "cf \<noteq> NULL \<Longrightarrow> CFEqual env rt hdr cf cf = Some True"
  "CFEqual env rt hdr cf1 cf2 = Some True \<Longrightarrow> CFGenericTypeID (hdr cf1) = CFGenericTypeID (hdr cf2)"
  by (auto simp: CFEqual_def split: if_splits)

end
