(* ===== verification/CF_RefCount.thy ===== *)
theory CF_RefCount
  imports CF_Runtime
begin

unbundle bit_operations_syntax

text \<open>
  Reference counting in \<open>CFRuntime.c\<close>: \<open>_CFRetain\<close>, \<open>_CFTryRetain\<close> and \<open>_CFRelease\<close> on a 64-bit
  machine, as threads that load the header of one object and change it by compare-and-swap.

  Every step of a thread is one atomic access to the header.  A thread is a stack of calls, because
  the finalizer of a class and its function \<open>reclaim\<close> are client code that may retain and release the
  object again.  The relation on the states of the whole system interleaves the threads arbitrarily.
\<close>

section \<open>The parts of a header word\<close>

definition RC_INCREMENT :: header where
  "RC_INCREMENT = push_bit 32 1"

definition RC_MASK :: header where
  "RC_MASK = push_bit 32 0xFFFFFFFF"

definition RC_GET :: "header \<Rightarrow> 32 word" where
  "RC_GET V = ucast (drop_bit 32 (V AND RC_MASK))"

definition RC_DEALLOCATING_BIT :: header where
  "RC_DEALLOCATING_BIT = 0x400000"

definition RC_DEALLOCATED_BIT :: header where
  "RC_DEALLOCATED_BIT = 0x200000"

definition kCFAllocatorTypeID_CONST :: nat where
  "kCFAllocatorTypeID_CONST = 2"

section \<open>The calls, one access at a time\<close>

text \<open>
  Where a call is.  \<open>tryR\<close> is its argument; \<open>own\<close> says whether the caller holds a reference of its
  own for the time of the call, and does not influence the code.  \<open>allBits\<close> is the word it last loaded.
\<close>

datatype rc_frame =
    RetainStart (tryR: bool) (own: bool)
  | RetainConstant (tryR: bool) (own: bool)
  | RetainLoad (tryR: bool) (own: bool)
  | RetainCAS (tryR: bool) (own: bool) (allBits: header)
  | ReleaseStart
  | ReleaseLoad
  | Reclaiming (allBits: header)
  | ReleaseMark (allBits: header)
  | Finalizing
  | ReleaseCheck
  | HammerLoad
  | HammerCAS (allBits: header)
  | DropLoad
  | DropCAS (allBits: header)
  | ReleaseDec (allBits: header)
  | ReallyFree

text \<open>
  What a step leads to: another step, a return (with the reference, with \<open>NULL\<close>, or from a release),
  the end of the memory of the object, a call of the class's own counting function, or \<open>HALT\<close>.
\<close>

datatype rc_outcome =
    Next rc_frame
  | Retained
  | RetainFailed
  | Released
  | Freed
  | CustomCount int
  | Halt

definition bogus_custom :: "CFRuntimeClass \<Rightarrow> header \<Rightarrow> bool" where
  "bogus_custom cls h \<longleftrightarrow>
     cls_refcount cls = NULL \<or> \<not> has_custom_rc cls \<or> drop_bit 24 (header_info h) \<noteq> 0xFF \<or> header_rc h \<noteq> 0xFFFFFFFF"

definition CAS64 :: "header \<Rightarrow> header \<Rightarrow> header \<Rightarrow> bool \<times> header" where
  "CAS64 old new mem = (if mem = old then (True, new) else (False, mem))"

text \<open>\<open>_CFRetain\<close>.\<close>

fun retain_step :: "CFRuntimeClass \<Rightarrow> rc_frame \<Rightarrow> header \<Rightarrow> header \<times> rc_outcome" where
  "retain_step cls (RetainStart tr ow) mem =
     (let cfinfo = header_info mem
      in if cfinfo AND 0x800000 \<noteq> 0 then
           (if tr then (mem, RetainFailed) else if bogus_custom cls mem then (mem, Halt) else (mem, CustomCount 1))
         else if tr \<and> cfinfo AND (0x400000 OR 0x200000) \<noteq> 0 then (mem, RetainFailed)
         else (mem, Next (RetainConstant tr ow)))"
| "retain_step cls (RetainConstant tr ow) mem =
     (if header_rc mem = 0 then (mem, Retained) else (mem, Next (RetainLoad tr ow)))"
| "retain_step cls (RetainLoad tr ow) mem =
     (if tr \<and> mem AND RC_DEALLOCATING_BIT \<noteq> 0 then (mem, RetainFailed) else (mem, Next (RetainCAS tr ow mem)))"
| "retain_step cls (RetainCAS tr ow bits) mem =
     (case CAS64 bits (bits + RC_INCREMENT) mem of
        (True, mem) \<Rightarrow> (mem, Retained)
      | (False, mem) \<Rightarrow> (mem, Next (RetainLoad tr ow)))"
| "retain_step cls f mem = (mem, Halt)"

text \<open>\<open>_CFRelease\<close>; a call of the finalizer or of \<open>reclaim\<close> is a frame of its own.\<close>

fun release_step :: "CFRuntimeClass \<Rightarrow> rc_frame \<Rightarrow> header \<Rightarrow> header \<times> rc_outcome" where
  "release_step cls ReleaseStart mem =
     (let cfinfo = header_info mem
      in if cfinfo AND 0x200000 \<noteq> 0 then (mem, Released)
         else if cfinfo AND 0x800000 \<noteq> 0 then
           (if bogus_custom cls mem then (mem, Halt) else (mem, CustomCount (- 1)))
         else (mem, Next ReleaseLoad))"
| "release_step cls ReleaseLoad mem =
     (let lowBits = RC_GET mem
      in if lowBits = 0 then (mem, Released)
         else if lowBits = 1 then
           (if cls_version cls AND kCFRuntimeResourcefulObject \<noteq> 0 \<and> cls_reclaim cls \<noteq> NULL
            then (mem, Next (Reclaiming mem)) else (mem, Next (ReleaseMark mem)))
         else (mem, Next (ReleaseDec mem)))"
| "release_step cls (ReleaseMark bits) mem =
     (case CAS64 bits (bits OR RC_DEALLOCATING_BIT) mem of
        (True, mem) \<Rightarrow> (mem, Next (if cls_finalize cls \<noteq> NULL then Finalizing else ReleaseCheck))
      | (False, mem) \<Rightarrow> (mem, Next ReleaseLoad))"
| "release_step cls ReleaseCheck mem =
     (if CFGenericTypeID mem = kCFAllocatorTypeID_CONST \<or> RC_GET mem = 1
      then (mem, Next HammerLoad) else (mem, Next DropLoad))"
| "release_step cls HammerLoad mem = (mem, Next (HammerCAS mem))"
| "release_step cls (HammerCAS bits) mem =
     (case CAS64 bits ((bits OR RC_DEALLOCATED_BIT) - RC_INCREMENT) mem of
        (True, mem) \<Rightarrow> (mem, Next ReallyFree)
      | (False, mem) \<Rightarrow> (mem, Next HammerLoad))"
| "release_step cls DropLoad mem = (mem, Next (DropCAS mem))"
| "release_step cls (DropCAS bits) mem =
     (case CAS64 bits (bits AND NOT RC_DEALLOCATING_BIT) mem of
        (True, mem) \<Rightarrow> (mem, Next ReleaseLoad)
      | (False, mem) \<Rightarrow> (mem, Next DropLoad))"
| "release_step cls (ReleaseDec bits) mem =
     (case CAS64 bits (bits - RC_INCREMENT) mem of
        (True, mem) \<Rightarrow> (mem, Released)
      | (False, mem) \<Rightarrow> (mem, Next ReleaseLoad))"
| "release_step cls ReallyFree mem = (mem, Freed)"
| "release_step cls f mem = (mem, Halt)"

text \<open>The frames in which client code runs, and where the call goes on when it returns.\<close>

fun client_return :: "rc_frame \<Rightarrow> rc_frame option" where
  "client_return (Reclaiming bits) = Some (ReleaseMark bits)"
| "client_return Finalizing = Some ReleaseCheck"
| "client_return f = None"

abbreviation in_client :: "rc_frame \<Rightarrow> bool" where
  "in_client f \<equiv> client_return f \<noteq> None"

definition is_retain :: "rc_frame \<Rightarrow> bool" where
  "is_retain f \<longleftrightarrow> (case f of RetainStart _ _ \<Rightarrow> True | RetainConstant _ _ \<Rightarrow> True | RetainLoad _ _ \<Rightarrow> True | RetainCAS _ _ _ \<Rightarrow> True | _ \<Rightarrow> False)"

definition frame_step :: "CFRuntimeClass \<Rightarrow> rc_frame \<Rightarrow> header \<Rightarrow> header \<times> rc_outcome" where
  "frame_step cls f mem = (if is_retain f then retain_step cls f mem else release_step cls f mem)"

text \<open>A call without interference by other threads, for at most \<open>k\<close> steps; client code returns at once.\<close>

fun run_alone :: "CFRuntimeClass \<Rightarrow> nat \<Rightarrow> rc_frame \<Rightarrow> header \<Rightarrow> (header \<times> rc_outcome) option" where
  "run_alone cls 0 f mem = None"
| "run_alone cls (Suc k) f mem =
     (case client_return f of
        Some f' \<Rightarrow> run_alone cls k f' mem
      | None \<Rightarrow> (case frame_step cls f mem of (mem, Next f') \<Rightarrow> run_alone cls k f' mem | (mem, r) \<Rightarrow> Some (mem, r)))"

section \<open>The system\<close>

text \<open>
  The header, the stacks of calls of the threads, the number of references clients own and how often
  the memory has been freed.
\<close>

record rc_state =
  rs_mem :: header
  rs_threads :: "rc_frame list list"
  rs_owned :: nat
  rs_freed :: nat

definition sum_calls :: "(rc_frame \<Rightarrow> nat) \<Rightarrow> rc_frame list list \<Rightarrow> nat" where
  "sum_calls w ts = (\<Sum>fs\<leftarrow>ts. \<Sum>f\<leftarrow>fs. w f)"

text \<open>
  The references a call stands for: one for a release until its effect, one for a retain whose caller
  holds one.  What a call gives the client when it returns.
\<close>

definition weight :: "rc_frame \<Rightarrow> nat" where
  "weight f = (if is_retain f then of_bool (own f) else if f = ReallyFree then 0 else 1)"

definition gain :: "rc_frame \<Rightarrow> rc_outcome \<Rightarrow> nat" where
  "gain f r = (if is_retain f then of_bool (own f) + of_bool (r = Retained) else 0)"

definition is_try :: "rc_frame \<Rightarrow> bool" where
  "is_try f \<longleftrightarrow> is_retain f \<and> tryR f"

definition is_late :: "rc_frame \<Rightarrow> bool" where
  "is_late f \<longleftrightarrow> (case f of ReleaseCheck \<Rightarrow> True | HammerLoad \<Rightarrow> True | HammerCAS _ \<Rightarrow> True | DropLoad \<Rightarrow> True | DropCAS _ \<Rightarrow> True
     | ReallyFree \<Rightarrow> True | _ \<Rightarrow> False)"

text \<open>A client may ask for another reference as long as there are fewer than $2^{32}$.\<close>

definition room :: "rc_state \<Rightarrow> bool" where
  "room s \<longleftrightarrow> rs_owned s + sum_calls (\<lambda>f. weight f + of_bool (is_retain f)) (rs_threads s) + 1 < 2 ^ 32"

definition idle :: "rc_frame list \<Rightarrow> bool" where
  "idle fs \<longleftrightarrow> fs = [] \<or> in_client (hd fs)"

text \<open>
  The steps.  A client retains and releases references it owns; in a finalizer or in \<open>reclaim\<close> it may
  also retain the object it was called with.  \<open>_CFTryRetain\<close> needs no reference: its caller, the weak
  reference machinery, sees to it that the memory is still there.  With \<open>weakLock\<close> it also keeps its
  calls out of the time between the end of the finalization and the end of the release, as it does
  when the finalizer clears the weak references under the lock that the calls are made with.
\<close>

inductive rc_step :: "bool \<Rightarrow> CFRuntimeClass \<Rightarrow> rc_state \<Rightarrow> rc_state \<Rightarrow> bool" for weakLock :: bool and cls :: CFRuntimeClass where
  start_retain:
    "i < length (rs_threads s) \<Longrightarrow> rs_threads s ! i = fs \<Longrightarrow> idle fs \<Longrightarrow> 1 \<le> rs_owned s \<Longrightarrow> room s \<Longrightarrow>
     rc_step weakLock cls s (s\<lparr>rs_threads := (rs_threads s)[i := RetainStart False True # fs], rs_owned := rs_owned s - 1\<rparr>)"
| start_nested:
    "i < length (rs_threads s) \<Longrightarrow> rs_threads s ! i = f # fs \<Longrightarrow> in_client f \<Longrightarrow> room s \<Longrightarrow>
     rc_step weakLock cls s (s\<lparr>rs_threads := (rs_threads s)[i := RetainStart False False # f # fs]\<rparr>)"
| start_try:
    "i < length (rs_threads s) \<Longrightarrow> rs_threads s ! i = fs \<Longrightarrow> idle fs \<Longrightarrow> rs_freed s = 0 \<Longrightarrow> room s \<Longrightarrow>
     (weakLock \<Longrightarrow> sum_calls (\<lambda>f. of_bool (is_late f)) (rs_threads s) = 0) \<Longrightarrow>
     rc_step weakLock cls s (s\<lparr>rs_threads := (rs_threads s)[i := RetainStart True False # fs]\<rparr>)"
| start_release:
    "i < length (rs_threads s) \<Longrightarrow> rs_threads s ! i = fs \<Longrightarrow> idle fs \<Longrightarrow> 1 \<le> rs_owned s \<Longrightarrow>
     rc_step weakLock cls s (s\<lparr>rs_threads := (rs_threads s)[i := ReleaseStart # fs], rs_owned := rs_owned s - 1\<rparr>)"
| access:
    "i < length (rs_threads s) \<Longrightarrow> rs_threads s ! i = f # fs \<Longrightarrow> \<not> in_client f \<Longrightarrow>
     frame_step cls f (rs_mem s) = (mem, Next f') \<Longrightarrow>
     (weakLock \<Longrightarrow> f' = ReleaseCheck \<Longrightarrow> sum_calls (\<lambda>f. of_bool (is_try f)) (rs_threads s) = 0) \<Longrightarrow>
     rc_step weakLock cls s (s\<lparr>rs_mem := mem, rs_threads := (rs_threads s)[i := f' # fs]\<rparr>)"
| return:
    "i < length (rs_threads s) \<Longrightarrow> rs_threads s ! i = f # fs \<Longrightarrow> \<not> in_client f \<Longrightarrow>
     frame_step cls f (rs_mem s) = (mem, r) \<Longrightarrow> r \<in> {Retained, RetainFailed, Released, Freed} \<Longrightarrow>
     rc_step weakLock cls s (s\<lparr>rs_mem := mem, rs_threads := (rs_threads s)[i := fs], rs_owned := rs_owned s + gain f r,
       rs_freed := rs_freed s + of_bool (r = Freed)\<rparr>)"
| client:
    "i < length (rs_threads s) \<Longrightarrow> rs_threads s ! i = f # fs \<Longrightarrow> client_return f = Some f' \<Longrightarrow>
     (weakLock \<Longrightarrow> f' = ReleaseCheck \<Longrightarrow> sum_calls (\<lambda>f. of_bool (is_try f)) (rs_threads s) = 0) \<Longrightarrow>
     rc_step weakLock cls s (s\<lparr>rs_threads := (rs_threads s)[i := f' # fs]\<rparr>)"

text \<open>A new object, with one reference, and \<open>n\<close> threads; the states that can be reached from there.\<close>

definition rc_init :: "header \<Rightarrow> nat \<Rightarrow> rc_state" where
  "rc_init h n = \<lparr> rs_mem = h, rs_threads = replicate n [], rs_owned = 1, rs_freed = 0 \<rparr>"

definition rc_reachable :: "bool \<Rightarrow> CFRuntimeClass \<Rightarrow> header \<Rightarrow> nat \<Rightarrow> rc_state \<Rightarrow> bool" where
  "rc_reachable weakLock cls h n s \<longleftrightarrow> (rc_step weakLock cls)\<^sup>*\<^sup>* (rc_init h n) s"

section \<open>Header words\<close>

abbreviation deallocating :: "header \<Rightarrow> bool" where
  "deallocating h \<equiv> bit h 22"

abbreviation deallocated :: "header \<Rightarrow> bool" where
  "deallocated h \<equiv> bit h 21"

abbreviation custom_count :: "header \<Rightarrow> bool" where
  "custom_count h \<equiv> bit h 23"

lemma and_single_bit: "w AND push_bit n 1 \<noteq> 0 \<longleftrightarrow> bit w n" for w :: "'a :: len word"
  by (simp add: and_exp_eq_0_iff_not_bit push_bit_eq_mult)

lemma header_bits:
  "mem AND RC_DEALLOCATING_BIT \<noteq> 0 \<longleftrightarrow> deallocating mem"
  "header_info mem AND 0x800000 \<noteq> 0 \<longleftrightarrow> custom_count mem"
  "header_info mem AND 0x200000 \<noteq> 0 \<longleftrightarrow> deallocated mem"
  "header_info mem AND (0x400000 OR 0x200000) \<noteq> 0 \<longleftrightarrow> deallocating mem \<or> deallocated mem"
proof -
  have b: "bit (header_info mem) n \<longleftrightarrow> bit mem n" if "n < 32" for n using that by (simp add: header_info_def bit_simps)
  have p: "(0x400000 :: 64 word) = push_bit 22 1" "(0x800000 :: 32 word) = push_bit 23 1" "(0x200000 :: 32 word) = push_bit 21 1" "(0x400000 :: 32 word) = push_bit 22 1"
    by simp_all
  show "mem AND RC_DEALLOCATING_BIT \<noteq> 0 \<longleftrightarrow> deallocating mem" unfolding RC_DEALLOCATING_BIT_def p(1) by (rule and_single_bit)
  show "header_info mem AND 0x800000 \<noteq> 0 \<longleftrightarrow> custom_count mem" unfolding p(2) by (simp only: and_single_bit b)
  show "header_info mem AND 0x200000 \<noteq> 0 \<longleftrightarrow> deallocated mem" unfolding p(3) by (simp only: and_single_bit b)
  have "header_info mem AND (0x400000 OR 0x200000) \<noteq> 0 \<longleftrightarrow> (header_info mem AND push_bit 22 1 \<noteq> 0) \<or> (header_info mem AND push_bit 21 1 \<noteq> 0)"
    unfolding p(3,4) by (simp only: bit.conj_disj_distrib or_eq_0_iff de_Morgan_conj)
  then show "header_info mem AND (0x400000 OR 0x200000) \<noteq> 0 \<longleftrightarrow> deallocating mem \<or> deallocated mem" by (simp only: and_single_bit b)
qed

lemma RC_GET_rc: "RC_GET mem = header_rc mem"
proof -
  have m: "(0xFFFFFFFF :: 64 word) = Bit_Operations.mask 32" by (simp add: mask_eq_exp_minus_1)
  show ?thesis by (rule bit_word_eqI) (auto simp: RC_GET_def header_rc_def RC_MASK_def m bit_simps)
qed

lemma unat_header_rc: "unat (header_rc h) = unat h div 2 ^ 32"
proof -
  have "unat h < 2 ^ LENGTH(64)" by (rule unsigned_less)
  then have "unat h div 2 ^ 32 < 2 ^ 32" by (simp add: less_mult_imp_div_less)
  moreover have "unat (drop_bit 32 h) = unat h div 2 ^ 32" by (subst unat_drop_bit_eq) (rule drop_bit_eq_div)
  ultimately show ?thesis by (simp only: header_rc_def unsigned_ucast_eq) (simp add: take_bit_nat_eq_self)
qed

lemma header_low_bits: "bit h n \<longleftrightarrow> bit (header_info h) n" if "n < 32" for h :: header
  using that by (simp add: header_info_def bit_simps)

lemma take_bit_of_take_bit_32_64: "take_bit LENGTH(32) (take_bit LENGTH(64) a) = take_bit LENGTH(32) a" for a :: int
  by simp

lemma header_info_arith: "header_info (h + RC_INCREMENT) = header_info h" "header_info (h - RC_INCREMENT) = header_info h"
proof -
  have "(ucast (a + b) :: 32 word) = ucast a + ucast b" for a b :: header by transfer (metis take_bit_add take_bit_of_take_bit_32_64)
  moreover have "(ucast (a - b) :: 32 word) = ucast a - ucast b" for a b :: header by transfer (metis take_bit_diff take_bit_of_take_bit_32_64)
  moreover have "(ucast RC_INCREMENT :: 32 word) = 0" by (simp add: RC_INCREMENT_def)
  ultimately show "header_info (h + RC_INCREMENT) = header_info h" "header_info (h - RC_INCREMENT) = header_info h"
    by (simp_all add: header_info_def)
qed

lemma header_rc_arith: "header_rc (h + RC_INCREMENT) = header_rc h + 1" "header_rc (h - RC_INCREMENT) = header_rc h - 1"
proof -
  have up: "header_rc (h + RC_INCREMENT) = header_rc h + 1" for h
  proof -
    have d: "(unat h + 2 ^ 32) div 2 ^ 32 = unat h div 2 ^ 32 + 1" by (rule div_add_self2) simp
    have "unat (h + RC_INCREMENT) = (unat h + 2 ^ 32) mod 2 ^ 64" by (simp add: RC_INCREMENT_def unat_word_ariths)
    then have "unat (header_rc (h + RC_INCREMENT)) = (unat h + 2 ^ 32) mod (2 ^ 32 * 2 ^ 32) div 2 ^ 32" by (simp only: unat_header_rc) simp
    also have "\<dots> = (unat h + 2 ^ 32) div 2 ^ 32 mod 2 ^ 32" by (simp only: mod_mult2_eq) simp
    also have "\<dots> = (unat (header_rc h) + 1) mod 2 ^ 32" by (simp only: unat_header_rc d)
    also have "\<dots> = unat (header_rc h + 1)" by (simp add: unat_word_ariths)
    finally show ?thesis by (simp only: word_unat_eq_iff)
  qed
  show "header_rc (h + RC_INCREMENT) = header_rc h + 1" by (rule up)
  have "header_rc h = header_rc (h - RC_INCREMENT) + 1" using up [of "h - RC_INCREMENT"] by simp
  then show "header_rc (h - RC_INCREMENT) = header_rc h - 1" by simp
qed

text \<open>What each change of the header does to its parts.\<close>

lemma header_arith_bits [simp]:
  "bit (h + RC_INCREMENT) 21 = bit h 21" "bit (h + RC_INCREMENT) 22 = bit h 22" "bit (h + RC_INCREMENT) 23 = bit h 23"
  "bit (h - RC_INCREMENT) 21 = bit h 21" "bit (h - RC_INCREMENT) 22 = bit h 22" "bit (h - RC_INCREMENT) 23 = bit h 23"
  by (simp_all only: header_low_bits numeral_less_iff semiring_norm header_info_arith)

lemma header_flags [simp]:
  "bit (h OR RC_DEALLOCATING_BIT) 21 = bit h 21" "bit (h OR RC_DEALLOCATING_BIT) 22" "bit (h OR RC_DEALLOCATING_BIT) 23 = bit h 23"
  "bit (h OR RC_DEALLOCATED_BIT) 21" "bit (h OR RC_DEALLOCATED_BIT) 22 = bit h 22" "bit (h OR RC_DEALLOCATED_BIT) 23 = bit h 23"
  "bit (h AND NOT RC_DEALLOCATING_BIT) 21 = bit h 21" "\<not> bit (h AND NOT RC_DEALLOCATING_BIT) 22" "bit (h AND NOT RC_DEALLOCATING_BIT) 23 = bit h 23"
proof -
  have p: "RC_DEALLOCATING_BIT = push_bit 22 1" "RC_DEALLOCATED_BIT = push_bit 21 1" by (simp_all add: RC_DEALLOCATING_BIT_def RC_DEALLOCATED_BIT_def)
  show
    "bit (h OR RC_DEALLOCATING_BIT) 21 = bit h 21" "bit (h OR RC_DEALLOCATING_BIT) 22" "bit (h OR RC_DEALLOCATING_BIT) 23 = bit h 23"
    "bit (h OR RC_DEALLOCATED_BIT) 21" "bit (h OR RC_DEALLOCATED_BIT) 22 = bit h 22" "bit (h OR RC_DEALLOCATED_BIT) 23 = bit h 23"
    "bit (h AND NOT RC_DEALLOCATING_BIT) 21 = bit h 21" "\<not> bit (h AND NOT RC_DEALLOCATING_BIT) 22" "bit (h AND NOT RC_DEALLOCATING_BIT) 23 = bit h 23"
    unfolding p by (simp_all add: bit_simps)
qed

lemma bit_header_rc: "bit (header_rc h) n \<longleftrightarrow> n < 32 \<and> bit h (32 + n)"
  by (auto simp: header_rc_def bit_simps)

lemma header_flags_rc [simp]:
  "header_rc (h OR RC_DEALLOCATING_BIT) = header_rc h" "header_rc (h OR RC_DEALLOCATED_BIT) = header_rc h"
  "header_rc (h AND NOT RC_DEALLOCATING_BIT) = header_rc h"
proof -
  have p: "RC_DEALLOCATING_BIT = push_bit 22 1" "RC_DEALLOCATED_BIT = push_bit 21 1" by (simp_all add: RC_DEALLOCATING_BIT_def RC_DEALLOCATED_BIT_def)
  have high: "bit (push_bit 22 1 :: header) (32 + n) \<longleftrightarrow> False" "bit (push_bit 21 1 :: header) (32 + n) \<longleftrightarrow> False" for n
    by (simp_all only: bit_push_bit_iff bit_1_iff) simp_all
  show "header_rc (h OR RC_DEALLOCATING_BIT) = header_rc h" "header_rc (h OR RC_DEALLOCATED_BIT) = header_rc h"
    "header_rc (h AND NOT RC_DEALLOCATING_BIT) = header_rc h"
    unfolding p by (rule bit_word_eqI; simp only: bit_header_rc high bit_or_iff bit_and_iff bit_not_iff_eq simp_thms; auto)+
qed

lemma unat_rc_up: "unat (header_rc h) + 1 < 2 ^ 32 \<Longrightarrow> unat (header_rc (h + RC_INCREMENT)) = unat (header_rc h) + 1"
  by (simp add: header_rc_arith unat_word_ariths)

lemma unat_rc_down: "header_rc h \<noteq> 0 \<Longrightarrow> unat (header_rc (h - RC_INCREMENT)) = unat (header_rc h) - 1"
  by (simp add: header_rc_arith unat_minus_one)

section \<open>Sums over all calls\<close>

lemma sum_calls_update:
  assumes "i < length ts"
  shows "sum_calls w (ts[i := x]) + sum_list (map w (ts ! i)) = sum_calls w ts + sum_list (map w x)"
  using assms
proof (induction ts arbitrary: i)
  case (Cons y ts)
  then show ?case by (cases i) (auto simp: sum_calls_def)
qed simp

lemma sum_calls_replace: "i < length ts \<Longrightarrow> ts ! i = f # fs \<Longrightarrow> sum_calls w (ts[i := f' # fs]) + w f = sum_calls w ts + w f'"
  using sum_calls_update [of i ts w "f' # fs"] by simp

lemma sum_calls_push: "i < length ts \<Longrightarrow> ts ! i = fs \<Longrightarrow> sum_calls w (ts[i := f # fs]) = sum_calls w ts + w f"
  using sum_calls_update [of i ts w "f # fs"] by simp

lemma sum_calls_pop: "i < length ts \<Longrightarrow> ts ! i = f # fs \<Longrightarrow> sum_calls w (ts[i := fs]) + w f = sum_calls w ts"
  using sum_calls_update [of i ts w fs] by simp

lemma sum_calls_mono: "(\<And>f. u f \<le> v f) \<Longrightarrow> sum_calls u ts \<le> sum_calls v ts"
  by (auto simp: sum_calls_def intro!: sum_list_mono)

lemma sum_calls_add: "sum_calls (\<lambda>f. u f + v f) ts = sum_calls u ts + sum_calls v ts"
  by (simp add: sum_calls_def sum_list_addf)

lemma sum_calls_member: "fs \<in> set ts \<Longrightarrow> f \<in> set fs \<Longrightarrow> w f \<le> sum_calls w ts"
  unfolding sum_calls_def by (rule order_trans [of _ "\<Sum>f\<leftarrow>fs. w f"]) (auto intro!: member_le_sum_list)

lemma sum_calls_zero: "sum_calls w ts = 0 \<longleftrightarrow> (\<forall>fs \<in> set ts. \<forall>f \<in> set fs. w f = 0)"
  by (auto simp: sum_calls_def sum_list_eq_0_iff)

section \<open>The invariant\<close>

text \<open>
  The calls that have marked the object as being deallocated and are not done with it; the calls that
  have found the count still at one after the finalization; the retains client code was allowed
  because it runs inside a release.
\<close>

definition is_dying :: "rc_frame \<Rightarrow> bool" where
  "is_dying f \<longleftrightarrow> f = Finalizing \<or> is_late f \<and> f \<noteq> ReallyFree"

definition is_hammering :: "rc_frame \<Rightarrow> bool" where
  "is_hammering f \<longleftrightarrow> (case f of HammerLoad \<Rightarrow> True | HammerCAS _ \<Rightarrow> True | _ \<Rightarrow> False)"

definition is_nested :: "rc_frame \<Rightarrow> bool" where
  "is_nested f \<longleftrightarrow> is_retain f \<and> \<not> tryR f \<and> \<not> own f"

text \<open>What a call knows of the word it loaded.\<close>

fun frame_ok :: "rc_frame \<Rightarrow> bool" where
  "frame_ok (RetainCAS tr ow bits) \<longleftrightarrow> (tr \<longrightarrow> \<not> deallocating bits)"
| "frame_ok (Reclaiming bits) \<longleftrightarrow> header_rc bits = 1"
| "frame_ok (ReleaseMark bits) \<longleftrightarrow> header_rc bits = 1"
| "frame_ok (ReleaseDec bits) \<longleftrightarrow> header_rc bits \<noteq> 0 \<and> header_rc bits \<noteq> 1"
| "frame_ok f \<longleftrightarrow> True"

definition stack_ok :: "rc_frame list \<Rightarrow> bool" where
  "stack_ok fs \<longleftrightarrow> (\<forall>f \<in> set fs. frame_ok f \<and> (is_try f \<longrightarrow> \<not> own f)) \<and> (\<forall>f \<in> set (tl fs). in_client f) \<and>
     (fs \<noteq> [] \<and> is_nested (hd fs) \<longrightarrow> tl fs \<noteq> [])"

definition counter_ok :: "rc_state \<Rightarrow> bool" where
  "counter_ok s \<longleftrightarrow>
     \<not> custom_count (rs_mem s) \<and> CFGenericTypeID (rs_mem s) \<noteq> kCFAllocatorTypeID_CONST \<and>
     unat (header_rc (rs_mem s)) = rs_owned s + sum_calls weight (rs_threads s) \<and>
     rs_owned s + sum_calls weight (rs_threads s) + sum_calls (\<lambda>f. of_bool (is_retain f)) (rs_threads s) < 2 ^ 32 \<and>
     (deallocated (rs_mem s) \<longleftrightarrow> header_rc (rs_mem s) = 0)"

definition phase_ok :: "rc_state \<Rightarrow> bool" where
  "phase_ok s \<longleftrightarrow>
     sum_calls (\<lambda>f. of_bool (is_dying f)) (rs_threads s) = of_bool (deallocating (rs_mem s) \<and> \<not> deallocated (rs_mem s)) \<and>
     rs_freed s + sum_calls (\<lambda>f. of_bool (f = ReallyFree)) (rs_threads s) = of_bool (deallocated (rs_mem s)) \<and>
     (0 < sum_calls (\<lambda>f. of_bool (is_hammering f)) (rs_threads s) \<longrightarrow> header_rc (rs_mem s) = 1) \<and>
     (0 < sum_calls (\<lambda>f. of_bool (is_try f)) (rs_threads s) \<longrightarrow> sum_calls (\<lambda>f. of_bool (is_late f)) (rs_threads s) = 0 \<and> rs_freed s = 0)"

definition rc_inv :: "rc_state \<Rightarrow> bool" where
  "rc_inv s \<longleftrightarrow> counter_ok s \<and> phase_ok s \<and> (\<forall>fs \<in> set (rs_threads s). stack_ok fs)"

lemma room_simp: "room s \<longleftrightarrow> rs_owned s + sum_calls weight (rs_threads s) + sum_calls (\<lambda>f. of_bool (is_retain f)) (rs_threads s) + 1 < 2 ^ 32"
  by (simp add: room_def sum_calls_add add.assoc)

lemma frame_simps [simp]:
  "is_retain (RetainStart tr ow)" "is_retain (RetainConstant tr ow)" "is_retain (RetainLoad tr ow)" "is_retain (RetainCAS tr ow bits)"
  "\<not> is_retain ReleaseStart" "\<not> is_retain ReleaseLoad" "\<not> is_retain (Reclaiming bits)" "\<not> is_retain (ReleaseMark bits)"
  "\<not> is_retain Finalizing" "\<not> is_retain ReleaseCheck" "\<not> is_retain HammerLoad" "\<not> is_retain (HammerCAS bits)"
  "\<not> is_retain DropLoad" "\<not> is_retain (DropCAS bits)" "\<not> is_retain (ReleaseDec bits)" "\<not> is_retain ReallyFree"
  by (simp_all add: is_retain_def)

lemmas frame_defs = weight_def is_try_def is_late_def is_dying_def is_hammering_def is_nested_def

text \<open>How the sums that occur in the invariant change in a step.\<close>

abbreviation calls :: "(rc_frame \<Rightarrow> bool) \<Rightarrow> rc_frame list list \<Rightarrow> nat" where
  "calls P ts \<equiv> sum_calls (\<lambda>f. of_bool (P f)) ts"

lemma CFGenericTypeID_flags [simp]:
  "CFGenericTypeID (h + RC_INCREMENT) = CFGenericTypeID h" "CFGenericTypeID (h - RC_INCREMENT) = CFGenericTypeID h"
  "CFGenericTypeID (h OR RC_DEALLOCATING_BIT) = CFGenericTypeID h" "CFGenericTypeID (h OR RC_DEALLOCATED_BIT) = CFGenericTypeID h"
  "CFGenericTypeID (h AND NOT RC_DEALLOCATING_BIT) = CFGenericTypeID h"
proof -
  have m: "(0x03FF :: 32 word) = Bit_Operations.mask 10" by (simp add: mask_eq_exp_minus_1)
  have b: "bit (drop_bit 8 (header_info w) AND 0x03FF) n \<longleftrightarrow> n < 10 \<and> bit w (8 + n)" for w n
    unfolding m by (auto simp: header_info_def bit_simps)
  have *: "CFGenericTypeID v = CFGenericTypeID w" if "\<And>n. n < 10 \<Longrightarrow> bit v (8 + n) = bit w (8 + n)" for v w
  proof -
    have "drop_bit 8 (header_info v) AND 0x03FF = drop_bit 8 (header_info w) AND 0x03FF"
      by (rule bit_word_eqI) (use that in \<open>auto simp only: b\<close>)
    then show ?thesis by (simp only: CFGenericTypeID_def)
  qed
  show "CFGenericTypeID (h + RC_INCREMENT) = CFGenericTypeID h" "CFGenericTypeID (h - RC_INCREMENT) = CFGenericTypeID h"
    by (simp_all only: CFGenericTypeID_def header_info_arith)
  have p: "RC_DEALLOCATING_BIT = push_bit 22 1" "RC_DEALLOCATED_BIT = push_bit 21 1" by (simp_all add: RC_DEALLOCATING_BIT_def RC_DEALLOCATED_BIT_def)
  have low: "bit (push_bit 22 1 :: header) (8 + n) \<longleftrightarrow> False" "bit (push_bit 21 1 :: header) (8 + n) \<longleftrightarrow> False" if "n < 10" for n
    using that by (simp_all only: bit_push_bit_iff bit_1_iff) simp_all
  show "CFGenericTypeID (h OR RC_DEALLOCATING_BIT) = CFGenericTypeID h" "CFGenericTypeID (h OR RC_DEALLOCATED_BIT) = CFGenericTypeID h"
    "CFGenericTypeID (h AND NOT RC_DEALLOCATING_BIT) = CFGenericTypeID h"
    unfolding p by (rule *; simp only: low bit_or_iff bit_and_iff bit_not_iff_eq simp_thms; auto)+
qed

lemma calls_weight: "calls is_hammering ts + calls in_client ts \<le> sum_calls weight ts" "calls is_dying ts \<le> sum_calls weight ts"
proof -
  have "of_bool (is_hammering f) + of_bool (in_client f) \<le> weight f" for f by (cases f) (simp_all add: frame_defs)
  then show "calls is_hammering ts + calls in_client ts \<le> sum_calls weight ts" unfolding sum_calls_add [symmetric] by (rule sum_calls_mono)
  have "of_bool (is_dying f) \<le> weight f" for f by (cases f) (simp_all add: frame_defs)
  then show "calls is_dying ts \<le> sum_calls weight ts" by (rule sum_calls_mono)
qed

lemma client_not_retain: "in_client f \<Longrightarrow> \<not> is_retain f"
  by (cases f) simp_all

lemma stack_ok_simps [simp]:
  "stack_ok []"
  "stack_ok (f # fs) \<longleftrightarrow> frame_ok f \<and> (is_try f \<longrightarrow> \<not> own f) \<and> stack_ok fs \<and> (\<forall>f \<in> set fs. in_client f) \<and> (is_nested f \<longrightarrow> fs \<noteq> [])"
proof -
  show "stack_ok []" by (simp add: stack_ok_def)
  have "\<not> is_nested g" if "in_client g" for g using client_not_retain [OF that] by (simp add: is_nested_def)
  then show "stack_ok (f # fs) \<longleftrightarrow> frame_ok f \<and> (is_try f \<longrightarrow> \<not> own f) \<and> stack_ok fs \<and> (\<forall>f \<in> set fs. in_client f) \<and> (is_nested f \<longrightarrow> fs \<noteq> [])"
    by (cases fs) (auto simp: stack_ok_def simp del: not_None_eq)
qed

lemma stacks_update: "\<forall>fs \<in> set ts. stack_ok fs \<Longrightarrow> stack_ok x \<Longrightarrow> \<forall>fs \<in> set (ts[i := x]). stack_ok fs"
  using set_update_subset_insert by fastforce

text \<open>The invariant after a call went on, from what this call does to the header and to the sums.\<close>

lemma rc_inv_replace:
  assumes inv: "rc_inv s" and i: "i < length (rs_threads s)" "rs_threads s ! i = f # fs"
    and ok: "frame_ok f'" "is_retain f' = is_retain f" "is_nested f' = is_nested f" "is_try f' = is_try f" "is_try f' \<longrightarrow> \<not> own f'"
    and mem: "custom_count mem = custom_count (rs_mem s)" "CFGenericTypeID mem = CFGenericTypeID (rs_mem s)" "deallocated mem \<longleftrightarrow> header_rc mem = 0"
      "unat (header_rc mem) + weight f = unat (header_rc (rs_mem s)) + weight f'" "weight f' \<le> weight f"
    and dying: "of_bool (deallocating mem \<and> \<not> deallocated mem) + of_bool (is_dying f) =
      (of_bool (deallocating (rs_mem s) \<and> \<not> deallocated (rs_mem s)) + of_bool (is_dying f') :: nat)"
    and free: "of_bool (deallocated mem) + of_bool (f = ReallyFree) = (of_bool (deallocated (rs_mem s)) + of_bool (f' = ReallyFree) :: nat)"
    and hammer: "0 < calls is_hammering ((rs_threads s)[i := f' # fs]) \<longrightarrow> header_rc mem = 1"
    and late: "is_late f' \<longrightarrow> is_late f \<or> calls is_try (rs_threads s) = 0"
  shows "rc_inv (s\<lparr>rs_mem := mem, rs_threads := (rs_threads s)[i := f' # fs]\<rparr>)"
proof -
  note sum = sum_calls_replace [OF i, where f' = f']
  have stack: "stack_ok (f # fs)" using inv i by (metis nth_mem rc_inv_def)
  have R: "calls is_retain ((rs_threads s)[i := f' # fs]) = calls is_retain (rs_threads s)" using sum [of "\<lambda>f. of_bool (is_retain f)"] ok(2) by simp
  have T: "calls is_try ((rs_threads s)[i := f' # fs]) = calls is_try (rs_threads s)" using sum [of "\<lambda>f. of_bool (is_try f)"] ok(4) by simp
  let ?s = "s\<lparr>rs_mem := mem, rs_threads := (rs_threads s)[i := f' # fs]\<rparr>"
  have "sum_calls weight ((rs_threads s)[i := f' # fs]) \<le> sum_calls weight (rs_threads s)" using sum [of weight] mem(5) by linarith
  then have c: "counter_ok ?s" using inv mem sum [of weight] R unfolding rc_inv_def counter_ok_def by simp
  note phase = inv [unfolded rc_inv_def phase_ok_def, THEN conjunct2, THEN conjunct1]
  have d: "calls is_dying ((rs_threads s)[i := f' # fs]) = of_bool (deallocating mem \<and> \<not> deallocated mem)"
    using phase dying sum [of "\<lambda>f. of_bool (is_dying f)"] by linarith
  have r: "rs_freed s + calls (\<lambda>f. f = ReallyFree) ((rs_threads s)[i := f' # fs]) = of_bool (deallocated mem)"
    using phase free sum [of "\<lambda>f. of_bool (f = ReallyFree)"] by linarith
  have l: "calls is_late ((rs_threads s)[i := f' # fs]) = 0 \<and> rs_freed s = 0" if "0 < calls is_try (rs_threads s)"
  proof -
    have "calls is_late (rs_threads s) = 0" "rs_freed s = 0" using phase that by blast+
    then show ?thesis using sum [of "\<lambda>f. of_bool (is_late f)"] late that by (cases "is_late f"; cases "is_late f'") simp_all
  qed
  have p: "phase_ok ?s" using d r hammer l T by (simp add: phase_ok_def)
  have "stack_ok (f' # fs)" using stack ok by simp
  then show ?thesis using c p inv stacks_update [of "rs_threads s" "f' # fs" i] by (simp add: rc_inv_def)
qed

text \<open>The invariant after a call has begun, which does not touch the header.\<close>

lemma rc_inv_push:
  assumes inv: "rc_inv s" and i: "i < length (rs_threads s)" "rs_threads s ! i = fs"
    and ok: "frame_ok f" "is_nested f \<longrightarrow> fs \<noteq> []" "is_try f \<longrightarrow> \<not> own f" "\<forall>f \<in> set fs. in_client f" "\<not> is_late f" "\<not> is_dying f"
    and sums: "owned + weight f = rs_owned s" "is_retain f \<longrightarrow> room s"
    and "try": "is_try f \<longrightarrow> calls is_late (rs_threads s) = 0 \<and> rs_freed s = 0"
  shows "rc_inv (s\<lparr>rs_threads := (rs_threads s)[i := f # fs], rs_owned := owned\<rparr>)"
proof -
  note sum = sum_calls_push [OF i, where f = f]
  let ?s = "s\<lparr>rs_threads := (rs_threads s)[i := f # fs], rs_owned := owned\<rparr>"
  have no: "\<not> is_hammering f" "f \<noteq> ReallyFree" using ok(5,6) by (cases f; simp add: frame_defs)+
  have "stack_ok fs" using inv i by (metis nth_mem rc_inv_def)
  then have st: "stack_ok (f # fs)" using ok by simp
  have c: "counter_ok ?s"
    using inv sums sum [of weight] sum [of "\<lambda>f. of_bool (is_retain f)"] by (cases "is_retain f") (simp_all add: rc_inv_def counter_ok_def room_simp)
  have p: "phase_ok ?s"
    using inv "try" ok(5,6) no sum [of "\<lambda>f. of_bool (is_late f)"] sum [of "\<lambda>f. of_bool (is_dying f)"] sum [of "\<lambda>f. of_bool (is_hammering f)"]
      sum [of "\<lambda>f. of_bool (is_try f)"] sum [of "\<lambda>f. of_bool (f = ReallyFree)"]
    by (cases "is_try f") (simp_all add: rc_inv_def phase_ok_def)
  show ?thesis using c p st inv stacks_update [of "rs_threads s" "f # fs" i] by (simp add: rc_inv_def)
qed

text \<open>The invariant after a call has returned.\<close>

lemma rc_inv_pop:
  assumes inv: "rc_inv s" and i: "i < length (rs_threads s)" "rs_threads s ! i = f # fs" and no: "\<not> is_dying f"
    and mem: "custom_count mem = custom_count (rs_mem s)" "CFGenericTypeID mem = CFGenericTypeID (rs_mem s)" "deallocated mem \<longleftrightarrow> header_rc mem = 0"
      "unat (header_rc mem) + weight f = unat (header_rc (rs_mem s)) + won" "deallocating mem = deallocating (rs_mem s)"
      "deallocated mem = deallocated (rs_mem s)" "won \<le> weight f + of_bool (is_retain f)"
    and free: "freed = rs_freed s + of_bool (f = ReallyFree)" and hammer: "0 < calls is_hammering (rs_threads s) \<longrightarrow> header_rc mem = 1"
  shows "rc_inv (s\<lparr>rs_mem := mem, rs_threads := (rs_threads s)[i := fs], rs_owned := rs_owned s + won, rs_freed := freed\<rparr>)"
proof -
  note sum = sum_calls_pop [OF i]
  let ?s = "s\<lparr>rs_mem := mem, rs_threads := (rs_threads s)[i := fs], rs_owned := rs_owned s + won, rs_freed := freed\<rparr>"
  have "stack_ok (f # fs)" using inv i by (metis nth_mem rc_inv_def)
  then have st: "stack_ok fs" by simp
  have c: "counter_ok ?s"
    using inv mem sum [of weight] sum [of "\<lambda>f. of_bool (is_retain f)"] by (simp add: rc_inv_def counter_ok_def)
  have h: "\<not> is_hammering f" using no by (cases f) (simp_all add: frame_defs)
  have "f = ReallyFree \<Longrightarrow> is_late f" by (simp add: is_late_def)
  then have t: "calls is_late ((rs_threads s)[i := fs]) = 0 \<and> freed = 0" if "0 < calls is_try ((rs_threads s)[i := fs])"
    using inv that free sum [of "\<lambda>f. of_bool (is_late f)"] sum [of "\<lambda>f. of_bool (is_try f)"] by (auto simp: rc_inv_def phase_ok_def)
  have p: "phase_ok ?s"
    using inv no h free hammer mem(5,6) t sum [of "\<lambda>f. of_bool (is_dying f)"] sum [of "\<lambda>f. of_bool (is_hammering f)"] sum [of "\<lambda>f. of_bool (f = ReallyFree)"]
    by (simp add: rc_inv_def phase_ok_def)
  show ?thesis using c p st inv stacks_update [of "rs_threads s" fs i] by (simp add: rc_inv_def)
qed

section \<open>Every step keeps the invariant\<close>

lemma rc_invD:
  assumes "rc_inv s"
  shows "\<not> custom_count (rs_mem s)" "CFGenericTypeID (rs_mem s) \<noteq> kCFAllocatorTypeID_CONST"
    "unat (header_rc (rs_mem s)) = rs_owned s + sum_calls weight (rs_threads s)"
    "rs_owned s + sum_calls weight (rs_threads s) + calls is_retain (rs_threads s) < 2 ^ 32"
    "deallocated (rs_mem s) \<longleftrightarrow> header_rc (rs_mem s) = 0"
    "calls is_dying (rs_threads s) = of_bool (deallocating (rs_mem s) \<and> \<not> deallocated (rs_mem s))"
    "rs_freed s + calls (\<lambda>f. f = ReallyFree) (rs_threads s) = of_bool (deallocated (rs_mem s))"
    "0 < calls is_hammering (rs_threads s) \<Longrightarrow> header_rc (rs_mem s) = 1"
    "0 < calls is_try (rs_threads s) \<Longrightarrow> calls is_late (rs_threads s) = 0" "0 < calls is_try (rs_threads s) \<Longrightarrow> rs_freed s = 0"
    "fs \<in> set (rs_threads s) \<Longrightarrow> stack_ok fs"
  using assms unfolding rc_inv_def counter_ok_def phase_ok_def by blast+

text \<open>The sums with one call taken out.\<close>

lemma split_call:
  assumes "i < length ts" "ts ! i = f # fs"
  shows "sum_calls w ts = sum_calls w (ts[i := fs]) + w f"
  using sum_calls_pop [OF assms, of w] by simp

lemma rc_inv_stay:
  assumes inv: "rc_inv s" and i: "i < length (rs_threads s)" "rs_threads s ! i = f # fs"
    and ok: "frame_ok f'" "is_retain f' = is_retain f" "is_nested f' = is_nested f" "is_try f' = is_try f" "is_try f' \<longrightarrow> \<not> own f'"
      "weight f' = weight f" "is_dying f' = is_dying f" "(f' = ReallyFree) = (f = ReallyFree)"
      "is_hammering f' \<longrightarrow> is_hammering f \<or> header_rc (rs_mem s) = 1" "is_late f' \<longrightarrow> is_late f \<or> calls is_try (rs_threads s) = 0"
    and mem: "mem = rs_mem s"
  shows "rc_inv (s\<lparr>rs_mem := mem, rs_threads := (rs_threads s)[i := f' # fs]\<rparr>)"
proof (rule rc_inv_replace [OF inv i])
  show "deallocated mem \<longleftrightarrow> header_rc mem = 0" using rc_invD(5) [OF inv] mem by simp
  show "0 < calls is_hammering ((rs_threads s)[i := f' # fs]) \<longrightarrow> header_rc mem = 1"
  proof (cases "is_hammering f' \<and> \<not> is_hammering f")
    case True
    then show ?thesis using ok(9) mem by blast
  next
    case False
    then have "calls is_hammering ((rs_threads s)[i := f' # fs]) \<le> calls is_hammering (rs_threads s)"
      using sum_calls_replace [OF i, where w = "\<lambda>f. of_bool (is_hammering f)" and f' = f'] by (cases "is_hammering f"; cases "is_hammering f'") simp_all
    then show ?thesis using rc_invD(8) [OF inv] mem by simp
  qed
qed (use ok mem in simp_all)

text \<open>A retain runs on an object that still has a reference.\<close>

lemma retain_alive:
  assumes inv: "rc_inv s" and i: "i < length (rs_threads s)" "rs_threads s ! i = f # fs" and r: "is_retain f"
  shows "header_rc (rs_mem s) \<noteq> 0" "0 < calls is_hammering (rs_threads s) \<Longrightarrow> tryR f \<and> deallocating (rs_mem s)"
proof -
  have fs: "f # fs \<in> set (rs_threads s)" using i by (metis nth_mem)
  then have st: "stack_ok (f # fs)" by (rule rc_invD(11) [OF inv])
  have client: "1 \<le> calls in_client (rs_threads s)" if "is_nested f"
  proof -
    have "fs \<noteq> []" "\<forall>f \<in> set fs. in_client f" using st that by auto
    then have "in_client (hd fs)" "hd fs \<in> set (f # fs)" by (auto simp del: not_None_eq)
    then show ?thesis using sum_calls_member [OF fs, of "hd fs" "\<lambda>f. of_bool (in_client f)"] by simp
  qed
  have w: "weight f \<le> sum_calls weight (rs_threads s)" by (rule sum_calls_member [OF fs]) simp
  show "header_rc (rs_mem s) \<noteq> 0"
  proof (cases "is_try f")
    case True
    then have "0 < calls is_try (rs_threads s)" using sum_calls_member [OF fs, of f "\<lambda>f. of_bool (is_try f)"] by simp
    then have "calls is_late (rs_threads s) = 0" "rs_freed s = 0" by (rule rc_invD(9,10) [OF inv])+
    moreover have "calls (\<lambda>f. f = ReallyFree) (rs_threads s) \<le> calls is_late (rs_threads s)" by (rule sum_calls_mono) (simp add: is_late_def)
    ultimately show ?thesis using rc_invD(5,7) [OF inv] by auto
  next
    case False
    then have "1 \<le> sum_calls weight (rs_threads s)"
      using r w client calls_weight(1) [of "rs_threads s"] by (cases "own f") (auto simp: frame_defs)
    then show ?thesis using rc_invD(3) [OF inv] by auto
  qed
  assume h: "0 < calls is_hammering (rs_threads s)"
  then have W: "rs_owned s + sum_calls weight (rs_threads s) = 1" using rc_invD(3,8) [OF inv] by simp
  have "\<not> is_hammering f" using r by (cases f) (simp_all add: frame_defs)
  then have "calls is_hammering (rs_threads s) + weight f \<le> sum_calls weight (rs_threads s)"
    using split_call [OF i, of "\<lambda>f. of_bool (is_hammering f)"] split_call [OF i, of weight] calls_weight(1) [of "(rs_threads s)[i := fs]"] by simp
  then have "weight f = 0" using h W by linarith
  then have "\<not> own f" using r by (simp add: weight_def)
  moreover have "\<not> is_nested f" using client calls_weight(1) [of "rs_threads s"] h W by linarith
  moreover have "calls is_hammering (rs_threads s) \<le> calls is_dying (rs_threads s)"
  proof (rule sum_calls_mono)
    show "of_bool (is_hammering f) \<le> (of_bool (is_dying f) :: nat)" for f by (cases f) (simp_all add: frame_defs)
  qed
  ultimately show "tryR f \<and> deallocating (rs_mem s)" using r h rc_invD(6) [OF inv]
    by (cases "deallocating (rs_mem s)") (auto simp: is_nested_def)
qed

lemmas step_simps = frame_step_def CAS64_def Let_def header_bits RC_GET_rc

text \<open>The call that marks the object holds the only reference.\<close>

lemma mark_alone:
  assumes inv: "rc_inv s" and i: "i < length (rs_threads s)" "rs_threads s ! i = ReleaseMark bits # fs" and mem: "rs_mem s = bits"
  shows "header_rc bits = 1" "\<not> deallocating bits" "\<not> deallocated bits"
proof -
  have "stack_ok (ReleaseMark bits # fs)" using rc_invD(11) [OF inv] i by (metis nth_mem)
  then show rc: "header_rc bits = 1" by simp
  show nd: "\<not> deallocated bits" using rc_invD(5) [OF inv] rc mem by simp
  have "rs_owned s + sum_calls weight (rs_threads s) = 1" using rc_invD(3) [OF inv] rc mem by simp
  then have "sum_calls weight ((rs_threads s)[i := fs]) = 0" using split_call [OF i, of weight] by (simp add: weight_def)
  then have "calls is_dying ((rs_threads s)[i := fs]) = 0" using calls_weight(2) [of "(rs_threads s)[i := fs]"] by simp
  then have "calls is_dying (rs_threads s) = 0" using split_call [OF i, of "\<lambda>f. of_bool (is_dying f)"] by (simp add: frame_defs)
  then show "\<not> deallocating bits" using rc_invD(6) [OF inv] mem nd by simp
qed

lemma rc_inv_mark:
  assumes inv: "rc_inv s" and i: "i < length (rs_threads s)" "rs_threads s ! i = ReleaseMark bits # fs" and mem: "rs_mem s = bits"
    and f': "f' = Finalizing \<or> f' = ReleaseCheck \<and> calls is_try (rs_threads s) = 0"
  shows "rc_inv (s\<lparr>rs_mem := bits OR RC_DEALLOCATING_BIT, rs_threads := (rs_threads s)[i := f' # fs]\<rparr>)"
  using mark_alone [OF inv i mem] f' mem by (intro rc_inv_replace [OF inv i]) (auto simp: frame_defs)

text \<open>A call that has marked the object and not yet undone it.\<close>

lemma dying_phase:
  assumes inv: "rc_inv s" and i: "i < length (rs_threads s)" "rs_threads s ! i = f # fs" and f: "is_dying f"
  shows "deallocating (rs_mem s)" "\<not> deallocated (rs_mem s)"
  using rc_invD(6) [OF inv] split_call [OF i, of "\<lambda>f. of_bool (is_dying f)"] f
  by (cases "deallocating (rs_mem s) \<and> \<not> deallocated (rs_mem s)"; simp)+

lemma rc_inv_drop:
  assumes inv: "rc_inv s" and i: "i < length (rs_threads s)" "rs_threads s ! i = DropCAS bits # fs" and mem: "rs_mem s = bits"
  shows "rc_inv (s\<lparr>rs_mem := bits AND NOT RC_DEALLOCATING_BIT, rs_threads := (rs_threads s)[i := ReleaseLoad # fs]\<rparr>)"
proof -
  have d: "deallocating bits" "\<not> deallocated bits" using dying_phase [OF inv i] mem by (simp_all add: frame_defs)
  have "calls is_hammering ((rs_threads s)[i := ReleaseLoad # fs]) = calls is_hammering (rs_threads s)"
    using sum_calls_replace [OF i, of "\<lambda>f. of_bool (is_hammering f)" ReleaseLoad] by (simp add: frame_defs)
  then have "0 < calls is_hammering ((rs_threads s)[i := ReleaseLoad # fs]) \<longrightarrow> header_rc bits = 1" using rc_invD(8) [OF inv] mem by simp
  then show ?thesis using d rc_invD(5) [OF inv] mem by (intro rc_inv_replace [OF inv i]) (simp_all add: frame_defs)
qed

lemma rc_inv_hammer:
  assumes inv: "rc_inv s" and i: "i < length (rs_threads s)" "rs_threads s ! i = HammerCAS bits # fs" and mem: "rs_mem s = bits"
  shows "rc_inv (s\<lparr>rs_mem := (bits OR RC_DEALLOCATED_BIT) - RC_INCREMENT, rs_threads := (rs_threads s)[i := ReallyFree # fs]\<rparr>)"
proof -
  have d: "deallocating bits" "\<not> deallocated bits" using dying_phase [OF inv i] mem by (simp_all add: frame_defs)
  have H: "calls is_hammering (rs_threads s) = calls is_hammering ((rs_threads s)[i := ReallyFree # fs]) + 1"
    using sum_calls_replace [OF i, of "\<lambda>f. of_bool (is_hammering f)" ReallyFree] by (simp add: frame_defs)
  then have rc: "header_rc bits = 1" using rc_invD(8) [OF inv] mem by simp
  then have "calls is_hammering (rs_threads s) \<le> 1" using rc_invD(3) [OF inv] mem calls_weight(1) [of "rs_threads s"] by simp
  then have "calls is_hammering ((rs_threads s)[i := ReallyFree # fs]) = 0" using H by simp
  then show ?thesis using d rc mem by (intro rc_inv_replace [OF inv i]) (simp_all add: frame_defs header_rc_arith)
qed

lemma rc_inv_access:
  assumes inv: "rc_inv s" and i: "i < length (rs_threads s)" "rs_threads s ! i = f # fs" and f: "\<not> in_client f"
    and step: "frame_step cls f (rs_mem s) = (mem, Next f')"
    and weak: "f' = ReleaseCheck \<Longrightarrow> calls is_try (rs_threads s) = 0"
  shows "rc_inv (s\<lparr>rs_mem := mem, rs_threads := (rs_threads s)[i := f' # fs]\<rparr>)"
proof -
  have st: "stack_ok (f # fs)" using rc_invD(11) [OF inv] i by (metis nth_mem)
  note stay = rc_inv_stay [OF inv i]
  show ?thesis
  proof (cases f)
    case (ReleaseMark bits)
    then show ?thesis
    proof (cases "rs_mem s = bits")
      case True
      then show ?thesis using rc_inv_mark [OF inv _ _ True, of i fs f'] i ReleaseMark step weak by (auto simp: step_simps split: if_splits)
    next
      case False
      then show ?thesis using step ReleaseMark st by (intro stay) (auto simp: step_simps frame_defs)
    qed
  next
    case (DropCAS bits)
    then show ?thesis
    proof (cases "rs_mem s = bits")
      case True
      then show ?thesis using rc_inv_drop [OF inv _ _ True, of i fs] i DropCAS step by (auto simp: step_simps)
    next
      case False
      then show ?thesis using step DropCAS st by (intro stay) (auto simp: step_simps frame_defs)
    qed
  next
    case (HammerCAS bits)
    then show ?thesis
    proof (cases "rs_mem s = bits")
      case True
      then show ?thesis using rc_inv_hammer [OF inv _ _ True, of i fs] i HammerCAS step by (auto simp: step_simps)
    next
      case False
      then show ?thesis using step HammerCAS st by (intro stay) (auto simp: step_simps frame_defs)
    qed
  qed (use step st f rc_invD(2) [OF inv] in \<open>(intro stay; auto simp: step_simps frame_defs split: if_splits)+\<close>)
qed

lemma rc_inv_retained:
  assumes inv: "rc_inv s" and i: "i < length (rs_threads s)" "rs_threads s ! i = RetainCAS tr ow bits # fs" and mem: "rs_mem s = bits"
  shows "rc_inv (s\<lparr>rs_mem := bits + RC_INCREMENT, rs_threads := (rs_threads s)[i := fs], rs_owned := rs_owned s + (of_bool ow + 1), rs_freed := rs_freed s\<rparr>)"
proof -
  have st: "stack_ok (RetainCAS tr ow bits # fs)" using rc_invD(11) [OF inv] i by (metis nth_mem)
  have alive: "header_rc bits \<noteq> 0" using retain_alive(1) [OF inv i] mem by simp
  have "1 \<le> calls is_retain (rs_threads s)" using split_call [OF i, of "\<lambda>f. of_bool (is_retain f)"] by simp
  then have "unat (header_rc bits) + 1 < 2 ^ 32" using rc_invD(3,4) [OF inv, unfolded mem] by linarith
  then have up: "unat (header_rc (bits + RC_INCREMENT)) = unat (header_rc bits) + 1" by (rule unat_rc_up)
  then have "header_rc (bits + RC_INCREMENT) \<noteq> 0" by (metis Suc_eq_plus1 nat.distinct(1) unsigned_0)
  moreover have "\<not> deallocated bits" using rc_invD(5) [OF inv] alive mem by simp
  moreover have "calls is_hammering (rs_threads s) = 0" using retain_alive(2) [OF inv i] st mem by auto
  ultimately show ?thesis using up mem by (intro rc_inv_pop [OF inv i]) (simp_all add: frame_defs)
qed

lemma rc_inv_released:
  assumes inv: "rc_inv s" and i: "i < length (rs_threads s)" "rs_threads s ! i = ReleaseDec bits # fs" and mem: "rs_mem s = bits"
  shows "rc_inv (s\<lparr>rs_mem := bits - RC_INCREMENT, rs_threads := (rs_threads s)[i := fs], rs_owned := rs_owned s + 0, rs_freed := rs_freed s\<rparr>)"
proof -
  have "stack_ok (ReleaseDec bits # fs)" using rc_invD(11) [OF inv] i by (metis nth_mem)
  then have rc: "header_rc bits \<noteq> 0" "header_rc bits \<noteq> 1" by simp_all
  then have down: "unat (header_rc (bits - RC_INCREMENT)) + 1 = unat (header_rc bits)" using unat_rc_down [OF rc(1)] by (simp add: unat_gt_0)
  have "header_rc (bits - RC_INCREMENT) \<noteq> 0" using rc(2) by (simp add: header_rc_arith)
  moreover have "\<not> deallocated bits" using rc_invD(5) [OF inv] rc(1) mem by simp
  moreover have "\<not> 0 < calls is_hammering (rs_threads s)" using rc_invD(8) [OF inv] rc(2) mem by auto
  ultimately show ?thesis using down mem by (intro rc_inv_pop [OF inv i]) (simp_all add: frame_defs)
qed

text \<open>A return that leaves the header as it is.\<close>

lemma rc_inv_return_stay:
  assumes inv: "rc_inv s" and i: "i < length (rs_threads s)" "rs_threads s ! i = f # fs" and "\<not> is_dying f" "weight f = won"
  shows "rc_inv (s\<lparr>rs_mem := rs_mem s, rs_threads := (rs_threads s)[i := fs], rs_owned := rs_owned s + won, rs_freed := rs_freed s + of_bool (f = ReallyFree)\<rparr>)"
  using assms(4,5) rc_invD(5,8) [OF inv] by (intro rc_inv_pop [OF inv i]) simp_all

lemma release_alive:
  assumes inv: "rc_inv s" and i: "i < length (rs_threads s)" "rs_threads s ! i = f # fs" and "weight f = 1"
  shows "header_rc (rs_mem s) \<noteq> 0"
  using rc_invD(3) [OF inv] split_call [OF i, of weight] assms(4) by auto

lemma rc_inv_return:
  assumes inv: "rc_inv s" and i: "i < length (rs_threads s)" "rs_threads s ! i = f # fs" and f: "\<not> in_client f"
    and step: "frame_step cls f (rs_mem s) = (mem, r)" "r \<in> {Retained, RetainFailed, Released, Freed}"
  shows "rc_inv (s\<lparr>rs_mem := mem, rs_threads := (rs_threads s)[i := fs], rs_owned := rs_owned s + gain f r, rs_freed := rs_freed s + of_bool (r = Freed)\<rparr>)"
proof -
  have st: "stack_ok (f # fs)" using rc_invD(11) [OF inv] i by (metis nth_mem)
  note stay = rc_inv_return_stay [OF inv i]
  show ?thesis
  proof (cases f)
    case (RetainStart tr ow)
    then have "mem = rs_mem s" "r = RetainFailed" using step by (auto simp: step_simps rc_invD(1) [OF inv] split: if_splits)
    then show ?thesis using stay [of "gain f r"] RetainStart by (simp add: frame_defs gain_def)
  next
    case (RetainConstant tr ow)
    then show ?thesis using step retain_alive(1) [OF inv i] by (auto simp: step_simps split: if_splits)
  next
    case (RetainLoad tr ow)
    then have "mem = rs_mem s" "r = RetainFailed" using step by (auto simp: step_simps split: if_splits)
    then show ?thesis using stay [of "gain f r"] RetainLoad by (simp add: frame_defs gain_def)
  next
    case (RetainCAS tr ow bits)
    then have "rs_mem s = bits" "mem = bits + RC_INCREMENT" "r = Retained" using step by (auto simp: step_simps split: if_splits)
    then show ?thesis using rc_inv_retained [OF inv, of i tr ow bits fs] i RetainCAS by (simp add: gain_def)
  next
    case ReleaseStart
    then show ?thesis using step release_alive [OF inv i] rc_invD(1,5) [OF inv] by (auto simp: step_simps frame_defs split: if_splits)
  next
    case ReleaseLoad
    then show ?thesis using step release_alive [OF inv i] by (auto simp: step_simps frame_defs split: if_splits)
  next
    case (ReleaseDec bits)
    then have "rs_mem s = bits" "mem = bits - RC_INCREMENT" "r = Released" using step by (auto simp: step_simps split: if_splits)
    then show ?thesis using rc_inv_released [OF inv, of i bits fs] i ReleaseDec by (simp add: gain_def)
  next
    case ReallyFree
    then have "mem = rs_mem s" "r = Freed" using step by (auto simp: step_simps)
    then show ?thesis using stay [of "gain f r"] ReallyFree by (simp add: frame_defs gain_def)
  qed (use step f in \<open>auto simp: step_simps split: if_splits\<close>)
qed

lemma idle_clients: "stack_ok fs \<Longrightarrow> idle fs \<Longrightarrow> \<forall>f \<in> set fs. in_client f"
  by (cases fs) (auto simp: idle_def simp del: not_None_eq)

lemma rc_inv_client:
  assumes inv: "rc_inv s" and i: "i < length (rs_threads s)" "rs_threads s ! i = f # fs" and f': "client_return f = Some f'"
    and weak: "f' = ReleaseCheck \<Longrightarrow> calls is_try (rs_threads s) = 0"
  shows "rc_inv (s\<lparr>rs_threads := (rs_threads s)[i := f' # fs]\<rparr>)"
proof -
  have "stack_ok (f # fs)" using rc_invD(11) [OF inv] i by (metis nth_mem)
  then have "rc_inv (s\<lparr>rs_mem := rs_mem s, rs_threads := (rs_threads s)[i := f' # fs]\<rparr>)"
    using f' weak by (intro rc_inv_stay [OF inv i]; cases f; auto simp: is_try_def frame_defs)
  then show ?thesis by simp
qed

lemma rc_inv_step:
  assumes "rc_step True cls s s'" "rc_inv s"
  shows "rc_inv s'"
  using assms
proof (cases rule: rc_step.cases)
  case (start_retain i fs)
  then have "\<forall>f \<in> set fs. in_client f" using idle_clients rc_invD(11) [OF assms(2)] by (metis nth_mem)
  then show ?thesis using start_retain by (auto simp: frame_defs intro!: rc_inv_push [OF assms(2)])
next
  case (start_nested i f fs)
  then have "stack_ok (f # fs)" using rc_invD(11) [OF assms(2)] by (metis nth_mem)
  then have "rc_inv (s\<lparr>rs_threads := (rs_threads s)[i := RetainStart False False # f # fs], rs_owned := rs_owned s\<rparr>)"
    using start_nested by (intro rc_inv_push [OF assms(2)]) (simp_all add: frame_defs)
  then show ?thesis using start_nested(1) by simp
next
  case (start_try i fs)
  then have "\<forall>f \<in> set fs. in_client f" using idle_clients rc_invD(11) [OF assms(2)] by (metis nth_mem)
  then have "rc_inv (s\<lparr>rs_threads := (rs_threads s)[i := RetainStart True False # fs], rs_owned := rs_owned s\<rparr>)"
    using start_try by (intro rc_inv_push [OF assms(2)]) (simp_all add: frame_defs)
  then show ?thesis using start_try(1) by simp
next
  case (start_release i fs)
  then have "\<forall>f \<in> set fs. in_client f" using idle_clients rc_invD(11) [OF assms(2)] by (metis nth_mem)
  then show ?thesis using start_release by (auto simp: frame_defs intro!: rc_inv_push [OF assms(2)])
next
  case (access i f fs mem f')
  then show ?thesis using rc_inv_access [OF assms(2)] by blast
next
  case (return i f fs mem r)
  then show ?thesis using rc_inv_return [OF assms(2)] by blast
next
  case (client i f fs f')
  then show ?thesis using rc_inv_client [OF assms(2)] by blast
qed

text \<open>The header of a new object.\<close>

lemma make_header_parts:
  "header_info (make_header info rc) = info" "header_rc (make_header info rc) = rc"
proof -
  have high: "\<not> bit info (32 + n)" for n using bit_imp_le_length [of info "32 + n"] by auto
  show "header_info (make_header info rc) = info" by (rule bit_word_eqI) (auto simp: header_info_def make_header_def bit_simps)
  show "header_rc (make_header info rc) = rc" by (rule bit_word_eqI) (auto simp: bit_header_rc make_header_def bit_simps high)
qed

text \<open>The information word of an object that does its own counting neither in the header nor outside.\<close>

lemma runtime_info_parts:
  assumes t: "typeID < CFRuntimeClassTableSize"
    and i_def: "i = runtime_info rc False typeID True"
  shows "drop_bit 8 i AND 0x03FF = of_nat typeID" "\<not> bit i 21" "\<not> bit i 22" "\<not> bit i 23" "drop_bit 24 i = take_bit 8 rc"
proof -
  have small: "\<not> bit typeID k" if "10 \<le> k" for k
  proof -
    have "take_bit 10 typeID = typeID" using t by (intro take_bit_nat_eq_self) (simp add: CFRuntimeClassTableSize_def)
    then show ?thesis using that bit_take_bit_iff [of 10 typeID k] by simp
  qed
  have p: "(0x80 :: 32 word) = push_bit 7 1" by simp
  have b7: "bit (0x80 :: 32 word) k \<longleftrightarrow> k = 7" if "k < 32" for k
    unfolding p using that by (simp only: bit_push_bit_iff bit_1_iff) auto
  have bits: "bit i k \<longleftrightarrow> 24 \<le> k \<and> bit rc (k - 24) \<or> 8 \<le> k \<and> bit typeID (k - 8) \<or> k = 7" if "k < 32" for k
    using that b7 by (auto simp: i_def runtime_info_def bit_simps)
  show "\<not> bit i 21" "\<not> bit i 22" "\<not> bit i 23" using bits small by simp_all
  show "drop_bit 8 i AND 0x03FF = of_nat typeID"
  proof (rule bit_word_eqI)
    fix k assume "k < LENGTH(32)"
    have m: "(0x03FF :: 32 word) = Bit_Operations.mask 10" by (simp add: mask_eq_exp_minus_1)
    have "bit (drop_bit 8 i AND 0x03FF) k \<longleftrightarrow> k < 10 \<and> bit i (8 + k)" unfolding m by (auto simp: bit_simps)
    also have "\<dots> \<longleftrightarrow> k < 10 \<and> bit typeID k" using bits [of "8 + k"] by auto
    also have "\<dots> \<longleftrightarrow> bit (of_nat typeID :: 32 word) k" using small [of k] by (cases "k < 10") (auto simp: bit_simps)
    finally show "bit (drop_bit 8 i AND 0x03FF) k \<longleftrightarrow> bit (of_nat typeID :: 32 word) k" .
  qed
  show "drop_bit 24 i = take_bit 8 rc"
  proof (rule bit_word_eqI)
    fix k assume "k < LENGTH(32)"
    have "bit (drop_bit 24 i) k \<longleftrightarrow> k < 8 \<and> bit i (24 + k)" using bit_imp_le_length [of i "24 + k"] by (auto simp: bit_drop_bit_eq)
    also have "\<dots> \<longleftrightarrow> k < 8 \<and> bit rc k" using bits [of "24 + k"] small [of "16 + k"] by auto
    finally show "bit (drop_bit 24 i) k \<longleftrightarrow> bit (take_bit 8 rc) k" by (simp add: bit_take_bit_iff)
  qed
qed

lemma unat_typeID: "typeID < CFRuntimeClassTableSize \<Longrightarrow> unat (of_nat typeID :: 32 word) = typeID"
  by (simp add: CFRuntimeClassTableSize_def unsigned_of_nat take_bit_nat_eq_self)

lemma CFRuntimeCreateInstance_new:
  assumes "CFRuntimeCreateInstance_header env rt typeID extraBytes = Some (Some h)" "CFRuntimeClassTable rt typeID = Some cls" "\<not> has_custom_rc cls"
  shows "header_rc h = 1" "CFGenericTypeID h = typeID" "\<not> custom_count h" "\<not> deallocating h" "\<not> deallocated h"
proof -
  let ?i = "runtime_info 0 False typeID True"
  have t: "typeID < CFRuntimeClassTableSize" using assms(1) by (simp add: CFRuntimeCreateInstance_header_def split: if_splits)
  have h: "h = make_header ?i 1"
    using assms by (simp add: CFRuntimeCreateInstance_header_def Let_def split: if_splits)
  show "header_rc h = 1" by (simp add: h make_header_parts)
  show "CFGenericTypeID h = typeID" by (simp only: CFGenericTypeID_def h make_header_parts runtime_info_parts(1) [OF t refl] unat_typeID [OF t])
  have "bit h k \<longleftrightarrow> bit ?i k" if "k < 32" for k using that by (simp only: header_low_bits h make_header_parts)
  then show "\<not> custom_count h" "\<not> deallocating h" "\<not> deallocated h" using runtime_info_parts(2-4) [OF t refl] by simp_all
qed

section \<open>Reachable states\<close>

text \<open>The object of the states to come: a new one, not an allocator and without a count of its own.\<close>

definition new_object :: "CFRuntimeClass \<Rightarrow> header \<Rightarrow> bool" where
  "new_object cls h \<longleftrightarrow> (\<exists>env rt typeID extraBytes.
     CFRuntimeCreateInstance_header env rt typeID extraBytes = Some (Some h) \<and> CFRuntimeClassTable rt typeID = Some cls \<and>
     \<not> has_custom_rc cls \<and> typeID \<noteq> kCFAllocatorTypeID_CONST)"

lemma sum_calls_idle [simp]: "sum_calls w (replicate n []) = 0"
  by (simp add: sum_calls_def sum_list_replicate)

lemma rc_inv_init:
  assumes "new_object cls h"
  shows "rc_inv (rc_init h n)"
proof -
  have "header_rc h = 1" "CFGenericTypeID h \<noteq> kCFAllocatorTypeID_CONST" "\<not> custom_count h" "\<not> deallocating h" "\<not> deallocated h"
    using assms CFRuntimeCreateInstance_new unfolding new_object_def by metis+
  then show ?thesis by (simp add: rc_inv_def counter_ok_def phase_ok_def rc_init_def)
qed

lemma rc_inv_steps: "(rc_step True cls)\<^sup>*\<^sup>* s s' \<Longrightarrow> rc_inv s \<Longrightarrow> rc_inv s'"
  by (induction rule: rtranclp_induct) (auto intro: rc_inv_step)

lemma rc_inv_reachable: "new_object cls h \<Longrightarrow> rc_reachable True cls h n s \<Longrightarrow> rc_inv s"
  unfolding rc_reachable_def using rc_inv_init rc_inv_steps by blast

text \<open>When no reference is left, at most the call that frees the memory is still running.\<close>

lemma dead_calls:
  assumes inv: "rc_inv s" and dead: "deallocated (rs_mem s)" and fs: "fs \<in> set (rs_threads s)" "f \<in> set fs"
  shows "f = ReallyFree"
proof (rule ccontr)
  assume f: "f \<noteq> ReallyFree"
  have W: "sum_calls weight (rs_threads s) = 0" and rc: "header_rc (rs_mem s) = 0"
    using rc_invD(3,5) [OF inv] dead by simp_all
  then have w: "weight f = 0" using sum_calls_member [OF fs, of weight] by simp
  then have r: "is_retain f" using f by (simp add: weight_def split: if_splits)
  have st: "stack_ok fs" using rc_invD(11) [OF inv] fs(1) by blast
  obtain g gs where g: "fs = g # gs" using fs(2) by (cases fs) auto
  have "f = g"
  proof (rule ccontr)
    assume "f \<noteq> g"
    then have "in_client f" using st fs(2) g by (auto simp del: not_None_eq)
    then show False using client_not_retain r by blast
  qed
  moreover obtain i where "i < length (rs_threads s)" "rs_threads s ! i = g # gs" using fs(1) g by (metis in_set_conv_nth)
  ultimately show False using retain_alive(1) [OF inv, of i g gs] r rc by blast
qed

lemma not_deallocated_owned: "rc_inv s \<Longrightarrow> \<forall>fs \<in> set (rs_threads s). fs = [] \<Longrightarrow> rs_freed s = of_bool (rs_owned s = 0)"
proof -
  assume inv: "rc_inv s" and idle: "\<forall>fs \<in> set (rs_threads s). fs = []"
  have z: "sum_calls w (rs_threads s) = 0" for w unfolding sum_calls_zero using idle by (metis empty_iff empty_set)
  have "deallocated (rs_mem s) \<longleftrightarrow> rs_owned s = 0" using rc_invD(3,5) [OF inv] z [of weight] unat_eq_zero [of "header_rc (rs_mem s)"] by simp
  then show ?thesis using rc_invD(7) [OF inv] z [of "\<lambda>f. of_bool (f = ReallyFree)"] by simp
qed

section \<open>Calls that run alone\<close>

text \<open>How many steps a call still takes if no other thread interferes.\<close>

definition load_rank :: "header \<Rightarrow> nat" where
  "load_rank mem = (if header_rc mem = 1 then 8 else 2)"

fun rank :: "header \<Rightarrow> rc_frame \<Rightarrow> nat" where
  "rank mem (RetainStart tr ow) = 5"
| "rank mem (RetainConstant tr ow) = 4"
| "rank mem (RetainLoad tr ow) = 2"
| "rank mem (RetainCAS tr ow bits) = (if bits = mem then 1 else 3)"
| "rank mem ReleaseStart = load_rank mem + 1"
| "rank mem ReleaseLoad = load_rank mem"
| "rank mem (Reclaiming bits) = (if bits = mem then 7 else load_rank mem + 2)"
| "rank mem (ReleaseMark bits) = (if bits = mem then 6 else load_rank mem + 1)"
| "rank mem Finalizing = (if header_rc mem = 1 then 5 else load_rank mem + 4)"
| "rank mem ReleaseCheck = (if header_rc mem = 1 then 4 else load_rank mem + 3)"
| "rank mem HammerLoad = 3"
| "rank mem (HammerCAS bits) = (if bits = mem then 2 else 4)"
| "rank mem DropLoad = load_rank mem + 2"
| "rank mem (DropCAS bits) = (if bits = mem then load_rank mem + 1 else load_rank mem + 3)"
| "rank mem (ReleaseDec bits) = (if bits = mem then 1 else load_rank mem + 1)"
| "rank mem ReallyFree = 1"

lemma rank_bound: "rank mem f \<le> 11"
  by (cases f) (simp_all add: load_rank_def)

lemma rank_step:
  assumes "frame_ok f" "\<not> in_client f" "\<not> custom_count mem" "CFGenericTypeID mem \<noteq> kCFAllocatorTypeID_CONST"
  shows "case frame_step cls f mem of (mem', Next f') \<Rightarrow> rank mem' f' < rank mem f \<and> frame_ok f' | (mem', r) \<Rightarrow> r \<in> {Retained, RetainFailed, Released, Freed}"
  using assms by (cases f) (auto simp: step_simps load_rank_def)

lemma rank_client:
  assumes "client_return f = Some f'" "frame_ok f"
  shows "rank mem f' < rank mem f"
  using assms by (cases f) (auto simp: load_rank_def)

lemma frame_step_flags:
  assumes "frame_step cls f mem = (mem', r)" "\<not> in_client f"
  shows "custom_count mem' = custom_count mem" "CFGenericTypeID mem' = CFGenericTypeID mem"
  using assms by (cases f; auto simp: step_simps split: if_splits)+

lemma run_alone_returns:
  assumes "frame_ok f" "\<not> custom_count mem" "CFGenericTypeID mem \<noteq> kCFAllocatorTypeID_CONST" "rank mem f \<le> k"
  shows "\<exists>mem' r. run_alone cls k f mem = Some (mem', r) \<and> r \<in> {Retained, RetainFailed, Released, Freed}"
  using assms
proof (induction k arbitrary: f mem)
  case 0
  then show ?case by (cases f) (simp_all add: load_rank_def split: if_splits)
next
  case (Suc k)
  show ?case
  proof (cases "client_return f")
    case (Some f')
    then have "frame_ok f'" using Suc.prems(1) by (cases f) auto
    then show ?thesis using Suc.IH [of f' mem] Suc.prems rank_client [OF Some Suc.prems(1), of mem] Some by simp
  next
    case None
    obtain mem' r where r: "frame_step cls f mem = (mem', r)" by (cases "frame_step cls f mem")
    note rk = rank_step [OF Suc.prems(1), of mem cls, unfolded None r prod.case]
    show ?thesis
    proof (cases r)
      case (Next f')
      then show ?thesis using Suc.IH [of f' mem'] Suc.prems(2-4) rk frame_step_flags [OF r] None r by simp
    qed (use rk None r Suc.prems in auto)
  qed
qed

lemma step_kind:
  assumes "frame_step cls f mem = (mem', Next f')" "\<not> in_client f"
  shows "is_retain f' = is_retain f \<and> is_try f' = is_try f \<and> (f' = ReleaseCheck \<longrightarrow> \<not> is_retain f)"
  using assms by (cases f) (auto simp: step_simps is_try_def split: if_splits)

lemma client_kind: "client_return f = Some f' \<Longrightarrow> \<not> is_retain f' \<and> \<not> is_try f'"
  by (cases f) (auto simp: is_try_def)

lemma calls_try_replace:
  assumes "i < length ts" "ts ! i = f # fs" "is_try f' = is_try f"
  shows "calls is_try (ts[i := f' # fs]) = calls is_try ts"
  using sum_calls_replace [OF assms(1,2), of "\<lambda>f. of_bool (is_try f)" f'] assms(3) by simp

text \<open>A call can return, with the other threads at rest, unless it is a release and has to wait for weak references.\<close>

lemma run_call:
  assumes "rc_inv s" "i < length (rs_threads s)" "rs_threads s ! i = f # fs" "is_try f \<or> calls is_try (rs_threads s) = 0"
  shows "\<exists>s'. (rc_step True cls)\<^sup>*\<^sup>* s s' \<and> rs_threads s' = (rs_threads s)[i := fs] \<and> (\<not> is_retain f \<longrightarrow> rs_owned s' = rs_owned s)"
  using assms
proof (induction "rank (rs_mem s) f" arbitrary: s f rule: less_induct)
  case less
  note inv = less.prems(1) and i = less.prems(2,3)
  have ok: "frame_ok f" using rc_invD(11) [OF inv] i by (metis nth_mem stack_ok_simps(2))
  have IH: ?case if step: "rc_step True cls s (s\<lparr>rs_mem := mem, rs_threads := (rs_threads s)[i := f' # fs]\<rparr>)"
      and kind: "rank mem f' < rank (rs_mem s) f" "is_retain f' = is_retain f" "is_try f' = is_try f" for mem f'
  proof -
    let ?s = "s\<lparr>rs_mem := mem, rs_threads := (rs_threads s)[i := f' # fs]\<rparr>"
    have "\<exists>s'. (rc_step True cls)\<^sup>*\<^sup>* ?s s' \<and> rs_threads s' = (rs_threads ?s)[i := fs] \<and> (\<not> is_retain f' \<longrightarrow> rs_owned s' = rs_owned ?s)"
      using kind i less.prems(4) calls_try_replace [OF i kind(3)] rc_inv_step [OF step inv] by (intro less.hyps) simp_all
    then show ?thesis using step kind(2) by (auto intro: converse_rtranclp_into_rtranclp)
  qed
  show ?case
  proof (cases "client_return f")
    case (Some f')
    have "\<not> is_try f" using Some client_not_retain [of f] by (simp add: is_try_def)
    then have "rc_step True cls s (s\<lparr>rs_threads := (rs_threads s)[i := f' # fs]\<rparr>)" using client [OF i Some] less.prems(4) by blast
    then show ?thesis using IH [where mem = "rs_mem s" and f' = f'] rank_client [OF Some ok] client_kind [OF Some] client_not_retain [of f] Some by (simp add: is_try_def)
  next
    case None
    obtain mem r where r: "frame_step cls f (rs_mem s) = (mem, r)" by (cases "frame_step cls f (rs_mem s)")
    note rk = rank_step [OF ok, of "rs_mem s" cls, unfolded None r prod.case]
    show ?thesis
    proof (cases "\<exists>f'. r = Next f'")
      case True
      then obtain f' where f': "r = Next f'" by blast
      have k: "is_retain f' = is_retain f" "is_try f' = is_try f" "f' = ReleaseCheck \<Longrightarrow> \<not> is_retain f" using step_kind [of cls f "rs_mem s" mem f'] r f' None by auto
      have "rc_step True cls s (s\<lparr>rs_mem := mem, rs_threads := (rs_threads s)[i := f' # fs]\<rparr>)"
        using access [OF i, of cls mem f' True] r f' None k(3) less.prems(4) by (auto simp: is_try_def)
      then show ?thesis using IH k(1,2) rk f' rc_invD(1,2) [OF inv] by simp
    next
      case False
      then have "r \<in> {Retained, RetainFailed, Released, Freed}" using rk rc_invD(1,2) [OF inv] by (cases r) simp_all
      then have "rc_step True cls s (s\<lparr>rs_mem := mem, rs_threads := (rs_threads s)[i := fs], rs_owned := rs_owned s + gain f r,
          rs_freed := rs_freed s + of_bool (r = Freed)\<rparr>)" using return [OF i _ r] None by simp
      then show ?thesis by (intro exI conjI r_into_rtranclp) (auto simp: gain_def)
    qed
  qed
qed

lemma busy_thread:
  assumes "0 < sum_calls w ts"
  shows "\<exists>i f fs g. i < length ts \<and> ts ! i = f # fs \<and> g \<in> set (f # fs) \<and> 0 < w g"
proof -
  obtain fs g where "fs \<in> set ts" "g \<in> set fs" "w g \<noteq> 0" using assms sum_calls_zero [of w ts] by (metis less_irrefl)
  then show ?thesis by (metis gr0I in_set_conv_nth list.exhaust list.set_cases)
qed

text \<open>All calls can return.\<close>

lemma drain_calls: "rc_inv s \<Longrightarrow> \<exists>s'. (rc_step True cls)\<^sup>*\<^sup>* s s' \<and> (\<forall>fs \<in> set (rs_threads s'). fs = []) \<and> length (rs_threads s') = length (rs_threads s)"
proof (induction "sum_calls (\<lambda>_. 1) (rs_threads s)" arbitrary: s rule: less_induct)
  case less
  note inv = less.prems
  have IH: ?case if i: "i < length (rs_threads s)" "rs_threads s ! i = f # fs" and f: "is_try f \<or> calls is_try (rs_threads s) = 0" for i f fs
  proof -
    obtain s1 where s1: "(rc_step True cls)\<^sup>*\<^sup>* s s1" "rs_threads s1 = (rs_threads s)[i := fs]" using run_call [OF inv i f] by blast
    have "sum_calls (\<lambda>_. 1) (rs_threads s1) < sum_calls (\<lambda>_. 1) (rs_threads s)" using split_call [OF i, of "\<lambda>_. 1"] s1(2) by simp
    then obtain s2 where "(rc_step True cls)\<^sup>*\<^sup>* s1 s2" "\<forall>fs \<in> set (rs_threads s2). fs = []" "length (rs_threads s2) = length (rs_threads s1)"
      using less.hyps rc_inv_steps [OF s1(1) inv] by blast
    then show ?thesis using s1 by (metis length_list_update rtranclp_trans)
  qed
  show ?case
  proof (cases "calls is_try (rs_threads s) = 0")
    case True
    show ?thesis
    proof (cases "\<forall>fs \<in> set (rs_threads s). fs = []")
      case False
      then obtain i f fs where "i < length (rs_threads s)" "rs_threads s ! i = f # fs" by (metis in_set_conv_nth list.exhaust)
      then show ?thesis using IH True by blast
    qed blast
  next
    case False
    then obtain i f fs g where i: "i < length (rs_threads s)" "rs_threads s ! i = f # fs" and g: "g \<in> set (f # fs)" "is_try g"
      using busy_thread [of "\<lambda>f. of_bool (is_try f)" "rs_threads s"] by (metis gr0I of_bool_eq_0_iff less_irrefl)
    have "stack_ok (f # fs)" using rc_invD(11) [OF inv] i by (metis nth_mem)
    moreover have "\<not> in_client g" using g(2) client_not_retain [of g] unfolding is_try_def by blast
    ultimately have "g = f" using g(1) by (auto simp del: not_None_eq)
    then show ?thesis using IH [OF i] g(2) by blast
  qed
qed

text \<open>Then the remaining references can be given back, which frees the memory.\<close>

lemma release_all:
  assumes "rc_inv s" "\<forall>fs \<in> set (rs_threads s). fs = []" "0 < length (rs_threads s)"
  shows "\<exists>s'. (rc_step True cls)\<^sup>*\<^sup>* s s' \<and> (\<forall>fs \<in> set (rs_threads s'). fs = []) \<and> rs_owned s' = 0 \<and> rs_freed s' = 1"
  using assms
proof (induction "rs_owned s" arbitrary: s)
  case 0
  then show ?case using not_deallocated_owned [OF 0(2,3)] by auto
next
  case (Suc n)
  let ?s = "s\<lparr>rs_threads := (rs_threads s)[0 := [ReleaseStart]], rs_owned := rs_owned s - 1\<rparr>"
  have idle: "rs_threads s ! 0 = []" using Suc.prems(2,3) nth_mem by blast
  have step: "rc_step True cls s ?s" using start_release [OF Suc.prems(3) idle] Suc.hyps(2) by (simp add: idle_def)
  have "calls is_try (rs_threads s) = 0" using Suc.prems(2) unfolding sum_calls_zero by (metis empty_iff empty_set)
  then have "calls is_try (rs_threads ?s) = 0" using sum_calls_push [OF Suc.prems(3) idle, of "\<lambda>f. of_bool (is_try f)" ReleaseStart] by (simp add: is_try_def)
  then obtain s1 where s1: "(rc_step True cls)\<^sup>*\<^sup>* ?s s1" "rs_threads s1 = (rs_threads s)[0 := []]" "rs_owned s1 = n"
    using run_call [OF rc_inv_step [OF step Suc.prems(1)], of 0 ReleaseStart "[]" cls] Suc.prems(3) Suc.hyps(2) by auto
  have "rs_threads s1 = rs_threads s" using s1(2) idle by (metis list_update_id)
  then obtain s2 where "(rc_step True cls)\<^sup>*\<^sup>* s1 s2" "\<forall>fs \<in> set (rs_threads s2). fs = []" "rs_owned s2 = 0" "rs_freed s2 = 1"
    using Suc.hyps(1) [OF s1(3) [symmetric]] Suc.prems rc_inv_steps [OF s1(1) rc_inv_step [OF step Suc.prems(1)]] by auto
  then show ?case using step s1(1) by (meson converse_rtranclp_into_rtranclp rtranclp_trans)
qed

section \<open>Schedules\<close>

text \<open>A given interleaving as a list of actions of threads, and the state it leads to.\<close>

datatype rc_action = ActRetain nat | ActTryRetain nat | ActRelease nat | ActRun nat

definition perform_start :: "rc_state \<Rightarrow> nat \<Rightarrow> rc_frame \<Rightarrow> nat \<Rightarrow> bool \<Rightarrow> rc_state option" where
  "perform_start s i f needed guard =
     (if i < length (rs_threads s) \<and> idle (rs_threads s ! i) \<and> needed \<le> rs_owned s \<and> guard
      then Some (s\<lparr>rs_threads := (rs_threads s)[i := f # rs_threads s ! i], rs_owned := rs_owned s - needed\<rparr>) else None)"

definition may_go_on :: "bool \<Rightarrow> rc_state \<Rightarrow> rc_frame \<Rightarrow> bool" where
  "may_go_on weakLock s f' \<longleftrightarrow> weakLock \<and> f' = ReleaseCheck \<longrightarrow> calls is_try (rs_threads s) = 0"

definition perform_run :: "bool \<Rightarrow> CFRuntimeClass \<Rightarrow> rc_state \<Rightarrow> nat \<Rightarrow> rc_state option" where
  "perform_run weakLock cls s i =
     (if i < length (rs_threads s) then
        (case rs_threads s ! i of
           [] \<Rightarrow> None
         | f # fs \<Rightarrow>
             (case client_return f of
                Some f' \<Rightarrow> if may_go_on weakLock s f' then Some (s\<lparr>rs_threads := (rs_threads s)[i := f' # fs]\<rparr>) else None
              | None \<Rightarrow>
                  (case frame_step cls f (rs_mem s) of
                     (mem, Next f') \<Rightarrow>
                       if may_go_on weakLock s f' then Some (s\<lparr>rs_mem := mem, rs_threads := (rs_threads s)[i := f' # fs]\<rparr>) else None
                   | (mem, Halt) \<Rightarrow> None
                   | (mem, CustomCount k) \<Rightarrow> None
                   | (mem, r) \<Rightarrow> Some (s\<lparr>rs_mem := mem, rs_threads := (rs_threads s)[i := fs], rs_owned := rs_owned s + gain f r,
                       rs_freed := rs_freed s + of_bool (r = Freed)\<rparr>))))
      else None)"

primrec perform :: "bool \<Rightarrow> CFRuntimeClass \<Rightarrow> rc_state \<Rightarrow> rc_action \<Rightarrow> rc_state option" where
  "perform weakLock cls s (ActRetain i) = perform_start s i (RetainStart False True) 1 (room s)"
| "perform weakLock cls s (ActTryRetain i) =
     perform_start s i (RetainStart True False) 0 (room s \<and> rs_freed s = 0 \<and> (weakLock \<longrightarrow> calls is_late (rs_threads s) = 0))"
| "perform weakLock cls s (ActRelease i) = perform_start s i ReleaseStart 1 True"
| "perform weakLock cls s (ActRun i) = perform_run weakLock cls s i"

primrec run_schedule :: "bool \<Rightarrow> CFRuntimeClass \<Rightarrow> rc_action list \<Rightarrow> rc_state \<Rightarrow> rc_state option" where
  "run_schedule weakLock cls [] s = Some s"
| "run_schedule weakLock cls (a # as) s = do { s \<leftarrow> perform weakLock cls s a; run_schedule weakLock cls as s }"

lemma perform_startD:
  assumes "perform_start s i f needed guard = Some s'"
  shows "i < length (rs_threads s)" "idle (rs_threads s ! i)" "needed \<le> rs_owned s" "guard"
    "s' = s\<lparr>rs_threads := (rs_threads s)[i := f # rs_threads s ! i], rs_owned := rs_owned s - needed\<rparr>"
  using assms by (simp_all add: perform_start_def split: if_splits)

lemma perform_run_sound:
  assumes "perform_run weakLock cls s i = Some s'"
  shows "rc_step weakLock cls s s'"
proof -
  have i: "i < length (rs_threads s)" using assms(1) by (simp add: perform_run_def split: if_splits)
  obtain f fs where f: "rs_threads s ! i = f # fs" using assms(1) i by (cases "rs_threads s ! i") (simp_all add: perform_run_def)
  show ?thesis
  proof (cases "client_return f")
    case (Some f')
    then have "may_go_on weakLock s f'" "s' = s\<lparr>rs_threads := (rs_threads s)[i := f' # fs]\<rparr>"
      using assms f i by (simp_all add: perform_run_def split: if_splits)
    then show ?thesis using client [OF i f Some, of weakLock cls] by (simp add: may_go_on_def)
  next
    case None
    obtain mem r where r: "frame_step cls f (rs_mem s) = (mem, r)" by (cases "frame_step cls f (rs_mem s)")
    show ?thesis
    proof (cases r)
      case (Next f')
      then have "may_go_on weakLock s f'" "s' = s\<lparr>rs_mem := mem, rs_threads := (rs_threads s)[i := f' # fs]\<rparr>"
        using assms f i r None by (simp_all add: perform_run_def split: if_splits)
      then show ?thesis using access [OF i f, of cls mem f' weakLock] r None Next by (simp add: may_go_on_def)
    qed (use return [OF i f _ r, of weakLock] assms f i r None in \<open>auto simp: perform_run_def\<close>)
  qed
qed

lemma perform_sound: "perform weakLock cls s a = Some s' \<Longrightarrow> rc_step weakLock cls s s'"
proof (cases a)
  case (ActRetain i)
  assume "perform weakLock cls s a = Some s'"
  then have "perform_start s i (RetainStart False True) 1 (room s) = Some s'" using ActRetain by simp
  from perform_startD [OF this] show ?thesis using start_retain [OF _ refl, of i s weakLock cls] by simp
next
  case (ActTryRetain i)
  assume "perform weakLock cls s a = Some s'"
  then have "perform_start s i (RetainStart True False) 0 (room s \<and> rs_freed s = 0 \<and> (weakLock \<longrightarrow> calls is_late (rs_threads s) = 0)) = Some s'"
    using ActTryRetain by simp
  from perform_startD [OF this] show ?thesis using start_try [OF _ refl, of i s weakLock cls] by simp
next
  case (ActRelease i)
  assume "perform weakLock cls s a = Some s'"
  then have "perform_start s i ReleaseStart 1 True = Some s'" using ActRelease by simp
  from perform_startD [OF this] show ?thesis using start_release [OF _ refl, of i s weakLock cls] by simp
next
  case (ActRun i)
  assume "perform weakLock cls s a = Some s'"
  then show ?thesis using ActRun perform_run_sound by simp
qed

lemma run_schedule_sound: "run_schedule weakLock cls as s = Some s' \<Longrightarrow> (rc_step weakLock cls)\<^sup>*\<^sup>* s s'"
proof (induction as arbitrary: s)
  case (Cons a as)
  then obtain s1 where "perform weakLock cls s a = Some s1" "run_schedule weakLock cls as s1 = Some s'" by (cases "perform weakLock cls s a") auto
  then show ?case using Cons.IH perform_sound by (metis converse_rtranclp_into_rtranclp)
qed simp

lemma rc_step_length: "rc_step weakLock cls s s' \<Longrightarrow> length (rs_threads s') = length (rs_threads s)"
  by (cases rule: rc_step.cases) auto

lemma rc_reachable_length: "rc_reachable weakLock cls h n s \<Longrightarrow> length (rs_threads s) = n"
  unfolding rc_reachable_def by (induction rule: rtranclp_induct) (simp_all add: rc_init_def rc_step_length)

lemma sum_calls_cong: "(\<And>fs f. fs \<in> set ts \<Longrightarrow> f \<in> set fs \<Longrightarrow> u f = v f) \<Longrightarrow> sum_calls u ts = sum_calls v ts"
  unfolding sum_calls_def by (intro arg_cong [of _ _ sum_list] map_cong refl) auto

section \<open>Properties\<close>

text \<open>A class with a finalizer, the table that holds it and the header of an object of it.\<close>

definition plain_class :: CFRuntimeClass where
  "plain_class = \<lparr> cls_version = 0, cls_finalize = 77, cls_equal = 0, cls_hash = 0, cls_reclaim = 0, cls_refcount = 0 \<rparr>"

definition plain_runtime :: CFRuntime where
  "plain_runtime = \<lparr> rt_table = [None, None, None, Some plain_class], rt_count = 4 \<rparr>"

definition plain_env :: cf_env where
  "plain_env = \<lparr> env_alloc = (\<lambda>_. True), env_retain = (\<lambda>_ p. p), env_equal = (\<lambda>_ x y. x = y), env_compare = (\<lambda>_ _ _ _. 0) \<rparr>"

definition plain_header :: header where
  "plain_header = 0x100000380"

lemma plain_object:
  "CFRuntimeCreateInstance_header plain_env plain_runtime 3 8 = Some (Some plain_header)" "CFRuntimeClassTable plain_runtime 3 = Some plain_class"
  "\<not> has_custom_rc plain_class" "(3 :: nat) \<noteq> kCFAllocatorTypeID_CONST"
  by (simp_all add: CFRuntimeCreateInstance_header_def CFRuntimeClassTable_def CFRuntimeClassTableSize_def CFRuntimeCreateInstance_def plain_runtime_def
      plain_env_def plain_class_def plain_header_def has_custom_rc_def kCFAllocatorTypeID_CONST_def make_header_def runtime_info_def Let_def)

lemma rc_init_2: "rc_init h 2 = \<lparr> rs_mem = h, rs_threads = [[], []], rs_owned = 1, rs_freed = 0 \<rparr>"
  by (simp add: rc_init_def numeral_2_eq_2)

lemmas schedule_simps = perform_start_def perform_run_def may_go_on_def idle_def room_def sum_calls_def weight_def is_try_def is_late_def gain_def
  frame_step_def CAS64_def Let_def rc_init_2 plain_class_def plain_header_def
  header_info_def header_rc_def RC_GET_def RC_MASK_def RC_INCREMENT_def RC_DEALLOCATING_BIT_def RC_DEALLOCATED_BIT_def
  CFGenericTypeID_def kCFAllocatorTypeID_CONST_def kCFRuntimeResourcefulObject_def

text \<open>Two threads, a retain that has to try twice, a weak reference that becomes a strong one, and three releases.\<close>

definition busy_schedule :: "rc_action list" where
  "busy_schedule =
     [ActRetain 0, ActRun 0, ActRun 0, ActRun 0, ActTryRetain 1, ActRun 1, ActRun 1, ActRun 1, ActRun 1, ActRun 0, ActRun 0, ActRun 0,
      ActRelease 0, ActRun 0, ActRun 0, ActRun 0, ActRelease 0, ActRun 0, ActRun 0, ActRun 0,
      ActRelease 1, ActRun 1, ActRun 1, ActRun 1, ActRun 1, ActRun 1, ActRun 1, ActRun 1, ActRun 1]"

lemma busy_schedule_run:
  "run_schedule True plain_class busy_schedule (rc_init plain_header 2) = Some \<lparr> rs_mem = 0x600380, rs_threads = [[], []], rs_owned = 0, rs_freed = 1 \<rparr>"
  by (simp add: busy_schedule_def schedule_simps)

text \<open>
  C1.  Reference counting is safe under every interleaving of any number of threads that retain and
  release references they own, also from finalizers, as long as there are fewer than $2^{32}$
  references and the weak reference machinery keeps its lock.  The count in the header is the number
  of references owned or being given back; at most one finalization runs at a time; the memory is
  freed at most once, and only when no reference is left and no other call is running; and when all
  calls have returned, it has been freed exactly if no reference is left.
\<close>

theorem refcount_safe:
  assumes "CFRuntimeCreateInstance_header env rt typeID extraBytes = Some (Some h)" "CFRuntimeClassTable rt typeID = Some cls"
    "\<not> has_custom_rc cls" "typeID \<noteq> kCFAllocatorTypeID_CONST" "rc_reachable True cls h n s"
  shows "unat (header_rc (rs_mem s)) = rs_owned s + sum_calls weight (rs_threads s) \<and>
    calls (\<lambda>f. f = Finalizing) (rs_threads s) \<le> 1 \<and> rs_freed s + calls (\<lambda>f. f = ReallyFree) (rs_threads s) \<le> 1 \<and>
    (0 < rs_freed s \<longrightarrow> rs_owned s = 0 \<and> (\<forall>fs \<in> set (rs_threads s). fs = [])) \<and>
    (0 < calls (\<lambda>f. f = ReallyFree) (rs_threads s) \<longrightarrow> rs_owned s = 0 \<and> sum_calls (\<lambda>_. 1) (rs_threads s) = 1) \<and>
    ((\<forall>fs \<in> set (rs_threads s). fs = []) \<longrightarrow> rs_freed s = of_bool (rs_owned s = 0))"
proof -
  have inv: "rc_inv s" using rc_inv_reachable [OF _ assms(5)] assms(1-4) unfolding new_object_def by blast
  have fin: "calls (\<lambda>f. f = Finalizing) (rs_threads s) \<le> 1"
  proof -
    have "calls (\<lambda>f. f = Finalizing) (rs_threads s) \<le> calls is_dying (rs_threads s)" by (rule sum_calls_mono) (simp add: is_dying_def)
    then show ?thesis using rc_invD(6) [OF inv] by (cases "deallocating (rs_mem s) \<and> \<not> deallocated (rs_mem s)") simp_all
  qed
  have dead: "rs_owned s = 0 \<and> sum_calls (\<lambda>_. 1) (rs_threads s) = calls (\<lambda>f. f = ReallyFree) (rs_threads s)" if "deallocated (rs_mem s)"
  proof -
    have "sum_calls (\<lambda>_. 1) (rs_threads s) = calls (\<lambda>f. f = ReallyFree) (rs_threads s)"
      using dead_calls [OF inv that] by (intro sum_calls_cong) simp
    then show ?thesis using that rc_invD(3,5) [OF inv] by simp
  qed
  note free = rc_invD(7) [OF inv]
  have one: "rs_freed s + calls (\<lambda>f. f = ReallyFree) (rs_threads s) \<le> 1" unfolding free by simp
  have gone: "deallocated (rs_mem s)" if "0 < rs_freed s \<or> 0 < calls (\<lambda>f. f = ReallyFree) (rs_threads s)"
    using free that by (cases "deallocated (rs_mem s)") simp_all
  have "\<forall>fs \<in> set (rs_threads s). fs = []" if "0 < rs_freed s"
  proof -
    have "calls (\<lambda>f. f = ReallyFree) (rs_threads s) = 0" using one that by linarith
    then have "sum_calls (\<lambda>_. 1) (rs_threads s) = 0" using dead gone that by simp
    then show ?thesis unfolding sum_calls_zero by (metis list.set_intros(1) neq_Nil_conv zero_neq_one)
  qed
  moreover have "sum_calls (\<lambda>_. 1) (rs_threads s) = 1" if "0 < calls (\<lambda>f. f = ReallyFree) (rs_threads s)"
    using dead gone that one by simp
  moreover have "rs_owned s = 0" if "0 < rs_freed s \<or> 0 < calls (\<lambda>f. f = ReallyFree) (rs_threads s)" using dead gone that by blast
  ultimately show ?thesis using fin one rc_invD(3) [OF inv] not_deallocated_owned [OF inv] by blast
qed

theorem refcount_safe_witness:
  "\<exists>s. rc_reachable True plain_class plain_header 2 s \<and> rs_freed s = 1 \<and> rs_owned s = 0 \<and> header_rc (rs_mem s) = 0"
proof -
  let ?s = "\<lparr> rs_mem = 0x600380, rs_threads = [[], []], rs_owned = 0, rs_freed = 1 \<rparr>"
  have r: "rc_reachable True plain_class plain_header 2 ?s" unfolding rc_reachable_def by (rule run_schedule_sound [OF busy_schedule_run])
  then have "unat (header_rc (rs_mem ?s)) = 0" using refcount_safe [OF plain_object r] by (simp add: sum_calls_def)
  then show ?thesis using r by (intro exI [of _ ?s]) (simp add: unat_eq_zero)
qed

text \<open>
  C11.  No reference is lost and no call blocks for ever: from every state that can be reached, the
  threads can go on until all calls have returned and all references have been given back, and then
  the memory has been freed, once.  A call that runs alone returns after at most eleven steps.
\<close>

theorem refcount_live:
  assumes "CFRuntimeCreateInstance_header env rt typeID extraBytes = Some (Some h)" "CFRuntimeClassTable rt typeID = Some cls"
    "\<not> has_custom_rc cls" "typeID \<noteq> kCFAllocatorTypeID_CONST" "rc_reachable True cls h n s" "0 < n"
  shows "(\<exists>s'. (rc_step True cls)\<^sup>*\<^sup>* s s' \<and> (\<forall>fs \<in> set (rs_threads s'). fs = []) \<and> rs_owned s' = 0 \<and> rs_freed s' = 1) \<and>
    (\<forall>fs \<in> set (rs_threads s). \<forall>f \<in> set fs. \<exists>mem r. run_alone cls 11 f (rs_mem s) = Some (mem, r) \<and> r \<in> {Retained, RetainFailed, Released, Freed})"
proof (intro conjI ballI)
  have inv: "rc_inv s" using rc_inv_reachable [OF _ assms(5)] assms(1-4) unfolding new_object_def by blast
  obtain s1 where s1: "(rc_step True cls)\<^sup>*\<^sup>* s s1" "\<forall>fs \<in> set (rs_threads s1). fs = []" "length (rs_threads s1) = n"
    using drain_calls [OF inv] rc_reachable_length [OF assms(5)] by metis
  then show "\<exists>s'. (rc_step True cls)\<^sup>*\<^sup>* s s' \<and> (\<forall>fs \<in> set (rs_threads s'). fs = []) \<and> rs_owned s' = 0 \<and> rs_freed s' = 1"
    using release_all [OF rc_inv_steps [OF s1(1) inv] s1(2)] assms(6) by (metis rtranclp_trans)
  fix fs f assume "fs \<in> set (rs_threads s)" "f \<in> set fs"
  then have "frame_ok f" using rc_invD(11) [OF inv] unfolding stack_ok_def by blast
  then show "\<exists>mem r. run_alone cls 11 f (rs_mem s) = Some (mem, r) \<and> r \<in> {Retained, RetainFailed, Released, Freed}"
    using run_alone_returns rc_invD(1,2) [OF inv] rank_bound by blast
qed

text \<open>A state in the middle of a release and a retain.\<close>

lemma half_way_run:
  "run_schedule True plain_class [ActRetain 0, ActRun 0, ActRun 0, ActRun 0, ActTryRetain 1, ActRun 1, ActRun 1, ActRun 1, ActRun 1]
     (rc_init plain_header 2) = Some \<lparr> rs_mem = 0x200000380, rs_threads = [[RetainCAS False True 0x100000380], []], rs_owned = 1, rs_freed = 0 \<rparr>"
  by (simp add: schedule_simps)

theorem refcount_live_witness:
  "\<exists>s s'. rc_reachable True plain_class plain_header 2 s \<and> rs_owned s = 1 \<and> rs_threads s = [[RetainCAS False True 0x100000380], []] \<and>
    (rc_step True plain_class)\<^sup>*\<^sup>* s s' \<and> rs_freed s' = 1"
proof -
  let ?s = "\<lparr> rs_mem = 0x200000380, rs_threads = [[RetainCAS False True 0x100000380], []], rs_owned = 1, rs_freed = 0 \<rparr>"
  have r: "rc_reachable True plain_class plain_header 2 ?s" unfolding rc_reachable_def by (rule run_schedule_sound [OF half_way_run])
  obtain s' where s': "(rc_step True plain_class)\<^sup>*\<^sup>* ?s s'" "rs_freed s' = 1" using refcount_live [OF plain_object r] by auto
  show ?thesis by (rule exI [of _ ?s], rule exI [of _ s']) (use r s' in simp)
qed

text \<open>
  C39.  Without the lock of the weak reference machinery, \<open>_CFTryRetain\<close> can return a reference to an
  object that is being freed: when the last release takes place between its check of the flags and
  its check for constant objects, it takes the count of zero for that of a constant object.  In the
  state reached by two threads the memory has been freed, and a client owns a reference to it.
\<close>

theorem try_retain_race:
  "\<exists>s. rc_reachable False plain_class plain_header 2 s \<and> rs_freed s = 1 \<and> rs_owned s = 1 \<and> rs_threads s = [[], []]"
proof -
  have "run_schedule False plain_class [ActRelease 0, ActTryRetain 1, ActRun 1, ActRun 0, ActRun 0, ActRun 0, ActRun 0, ActRun 0, ActRun 0, ActRun 0, ActRun 1, ActRun 0]
     (rc_init plain_header 2) = Some \<lparr> rs_mem = 0x600380, rs_threads = [[], []], rs_owned = 1, rs_freed = 1 \<rparr>"
    by (simp add: schedule_simps)
  from run_schedule_sound [OF this] show ?thesis unfolding rc_reachable_def by (intro exI) auto
qed

end
