(* ===== verification/CF_RetainCount.thy ===== *)
theory CF_RetainCount
  imports CF_RefCount
begin

unbundle bit_operations_syntax

text \<open>
  Reference counting without other threads: the functions of \<open>CFRuntime.c\<close> on 64-bit machines, where
  the count is the upper half of the header, and on 32-bit machines, where it is spread over one byte
  of the header and a table outside the object.

  Both implement the same counter, stated as a locale.  On 32-bit machines \<open>client\<close> is an argument:
  what the function at an address, a finalizer or \<open>reclaim\<close>, does to the header and the table.
\<close>

section \<open>64-bit machines\<close>

definition CFRetain64 :: "CFRuntimeClass \<Rightarrow> header \<Rightarrow> header option" where
  "CFRetain64 cls h = (case run_alone cls 11 (RetainStart False True) h of Some (h, Retained) \<Rightarrow> Some h | _ \<Rightarrow> None)"

text \<open>A release also says whether the memory has been freed.\<close>

definition CFRelease64 :: "CFRuntimeClass \<Rightarrow> header \<Rightarrow> (header \<times> bool) option" where
  "CFRelease64 cls h =
     (case run_alone cls 11 ReleaseStart h of Some (h, Released) \<Rightarrow> Some (h, False) | Some (h, Freed) \<Rightarrow> Some (h, True) | _ \<Rightarrow> None)"

definition CFGetFullRetainCount64 :: "header \<Rightarrow> nat" where
  "CFGetFullRetainCount64 h = (if header_rc h = 0 then 0x0fffffffffffffff else unat (header_rc h))"

definition LONG_MAX :: nat where
  "LONG_MAX = 2 ^ 63 - 1"

definition CFGetRetainCount64 :: "(fnptr \<Rightarrow> nat) \<Rightarrow> CFRuntimeClass \<Rightarrow> header \<Rightarrow> nat option" where
  "CFGetRetainCount64 refcount cls h =
     (if header_info h AND 0x800000 \<noteq> 0 then
        (if bogus_custom cls h then None else Some (refcount (cls_refcount cls)))
      else let rc = CFGetFullRetainCount64 h in Some (if rc < LONG_MAX then rc else LONG_MAX))"

definition CFIsDeallocating :: "header \<Rightarrow> bool" where
  "CFIsDeallocating h = (if header_info h AND 0x800000 \<noteq> 0 then True else header_info h AND 0x400000 \<noteq> 0)"

section \<open>32-bit machines\<close>

text \<open>
  The table of external counts: how often it holds an object.  The code spreads the objects over several
  \<open>CFBasicHash\<close> tables by their addresses, each under a lock of its own; an object is always in the same
  one, so that together they are one function.  What the hash tables do with buckets is not modelled: adding,
  removing and counting a value are taken to do this to its count.
\<close>

type_synonym extern_table = "ptr \<Rightarrow> nat"

definition CFDoExternRefOperation :: "extern_table \<Rightarrow> nat \<Rightarrow> ptr \<Rightarrow> (extern_table \<times> nat) option" where
  "CFDoExternRefOperation tbl op obj =
     (if obj = NULL then None
      else if op = 300 \<or> op = 350 then Some (tbl(obj := tbl obj + 1), obj)
      else if op = 400 \<or> op = 450 then Some (tbl(obj := tbl obj - 1), of_bool (tbl obj = 0))
      else if op = 500 then Some (tbl, tbl obj)
      else Some (tbl, 0))"

definition RC_START :: nat where
  "RC_START = 24"

definition RC_END :: nat where
  "RC_END = 31"

definition bogus_custom32 :: "CFRuntimeClass \<Rightarrow> 32 word \<Rightarrow> bool" where
  "bogus_custom32 cls info \<longleftrightarrow> cls_refcount cls = NULL \<or> \<not> has_custom_rc cls \<or> drop_bit 24 info \<noteq> 0xFF"

text \<open>The body of the loop of \<open>_CFRetain\<close>, whose compare-and-swap succeeds when no other thread interferes.\<close>

definition retain32_bump :: "ptr \<Rightarrow> 32 word \<Rightarrow> extern_table \<Rightarrow> (32 word \<times> extern_table) option" where
  "retain32_bump cf info tbl =
     (let prospectiveNewInfo = info + push_bit RC_START 1;
          rcLowBits = CFBitfieldGetValue prospectiveNewInfo RC_END RC_START
      in if rcLowBits AND 0x7f = 0
         then do {
           (tbl, _) \<leftarrow> CFDoExternRefOperation tbl 350 cf;
           Some (CFBitfieldSetValue info RC_END RC_START (push_bit 7 1 OR push_bit 6 1), tbl)
         }
         else Some (prospectiveNewInfo, tbl))"

definition CFRetain32 :: "CFRuntimeClass \<Rightarrow> bool \<Rightarrow> ptr \<Rightarrow> 32 word \<times> extern_table \<Rightarrow> ((32 word \<times> extern_table) \<times> rc_outcome) option" where
  "CFRetain32 cls tr cf = (\<lambda>(cfinfo, tbl).
     if cfinfo AND 0x800000 \<noteq> 0 then
       (if tr then Some ((cfinfo, tbl), RetainFailed)
        else if bogus_custom32 cls cfinfo then Some ((cfinfo, tbl), Halt) else Some ((cfinfo, tbl), CustomCount 1))
     else if tr \<and> cfinfo AND (0x400000 OR 0x200000) \<noteq> 0 then Some ((cfinfo, tbl), RetainFailed)
     else if CFBitfieldGetValue cfinfo RC_END RC_START = 0 then Some ((cfinfo, tbl), Retained)
     else if tr \<and> cfinfo AND 0x400000 \<noteq> 0 then Some ((cfinfo, tbl), RetainFailed)
     else map_option (\<lambda>s. (s, Retained)) (retain32_bump cf cfinfo tbl))"

text \<open>Taking one off a count that is not one.\<close>

definition release32_drop :: "ptr \<Rightarrow> 32 word \<Rightarrow> extern_table \<Rightarrow> (32 word \<times> extern_table) option" where
  "release32_drop cf info tbl =
     (let rcLowBits = CFBitfieldGetValue info RC_END RC_START
      in if push_bit 7 1 = rcLowBits
         then do {
           (tbl, rcHighBitsCnt) \<leftarrow> CFDoExternRefOperation tbl 500 cf;
           let info = (if rcHighBitsCnt = 1 then CFBitfieldSetValue info RC_END RC_START (push_bit 6 1 - 1)
                       else CFBitfieldSetValue info RC_END RC_START ((push_bit 6 1 OR push_bit 7 1) - 1));
           (tbl, _) \<leftarrow> CFDoExternRefOperation tbl 450 cf;
           Some (info, tbl)
         }
         else Some (info - push_bit RC_START 1, tbl))"

text \<open>
  The last release: the object is marked and finalized.  If the finalizer has retained it, the mark is
  taken away and the release done again, on a count that is not one any more.
\<close>

definition release32_last ::
    "CFRuntimeClass \<Rightarrow> bool \<Rightarrow> (fnptr \<Rightarrow> 32 word \<times> extern_table \<Rightarrow> 32 word \<times> extern_table) \<Rightarrow> ptr \<Rightarrow> 32 word \<Rightarrow> extern_table \<Rightarrow>
     ((32 word \<times> extern_table) \<times> rc_outcome) option" where
  "release32_last cls isAllocator client cf cfinfo tbl =
     (let (cfinfo, tbl) =
        (if cls_version cls AND kCFRuntimeResourcefulObject \<noteq> 0 \<and> cls_reclaim cls \<noteq> NULL then client (cls_reclaim cls) (cfinfo OR 0x400000, tbl)
         else (cfinfo OR 0x400000, tbl))
      in if isAllocator then Some ((cfinfo, tbl), Freed)
         else let (cfinfo, tbl) = (if cls_finalize cls \<noteq> NULL then client (cls_finalize cls) (cfinfo, tbl) else (cfinfo, tbl))
              in if CFBitfieldGetValue cfinfo RC_END RC_START = 1 then Some ((cfinfo OR 0x200000, tbl), Freed)
                 else let dropped = cfinfo AND NOT 0x400000
                      in if CFBitfieldGetValue cfinfo RC_END RC_START = 0 then Some ((dropped, tbl), Released)
                         else map_option (\<lambda>s. (s, Released)) (release32_drop cf dropped tbl))"

definition CFRelease32 ::
    "CFRuntimeClass \<Rightarrow> (fnptr \<Rightarrow> 32 word \<times> extern_table \<Rightarrow> 32 word \<times> extern_table) \<Rightarrow> ptr \<Rightarrow> 32 word \<times> extern_table \<Rightarrow>
     ((32 word \<times> extern_table) \<times> rc_outcome) option" where
  "CFRelease32 cls client cf = (\<lambda>(cfinfo, tbl).
     if cfinfo AND 0x200000 \<noteq> 0 then Some ((cfinfo, tbl), Released)
     else let typeID = unat (drop_bit 8 cfinfo AND 0x03FF)
     in if cfinfo AND 0x800000 \<noteq> 0 then
          (if bogus_custom32 cls cfinfo then Some ((cfinfo, tbl), Halt) else Some ((cfinfo, tbl), CustomCount (- 1)))
        else if CFBitfieldGetValue cfinfo RC_END RC_START = 0 then Some ((cfinfo, tbl), Released)
        else if CFBitfieldGetValue cfinfo RC_END RC_START = 1
          then release32_last cls (typeID = kCFAllocatorTypeID_CONST) client cf cfinfo tbl
        else map_option (\<lambda>s. (s, Released)) (release32_drop cf cfinfo tbl))"

definition CFGetFullRetainCount32 :: "ptr \<Rightarrow> 32 word \<times> extern_table \<Rightarrow> nat" where
  "CFGetFullRetainCount32 cf = (\<lambda>(cfinfo, tbl).
     let lowBits = drop_bit 24 cfinfo
     in if lowBits = 0 then 0x0fffffffffffffff
        else let highBits = (if lowBits AND 0x80 \<noteq> 0 then tbl cf else 0)
             in unat (lowBits AND 0x7f) + push_bit 6 highBits)"

section \<open>The counter\<close>

text \<open>
  What reference counting promises: a count that retains and releases change by one, up to a limit,
  and memory that is freed by the release of the last reference.  A release gives the new state and
  whether the memory has been freed.
\<close>

locale reference_counter =
  fixes limit :: nat and ok :: "'s \<Rightarrow> bool" and refcount :: "'s \<Rightarrow> nat"
    and retain :: "'s \<Rightarrow> 's option" and release :: "'s \<Rightarrow> ('s \<times> bool) option"
  assumes retain_counts: "ok s \<Longrightarrow> refcount s + 1 < limit \<Longrightarrow> \<exists>s'. retain s = Some s' \<and> ok s' \<and> refcount s' = refcount s + 1"
    and release_counts: "ok s \<Longrightarrow> 2 \<le> refcount s \<Longrightarrow> \<exists>s'. release s = Some (s', False) \<and> ok s' \<and> refcount s' + 1 = refcount s"
    and release_frees: "ok s \<Longrightarrow> refcount s = 1 \<Longrightarrow> \<exists>s'. release s = Some (s', True)"

text \<open>Sequences of retains (\<open>True\<close>) and releases (\<open>False\<close>), on states and on the number of references.\<close>

fun run_counts :: "('s \<Rightarrow> 's option) \<Rightarrow> ('s \<Rightarrow> ('s \<times> bool) option) \<Rightarrow> bool list \<Rightarrow> 's \<Rightarrow> ('s \<times> bool) option" where
  "run_counts retain release [] s = Some (s, False)"
| "run_counts retain release (True # ops) s = do { s \<leftarrow> retain s; run_counts retain release ops s }"
| "run_counts retain release (False # ops) s = do {
     (s, freed) \<leftarrow> release s;
     if freed then (if ops = [] then Some (s, True) else None) else run_counts retain release ops s
   }"

fun run_references :: "nat \<Rightarrow> bool list \<Rightarrow> nat \<Rightarrow> nat option" where
  "run_references limit [] n = Some n"
| "run_references limit (True # ops) n = (if n + 1 < limit then run_references limit ops (n + 1) else None)"
| "run_references limit (False # ops) n =
     (if 2 \<le> n then run_references limit ops (n - 1) else if n = 1 \<and> ops = [] then Some 0 else None)"

context reference_counter
begin

lemma counts_references:
  "ok s \<Longrightarrow> 1 \<le> refcount s \<Longrightarrow> run_references limit ops (refcount s) = Some m \<Longrightarrow>
   \<exists>s'. run_counts retain release ops s = Some (s', m = 0) \<and> (0 < m \<longrightarrow> ok s' \<and> refcount s' = m)"
proof (induction ops arbitrary: s)
  case Nil
  then show ?case by auto
next
  case (Cons op ops)
  show ?case
  proof (cases op)
    case True
    then have "refcount s + 1 < limit" "run_references limit ops (refcount s + 1) = Some m" using Cons.prems(3) by (simp_all split: if_splits)
    then show ?thesis using retain_counts [OF Cons.prems(1)] Cons.IH True by fastforce
  next
    case False
    show ?thesis
    proof (cases "2 \<le> refcount s")
      case True
      obtain s' where s': "release s = Some (s', False)" "ok s'" "refcount s' + 1 = refcount s" using release_counts [OF Cons.prems(1) True] by blast
      have "refcount s' = refcount s - 1" "1 \<le> refcount s'" using s'(3) True by linarith+
      then show ?thesis using Cons.IH [OF s'(2)] Cons.prems(3) s'(1) True False by simp
    next
      case last: False
      then have "refcount s = 1" "ops = []" "m = 0" using Cons.prems(2,3) False by (simp_all split: if_splits)
      then show ?thesis using release_frees [OF Cons.prems(1)] False by fastforce
    qed
  qed
qed

end

section \<open>64-bit machines\<close>

definition counter64_ok :: "header \<Rightarrow> bool" where
  "counter64_ok h \<longleftrightarrow> \<not> custom_count h \<and> \<not> deallocated h \<and> CFGenericTypeID h \<noteq> kCFAllocatorTypeID_CONST \<and> header_rc h \<noteq> 0"

lemma eleven: "run_alone cls 11 = run_alone cls (Suc (Suc (Suc (Suc (Suc (Suc (Suc (Suc (Suc (Suc (Suc 0)))))))))))"
  by (simp add: numeral_eq_Suc)

lemma CFRetain64_counts: "counter64_ok h \<Longrightarrow> CFRetain64 cls h = Some (h + RC_INCREMENT)"
  by (simp add: CFRetain64_def eleven counter64_ok_def step_simps)

lemma CFRelease64_counts: "counter64_ok h \<Longrightarrow> header_rc h \<noteq> 1 \<Longrightarrow> CFRelease64 cls h = Some (h - RC_INCREMENT, False)"
  by (simp add: CFRelease64_def eleven counter64_ok_def step_simps)

lemma CFRelease64_frees: "counter64_ok h \<Longrightarrow> header_rc h = 1 \<Longrightarrow> \<exists>h'. CFRelease64 cls h = Some (h', True)"
  by (auto simp: CFRelease64_def eleven counter64_ok_def step_simps)

interpretation counter64: reference_counter "2 ^ 32" counter64_ok "\<lambda>h. unat (header_rc h)" "CFRetain64 cls" "CFRelease64 cls" for cls
proof unfold_locales
  fix h assume h: "counter64_ok h"
  show "\<exists>h'. CFRetain64 cls h = Some h' \<and> counter64_ok h' \<and> unat (header_rc h') = unat (header_rc h) + 1" if "unat (header_rc h) + 1 < 2 ^ 32"
  proof -
    have up: "unat (header_rc (h + RC_INCREMENT)) = unat (header_rc h) + 1" by (rule unat_rc_up [OF that])
    then have "header_rc (h + RC_INCREMENT) \<noteq> 0" by (metis Suc_eq_plus1 nat.distinct(1) unsigned_0)
    then show ?thesis using CFRetain64_counts [OF h, of cls] up h by (simp add: counter64_ok_def)
  qed
  show "\<exists>h'. CFRelease64 cls h = Some (h', False) \<and> counter64_ok h' \<and> unat (header_rc h') + 1 = unat (header_rc h)" if "2 \<le> unat (header_rc h)"
  proof -
    have n: "header_rc h \<noteq> 0" "header_rc h \<noteq> 1" using that by auto
    have "unat (header_rc (h - RC_INCREMENT)) = unat (header_rc h) - 1" by (rule unat_rc_down [OF n(1)])
    moreover have "header_rc (h - RC_INCREMENT) \<noteq> 0" using n(2) by (simp add: header_rc_arith)
    ultimately show ?thesis using CFRelease64_counts [OF h n(2), of cls] that h by (simp add: counter64_ok_def)
  qed
  show "\<exists>h'. CFRelease64 cls h = Some (h', True)" if "unat (header_rc h) = 1"
  proof -
    have "header_rc h = 1" using that by (metis unsigned_1 unsigned_word_eqI)
    then show ?thesis by (rule CFRelease64_frees [OF h])
  qed
qed

section \<open>32-bit machines\<close>

text \<open>The byte of the count and the rest of the word.\<close>

definition count_byte :: "32 word \<Rightarrow> nat" where
  "count_byte info = unat info div 2 ^ 24"

lemma count_byte_less: "count_byte info < 256"
proof -
  have "unat info < 2 ^ LENGTH(32)" by (rule unsigned_less)
  then show ?thesis by (simp add: count_byte_def less_mult_imp_div_less)
qed

lemma bits_above: "bit V (24 + n) \<Longrightarrow> n < 8" for V :: "32 word"
  using bit_imp_le_length [of V "24 + n"] by simp

lemma field_value: "CFBitfieldGetValue V RC_END RC_START = drop_bit 24 V"
  by (rule bit_word_eqI) (auto simp: CFBitfieldGetValue_def CFBitfieldMask_def RC_END_def RC_START_def bit_simps dest: bits_above)

lemma unat_field: "unat (drop_bit 24 info) = count_byte info" for info :: "32 word"
  unfolding count_byte_def by (subst unat_drop_bit_eq) (rule drop_bit_eq_div)

lemma field_eq: "drop_bit 24 info = (w :: 32 word) \<longleftrightarrow> count_byte info = unat w"
  by (metis unat_field unsigned_word_eqI)

lemma info_bump:
  "count_byte (info + push_bit RC_START 1) = (count_byte info + 1) mod 256" "unat (info + push_bit RC_START 1) mod 2 ^ 24 = unat info mod 2 ^ 24"
proof -
  have "unat (info + push_bit RC_START 1) = (unat info + 2 ^ 24) mod 2 ^ 32" by (simp add: RC_START_def unat_word_ariths)
  then have u: "unat (info + push_bit RC_START 1) = (unat info + 2 ^ 24) mod (2 ^ 24 * 2 ^ 8)" by simp
  have d: "(unat info + 2 ^ 24) div 2 ^ 24 = unat info div 2 ^ 24 + 1" by (rule div_add_self2) simp
  have m: "(unat info + 2 ^ 24) mod 2 ^ 24 = unat info mod 2 ^ 24" by (rule mod_add_self2)
  show "count_byte (info + push_bit RC_START 1) = (count_byte info + 1) mod 256"
    unfolding count_byte_def u mod_mult2_eq by (simp add: d [simplified])
  show "unat (info + push_bit RC_START 1) mod 2 ^ 24 = unat info mod 2 ^ 24"
    unfolding u mod_mult2_eq by (simp add: m [simplified])
qed

lemma info_drop:
  assumes "count_byte info \<noteq> 0"
  shows "count_byte (info - push_bit RC_START 1) = count_byte info - 1" "unat (info - push_bit RC_START 1) mod 2 ^ 24 = unat info mod 2 ^ 24"
proof -
  let ?v = "info - push_bit RC_START 1"
  have v: "info = ?v + push_bit RC_START 1" by simp
  show "unat ?v mod 2 ^ 24 = unat info mod 2 ^ 24" using info_bump(2) [of ?v] v by simp
  have "count_byte info = (count_byte ?v + 1) mod 256" using info_bump(1) [of ?v] v by simp
  then show "count_byte ?v = count_byte info - 1" using count_byte_less [of ?v] assms by (cases "count_byte ?v = 255") simp_all
qed

lemma info_set:
  assumes "unat x < 256"
  shows "count_byte (CFBitfieldSetValue info RC_END RC_START x) = unat x"
    "unat (CFBitfieldSetValue info RC_END RC_START x) mod 2 ^ 24 = unat info mod 2 ^ 24"
proof -
  have "unat (take_bit 8 x) = unat x" using assms by (simp add: unsigned_take_bit_eq take_bit_nat_eq_self)
  then have "take_bit 8 x = x" by (rule unsigned_word_eqI)
  then have high: "bit x n \<Longrightarrow> n < 8" for n by (metis bit_take_bit_iff)
  let ?v = "CFBitfieldSetValue info RC_END RC_START x"
  have "bit info n \<Longrightarrow> n < 32" for n using bit_imp_le_length [of info n] by simp
  then have b: "bit ?v n \<longleftrightarrow> (if n < 24 then bit info n else n < 32 \<and> bit x (n - 24))" for n
    by (auto simp: CFBitfieldSetValue_def CFBitfieldMask_def RC_END_def RC_START_def bit_simps)
  have "drop_bit 24 ?v = x" by (rule bit_word_eqI) (auto simp: bit_drop_bit_eq b dest: high)
  then show "count_byte ?v = unat x" using unat_field [of ?v] by simp
  have "take_bit 24 ?v = take_bit 24 info" by (rule bit_word_eqI) (auto simp: bit_take_bit_iff b)
  then have "take_bit 24 (unat ?v) = take_bit 24 (unat info)" by (metis unsigned_take_bit_eq)
  then show "unat ?v mod 2 ^ 24 = unat info mod 2 ^ 24" by (simp only: take_bit_eq_mod)
qed

text \<open>What the functions read from the rest of the word.\<close>

lemma info_rest:
  fixes v w :: "32 word"
  assumes "unat v mod 2 ^ 24 = unat w mod 2 ^ 24"
  shows "v AND 0x800000 = w AND 0x800000" "v AND 0x200000 = w AND 0x200000" "drop_bit 8 v AND 0x03FF = drop_bit 8 w AND 0x03FF"
proof -
  have "take_bit 24 (unat v) = take_bit 24 (unat w)" by (simp only: take_bit_eq_mod assms)
  then have "unat (take_bit 24 v) = unat (take_bit 24 w)" by (simp only: unsigned_take_bit_eq)
  then have "take_bit 24 v = take_bit 24 w" by (rule unsigned_word_eqI)
  then have b: "n < 24 \<Longrightarrow> bit v n = bit w n" for n by (metis bit_take_bit_iff)
  have p: "(0x800000 :: 32 word) = push_bit 23 1" "(0x200000 :: 32 word) = push_bit 21 1" "(0x03FF :: 32 word) = Bit_Operations.mask 10"
    by (simp_all add: mask_eq_exp_minus_1)
  have *: "bit (x AND push_bit k 1) n \<longleftrightarrow> n = k \<and> bit x k" if "k < 24" for x :: "32 word" and k n
    using that by (auto simp only: bit_and_iff bit_push_bit_iff bit_1_iff possible_bit_def) simp_all
  have k: "(23 :: nat) < 24" "(21 :: nat) < 24" by simp_all
  show "v AND 0x800000 = w AND 0x800000" unfolding p by (rule bit_word_eqI) (simp only: * [OF k(1)] b [OF k(1)])
  show "v AND 0x200000 = w AND 0x200000" unfolding p by (rule bit_word_eqI) (simp only: * [OF k(2)] b [OF k(2)])
  show "drop_bit 8 v AND 0x03FF = drop_bit 8 w AND 0x03FF" unfolding p by (rule bit_word_eqI) (auto simp: bit_simps b)
qed

text \<open>The functions on a state that is the information word and the table, with client functions that leave both alone.\<close>

definition retain32_alone :: "CFRuntimeClass \<Rightarrow> ptr \<Rightarrow> 32 word \<times> extern_table \<Rightarrow> (32 word \<times> extern_table) option" where
  "retain32_alone cls cf s = (case CFRetain32 cls False cf s of Some (s, Retained) \<Rightarrow> Some s | _ \<Rightarrow> None)"

definition release32_alone :: "CFRuntimeClass \<Rightarrow> ptr \<Rightarrow> 32 word \<times> extern_table \<Rightarrow> ((32 word \<times> extern_table) \<times> bool) option" where
  "release32_alone cls cf s =
     (case CFRelease32 cls (\<lambda>_ s. s) cf s of Some (s, Released) \<Rightarrow> Some (s, False) | Some (s, Freed) \<Rightarrow> Some (s, True) | _ \<Rightarrow> None)"

definition counter32_ok :: "ptr \<Rightarrow> 32 word \<times> extern_table \<Rightarrow> bool" where
  "counter32_ok cf = (\<lambda>(info, tbl). cf \<noteq> NULL \<and> info AND 0x800000 = 0 \<and> info AND 0x200000 = 0 \<and>
     unat (drop_bit 8 info AND 0x03FF) \<noteq> kCFAllocatorTypeID_CONST \<and> count_byte info \<noteq> 0 \<and> (128 \<le> count_byte info \<longleftrightarrow> 0 < tbl cf))"

lemma counter32_ok_change:
  assumes "counter32_ok cf (info, tbl)" "unat info' mod 2 ^ 24 = unat info mod 2 ^ 24" "count_byte info' \<noteq> 0" "128 \<le> count_byte info' \<longleftrightarrow> 0 < tbl' cf"
  shows "counter32_ok cf (info', tbl')"
  using assms(1,3,4) info_rest [OF assms(2)] by (simp add: counter32_ok_def)

lemma unat_and_7f: "unat (w AND 0x7f) = unat w mod 128" for w :: "32 word"
proof -
  have m: "(0x7f :: 32 word) = Bit_Operations.mask 7" by (simp add: mask_eq_exp_minus_1)
  have "unat (take_bit 7 w) = take_bit 7 (unat w)" by (rule unsigned_take_bit_eq)
  then show ?thesis unfolding m take_bit_eq_mask [symmetric] by (simp add: take_bit_eq_mod [of 7 "unat w"])
qed

lemma byte_bit_7: "unat w < 256 \<Longrightarrow> w AND 0x80 \<noteq> 0 \<longleftrightarrow> 128 \<le> unat w" for w :: "32 word"
proof -
  assume w: "unat w < 256"
  have p: "(0x80 :: 32 word) = push_bit 7 1" by simp
  have "w AND 0x80 \<noteq> 0 \<longleftrightarrow> bit w 7" unfolding p by (rule and_single_bit)
  also have "\<dots> \<longleftrightarrow> bit (unat w) 7" by (simp add: bit_unsigned_iff)
  also have "\<dots> \<longleftrightarrow> odd (unat w div 128)" by (simp add: bit_iff_odd)
  also have "\<dots> \<longleftrightarrow> 128 \<le> unat w"
  proof (cases "128 \<le> unat w")
    case True
    then have "unat w div 128 = 1" using w by (intro div_nat_eqI) simp_all
    then show ?thesis using True by simp
  qed simp
  finally show ?thesis .
qed

lemma count32:
  assumes "count_byte info \<noteq> 0"
  shows "CFGetFullRetainCount32 cf (info, tbl) = count_byte info mod 128 + (if 128 \<le> count_byte info then 64 * tbl cf else 0)"
  using assms count_byte_less [of info]
  by (simp add: CFGetFullRetainCount32_def Let_def field_eq unat_and_7f unat_field byte_bit_7 push_bit_eq_mult)

lemma retain32_bump_eq:
  assumes "cf \<noteq> NULL"
  shows "retain32_bump cf info tbl =
    Some (if (count_byte info + 1) mod 128 = 0 then (CFBitfieldSetValue info RC_END RC_START 192, tbl(cf := tbl cf + 1)) else (info + push_bit RC_START 1, tbl))"
proof -
  let ?v = "info + push_bit RC_START 1"
  have "CFBitfieldGetValue ?v RC_END RC_START AND 0x7f = 0 \<longleftrightarrow> unat (drop_bit 24 ?v AND 0x7f) = 0" unfolding field_value by (rule unat_eq_zero [symmetric])
  also have "\<dots> \<longleftrightarrow> (count_byte info + 1) mod 256 mod 128 = 0" unfolding unat_and_7f unat_field info_bump ..
  also have "\<dots> \<longleftrightarrow> (count_byte info + 1) mod 128 = 0" by (subst mod_mod_cancel) simp_all
  finally have c: "CFBitfieldGetValue ?v RC_END RC_START AND 0x7f = 0 \<longleftrightarrow> (count_byte info + 1) mod 128 = 0" .
  have x: "push_bit 7 1 OR push_bit 6 1 = (192 :: 32 word)" by simp
  show ?thesis unfolding retain32_bump_def Let_def c x using assms by (simp add: CFDoExternRefOperation_def)
qed

lemma retain32_counts:
  assumes ok: "counter32_ok cf (info, tbl)"
  shows "\<exists>s. retain32_alone cls cf (info, tbl) = Some s \<and> counter32_ok cf s \<and> CFGetFullRetainCount32 cf s = CFGetFullRetainCount32 cf (info, tbl) + 1"
proof -
  let ?B = "count_byte info"
  have b: "?B \<noteq> 0" "?B < 256" "128 \<le> ?B \<longleftrightarrow> 0 < tbl cf" and cf: "cf \<noteq> NULL" and flags: "info AND 0x800000 = 0" using ok count_byte_less by (simp_all add: counter32_ok_def)
  have "CFRetain32 cls False cf (info, tbl) = map_option (\<lambda>s. (s, Retained)) (retain32_bump cf info tbl)"
    using b(1) flags by (simp add: CFRetain32_def field_value field_eq)
  then have up: "retain32_alone cls cf (info, tbl) =
      Some (if (?B + 1) mod 128 = 0 then (CFBitfieldSetValue info RC_END RC_START 192, tbl(cf := tbl cf + 1)) else (info + push_bit RC_START 1, tbl))"
    by (simp only: retain32_alone_def retain32_bump_eq [OF cf] option.map option.case prod.case rc_outcome.case)
  show ?thesis
  proof (cases "(?B + 1) mod 128 = 0")
    case True
    then have B: "?B = 127 \<or> ?B = 255" using b(2) by presburger
    let ?i = "CFBitfieldSetValue info RC_END RC_START 192" and ?t = "tbl(cf := tbl cf + 1)"
    have i: "count_byte ?i = 192" "unat ?i mod 2 ^ 24 = unat info mod 2 ^ 24" using info_set [of 192 info] by simp_all
    have "counter32_ok cf (?i, ?t)" using i by (intro counter32_ok_change [OF ok]) simp_all
    moreover have "CFGetFullRetainCount32 cf (?i, ?t) = CFGetFullRetainCount32 cf (info, tbl) + 1" using B b i(1) by (auto simp: count32)
    ultimately show ?thesis using up True by simp
  next
    case False
    let ?i = "info + push_bit RC_START 1"
    have B: "?B \<noteq> 127" "?B \<noteq> 255" using False by auto
    have i: "count_byte ?i = ?B + 1" using info_bump(1) [of info] b(2) B by auto
    have o: "128 \<le> ?B + 1 \<longleftrightarrow> 128 \<le> ?B" using B by linarith
    have m: "(?B + 1) mod 128 = ?B mod 128 + 1" using False by (simp add: mod_Suc split: if_splits)
    have "count_byte ?i \<noteq> 0" "128 \<le> count_byte ?i \<longleftrightarrow> 0 < tbl cf" unfolding i using b(3) o by simp_all
    then have "counter32_ok cf (?i, tbl)" by (rule counter32_ok_change [OF ok info_bump(2)])
    moreover have "CFGetFullRetainCount32 cf (?i, tbl) = CFGetFullRetainCount32 cf (info, tbl) + 1"
      using count32 [of ?i cf tbl] count32 [OF b(1), of cf tbl] m unfolding i o by simp
    ultimately show ?thesis using up False by simp
  qed
qed

lemma release32_drop_eq:
  assumes "cf \<noteq> NULL"
  shows "release32_drop cf info tbl =
    Some (if count_byte info = 128 then (CFBitfieldSetValue info RC_END RC_START (if tbl cf = 1 then 63 else 191), tbl(cf := tbl cf - 1))
      else (info - push_bit RC_START 1, tbl))"
proof -
  have "push_bit 7 1 = CFBitfieldGetValue info RC_END RC_START \<longleftrightarrow> drop_bit 24 info = push_bit 7 1" unfolding field_value by (rule eq_commute)
  then have c: "push_bit 7 1 = CFBitfieldGetValue info RC_END RC_START \<longleftrightarrow> count_byte info = 128" by (simp add: field_eq)
  have x: "push_bit 6 1 - 1 = (63 :: 32 word)" "(push_bit 6 1 OR push_bit 7 1) - 1 = (191 :: 32 word)" by simp_all
  show ?thesis unfolding release32_drop_def Let_def c x using assms by (simp add: CFDoExternRefOperation_def)
qed

lemma release32_counts:
  assumes ok: "counter32_ok cf (info, tbl)" and n: "2 \<le> CFGetFullRetainCount32 cf (info, tbl)"
  shows "\<exists>s. release32_alone cls cf (info, tbl) = Some (s, False) \<and> counter32_ok cf s \<and> CFGetFullRetainCount32 cf s + 1 = CFGetFullRetainCount32 cf (info, tbl)"
proof -
  let ?B = "count_byte info"
  have b: "?B \<noteq> 0" "?B < 256" "128 \<le> ?B \<longleftrightarrow> 0 < tbl cf" and cf: "cf \<noteq> NULL" and flags: "info AND 0x800000 = 0" "info AND 0x200000 = 0"
    using ok count_byte_less by (simp_all add: counter32_ok_def)
  have B1: "?B \<noteq> 1" using n count32 [OF b(1), of cf tbl] by auto
  have "CFRelease32 cls (\<lambda>_ s. s) cf (info, tbl) = map_option (\<lambda>s. (s, Released)) (release32_drop cf info tbl)"
    using b(1) B1 flags by (simp add: CFRelease32_def Let_def field_value field_eq)
  then have down: "release32_alone cls cf (info, tbl) =
      Some (if ?B = 128 then (CFBitfieldSetValue info RC_END RC_START (if tbl cf = 1 then 63 else 191), tbl(cf := tbl cf - 1))
        else (info - push_bit RC_START 1, tbl), False)"
    by (simp only: release32_alone_def release32_drop_eq [OF cf] option.map option.case prod.case rc_outcome.case)
  show ?thesis
  proof (cases "?B = 128")
    case True
    define x :: "32 word" where "x = (if tbl cf = 1 then 63 else 191)"
    let ?i = "CFBitfieldSetValue info RC_END RC_START x" and ?t = "tbl(cf := tbl cf - 1)"
    have x: "unat x = (if tbl cf = 1 then 63 else 191)" by (simp add: x_def)
    have i: "count_byte ?i = unat x" "unat ?i mod 2 ^ 24 = unat info mod 2 ^ 24" using info_set [of x info] x by simp_all
    have t: "0 < tbl cf" using b(3) True by simp
    have "counter32_ok cf (?i, ?t)" using i t x by (intro counter32_ok_change [OF ok]) auto
    moreover have "CFGetFullRetainCount32 cf (?i, ?t) + 1 = CFGetFullRetainCount32 cf (info, tbl)" using True b i(1) t x by (auto simp: count32)
    ultimately show ?thesis using down True by (simp add: x_def)
  next
    case False
    let ?i = "info - push_bit RC_START 1"
    have i: "count_byte ?i = ?B - 1" by (rule info_drop(1) [OF b(1)])
    have o: "128 \<le> ?B - 1 \<longleftrightarrow> 128 \<le> ?B" "?B - 1 \<noteq> 0" using False B1 b(1) by linarith+
    have "(?B - 1) mod 128 = (if ?B < 128 then ?B - 1 else ?B - 129)" "?B mod 128 = (if ?B < 128 then ?B else ?B - 128)"
      using False b(2) by (auto simp: mod_if)
    then have m: "(?B - 1) mod 128 + 1 = ?B mod 128" using False b(1) by (cases "?B < 128") simp_all
    have "count_byte ?i \<noteq> 0" "128 \<le> count_byte ?i \<longleftrightarrow> 0 < tbl cf" unfolding i using b(3) o by simp_all
    then have "counter32_ok cf (?i, tbl)" by (rule counter32_ok_change [OF ok info_drop(2) [OF b(1)]])
    moreover have "CFGetFullRetainCount32 cf (?i, tbl) + 1 = CFGetFullRetainCount32 cf (info, tbl)"
      using count32 [of ?i cf tbl] count32 [OF b(1), of cf tbl] o m unfolding i by simp
    ultimately show ?thesis using down False by simp
  qed
qed

lemma release32_frees:
  assumes ok: "counter32_ok cf (info, tbl)" and n: "CFGetFullRetainCount32 cf (info, tbl) = 1"
  shows "\<exists>s. release32_alone cls cf (info, tbl) = Some (s, True)"
proof -
  let ?B = "count_byte info"
  have b: "?B \<noteq> 0" "?B < 256" "128 \<le> ?B \<longleftrightarrow> 0 < tbl cf" and flags: "info AND 0x800000 = 0" "info AND 0x200000 = 0"
      and t: "unat (drop_bit 8 info AND 0x03FF) \<noteq> kCFAllocatorTypeID_CONST"
    using ok count_byte_less by (simp_all add: counter32_ok_def)
  have "?B = 1" using n count32 [OF b(1), of cf tbl] b(3) by (cases "128 \<le> ?B") auto
  moreover have "count_byte (info OR 0x400000) = count_byte info" unfolding unat_field [symmetric] drop_bit_or by simp
  ultimately show ?thesis using flags t
    by (simp add: release32_alone_def CFRelease32_def release32_last_def Let_def field_value field_eq)
qed

interpretation counter32: reference_counter "2 ^ 32" "counter32_ok cf" "CFGetFullRetainCount32 cf" "retain32_alone cls cf" "release32_alone cls cf" for cls cf
proof unfold_locales
  fix s :: "32 word \<times> extern_table" assume ok: "counter32_ok cf s"
  obtain info tbl where s: "s = (info, tbl)" by (cases s)
  show "\<exists>s'. retain32_alone cls cf s = Some s' \<and> counter32_ok cf s' \<and> CFGetFullRetainCount32 cf s' = CFGetFullRetainCount32 cf s + 1"
    using retain32_counts ok unfolding s by blast
  show "\<exists>s'. release32_alone cls cf s = Some (s', False) \<and> counter32_ok cf s' \<and> CFGetFullRetainCount32 cf s' + 1 = CFGetFullRetainCount32 cf s"
    if "2 \<le> CFGetFullRetainCount32 cf s" using release32_counts ok that unfolding s by blast
  show "\<exists>s'. release32_alone cls cf s = Some (s', True)" if "CFGetFullRetainCount32 cf s = 1" using release32_frees ok that unfolding s by blast
qed

section \<open>Properties\<close>

lemma counter64_new:
  assumes "CFRuntimeCreateInstance_header env rt typeID extraBytes = Some (Some h)" "CFRuntimeClassTable rt typeID = Some cls"
    "\<not> has_custom_rc cls" "typeID \<noteq> kCFAllocatorTypeID_CONST"
  shows "counter64_ok h" "unat (header_rc h) = 1"
  using CFRuntimeCreateInstance_new [OF assms(1-3)] assms(4) by (simp_all add: counter64_ok_def)

lemma counter32_new:
  assumes "CFRuntimeCreateInstance_info32 env rt typeID extraBytes = Some (Some info)" "CFRuntimeClassTable rt typeID = Some cls"
    "\<not> has_custom_rc cls" "typeID \<noteq> kCFAllocatorTypeID_CONST" "cf \<noteq> NULL" "tbl cf = 0"
  shows "counter32_ok cf (info, tbl)" "CFGetFullRetainCount32 cf (info, tbl) = 1"
proof -
  have t: "typeID < CFRuntimeClassTableSize" using assms(1) by (simp add: CFRuntimeCreateInstance_info32_def split: if_splits)
  have i: "info = runtime_info 1 False typeID True" using assms by (simp add: CFRuntimeCreateInstance_info32_def Let_def split: if_splits)
  note parts = runtime_info_parts [OF t i]
  have B: "count_byte info = 1" using parts(5) unat_field [of info] by simp
  have p: "(0x800000 :: 32 word) = push_bit 23 1" "(0x200000 :: 32 word) = push_bit 21 1" by simp_all
  have "info AND 0x800000 = 0" "info AND 0x200000 = 0" using parts(2,4) and_single_bit [of info 23] and_single_bit [of info 21] unfolding p by blast+
  then show "counter32_ok cf (info, tbl)" using B assms(4-6) parts(1) unat_typeID [OF t] by (simp add: counter32_ok_def)
  show "CFGetFullRetainCount32 cf (info, tbl) = 1" using B by (simp add: count32)
qed

lemma CFGetRetainCount64_ok: "counter64_ok h \<Longrightarrow> CFGetRetainCount64 client cls h = Some (unat (header_rc h))"
proof -
  assume h: "counter64_ok h"
  have "unat (header_rc h) < 2 ^ LENGTH(32)" by (rule unsigned_less)
  then have "unat (header_rc h) < LONG_MAX" by (simp add: LONG_MAX_def)
  then show ?thesis using h header_bits(2) [of h] by (simp add: CFGetRetainCount64_def CFGetFullRetainCount64_def counter64_ok_def Let_def)
qed

text \<open>
  C12.  On 64-bit and on 32-bit machines reference counting counts references: after any sequence of
  retains and releases of a new object that never takes more references than there are, up to
  $2^{32}$, the count is the number of references left, and the memory has been freed exactly when
  there are none.  On 32-bit machines the count is split between seven bits of the header and a table.
\<close>

theorem refcount_both_widths:
  assumes "CFRuntimeCreateInstance_header env rt typeID extraBytes = Some (Some h)" "CFRuntimeCreateInstance_info32 env rt typeID extraBytes = Some (Some info)"
    "CFRuntimeClassTable rt typeID = Some cls" "\<not> has_custom_rc cls" "typeID \<noteq> kCFAllocatorTypeID_CONST" "cf \<noteq> NULL" "tbl cf = 0"
    "run_references (2 ^ 32) ops 1 = Some m"
  shows "(\<exists>h'. run_counts (CFRetain64 cls) (CFRelease64 cls) ops h = Some (h', m = 0) \<and> (0 < m \<longrightarrow> CFGetRetainCount64 client cls h' = Some m)) \<and>
    (\<exists>s. run_counts (retain32_alone cls cf) (release32_alone cls cf) ops (info, tbl) = Some (s, m = 0) \<and> (0 < m \<longrightarrow> CFGetFullRetainCount32 cf s = m))"
proof
  note new64 = counter64_new [OF assms(1,3-5)] and new32 = counter32_new [where tbl = tbl, OF assms(2-7)]
  show "\<exists>h'. run_counts (CFRetain64 cls) (CFRelease64 cls) ops h = Some (h', m = 0) \<and> (0 < m \<longrightarrow> CFGetRetainCount64 client cls h' = Some m)"
    using counter64.counts_references [OF new64(1), of ops m cls] new64(2) assms(8) CFGetRetainCount64_ok by auto
  show "\<exists>s. run_counts (retain32_alone cls cf) (release32_alone cls cf) ops (info, tbl) = Some (s, m = 0) \<and> (0 < m \<longrightarrow> CFGetFullRetainCount32 cf s = m)"
    using counter32.counts_references [OF new32(1), of ops m cls] new32(2) assms(8) by auto
qed

theorem refcount_both_widths_witness:
  "(\<exists>h. run_counts (CFRetain64 plain_class) (CFRelease64 plain_class) [True, True, False, False, False] plain_header = Some (h, True)) \<and>
   (\<exists>s. run_counts (retain32_alone plain_class 9) (release32_alone plain_class 9) [True, True, False] (0x1000380, \<lambda>_. 0) = Some (s, False) \<and>
     CFGetFullRetainCount32 9 s = 2)"
proof -
  have i: "CFRuntimeCreateInstance_info32 plain_env plain_runtime 3 8 = Some (Some 0x1000380)"
    by (simp add: CFRuntimeCreateInstance_info32_def CFRuntimeClassTable_def CFRuntimeClassTableSize_def CFRuntimeCreateInstance_def plain_runtime_def
        plain_env_def plain_class_def has_custom_rc_def runtime_info_def Let_def)
  have "run_references (2 ^ 32) [True, True, False, False, False] 1 = Some 0" "run_references (2 ^ 32) [True, True, False] 1 = Some 2" by simp_all
  then show ?thesis
    using refcount_both_widths [OF plain_object(1) i plain_object(2-4), of 9 "\<lambda>_. 0" "[True, True, False, False, False]" 0]
      refcount_both_widths [OF plain_object(1) i plain_object(2-4), of 9 "\<lambda>_. 0" "[True, True, False]" 2]
    by auto
qed

end
