(* ===== verification/CF_Tree.thy ===== *)
theory CF_Tree
  imports CF_RetainCount CF_Sort
begin

unbundle bit_operations_syntax

text \<open>
  CFTree (\<open>CFTree.c\<close>): nodes linked by pointers.  A node points to its parent, to its first and its
  last child and to its next sibling; only the links from a parent to its children are counted
  references.

  The nodes live in a store, a finite map from addresses to nodes, so that the functions read and write
  through shared pointers as the code does.  Reference counting is that of CF_RetainCount, on the header
  of the node: releasing the last reference runs the finalizer of the class, which releases the
  children in turn.  The callbacks that are made on the context of a node are the second part of the state.
\<close>

section \<open>Nodes\<close>

record CFTreeCallBacks =
  tcb_retain :: fnptr
  tcb_release :: fnptr
  tcb_copyDescription :: fnptr

record CFTreeContext =
  tcx_version :: int
  tcx_info :: ptr
  tcx_retain :: fnptr
  tcx_release :: fnptr
  tcx_copyDescription :: fnptr

record CFTree =
  tr_base :: header
  tr_parent :: ptr
  tr_sibling :: ptr
  tr_child :: ptr
  tr_rightmostChild :: ptr
  tr_info :: ptr
  tr_callbacks :: "CFTreeCallBacks option"

record CFTrees =
  ct_nodes :: "ptr \<Rightarrow> CFTree option"
  ct_calls :: "cf_call list"

definition tree_set :: "CFTrees \<Rightarrow> ptr \<Rightarrow> (CFTree \<Rightarrow> CFTree) \<Rightarrow> CFTrees option" where
  "tree_set s p f = (case ct_nodes s p of None \<Rightarrow> None | Some nd \<Rightarrow> Some (s\<lparr>ct_nodes := (ct_nodes s)(p \<mapsto> f nd)\<rparr>))"

definition tree_call :: "CFTrees \<Rightarrow> cf_call \<Rightarrow> CFTrees" where
  "tree_call s c = s\<lparr>ct_calls := ct_calls s @ [c]\<rparr>"

text \<open>The class; \<open>__CFTreeDeallocate\<close> and the description function are addresses of which only the identity matters.\<close>

definition CFTreeClass :: CFRuntimeClass where
  "CFTreeClass = \<lparr> cls_version = push_bit 0 1, cls_finalize = 80, cls_equal = NULL, cls_hash = NULL, cls_reclaim = NULL, cls_refcount = NULL \<rparr>"

section \<open>The context\<close>

definition kCFTypeTreeCallBacks :: CFTreeCallBacks where
  "kCFTypeTreeCallBacks = \<lparr> tcb_retain = 16, tcb_release = 32, tcb_copyDescription = 48 \<rparr>"

definition kCFNullTreeCallBacks :: CFTreeCallBacks where
  "kCFNullTreeCallBacks = \<lparr> tcb_retain = NULL, tcb_release = NULL, tcb_copyDescription = NULL \<rparr>"

definition kCFTreeHasNullCallBacks :: "32 word" where
  "kCFTreeHasNullCallBacks = 0"

definition kCFTreeHasCFTypeCallBacks :: "32 word" where
  "kCFTreeHasCFTypeCallBacks = 1"

definition kCFTreeHasCustomCallBacks :: "32 word" where
  "kCFTreeHasCustomCallBacks = 3"

text \<open>The kind of callbacks is in the lowest two bits of the header.\<close>

definition CFTreeGetCallBacksType :: "CFTree \<Rightarrow> 32 word" where
  "CFTreeGetCallBacksType nd = CFBitfieldGetValue (header_info (tr_base nd)) 1 0"

definition CFTreeSetCallBacksType :: "32 word \<Rightarrow> CFTree \<Rightarrow> CFTree" where
  "CFTreeSetCallBacksType X nd =
     nd\<lparr>tr_base := make_header (CFBitfieldSetValue (header_info (tr_base nd)) 1 0 X) (header_rc (tr_base nd))\<rparr>"

definition CFTreeGetCallBacks :: "CFTree \<Rightarrow> CFTreeCallBacks option" where
  "CFTreeGetCallBacks nd =
     (if CFTreeGetCallBacksType nd = kCFTreeHasNullCallBacks then Some kCFNullTreeCallBacks
      else if CFTreeGetCallBacksType nd = kCFTreeHasCFTypeCallBacks then Some kCFTypeTreeCallBacks
      else tr_callbacks nd)"

definition CFTreeCallBacksMatchNull :: "CFTreeContext option \<Rightarrow> bool" where
  "CFTreeCallBacksMatchNull c =
     (case c of None \<Rightarrow> True | Some c \<Rightarrow> tcx_retain c = NULL \<and> tcx_release c = NULL \<and> tcx_copyDescription c = NULL)"

definition CFTreeCallBacksMatchCFType :: "CFTreeContext option \<Rightarrow> bool" where
  "CFTreeCallBacksMatchCFType c =
     (case c of None \<Rightarrow> False
      | Some c \<Rightarrow> tcx_retain c = tcb_retain kCFTypeTreeCallBacks \<and> tcx_release c = tcb_release kCFTypeTreeCallBacks \<and>
          tcx_copyDescription c = tcb_copyDescription kCFTypeTreeCallBacks)"

definition CFTreeGetContext :: "CFTrees \<Rightarrow> ptr \<Rightarrow> CFTreeContext option" where
  "CFTreeGetContext s tree = do {
     nd \<leftarrow> ct_nodes s tree;
     cb \<leftarrow> CFTreeGetCallBacks nd;
     Some \<lparr> tcx_version = 0, tcx_info = tr_info nd, tcx_retain = tcb_retain cb, tcx_release = tcb_release cb,
            tcx_copyDescription = tcb_copyDescription cb \<rparr>
   }"

text \<open>
  The new context is retained before the old one is released.  A block for the callbacks is written
  without a test that the allocator has delivered it.
\<close>

definition CFTreeSetContext :: "cf_env \<Rightarrow> CFTrees \<Rightarrow> ptr \<Rightarrow> CFTreeContext option \<Rightarrow> CFTrees option" where
  "CFTreeSetContext env s tree ctx = do {
     nd \<leftarrow> ct_nodes s tree;
     oldcb \<leftarrow> CFTreeGetCallBacks nd;
     let oldinfo = tr_info nd;
     (s, newtype) \<leftarrow>
       (if CFTreeCallBacksMatchNull ctx then Some (s, kCFTreeHasNullCallBacks)
        else if CFTreeCallBacksMatchCFType ctx then Some (s, kCFTreeHasCFTypeCallBacks)
        else if \<not> env_alloc env 24 then None
        else do {
          c \<leftarrow> ctx;
          s \<leftarrow> tree_set s tree (\<lambda>nd. nd\<lparr>tr_callbacks := Some \<lparr> tcb_retain = tcx_retain c, tcb_release = tcx_release c,
                                                                   tcb_copyDescription = tcx_copyDescription c \<rparr>\<rparr>);
          Some (s, kCFTreeHasCustomCallBacks)
        });
     s \<leftarrow> tree_set s tree (CFTreeSetCallBacksType newtype);
     nd \<leftarrow> ct_nodes s tree;
     newcb \<leftarrow> CFTreeGetCallBacks nd;
     c \<leftarrow> ctx;
     s \<leftarrow> (if tcb_retain newcb \<noteq> NULL
           then tree_set (tree_call s (Retain (tcx_info c))) tree (\<lambda>nd. nd\<lparr>tr_info := env_retain env (tcb_retain newcb) (tcx_info c)\<rparr>)
           else tree_set s tree (\<lambda>nd. nd\<lparr>tr_info := tcx_info c\<rparr>));
     Some (if tcb_release oldcb \<noteq> NULL then tree_call s (Release oldinfo) else s)
   }"

text \<open>
  Creation: \<open>new\<close> is the address at which the allocator places the object, \<open>typeID\<close> the number under
  which the class is registered.  The result \<open>NULL\<close> is that of a failed allocation.
\<close>

definition CFTreeCreate :: "cf_env \<Rightarrow> CFRuntime \<Rightarrow> nat \<Rightarrow> CFTrees \<Rightarrow> ptr \<Rightarrow> CFTreeContext option \<Rightarrow> (CFTrees \<times> ptr) option" where
  "CFTreeCreate env rt typeID s new ctx = do {
     memory \<leftarrow> CFRuntimeCreateInstance_header env rt typeID 48;
     case memory of
       None \<Rightarrow> Some (s, NULL)
     | Some h \<Rightarrow> do {
         let nd = \<lparr> tr_base = h, tr_parent = NULL, tr_sibling = NULL, tr_child = NULL, tr_rightmostChild = NULL,
                    tr_info = NULL, tr_callbacks = None \<rparr>;
         let s = s\<lparr>ct_nodes := (ct_nodes s)(new \<mapsto> CFTreeSetCallBacksType kCFTreeHasNullCallBacks nd)\<rparr>;
         s \<leftarrow> CFTreeSetContext env s new ctx;
         Some (s, new)
       }
   }"

section \<open>Reading\<close>

definition CFTreeGetParent :: "CFTrees \<Rightarrow> ptr \<Rightarrow> ptr option" where
  "CFTreeGetParent s tree = map_option tr_parent (ct_nodes s tree)"

definition CFTreeGetNextSibling :: "CFTrees \<Rightarrow> ptr \<Rightarrow> ptr option" where
  "CFTreeGetNextSibling s tree = map_option tr_sibling (ct_nodes s tree)"

definition CFTreeGetFirstChild :: "CFTrees \<Rightarrow> ptr \<Rightarrow> ptr option" where
  "CFTreeGetFirstChild s tree = map_option tr_child (ct_nodes s tree)"

text \<open>The loops along the siblings, which end if the links do.  The counter has 32 bits.\<close>

partial_function (option) tree_count_loop :: "CFTrees \<Rightarrow> ptr \<Rightarrow> nat \<Rightarrow> nat option" where
  "tree_count_loop s tree cnt =
     (if tree = NULL then Some cnt
      else if cnt = 2 ^ 31 - 1 then None
      else do { nd \<leftarrow> ct_nodes s tree; tree_count_loop s (tr_sibling nd) (cnt + 1) })"

definition CFTreeGetChildCount :: "CFTrees \<Rightarrow> ptr \<Rightarrow> nat option" where
  "CFTreeGetChildCount s tree = do { nd \<leftarrow> ct_nodes s tree; tree_count_loop s (tr_child nd) 0 }"

partial_function (option) tree_index_loop :: "CFTrees \<Rightarrow> ptr \<Rightarrow> int \<Rightarrow> ptr option" where
  "tree_index_loop s tree idx =
     (if tree = NULL then Some NULL
      else if idx = 0 then Some tree
      else if idx = - (2 ^ 63) then None
      else do { nd \<leftarrow> ct_nodes s tree; tree_index_loop s (tr_sibling nd) (idx - 1) })"

definition CFTreeGetChildAtIndex :: "CFTrees \<Rightarrow> ptr \<Rightarrow> int \<Rightarrow> ptr option" where
  "CFTreeGetChildAtIndex s tree idx = do { nd \<leftarrow> ct_nodes s tree; tree_index_loop s (tr_child nd) idx }"

partial_function (option) tree_fill_loop :: "CFTrees \<Rightarrow> ptr \<Rightarrow> ptr cells \<Rightarrow> nat \<Rightarrow> ptr cells option" where
  "tree_fill_loop s tree children i =
     (if tree = NULL then Some children
      else do {
        children \<leftarrow> st children i tree;
        nd \<leftarrow> ct_nodes s tree;
        tree_fill_loop s (tr_sibling nd) children (i + 1)
      })"

definition CFTreeGetChildren :: "CFTrees \<Rightarrow> ptr \<Rightarrow> ptr cells \<Rightarrow> ptr cells option" where
  "CFTreeGetChildren s tree children = do { nd \<leftarrow> ct_nodes s tree; tree_fill_loop s (tr_child nd) children 0 }"

text \<open>The trees an applier that leaves the links alone is called with, in order.\<close>

partial_function (option) tree_apply_loop :: "CFTrees \<Rightarrow> ptr \<Rightarrow> ptr list option" where
  "tree_apply_loop s tree =
     (if tree = NULL then Some []
      else do { nd \<leftarrow> ct_nodes s tree; visited \<leftarrow> tree_apply_loop s (tr_sibling nd); Some (tree # visited) })"

definition CFTreeApplyFunctionToChildren :: "CFTrees \<Rightarrow> ptr \<Rightarrow> ptr list option" where
  "CFTreeApplyFunctionToChildren s tree = do { nd \<leftarrow> ct_nodes s tree; tree_apply_loop s (tr_child nd) }"

partial_function (option) CFTreeFindRoot :: "CFTrees \<Rightarrow> ptr \<Rightarrow> ptr option" where
  "CFTreeFindRoot s tree = do {
     nd \<leftarrow> ct_nodes s tree;
     if tr_parent nd \<noteq> NULL then CFTreeFindRoot s (tr_parent nd) else Some tree
   }"

section \<open>Linking\<close>

text \<open>
  \<open>CFRetain\<close> of a tree.  The assertions of the debug variant of the library (\<open>CFAssert1\<close>) are not part
  of these functions; \<open>HALT\<close> is.
\<close>

definition tree_retain :: "CFTrees \<Rightarrow> ptr \<Rightarrow> CFTrees option" where
  "tree_retain s tree = do {
     nd \<leftarrow> ct_nodes s tree;
     h \<leftarrow> CFRetain64 CFTreeClass (tr_base nd);
     tree_set s tree (\<lambda>nd. nd\<lparr>tr_base := h\<rparr>)
   }"

definition CFTreePrependChild :: "CFTrees \<Rightarrow> ptr \<Rightarrow> ptr \<Rightarrow> CFTrees option" where
  "CFTreePrependChild s tree newChild = do {
     s \<leftarrow> tree_retain s newChild;
     s \<leftarrow> tree_set s newChild (\<lambda>nd. nd\<lparr>tr_parent := tree\<rparr>);
     nd \<leftarrow> ct_nodes s tree;
     s \<leftarrow> tree_set s newChild (\<lambda>nc. nc\<lparr>tr_sibling := tr_child nd\<rparr>);
     nd \<leftarrow> ct_nodes s tree;
     s \<leftarrow> (if tr_child nd = NULL then tree_set s tree (\<lambda>nd. nd\<lparr>tr_rightmostChild := newChild\<rparr>) else Some s);
     tree_set s tree (\<lambda>nd. nd\<lparr>tr_child := newChild\<rparr>)
   }"

definition CFTreeAppendChild :: "CFTrees \<Rightarrow> ptr \<Rightarrow> ptr \<Rightarrow> CFTrees option" where
  "CFTreeAppendChild s tree newChild = do {
     nc \<leftarrow> ct_nodes s newChild;
     if tr_parent nc \<noteq> NULL then None
     else do {
       s \<leftarrow> tree_retain s newChild;
       s \<leftarrow> tree_set s newChild (\<lambda>nd. nd\<lparr>tr_parent := tree\<rparr>);
       s \<leftarrow> tree_set s newChild (\<lambda>nd. nd\<lparr>tr_sibling := NULL\<rparr>);
       nd \<leftarrow> ct_nodes s tree;
       s \<leftarrow> (if tr_child nd = NULL then tree_set s tree (\<lambda>nd. nd\<lparr>tr_child := newChild\<rparr>)
             else tree_set s (tr_rightmostChild nd) (\<lambda>nd. nd\<lparr>tr_sibling := newChild\<rparr>));
       tree_set s tree (\<lambda>nd. nd\<lparr>tr_rightmostChild := newChild\<rparr>)
     }
   }"

definition CFTreeInsertSibling :: "CFTrees \<Rightarrow> ptr \<Rightarrow> ptr \<Rightarrow> CFTrees option" where
  "CFTreeInsertSibling s tree newSibling = do {
     s \<leftarrow> tree_retain s newSibling;
     nd \<leftarrow> ct_nodes s tree;
     s \<leftarrow> tree_set s newSibling (\<lambda>ns. ns\<lparr>tr_parent := tr_parent nd\<rparr>);
     nd \<leftarrow> ct_nodes s tree;
     s \<leftarrow> tree_set s newSibling (\<lambda>ns. ns\<lparr>tr_sibling := tr_sibling nd\<rparr>);
     s \<leftarrow> tree_set s tree (\<lambda>nd. nd\<lparr>tr_sibling := newSibling\<rparr>);
     nd \<leftarrow> ct_nodes s tree;
     if tr_parent nd = NULL then Some s
     else do {
       pd \<leftarrow> ct_nodes s (tr_parent nd);
       if tr_rightmostChild pd = tree then tree_set s (tr_parent nd) (\<lambda>pd. pd\<lparr>tr_rightmostChild := newSibling\<rparr>) else Some s
     }
   }"

section \<open>Unlinking and deallocation\<close>

text \<open>The search for the sibling before \<open>tree\<close>, which takes \<open>tree\<close> out of the links.\<close>

partial_function (option) tree_unlink_loop :: "CFTrees \<Rightarrow> ptr \<Rightarrow> ptr \<Rightarrow> CFTrees option" where
  "tree_unlink_loop s tree prevSibling =
     (if prevSibling = NULL then Some s
      else do {
        pv \<leftarrow> ct_nodes s prevSibling;
        if tr_sibling pv = tree
        then do {
          nd \<leftarrow> ct_nodes s tree;
          s \<leftarrow> tree_set s prevSibling (\<lambda>pv. pv\<lparr>tr_sibling := tr_sibling nd\<rparr>);
          pd \<leftarrow> ct_nodes s (tr_parent nd);
          if tr_rightmostChild pd = tree then tree_set s (tr_parent nd) (\<lambda>pd. pd\<lparr>tr_rightmostChild := prevSibling\<rparr>) else Some s
        }
        else tree_unlink_loop s tree (tr_sibling pv)
      })"

text \<open>
  Releasing a tree.  The last reference runs \<open>__CFTreeDeallocate\<close>, after which the node is gone; on OS X
  that releases the children first (\<open>mac\<close> is \<open>DEPLOYMENT_TARGET_MACOSX\<close>).  The recursion is as deep as
  the tree; the first argument bounds it.
\<close>

fun tree_release :: "nat \<Rightarrow> bool \<Rightarrow> CFTrees \<Rightarrow> ptr \<Rightarrow> CFTrees option"
  and CFTreeDeallocate :: "nat \<Rightarrow> bool \<Rightarrow> CFTrees \<Rightarrow> ptr \<Rightarrow> CFTrees option"
  and tree_release_loop :: "nat \<Rightarrow> bool \<Rightarrow> CFTrees \<Rightarrow> ptr \<Rightarrow> CFTrees option"
  and CFTreeRemoveAllChildren :: "nat \<Rightarrow> bool \<Rightarrow> CFTrees \<Rightarrow> ptr \<Rightarrow> CFTrees option" where
  "tree_release 0 mac s tree = None"
| "tree_release (Suc n) mac s tree = do {
     nd \<leftarrow> ct_nodes s tree;
     (h, freed) \<leftarrow> CFRelease64 CFTreeClass (tr_base nd);
     if freed
     then do {
       s \<leftarrow> CFTreeDeallocate n mac s tree;
       Some (s\<lparr>ct_nodes := (ct_nodes s)(tree := None)\<rparr>)
     }
     else tree_set s tree (\<lambda>nd. nd\<lparr>tr_base := h\<rparr>)
   }"
| "CFTreeDeallocate 0 mac s tree = None"
| "CFTreeDeallocate (Suc n) mac s tree = do {
     s \<leftarrow> (if mac then CFTreeRemoveAllChildren n mac s tree else Some s);
     nd \<leftarrow> ct_nodes s tree;
     cb \<leftarrow> CFTreeGetCallBacks nd;
     Some (if tcb_release cb \<noteq> NULL then tree_call s (Release (tr_info nd)) else s)
   }"
| "tree_release_loop 0 mac s nextChild = None"
| "tree_release_loop (Suc n) mac s nextChild =
     (if nextChild = NULL then Some s
      else do {
        nd \<leftarrow> ct_nodes s nextChild;
        s \<leftarrow> tree_set s nextChild (\<lambda>nd. nd\<lparr>tr_parent := NULL\<rparr>);
        s \<leftarrow> tree_set s nextChild (\<lambda>nd. nd\<lparr>tr_sibling := NULL\<rparr>);
        s \<leftarrow> tree_release n mac s nextChild;
        tree_release_loop n mac s (tr_sibling nd)
      })"
| "CFTreeRemoveAllChildren 0 mac s tree = None"
| "CFTreeRemoveAllChildren (Suc n) mac s tree = do {
     nd \<leftarrow> ct_nodes s tree;
     s \<leftarrow> tree_set s tree (\<lambda>nd. nd\<lparr>tr_child := NULL\<rparr>);
     s \<leftarrow> tree_set s tree (\<lambda>nd. nd\<lparr>tr_rightmostChild := NULL\<rparr>);
     tree_release_loop n mac s (tr_child nd)
   }"

definition CFTreeRemove :: "nat \<Rightarrow> bool \<Rightarrow> CFTrees \<Rightarrow> ptr \<Rightarrow> CFTrees option" where
  "CFTreeRemove n mac s tree = do {
     nd \<leftarrow> ct_nodes s tree;
     if tr_parent nd = NULL then Some s
     else do {
       pd \<leftarrow> ct_nodes s (tr_parent nd);
       s \<leftarrow> (if tree = tr_child pd then do {
               s \<leftarrow> tree_set s (tr_parent nd) (\<lambda>pd. pd\<lparr>tr_child := tr_sibling nd\<rparr>);
               if tr_sibling nd = NULL then tree_set s (tr_parent nd) (\<lambda>pd. pd\<lparr>tr_rightmostChild := NULL\<rparr>) else Some s
             }
             else tree_unlink_loop s tree (tr_child pd));
       s \<leftarrow> tree_set s tree (\<lambda>nd. nd\<lparr>tr_parent := NULL\<rparr>);
       s \<leftarrow> tree_set s tree (\<lambda>nd. nd\<lparr>tr_sibling := NULL\<rparr>);
       tree_release n mac s tree
     }
   }"

section \<open>Sorting\<close>

text \<open>The loop that links the sorted children: from index \<open>idx\<close> on, \<open>k\<close> of them.\<close>

fun tree_relink_loop :: "CFTrees \<Rightarrow> ptr cells \<Rightarrow> nat \<Rightarrow> nat \<Rightarrow> CFTrees option" where
  "tree_relink_loop s list idx 0 = Some s"
| "tree_relink_loop s list idx (Suc k) = do {
     a \<leftarrow> ld list (idx - 1);
     b \<leftarrow> ld list idx;
     s \<leftarrow> tree_set s a (\<lambda>nd. nd\<lparr>tr_sibling := b\<rparr>);
     tree_relink_loop s list (idx + 1) k
   }"

definition CFTreeSortChildren :: "cf_env \<Rightarrow> (ptr \<Rightarrow> ptr \<Rightarrow> int) \<Rightarrow> CFTrees \<Rightarrow> ptr \<Rightarrow> CFTrees option" where
  "CFTreeSortChildren env cmp s tree = do {
     children \<leftarrow> CFTreeGetChildCount s tree;
     if 1 < children then
       (if \<not> children < 128 \<and> \<not> env_alloc env (children * 8) then None
        else do {
          nd \<leftarrow> ct_nodes s tree;
          list \<leftarrow> tree_fill_loop s (tr_child nd) (fresh_cells (if children < 128 then 128 else children)) 0;
          list \<leftarrow> CFQSortArray cmp list children 8;
          first \<leftarrow> ld list 0;
          s \<leftarrow> tree_set s tree (\<lambda>nd. nd\<lparr>tr_child := first\<rparr>);
          s \<leftarrow> tree_relink_loop s list 1 (children - 1);
          last \<leftarrow> ld list (children - 1);
          s \<leftarrow> tree_set s last (\<lambda>nd. nd\<lparr>tr_sibling := NULL\<rparr>);
          tree_set s tree (\<lambda>nd. nd\<lparr>tr_rightmostChild := last\<rparr>)
        })
     else Some s
   }"

section \<open>Forests\<close>

text \<open>The places in a list of children: the first, the last, and the one after another; \<open>NULL\<close> if there is none.\<close>

fun head_or_null :: "ptr list \<Rightarrow> ptr" where
  "head_or_null [] = NULL"
| "head_or_null (x # xs) = x"

definition last_or_null :: "ptr list \<Rightarrow> ptr" where
  "last_or_null xs = (if xs = [] then NULL else last xs)"

fun next_of :: "ptr \<Rightarrow> ptr list \<Rightarrow> ptr" where
  "next_of x [] = NULL"
| "next_of x (y # ys) = (if x = y then head_or_null ys else next_of x ys)"

definition insert_after :: "ptr \<Rightarrow> ptr \<Rightarrow> ptr list \<Rightarrow> ptr list" where
  "insert_after x y xs = takeWhile (\<lambda>z. z \<noteq> x) xs @ x # y # tl (dropWhile (\<lambda>z. z \<noteq> x) xs)"

lemma next_of_notin [simp]: "x \<notin> set xs \<Longrightarrow> next_of x xs = NULL"
  by (induction xs) auto

lemma next_of_skip: "x \<notin> set xs \<Longrightarrow> next_of x (xs @ ys) = next_of x ys"
  by (induction xs) auto

lemma next_of_before: "distinct (xs @ x # ys) \<Longrightarrow> next_of x (xs @ x # ys) = head_or_null ys"
  by (induction xs) auto

lemma next_of_inner: "z \<noteq> last_or_null xs \<Longrightarrow> z \<in> set xs \<Longrightarrow> next_of z (xs @ ys) = next_of z (xs @ zs)"
proof (induction xs)
  case (Cons x xs)
  then show ?case by (cases xs) (auto simp: last_or_null_def)
qed simp

lemma head_or_null_append [simp]: "xs \<noteq> [] \<Longrightarrow> head_or_null (xs @ ys) = head_or_null xs"
  by (cases xs) auto

lemma last_or_null_simps [simp]:
  "last_or_null [] = NULL" "last_or_null (xs @ [x]) = x" "last_or_null [x] = x" "xs \<noteq> [] \<Longrightarrow> last_or_null (x # xs) = last_or_null xs"
  "ys \<noteq> [] \<Longrightarrow> last_or_null (xs @ ys) = last_or_null ys"
  by (auto simp: last_or_null_def)

lemma last_or_null_in: "xs \<noteq> [] \<Longrightarrow> last_or_null xs \<in> set xs"
  by (simp add: last_or_null_def)

lemma head_or_null_in: "xs \<noteq> [] \<Longrightarrow> head_or_null xs \<in> set xs"
  by (cases xs) auto

lemma head_or_null_zero: "NULL \<notin> set xs \<Longrightarrow> head_or_null xs = NULL \<longleftrightarrow> xs = []"
  by (cases xs) auto

lemma last_or_null_distinct: "distinct (xs @ x # ys) \<Longrightarrow> NULL \<notin> set (xs @ x # ys) \<Longrightarrow> last_or_null (xs @ x # ys) = x \<longleftrightarrow> ys = []"
  by (cases ys rule: rev_cases) (auto simp: last_or_null_def)

lemma insert_after_split: "x \<notin> set xs \<Longrightarrow> insert_after x y (xs @ x # ys) = xs @ x # y # ys"
  by (simp add: insert_after_def takeWhile_append dropWhile_append)

text \<open>
  What a store of trees stands for: the children \<open>K t\<close> of every tree, and the number \<open>E t\<close> of references
  to it from outside.  The links of a node are those of the lists of children, and its count is that of
  the references from outside and from its parent.
\<close>

definition tree_edges :: "(ptr \<Rightarrow> ptr list) \<Rightarrow> (ptr \<times> ptr) set" where
  "tree_edges K = {(t, c). c \<in> set (K t)}"

definition node_ok :: "(ptr \<Rightarrow> ptr list) \<Rightarrow> (ptr \<Rightarrow> nat) \<Rightarrow> ptr \<Rightarrow> CFTree \<Rightarrow> bool" where
  "node_ok K E t nd \<longleftrightarrow>
     tr_child nd = head_or_null (K t) \<and> tr_rightmostChild nd = last_or_null (K t) \<and>
     tr_sibling nd = next_of t (K (tr_parent nd)) \<and> (tr_parent nd \<noteq> NULL \<longrightarrow> t \<in> set (K (tr_parent nd))) \<and>
     counter64_ok (tr_base nd) \<and> unat (header_rc (tr_base nd)) = E t + of_bool (tr_parent nd \<noteq> NULL) \<and>
     CFTreeGetCallBacks nd \<noteq> None"

definition forest :: "CFTrees \<Rightarrow> (ptr \<Rightarrow> ptr list) \<Rightarrow> (ptr \<Rightarrow> nat) \<Rightarrow> bool" where
  "forest s K E \<longleftrightarrow>
     finite (dom (ct_nodes s)) \<and> ct_nodes s NULL = None \<and> acyclic (tree_edges K) \<and> (\<forall>t. distinct (K t)) \<and>
     (\<forall>t c. c \<in> set (K t) \<longrightarrow> t \<in> dom (ct_nodes s) \<and> (\<exists>cd. ct_nodes s c = Some cd \<and> tr_parent cd = t)) \<and>
     (\<forall>t nd. ct_nodes s t = Some nd \<longrightarrow> node_ok K E t nd)"

lemma tree_edges_iff [simp]: "(t, c) \<in> tree_edges K \<longleftrightarrow> c \<in> set (K t)"
  by (simp add: tree_edges_def)

lemma forestD:
  assumes "forest s K E"
  shows "finite (dom (ct_nodes s))" "ct_nodes s NULL = None" "acyclic (tree_edges K)" "distinct (K t)"
    "c \<in> set (K t) \<Longrightarrow> \<exists>cd. ct_nodes s c = Some cd \<and> tr_parent cd = t" "c \<in> set (K t) \<Longrightarrow> \<exists>nd. ct_nodes s t = Some nd"
    "ct_nodes s t = Some nd \<Longrightarrow> node_ok K E t nd" "K NULL = []" "NULL \<notin> set (K t)"
proof -
  show "finite (dom (ct_nodes s))" "ct_nodes s NULL = None" "acyclic (tree_edges K)" "distinct (K t)"
    "c \<in> set (K t) \<Longrightarrow> \<exists>cd. ct_nodes s c = Some cd \<and> tr_parent cd = t" "c \<in> set (K t) \<Longrightarrow> \<exists>nd. ct_nodes s t = Some nd"
    "ct_nodes s t = Some nd \<Longrightarrow> node_ok K E t nd"
    using assms unfolding forest_def by blast+
  have "\<forall>t c. c \<in> set (K t) \<longrightarrow> t \<in> dom (ct_nodes s) \<and> c \<in> dom (ct_nodes s)" "NULL \<notin> dom (ct_nodes s)"
    using assms unfolding forest_def by (blast, simp add: domIff)
  then show "K NULL = []" "NULL \<notin> set (K t)" by (metis list.set_intros(1) neq_Nil_conv, blast)
qed

lemma forest_parent:
  assumes "forest s K E" "ct_nodes s t = Some nd"
  shows "t \<in> set (K p) \<Longrightarrow> tr_parent nd = p" "tr_parent nd \<noteq> NULL \<longleftrightarrow> t \<in> set (K (tr_parent nd))"
    "t \<in> set (K p) \<Longrightarrow> p \<noteq> NULL" "t \<noteq> NULL"
proof -
  show *: "t \<in> set (K p) \<Longrightarrow> tr_parent nd = p" using forestD(5) [OF assms(1)] assms(2) by fastforce
  show "tr_parent nd \<noteq> NULL \<longleftrightarrow> t \<in> set (K (tr_parent nd))"
    using forestD(7) [OF assms] forestD(8) [OF assms(1)] by (metis empty_iff list.set(1) node_ok_def)
  show "t \<in> set (K p) \<Longrightarrow> p \<noteq> NULL" using forestD(8) [OF assms(1)] by (metis empty_iff list.set(1))
  show "t \<noteq> NULL" using forestD(2) [OF assms(1)] assms(2) by (cases "t = NULL") simp_all
qed

text \<open>Children of different trees are different, and no tree is below itself.\<close>

lemma forest_unique_parent: "forest s K E \<Longrightarrow> c \<in> set (K t) \<Longrightarrow> c \<in> set (K t') \<Longrightarrow> t = t'"
  using forestD(5) [of s K E c t] forestD(5) [of s K E c t'] by auto

lemma forest_not_self: "forest s K E \<Longrightarrow> t \<notin> set (K t)"
  using forestD(3) by (metis acyclic_def r_into_trancl' tree_edges_iff)

text \<open>
  The one lemma on changes to the links: the children of \<open>t\<close> become \<open>L\<close>, which consists of children of
  \<open>t\<close> and of trees without a parent, and the nodes have the links that go with that.
\<close>

definition relinked :: "(ptr \<Rightarrow> ptr list) \<Rightarrow> ptr \<Rightarrow> ptr list \<Rightarrow> (ptr \<Rightarrow> nat) \<Rightarrow> ptr \<Rightarrow> CFTree \<Rightarrow> CFTree \<Rightarrow> bool" where
  "relinked K t L E x nd nd' \<longleftrightarrow>
     tr_parent nd' = (if x \<in> set L then t else if x \<in> set (K t) then NULL else tr_parent nd) \<and>
     tr_sibling nd' = (if x \<in> set L then next_of x L else if x \<in> set (K t) then NULL else tr_sibling nd) \<and>
     tr_child nd' = (if x = t then head_or_null L else tr_child nd) \<and>
     tr_rightmostChild nd' = (if x = t then last_or_null L else tr_rightmostChild nd) \<and>
     counter64_ok (tr_base nd') \<and> unat (header_rc (tr_base nd')) = E x + of_bool (tr_parent nd' \<noteq> NULL) \<and>
     CFTreeGetCallBacks nd' = CFTreeGetCallBacks nd"

lemma forest_relink:
  assumes f: "forest s K E" and t: "t \<in> dom (ct_nodes s)" and L: "distinct L" "set L \<subseteq> dom (ct_nodes s)"
    and roots: "\<And>c p. c \<in> set L \<Longrightarrow> c \<in> set (K p) \<Longrightarrow> p = t" and acyc: "acyclic (tree_edges (K(t := L)))"
    and nodes: "\<And>x. case ct_nodes s x of None \<Rightarrow> ct_nodes s' x = None
                      | Some nd \<Rightarrow> \<exists>nd'. ct_nodes s' x = Some nd' \<and> relinked K t L E' x nd nd'"
  shows "forest s' (K(t := L)) E'"
proof -
  have dom: "dom (ct_nodes s') = dom (ct_nodes s)"
  proof (rule set_eqI)
    fix x show "x \<in> dom (ct_nodes s') \<longleftrightarrow> x \<in> dom (ct_nodes s)" using nodes [of x] by (cases "ct_nodes s x") auto
  qed
  have t0: "t \<noteq> NULL" using forestD(2) [OF f] t by (cases "t = NULL") auto
  have node: "\<exists>nd. ct_nodes s x = Some nd \<and> relinked K t L E' x nd nd'" if "ct_nodes s' x = Some nd'" for x nd'
    using nodes [of x] that by (auto split: option.splits)
  have child: "\<exists>cd. ct_nodes s' c = Some cd \<and> tr_parent cd = x" if c: "c \<in> set ((K(t := L)) x)" for x c
  proof (cases "x = t")
    case True
    then have "c \<in> set L" "c \<in> dom (ct_nodes s)" using c L(2) by auto
    then show ?thesis using nodes [of c] True by (auto simp: relinked_def)
  next
    case False
    then have ck: "c \<in> set (K x)" using c by simp
    obtain cd where cd: "ct_nodes s c = Some cd" "tr_parent cd = x" using forestD(5) [OF f ck] by blast
    have "c \<notin> set L" "c \<notin> set (K t)" using roots ck False forest_unique_parent [OF f ck] by blast+
    then show ?thesis using nodes [of c] cd by (auto simp: relinked_def)
  qed
  have ok: "node_ok (K(t := L)) E' x nd'" if x: "ct_nodes s' x = Some nd'" for x nd'
  proof -
    obtain nd where nd: "ct_nodes s x = Some nd" "relinked K t L E' x nd nd'" using node [OF x] by blast
    have o: "node_ok K E x nd" by (rule forestD(7) [OF f nd(1)])
    have other: "tr_parent nd \<noteq> t" if "x \<notin> set (K t)" using that o t0 by (auto simp: node_ok_def)
    have k0: "K NULL = []" by (rule forestD(8) [OF f])
    show ?thesis using nd(2) o other t0 k0 by (auto simp: node_ok_def relinked_def)
  qed
  have inner: "x \<in> dom (ct_nodes s')" if "c \<in> set ((K(t := L)) x)" for x c
    using that forestD(6) [OF f, of c x] dom t by (auto split: if_splits)
  have "finite (dom (ct_nodes s'))" "ct_nodes s' NULL = None" using forestD(1,2) [OF f] dom by (simp, metis domIff)
  moreover have "\<forall>x. distinct ((K(t := L)) x)" using L(1) forestD(4) [OF f] by simp
  ultimately show ?thesis unfolding forest_def using acyc child ok inner by blast
qed

text \<open>Adding a child that is not above \<open>t\<close> keeps the links free of cycles, and so does leaving children out.\<close>

lemma acyclic_fewer: "acyclic (tree_edges K) \<Longrightarrow> set L \<subseteq> set (K t) \<Longrightarrow> acyclic (tree_edges (K(t := L)))"
  by (erule acyclic_subset) (auto simp: tree_edges_def split: if_splits)

lemma acyclic_more:
  assumes "acyclic (tree_edges K)" "(c, t) \<notin> (tree_edges K)\<^sup>*" "set L \<subseteq> insert c (set (K t))"
  shows "acyclic (tree_edges (K(t := L)))"
proof -
  have "acyclic (insert (t, c) (tree_edges K))" using assms(1,2) by (simp add: acyclic_insert)
  then show ?thesis by (rule acyclic_subset) (use assms(3) in \<open>auto simp: tree_edges_def split: if_splits\<close>)
qed

section \<open>Reading\<close>

text \<open>The loops along the siblings see the rest of the list of children.\<close>

lemma tree_set_Some [simp]: "ct_nodes s p = Some nd \<Longrightarrow> tree_set s p f = Some (s\<lparr>ct_nodes := (ct_nodes s)(p \<mapsto> f nd)\<rparr>)"
  by (simp add: tree_set_def)

lemma forest_step:
  assumes f: "forest s K E" and k: "K t = xs @ c # cs"
  shows "\<exists>cd. ct_nodes s c = Some cd \<and> tr_sibling cd = head_or_null cs" "c \<noteq> NULL"
proof -
  have c: "c \<in> set (K t)" using k by simp
  obtain cd where cd: "ct_nodes s c = Some cd" "tr_parent cd = t" using forestD(5) [OF f c] by blast
  have "tr_sibling cd = next_of c (K t)" using forestD(7) [OF f cd(1)] cd(2) by (simp add: node_ok_def)
  then show "\<exists>cd. ct_nodes s c = Some cd \<and> tr_sibling cd = head_or_null cs"
    using cd(1) forestD(4) [OF f, of t] k next_of_before by auto
  show "c \<noteq> NULL" using forestD(9) [OF f, of t] c by (cases "c = NULL") simp_all
qed

lemma tree_count_loop_forest:
  "forest s K E \<Longrightarrow> K t = xs @ cs \<Longrightarrow> n + length cs < 2 ^ 31 \<Longrightarrow> tree_count_loop s (head_or_null cs) n = Some (n + length cs)"
proof (induction cs arbitrary: xs n)
  case Nil
  then show ?case by (simp add: tree_count_loop.simps)
next
  case (Cons c cs)
  obtain cd where "ct_nodes s c = Some cd" "tr_sibling cd = head_or_null cs" using forest_step(1) [OF Cons.prems(1,2)] by blast
  then show ?case using Cons.IH [of "xs @ [c]" "n + 1"] Cons.prems forest_step(2) [OF Cons.prems(1,2)]
    by (subst tree_count_loop.simps) simp
qed

lemma tree_index_loop_forest:
  "forest s K E \<Longrightarrow> K t = xs @ cs \<Longrightarrow> 0 \<le> i \<or> - (2 ^ 63) + int (length cs) \<le> i \<Longrightarrow>
   tree_index_loop s (head_or_null cs) i = Some (if 0 \<le> i \<and> nat i < length cs then cs ! nat i else NULL)"
proof (induction cs arbitrary: xs i)
  case Nil
  then show ?case by (simp add: tree_index_loop.simps)
next
  case (Cons c cs)
  obtain cd where cd: "ct_nodes s c = Some cd" "tr_sibling cd = head_or_null cs" using forest_step(1) [OF Cons.prems(1,2)] by blast
  show ?case
  proof (cases "i = 0")
    case True
    then show ?thesis using forest_step(2) [OF Cons.prems(1,2)] by (subst tree_index_loop.simps) simp
  next
    case False
    have "0 \<le> i - 1 \<and> nat (i - 1) < length cs \<longleftrightarrow> 0 \<le> i \<and> nat i < length (c # cs)" using False by auto
    moreover have "0 \<le> i - 1 \<Longrightarrow> nat i = Suc (nat (i - 1))" by simp
    ultimately show ?thesis using cd Cons.IH [of "xs @ [c]" "i - 1"] Cons.prems forest_step(2) [OF Cons.prems(1,2)] False
      by (subst tree_index_loop.simps) auto
  qed
qed

lemma tree_fill_loop_forest:
  "forest s K E \<Longrightarrow> K t = xs @ cs \<Longrightarrow> length cs \<le> length m \<Longrightarrow>
   tree_fill_loop s (head_or_null cs) (map Some ys @ m) (length ys) = Some (map Some (ys @ cs) @ drop (length cs) m)"
proof (induction cs arbitrary: xs ys m)
  case Nil
  then show ?case by (simp add: tree_fill_loop.simps)
next
  case (Cons c cs)
  obtain cd where cd: "ct_nodes s c = Some cd" "tr_sibling cd = head_or_null cs" using forest_step(1) [OF Cons.prems(1,2)] by blast
  obtain a m' where m: "m = a # m'" using Cons.prems(3) by (cases m) auto
  have "st (map Some ys @ m) (length ys) c = Some (map Some (ys @ [c]) @ m')" using m by (simp add: st_def list_update_append)
  then show ?case using cd m Cons.IH [of "xs @ [c]" m' "ys @ [c]"] Cons.prems forest_step(2) [OF Cons.prems(1,2)]
    by (subst tree_fill_loop.simps) simp
qed

lemma tree_apply_loop_forest:
  "forest s K E \<Longrightarrow> K t = xs @ cs \<Longrightarrow> tree_apply_loop s (head_or_null cs) = Some cs"
proof (induction cs arbitrary: xs)
  case Nil
  then show ?case by (simp add: tree_apply_loop.simps)
next
  case (Cons c cs)
  obtain cd where cd: "ct_nodes s c = Some cd" "tr_sibling cd = head_or_null cs" using forest_step(1) [OF Cons.prems(1,2)] by blast
  then show ?case using Cons.IH [of "xs @ [c]"] Cons.prems forest_step(2) [OF Cons.prems(1,2)]
    by (subst tree_apply_loop.simps) simp
qed

lemma forest_finite_edges: "forest s K E \<Longrightarrow> finite (tree_edges K)"
proof -
  assume f: "forest s K E"
  have "tree_edges K \<subseteq> dom (ct_nodes s) \<times> dom (ct_nodes s)" using forestD(5,6) [OF f] by (force simp: tree_edges_def)
  then show ?thesis using forestD(1) [OF f] finite_subset by blast
qed

lemma forest_wf: "forest s K E \<Longrightarrow> wf (tree_edges K)"
  using finite_acyclic_wf [OF forest_finite_edges forestD(3)] by blast

lemma CFTreeFindRoot_forest:
  assumes f: "forest s K E" and t: "ct_nodes s t = Some nd"
  shows "\<exists>r rd. CFTreeFindRoot s t = Some r \<and> (r, t) \<in> (tree_edges K)\<^sup>* \<and> ct_nodes s r = Some rd \<and> tr_parent rd = NULL"
  using t
proof (induction t arbitrary: nd rule: wf_induct_rule [OF forest_wf [OF f]])
  case (1 t)
  show ?case
  proof (cases "tr_parent nd = NULL")
    case True
    then show ?thesis using 1(2) by (subst CFTreeFindRoot.simps) auto
  next
    case False
    then have e: "t \<in> set (K (tr_parent nd))" using forest_parent(2) [OF f 1(2)] by blast
    then obtain pd where "ct_nodes s (tr_parent nd) = Some pd" using forestD(6) [OF f] by blast
    then obtain r rd where r: "CFTreeFindRoot s (tr_parent nd) = Some r" "(r, tr_parent nd) \<in> (tree_edges K)\<^sup>*" "ct_nodes s r = Some rd" "tr_parent rd = NULL"
      using 1(1) e by fastforce
    then have "(r, t) \<in> (tree_edges K)\<^sup>*" using e by (meson rtrancl.rtrancl_into_rtrancl tree_edges_iff)
    then show ?thesis using r False 1(2) by (subst CFTreeFindRoot.simps) auto
  qed
qed

text \<open>All readings of a tree in a forest.\<close>

lemma forest_reads:
  assumes f: "forest s K E" and t: "ct_nodes s t = Some nd"
  shows "length (K t) < 2 ^ 31 \<Longrightarrow> CFTreeGetChildCount s t = Some (length (K t))"
    "i < length (K t) \<Longrightarrow> CFTreeGetChildAtIndex s t (int i) = Some (K t ! i)"
    "length (K t) \<le> i \<Longrightarrow> CFTreeGetChildAtIndex s t (int i) = Some NULL"
    "CFTreeGetChildren s t (fresh_cells (length (K t))) = Some (map Some (K t))"
    "CFTreeApplyFunctionToChildren s t = Some (K t)" "CFTreeGetFirstChild s t = Some (head_or_null (K t))"
    "t \<in> set (K p) \<Longrightarrow> CFTreeGetParent s t = Some p \<and> CFTreeGetNextSibling s t = Some (next_of t (K p))"
    "(\<And>p. t \<notin> set (K p)) \<Longrightarrow> CFTreeGetParent s t = Some NULL \<and> CFTreeGetNextSibling s t = Some NULL"
proof -
  have c: "tr_child nd = head_or_null (K t)" "tr_sibling nd = next_of t (K (tr_parent nd))"
    using forestD(7) [OF f t] by (simp_all add: node_ok_def)
  show "length (K t) < 2 ^ 31 \<Longrightarrow> CFTreeGetChildCount s t = Some (length (K t))"
    using tree_count_loop_forest [OF f, of t "[]" "K t" 0] t c by (simp add: CFTreeGetChildCount_def)
  show "i < length (K t) \<Longrightarrow> CFTreeGetChildAtIndex s t (int i) = Some (K t ! i)"
    using tree_index_loop_forest [OF f, of t "[]" "K t" "int i"] t c by (simp add: CFTreeGetChildAtIndex_def)
  show "length (K t) \<le> i \<Longrightarrow> CFTreeGetChildAtIndex s t (int i) = Some NULL"
    using tree_index_loop_forest [OF f, of t "[]" "K t" "int i"] t c by (simp add: CFTreeGetChildAtIndex_def)
  show "CFTreeGetChildren s t (fresh_cells (length (K t))) = Some (map Some (K t))"
    using tree_fill_loop_forest [OF f, of t "[]" "K t" "fresh_cells (length (K t))" "[]"] t c by (simp add: CFTreeGetChildren_def)
  show "CFTreeApplyFunctionToChildren s t = Some (K t)"
    using tree_apply_loop_forest [OF f, of t "[]" "K t"] t c by (simp add: CFTreeApplyFunctionToChildren_def)
  show "CFTreeGetFirstChild s t = Some (head_or_null (K t))" using t c by (simp add: CFTreeGetFirstChild_def)
  show "t \<in> set (K p) \<Longrightarrow> CFTreeGetParent s t = Some p \<and> CFTreeGetNextSibling s t = Some (next_of t (K p))"
    using forest_parent(1) [OF f t] t c by (auto simp: CFTreeGetParent_def CFTreeGetNextSibling_def)
  show "(\<And>p. t \<notin> set (K p)) \<Longrightarrow> CFTreeGetParent s t = Some NULL \<and> CFTreeGetNextSibling s t = Some NULL"
    using forest_parent(2) [OF f t] t c forestD(8) [OF f] by (auto simp: CFTreeGetParent_def CFTreeGetNextSibling_def)
qed

section \<open>Linking\<close>

lemma callbacks_update [simp]:
  "CFTreeGetCallBacks (nd\<lparr>tr_parent := p\<rparr>) = CFTreeGetCallBacks nd" "CFTreeGetCallBacks (nd\<lparr>tr_sibling := p\<rparr>) = CFTreeGetCallBacks nd"
  "CFTreeGetCallBacks (nd\<lparr>tr_child := p\<rparr>) = CFTreeGetCallBacks nd" "CFTreeGetCallBacks (nd\<lparr>tr_rightmostChild := p\<rparr>) = CFTreeGetCallBacks nd"
  "header_info h = header_info (tr_base nd) \<Longrightarrow> CFTreeGetCallBacks (nd\<lparr>tr_base := h\<rparr>) = CFTreeGetCallBacks nd"
  by (simp_all add: CFTreeGetCallBacks_def CFTreeGetCallBacksType_def)

text \<open>A retained node, as the counter of 64-bit machines provides it.\<close>

definition retained_header :: "header \<Rightarrow> header \<Rightarrow> bool" where
  "retained_header h h' \<longleftrightarrow> counter64_ok h' \<and> header_info h' = header_info h \<and> unat (header_rc h') = unat (header_rc h) + 1"

lemma tree_retain_works:
  assumes nd: "ct_nodes s x = Some nd" and ok: "counter64_ok (tr_base nd)" "unat (header_rc (tr_base nd)) + 1 < 2 ^ 32"
  shows "\<exists>h. tree_retain s x = Some (s\<lparr>ct_nodes := (ct_nodes s)(x \<mapsto> nd\<lparr>tr_base := h\<rparr>)\<rparr>) \<and> retained_header (tr_base nd) h"
proof -
  obtain h where h: "CFRetain64 CFTreeClass (tr_base nd) = Some h" "counter64_ok h" "unat (header_rc h) = unat (header_rc (tr_base nd)) + 1"
    using counter64.retain_counts [OF ok] by blast
  have "header_info h = header_info (tr_base nd)" using h(1) CFRetain64_counts [OF ok(1)] by (auto simp: header_info_arith)
  then show ?thesis using h nd by (auto simp: tree_retain_def retained_header_def)
qed

text \<open>A node whose links stay as they are.\<close>

lemma relinked_same:
  assumes f: "forest s K E" and nd: "ct_nodes s x = Some nd" and x: "x \<noteq> t" "E' x = E x" "x \<in> set L \<longleftrightarrow> x \<in> set (K t)"
    and "x \<in> set (K t) \<Longrightarrow> next_of x L = next_of x (K t)"
  shows "relinked K t L E' x nd nd"
proof (cases "x \<in> set (K t)")
  case True
  then show ?thesis using assms(6) x forestD(7) [OF f nd] forest_parent(1) [OF f nd True] by (simp add: relinked_def node_ok_def)
next
  case False
  then show ?thesis using x forestD(7) [OF f nd] by (simp add: relinked_def node_ok_def)
qed

text \<open>A tree without a parent that can become a child of \<open>t\<close>.\<close>

definition can_adopt :: "(ptr \<Rightarrow> ptr list) \<Rightarrow> (ptr \<Rightarrow> nat) \<Rightarrow> ptr \<Rightarrow> ptr \<Rightarrow> bool" where
  "can_adopt K E t c \<longleftrightarrow> (\<forall>p. c \<notin> set (K p)) \<and> (c, t) \<notin> (tree_edges K)\<^sup>* \<and> E c + 1 < 2 ^ 32"

lemma adopt_facts:
  assumes f: "forest s K E" and c: "ct_nodes s c = Some nc" and a: "can_adopt K E t c"
  shows "tr_parent nc = NULL" "tr_sibling nc = NULL" "unat (header_rc (tr_base nc)) = E c" "counter64_ok (tr_base nc)" "E c + 1 < 2 ^ 32" "c \<noteq> t" "c \<notin> set (K t)"
    "tr_child nc = head_or_null (K c)" "tr_rightmostChild nc = last_or_null (K c)" "t \<notin> set (K c)" "c \<noteq> NULL"
proof -
  have p: "tr_parent nc = NULL" using forest_parent(2) [OF f c] a by (auto simp: can_adopt_def)
  then show "tr_parent nc = NULL" "tr_sibling nc = NULL" "unat (header_rc (tr_base nc)) = E c" "counter64_ok (tr_base nc)"
    "tr_child nc = head_or_null (K c)" "tr_rightmostChild nc = last_or_null (K c)"
    using forestD(7) [OF f c] forestD(8) [OF f] by (simp_all add: node_ok_def)
  show "E c + 1 < 2 ^ 32" "c \<notin> set (K t)" using a by (simp_all add: can_adopt_def)
  show "c \<noteq> t" using a by (auto simp: can_adopt_def)
  show "t \<notin> set (K c)" using a r_into_rtrancl [of "(c, t)" "tree_edges K"] by (auto simp: can_adopt_def)
  show "c \<noteq> NULL" by (rule forest_parent(4) [OF f c])
qed

text \<open>Adopting a child: all three operations that do are instances, for their place in the list.\<close>

lemma forest_adopt:
  assumes f: "forest s K E" and t: "ct_nodes s t = Some nd" and c: "ct_nodes s c = Some nc" and a: "can_adopt K E t c"
    and L: "K t = xs @ ys" "L = xs @ c # ys" and h: "retained_header (tr_base nc) h"
    and cs: "ct_nodes s' c = Some (nc\<lparr>tr_base := h, tr_parent := t, tr_sibling := head_or_null ys\<rparr>)"
    and ts: "ct_nodes s' t = Some (nd\<lparr>tr_child := head_or_null L, tr_rightmostChild := last_or_null L\<rparr>)"
    and prev: "xs \<noteq> [] \<Longrightarrow> \<exists>pd. ct_nodes s (last xs) = Some pd \<and> ct_nodes s' (last xs) = Some (pd\<lparr>tr_sibling := c\<rparr>)"
    and rest: "\<And>x. x \<noteq> c \<Longrightarrow> x \<noteq> t \<Longrightarrow> xs = [] \<or> x \<noteq> last xs \<Longrightarrow> ct_nodes s' x = ct_nodes s x"
  shows "forest s' (K(t := L)) E"
proof (rule forest_relink [OF f])
  note cf = adopt_facts [OF f c a]
  have d: "distinct (xs @ ys)" using forestD(4) [OF f, of t] L(1) by simp
  have dL: "distinct L" using d cf(7) L by auto
  have t0: "t \<notin> set L" using forest_not_self [OF f, of t] L cf(6) by auto
  show "t \<in> dom (ct_nodes s)" using t by blast
  show "distinct L" by (rule dL)
  show "set L \<subseteq> dom (ct_nodes s)" using forestD(5) [OF f, of _ t] c L by fastforce
  show "\<And>x p. x \<in> set L \<Longrightarrow> x \<in> set (K p) \<Longrightarrow> p = t"
    using forest_unique_parent [OF f] L a by (auto simp: can_adopt_def)
  show "acyclic (tree_edges (K(t := L)))"
    by (rule acyclic_more [OF forestD(3) [OF f]]) (use a L in \<open>auto simp: can_adopt_def\<close>)
  fix x
  show "case ct_nodes s x of None \<Rightarrow> ct_nodes s' x = None | Some nd \<Rightarrow> \<exists>nd'. ct_nodes s' x = Some nd' \<and> relinked K t L E x nd nd'"
  proof (cases "ct_nodes s x")
    case None
    have "x \<noteq> c" "x \<noteq> t" using None c t by auto
    moreover have "xs = [] \<or> x \<noteq> last xs" using prev None by auto
    ultimately show ?thesis using None rest by simp
  next
    case (Some xd)
    have ok: "node_ok K E x xd" by (rule forestD(7) [OF f Some])
    consider "x = c" | "x = t" | "x \<noteq> c" "x \<noteq> t" "xs \<noteq> []" "x = last xs" | "x \<noteq> c" "x \<noteq> t" "xs = [] \<or> x \<noteq> last xs" by blast
    then show ?thesis
    proof cases
      case 1
      have "next_of c L = head_or_null ys" using next_of_before dL L(2) by blast
      then show ?thesis using 1 Some c cs h cf(3,4,6) L forest_parent(4) [OF f t] by (auto simp: relinked_def retained_header_def)
    next
      case 2
      then show ?thesis using Some t ts t0 ok forest_not_self [OF f, of t] by (auto simp: relinked_def node_ok_def)
    next
      case 3
      obtain zs where zs: "xs = zs @ [x]" using 3(3,4) append_butlast_last_id by metis
      have "next_of x L = c" using next_of_before [of zs x "c # ys"] dL L(2) zs by simp
      moreover have "x \<in> set L" "tr_parent xd = t" using zs L forest_parent(1) [OF f Some] by auto
      ultimately show ?thesis using prev 3 Some ok by (auto simp: relinked_def node_ok_def)
    next
      case 4
      have "next_of x L = next_of x (K t)" if "x \<in> set (K t)"
      proof (cases "x \<in> set xs")
        case True
        then show ?thesis using next_of_inner [of x xs "c # ys" ys] 4(3) L by (cases "xs = []") (auto simp: last_or_null_def)
      next
        case False
        then show ?thesis using L 4(1) by (simp add: next_of_skip)
      qed
      then show ?thesis using relinked_same [OF f Some 4(2)] rest [OF 4] Some 4(1) L by auto
    qed
  qed
qed

lemma node_update_swap: "nd\<lparr>tr_rightmostChild := a, tr_child := b\<rparr> = nd\<lparr>tr_child := b, tr_rightmostChild := a\<rparr>" for nd :: CFTree
  by simp

lemma adopt_retain:
  assumes f: "forest s K E" and c: "ct_nodes s c = Some nc" and a: "can_adopt K E t c"
  shows "\<exists>h. tree_retain s c = Some (s\<lparr>ct_nodes := (ct_nodes s)(c \<mapsto> nc\<lparr>tr_base := h\<rparr>)\<rparr>) \<and> retained_header (tr_base nc) h"
  using tree_retain_works [OF c] adopt_facts(3,4,5) [OF f c a] by simp

lemma CFTreePrependChild_forest:
  assumes f: "forest s K E" and t: "ct_nodes s t = Some nd" and c: "ct_nodes s c = Some nc" and a: "can_adopt K E t c"
  shows "\<exists>s'. CFTreePrependChild s t c = Some s' \<and> forest s' (K(t := c # K t)) E \<and> ct_calls s' = ct_calls s \<and> dom (ct_nodes s') = dom (ct_nodes s)"
proof -
  note cf = adopt_facts [OF f c a]
  obtain h where h: "tree_retain s c = Some (s\<lparr>ct_nodes := (ct_nodes s)(c \<mapsto> nc\<lparr>tr_base := h\<rparr>)\<rparr>)" "retained_header (tr_base nc) h"
    using adopt_retain [OF f c a] by blast
  have k: "tr_child nd = head_or_null (K t)" "tr_rightmostChild nd = last_or_null (K t)" using forestD(7) [OF f t] by (simp_all add: node_ok_def)
  have e: "tr_child nd = NULL \<longleftrightarrow> K t = []" using k(1) head_or_null_zero [OF forestD(9) [OF f]] by simp
  let ?n = "(ct_nodes s)(c \<mapsto> nc\<lparr>tr_base := h, tr_parent := t, tr_sibling := head_or_null (K t)\<rparr>,
      t \<mapsto> nd\<lparr>tr_child := c, tr_rightmostChild := last_or_null (c # K t)\<rparr>)"
  have "CFTreePrependChild s t c = Some (s\<lparr>ct_nodes := ?n\<rparr>)"
  proof (cases "K t = []")
    case True
    then show ?thesis using h(1) t c cf(6) k e by (simp add: CFTreePrependChild_def fun_upd_twist node_update_swap)
  next
    case False
    have "nd\<lparr>tr_child := c, tr_rightmostChild := last_or_null (K t)\<rparr> = nd\<lparr>tr_child := c\<rparr>" using k(2) by (simp add: k(2) [symmetric])
    then show ?thesis using False h(1) t c cf(6) k(1) e by (simp add: CFTreePrependChild_def)
  qed
  moreover have "forest (s\<lparr>ct_nodes := ?n\<rparr>) (K(t := c # K t)) E"
    by (rule forest_adopt [OF f t c a, of "[]" "K t" _ h]) (use h(2) cf(6) in auto)
  moreover have "dom ?n = dom (ct_nodes s)" using t c by auto
  ultimately show ?thesis by simp
qed

lemma CFTreeAppendChild_forest:
  assumes f: "forest s K E" and t: "ct_nodes s t = Some nd" and c: "ct_nodes s c = Some nc" and a: "can_adopt K E t c"
  shows "\<exists>s'. CFTreeAppendChild s t c = Some s' \<and> forest s' (K(t := K t @ [c])) E \<and> ct_calls s' = ct_calls s \<and> dom (ct_nodes s') = dom (ct_nodes s)"
proof -
  note cf = adopt_facts [OF f c a]
  obtain h where h: "tree_retain s c = Some (s\<lparr>ct_nodes := (ct_nodes s)(c \<mapsto> nc\<lparr>tr_base := h\<rparr>)\<rparr>)" "retained_header (tr_base nc) h"
    using adopt_retain [OF f c a] by blast
  have k: "tr_child nd = head_or_null (K t)" "tr_rightmostChild nd = last_or_null (K t)" using forestD(7) [OF f t] by (simp_all add: node_ok_def)
  have e: "tr_child nd = NULL \<longleftrightarrow> K t = []" using k(1) head_or_null_zero [OF forestD(9) [OF f]] by simp
  let ?nc = "nc\<lparr>tr_base := h, tr_parent := t, tr_sibling := NULL\<rparr>"
  show ?thesis
  proof (cases "K t = []")
    case True
    let ?n = "(ct_nodes s)(c \<mapsto> ?nc, t \<mapsto> nd\<lparr>tr_child := c, tr_rightmostChild := c\<rparr>)"
    have "CFTreeAppendChild s t c = Some (s\<lparr>ct_nodes := ?n\<rparr>)"
      using True h(1) t c cf(1,6) e by (simp add: CFTreeAppendChild_def)
    moreover have "forest (s\<lparr>ct_nodes := ?n\<rparr>) (K(t := K t @ [c])) E"
      by (rule forest_adopt [OF f t c a, of "K t" "[]" _ h]) (use True h(2) cf(6) in auto)
    moreover have "dom ?n = dom (ct_nodes s)" using t c by auto
    ultimately show ?thesis by simp
  next
    case False
    have l: "last (K t) \<in> set (K t)" "tr_rightmostChild nd = last (K t)" using False k(2) by (auto simp: last_or_null_def)
    obtain pd where pd: "ct_nodes s (last (K t)) = Some pd" using forestD(5) [OF f l(1)] by blast
    have ne: "last (K t) \<noteq> c" "last (K t) \<noteq> t" using l(1) cf(7) forest_not_self [OF f, of t] by auto
    let ?n = "(ct_nodes s)(c \<mapsto> ?nc, last (K t) \<mapsto> pd\<lparr>tr_sibling := c\<rparr>, t \<mapsto> nd\<lparr>tr_rightmostChild := c\<rparr>)"
    have "CFTreeAppendChild s t c = Some (s\<lparr>ct_nodes := ?n\<rparr>)"
      using False h(1) t c cf(1,6) e l(2) pd ne by (simp add: CFTreeAppendChild_def)
    moreover have "forest (s\<lparr>ct_nodes := ?n\<rparr>) (K(t := K t @ [c])) E"
      by (rule forest_adopt [OF f t c a, of "K t" "[]" _ h]) (use False h(2) cf(6) ne pd k(1) in auto)
    moreover have "dom ?n = dom (ct_nodes s)" using t c pd by auto
    ultimately show ?thesis by simp
  qed
qed

lemma CFTreeInsertSibling_forest:
  assumes f: "forest s K E" and x: "x \<in> set (K t)" and c: "ct_nodes s c = Some nc" and a: "can_adopt K E t c"
  shows "\<exists>s'. CFTreeInsertSibling s x c = Some s' \<and> forest s' (K(t := insert_after x c (K t))) E \<and> ct_calls s' = ct_calls s \<and> dom (ct_nodes s') = dom (ct_nodes s)"
proof -
  note cf = adopt_facts [OF f c a]
  obtain h where h: "tree_retain s c = Some (s\<lparr>ct_nodes := (ct_nodes s)(c \<mapsto> nc\<lparr>tr_base := h\<rparr>)\<rparr>)" "retained_header (tr_base nc) h"
    using adopt_retain [OF f c a] by blast
  obtain nd where t: "ct_nodes s t = Some nd" using forestD(6) [OF f x] by blast
  have k: "tr_child nd = head_or_null (K t)" "tr_rightmostChild nd = last_or_null (K t)" using forestD(7) [OF f t] by (simp_all add: node_ok_def)
  obtain xs ys where xy: "K t = xs @ x # ys" "x \<notin> set xs" using split_list_first [OF x] by blast
  obtain xd where xd: "ct_nodes s x = Some xd" "tr_sibling xd = head_or_null ys" using forest_step(1) [OF f xy(1)] by blast
  have p: "tr_parent xd = t" "t \<noteq> NULL" "x \<noteq> t" "x \<noteq> c"
    using forest_parent(1) [OF f xd(1) x] forest_parent(4) [OF f t] forest_not_self [OF f, of t] x cf(7) by auto
  have L: "insert_after x c (K t) = (xs @ [x]) @ c # ys" using xy by (simp add: insert_after_split)
  have r: "tr_rightmostChild nd = x \<longleftrightarrow> ys = []"
    using k(2) xy(1) last_or_null_distinct [of xs x ys] forestD(4,9) [OF f, of t] by simp
  have first: "tr_child nd = head_or_null (xs @ x # c # ys)" using k(1) xy(1) by (cases xs) simp_all
  let ?n = "(ct_nodes s)(c \<mapsto> nc\<lparr>tr_base := h, tr_parent := t, tr_sibling := head_or_null ys\<rparr>, x \<mapsto> xd\<lparr>tr_sibling := c\<rparr>,
     t \<mapsto> nd\<lparr>tr_rightmostChild := last_or_null ((xs @ [x]) @ c # ys)\<rparr>)"
  have n: "nd\<lparr>tr_rightmostChild := last_or_null ((xs @ [x]) @ c # ys)\<rparr> = (if ys = [] then nd\<lparr>tr_rightmostChild := c\<rparr> else nd)"
    using k(2) xy(1) by simp
  have "CFTreeInsertSibling s x c = Some (s\<lparr>ct_nodes := ?n\<rparr>)"
    unfolding n using h(1) t c cf(6) xd p r by (auto simp: CFTreeInsertSibling_def fun_upd_idem)
  moreover have "forest (s\<lparr>ct_nodes := ?n\<rparr>) (K(t := insert_after x c (K t))) E"
    by (rule forest_adopt [OF f t c a, of "xs @ [x]" ys _ h])
      (use xy(1) L h(2) cf(6) p xd(1) first in auto)
  moreover have "dom ?n = dom (ct_nodes s)" using t c xd by auto
  ultimately show ?thesis by simp
qed

section \<open>Unlinking\<close>

text \<open>The node before \<open>x\<close> is found and linked to the one after it.\<close>

lemma tree_unlink_loop_forest:
  assumes f: "forest s K E"
  shows "K t = pre @ us @ p # x # ys \<Longrightarrow> ct_nodes s x = Some xd \<Longrightarrow> ct_nodes s p = Some pd \<Longrightarrow> ct_nodes s t = Some nd \<Longrightarrow>
   tree_unlink_loop s x (head_or_null (us @ p # x # ys)) =
     Some (s\<lparr>ct_nodes := (ct_nodes s)(p \<mapsto> pd\<lparr>tr_sibling := head_or_null ys\<rparr>, t \<mapsto> if ys = [] then nd\<lparr>tr_rightmostChild := p\<rparr> else nd)\<rparr>)"
proof (induction us arbitrary: pre)
  case Nil
  have k: "K t = (pre @ [p]) @ x # ys" "K t = pre @ p # x # ys" using Nil.prems(1) by simp_all
  have in_t: "p \<in> set (K t)" "x \<in> set (K t)" using k by auto
  have d: "distinct (K t)" "NULL \<notin> set (K t)" using forestD(4,9) [OF f] by auto
  have sib: "tr_sibling pd = x" "tr_sibling xd = head_or_null ys" "p \<noteq> NULL"
    using forest_step [OF f k(1)] forest_step [OF f k(2)] Nil.prems(2,3) by auto
  have par: "tr_parent xd = t" by (rule forest_parent(1) [OF f Nil.prems(2) in_t(2)])
  have pt: "p \<noteq> t" using forest_not_self [OF f, of t] in_t(1) by auto
  have "tr_rightmostChild nd = last_or_null (K t)" using forestD(7) [OF f Nil.prems(4)] by (simp add: node_ok_def)
  then have r: "tr_rightmostChild nd = x \<longleftrightarrow> ys = []" using last_or_null_distinct [of "pre @ [p]" x ys] d k(1) by simp
  show ?case using Nil.prems(2-4) sib par pt r by (subst tree_unlink_loop.simps) (auto simp: fun_upd_idem)
next
  case (Cons u us)
  have k: "K t = pre @ u # (us @ p # x # ys)" "K t = (pre @ [u]) @ us @ p # x # ys" using Cons.prems(1) by simp_all
  obtain ud where ud: "ct_nodes s u = Some ud" "tr_sibling ud = head_or_null (us @ p # x # ys)" using forest_step(1) [OF f k(1)] by blast
  have "head_or_null (us @ p # x # ys) \<in> set (us @ [p])" by (cases us) auto
  then have "head_or_null (us @ p # x # ys) \<noteq> x" using forestD(4) [OF f, of t] k(1) by auto
  then have "tree_unlink_loop s x u = tree_unlink_loop s x (head_or_null (us @ p # x # ys))"
    using ud forest_step(2) [OF f k(1)] by (subst tree_unlink_loop.simps) simp
  then show ?case using Cons.IH [OF k(2) Cons.prems(2-4)] by (simp only: append_Cons head_or_null.simps)
qed

lemma next_of_remove:
  assumes "distinct (xs @ x # ys)" "z \<noteq> x" "xs = [] \<or> z \<noteq> last xs"
  shows "next_of z (xs @ ys) = next_of z (xs @ x # ys)"
proof (cases "z \<in> set xs")
  case True
  then have "z \<noteq> last_or_null xs" using assms(3) by (auto simp: last_or_null_def)
  then show ?thesis using next_of_inner True by blast
next
  case False
  then show ?thesis using assms(2) by (simp add: next_of_skip)
qed

text \<open>The forest without the link to \<open>x\<close>; the reference the parent held is now one from outside.\<close>

lemma forest_orphan:
  assumes f: "forest s K E" and k: "K t = xs @ x # ys" and t: "ct_nodes s t = Some nd" and x: "ct_nodes s x = Some xd"
    and xs: "ct_nodes s' x = Some (xd\<lparr>tr_parent := NULL, tr_sibling := NULL\<rparr>)"
    and ts: "ct_nodes s' t = Some (nd\<lparr>tr_child := head_or_null (xs @ ys), tr_rightmostChild := last_or_null (xs @ ys)\<rparr>)"
    and prev: "xs \<noteq> [] \<Longrightarrow> \<exists>pd. ct_nodes s (last xs) = Some pd \<and> ct_nodes s' (last xs) = Some (pd\<lparr>tr_sibling := head_or_null ys\<rparr>)"
    and rest: "\<And>y. y \<noteq> x \<Longrightarrow> y \<noteq> t \<Longrightarrow> xs = [] \<or> y \<noteq> last xs \<Longrightarrow> ct_nodes s' y = ct_nodes s y"
  shows "forest s' (K(t := xs @ ys)) (E(x := E x + 1))"
proof (rule forest_relink [OF f])
  have d: "distinct (xs @ x # ys)" using forestD(4) [OF f, of t] k by simp
  have t0: "t \<notin> set (K t)" by (rule forest_not_self [OF f])
  show "t \<in> dom (ct_nodes s)" using t by blast
  show "distinct (xs @ ys)" using d by auto
  show "set (xs @ ys) \<subseteq> dom (ct_nodes s)" using forestD(5) [OF f, of _ t] k by fastforce
  show "\<And>y p. y \<in> set (xs @ ys) \<Longrightarrow> y \<in> set (K p) \<Longrightarrow> p = t"
    using forest_unique_parent [OF f] k by (metis Un_iff list.set_intros(2) set_append)
  show "acyclic (tree_edges (K(t := xs @ ys)))" by (rule acyclic_fewer [OF forestD(3) [OF f]]) (use k in auto)
  fix y
  show "case ct_nodes s y of None \<Rightarrow> ct_nodes s' y = None | Some nd \<Rightarrow> \<exists>nd'. ct_nodes s' y = Some nd' \<and> relinked K t (xs @ ys) (E(x := E x + 1)) y nd nd'"
  proof (cases "ct_nodes s y")
    case None
    have "y \<noteq> x" "y \<noteq> t" using None x t by auto
    moreover have "xs = [] \<or> y \<noteq> last xs" using prev None by auto
    ultimately show ?thesis using None rest by simp
  next
    case (Some yd)
    have ok: "node_ok K E y yd" by (rule forestD(7) [OF f Some])
    have xt: "x \<noteq> t" using t0 k by auto
    consider "y = x" | "y = t" | "y \<noteq> x" "y \<noteq> t" "xs \<noteq> []" "y = last xs" | "y \<noteq> x" "y \<noteq> t" "xs = [] \<or> y \<noteq> last xs" by blast
    then show ?thesis
    proof cases
      case 1
      have "tr_parent xd = t" "t \<noteq> NULL" using forest_parent(1) [OF f x] forest_parent(4) [OF f t] k by auto
      then show ?thesis using 1 Some x xs xt d k ok by (auto simp: relinked_def node_ok_def)
    next
      case 2
      then show ?thesis using Some t ts t0 ok k xt by (auto simp: relinked_def node_ok_def)
    next
      case 3
      obtain zs where zs: "xs = zs @ [y]" using 3(3,4) append_butlast_last_id by metis
      have "next_of y (xs @ ys) = head_or_null ys" using next_of_before [of zs y ys] d zs by simp
      moreover have "tr_parent yd = t" using zs k forest_parent(1) [OF f Some] by auto
      moreover have "ct_nodes s' y = Some (yd\<lparr>tr_sibling := head_or_null ys\<rparr>)" "y \<in> set (K t)" using prev [unfolded zs] Some k zs by auto
      ultimately show ?thesis using 3(1,2) Some ok zs k by (simp add: relinked_def node_ok_def)
    next
      case 4
      then show ?thesis using relinked_same [OF f Some 4(2), of "E(x := E x + 1)" "xs @ ys"] next_of_remove [OF d, of y] rest [OF 4] Some k by auto
    qed
  qed
qed

text \<open>Removing a child is unlinking it and releasing it.\<close>

lemma CFTreeRemove_forest:
  assumes f: "forest s K E" and x: "x \<in> set (K t)"
  shows "\<exists>s'. (\<forall>n mac. CFTreeRemove n mac s x = tree_release n mac s' x) \<and> forest s' (K(t := remove1 x (K t))) (E(x := E x + 1)) \<and>
    ct_calls s' = ct_calls s \<and> dom (ct_nodes s') = dom (ct_nodes s)"
proof -
  obtain nd where t: "ct_nodes s t = Some nd" using forestD(6) [OF f x] by blast
  have k: "tr_child nd = head_or_null (K t)" "tr_rightmostChild nd = last_or_null (K t)" using forestD(7) [OF f t] by (simp_all add: node_ok_def)
  obtain xs ys where xy: "K t = xs @ x # ys" "x \<notin> set xs" using split_list_first [OF x] by blast
  obtain xd where xd: "ct_nodes s x = Some xd" "tr_sibling xd = head_or_null ys" using forest_step(1) [OF f xy(1)] by blast
  have p: "tr_parent xd = t" "t \<noteq> NULL" "x \<noteq> t"
    using forest_parent(1) [OF f xd(1) x] forest_parent(4) [OF f t] forest_not_self [OF f, of t] x by auto
  have r: "remove1 x (K t) = xs @ ys" using xy by (simp add: remove1_append)
  have d: "distinct (xs @ x # ys)" "NULL \<notin> set (xs @ x # ys)" using forestD(4,9) [OF f, of t] xy(1) by simp_all
  let ?x = "xd\<lparr>tr_parent := NULL, tr_sibling := NULL\<rparr>"
  show ?thesis
  proof (cases xs rule: rev_cases)
    case Nil
    have z: "tr_sibling xd = NULL \<longleftrightarrow> ys = []" using xd(2) head_or_null_zero d(2) by auto
    let ?n = "(ct_nodes s)(t \<mapsto> nd\<lparr>tr_child := head_or_null ys, tr_rightmostChild := last_or_null ys\<rparr>, x \<mapsto> ?x)"
    have n: "nd\<lparr>tr_child := head_or_null ys, tr_rightmostChild := last_or_null ys\<rparr> =
        (if ys = [] then nd\<lparr>tr_child := head_or_null ys, tr_rightmostChild := NULL\<rparr> else nd\<lparr>tr_child := head_or_null ys\<rparr>)"
      using k(2) xy(1) Nil by simp
    have "CFTreeRemove n mac s x = tree_release n mac (s\<lparr>ct_nodes := ?n\<rparr>) x" for n mac
      unfolding n using t xd p k(1) xy(1) Nil z by (simp add: CFTreeRemove_def)
    moreover have "forest (s\<lparr>ct_nodes := ?n\<rparr>) (K(t := remove1 x (K t))) (E(x := E x + 1))"
      unfolding r by (rule forest_orphan [OF f xy(1) t xd(1)]) (use Nil p in auto)
    moreover have "dom ?n = dom (ct_nodes s)" using t xd by auto
    ultimately show ?thesis by fastforce
  next
    case (snoc us q)
    have kq: "K t = us @ q # (x # ys)" "K t = [] @ us @ q # x # ys" using xy(1) snoc by simp_all
    obtain qd where qd: "ct_nodes s q = Some qd" using forest_step(1) [OF f kq(1)] by blast
    have ne: "q \<noteq> x" "q \<noteq> t" using d(1) snoc forest_not_self [OF f, of t] kq(1) by auto
    have h: "x \<noteq> tr_child nd" using k(1) kq(1) d(1) snoc by (cases us) auto
    let ?t = "if ys = [] then nd\<lparr>tr_rightmostChild := q\<rparr> else nd"
    let ?n = "(ct_nodes s)(q \<mapsto> qd\<lparr>tr_sibling := head_or_null ys\<rparr>, t \<mapsto> ?t, x \<mapsto> ?x)"
    have "CFTreeRemove n mac s x = tree_release n mac (s\<lparr>ct_nodes := ?n\<rparr>) x" for n mac
      using t xd p k(1) h ne tree_unlink_loop_forest [OF f kq(2) xd(1) qd t] kq(1) by (simp add: CFTreeRemove_def)
    moreover have "forest (s\<lparr>ct_nodes := ?n\<rparr>) (K(t := remove1 x (K t))) (E(x := E x + 1))"
      unfolding r
    proof (rule forest_orphan [OF f xy(1) t xd(1)])
      have "tr_child nd = head_or_null (xs @ ys)" using k(1) xy(1) snoc by (cases us) simp_all
      moreover have "tr_rightmostChild nd = last_or_null (xs @ ys)" if "ys \<noteq> []" using k(2) xy(1) that by simp
      ultimately show "ct_nodes (s\<lparr>ct_nodes := ?n\<rparr>) t = Some (nd\<lparr>tr_child := head_or_null (xs @ ys), tr_rightmostChild := last_or_null (xs @ ys)\<rparr>)"
        using p snoc by (cases "ys = []") simp_all
    qed (use snoc p ne qd in auto)
    moreover have "dom ?n = dom (ct_nodes s)" using t xd qd by auto
    ultimately show ?thesis by fastforce
  qed
qed

section \<open>Sorting\<close>

text \<open>The stable order is one list, which insertion of the elements one by one gives.\<close>

fun stable_sort :: "('a \<Rightarrow> 'a \<Rightarrow> int) \<Rightarrow> 'a list \<Rightarrow> 'a list" where
  "stable_sort cmp [] = []"
| "stable_sort cmp (x # xs) = merge_lists cmp [x] (stable_sort cmp xs)"

lemma stably_sorted_stable_sort:
  assumes "comparator cmp"
  shows "stably_sorted cmp xs (stable_sort cmp xs)"
proof (induction xs)
  case Nil
  then show ?case by (simp add: stably_sorted_def)
next
  case (Cons x xs)
  have "stably_sorted cmp [x] [x]" by (simp add: stably_sorted_def)
  then show ?case using comparator.stably_sorted_merge [OF assms _ Cons, of "[x]" "[x]"] by simp
qed

lemma sorted_classes_unique:
  assumes c: "comparator cmp"
  shows "sorted_wrt (\<lambda>a b. cmp a b \<le> 0) ys \<Longrightarrow> sorted_wrt (\<lambda>a b. cmp a b \<le> 0) zs \<Longrightarrow> set ys = set zs \<Longrightarrow>
   (\<forall>a. filter (\<lambda>x. cmp a x = 0) ys = filter (\<lambda>x. cmp a x = 0) zs) \<Longrightarrow> length ys = length zs \<Longrightarrow> ys = zs"
proof (induction ys arbitrary: zs)
  case (Cons y ys)
  obtain z zs' where z: "zs = z # zs'" using Cons.prems(5) by (cases zs) auto
  have swap: "cmp b a = - cmp a b" "cmp a a = 0" for a b using comparator.cmp_swap [OF c] comparator.cmp_refl [OF c] by blast+
  have "y = z \<or> y \<in> set zs'" "z = y \<or> z \<in> set ys" using Cons.prems(3) z by auto
  then have "cmp y z \<le> 0" "cmp z y \<le> 0" using Cons.prems(1,2) z swap(2) by auto
  then have e: "cmp y z = 0" using swap(1) [of y z] by linarith
  have "filter (\<lambda>x. cmp y x = 0) (y # ys) = filter (\<lambda>x. cmp y x = 0) zs" using Cons.prems(4) by blast
  then have yz: "y = z" using z e swap(2) by simp
  have rest: "\<forall>a. filter (\<lambda>x. cmp a x = 0) ys = filter (\<lambda>x. cmp a x = 0) zs'"
  proof
    fix a
    have "filter (\<lambda>x. cmp a x = 0) (y # ys) = filter (\<lambda>x. cmp a x = 0) (y # zs')" using Cons.prems(4) z yz by blast
    then show "filter (\<lambda>x. cmp a x = 0) ys = filter (\<lambda>x. cmp a x = 0) zs'" by (simp split: if_splits)
  qed
  have "set ys = set zs'"
  proof (rule set_eqI)
    fix a
    have "a \<in> set xs \<longleftrightarrow> a \<in> set (filter (\<lambda>x. cmp a x = 0) xs)" for xs using swap(2) by simp
    then show "a \<in> set ys \<longleftrightarrow> a \<in> set zs'" using rest by metis
  qed
  then show ?case using Cons.IH [of zs'] Cons.prems(1,2,5) rest z yz by simp
qed simp

lemma stably_sorted_unique:
  assumes "comparator cmp" "stably_sorted cmp xs ys"
  shows "ys = stable_sort cmp xs"
proof -
  have s: "stably_sorted cmp xs (stable_sort cmp xs)" by (rule stably_sorted_stable_sort [OF assms(1)])
  have m: "mset ys = mset (stable_sort cmp xs)" using s assms(2) by (simp add: stably_sorted_def)
  show ?thesis
    by (rule sorted_classes_unique [OF assms(1)])
      (use s assms(2) mset_eq_setD [OF m] mset_eq_length [OF m] in \<open>simp_all add: stably_sorted_def\<close>)
qed

text \<open>The loop over the sorted children links every one but the last to its successor.\<close>

lemma tree_relink_loop_works:
  "distinct (a # zs) \<Longrightarrow> set (a # zs) \<subseteq> dom (ct_nodes s) \<Longrightarrow>
   \<exists>s'. tree_relink_loop s (map Some (pre @ a # zs) @ m) (length pre + 1) (length zs) = Some s' \<and> ct_calls s' = ct_calls s \<and>
     (\<forall>x. ct_nodes s' x = (if x \<in> set (butlast (a # zs)) then map_option (\<lambda>nd. nd\<lparr>tr_sibling := next_of x (a # zs)\<rparr>) (ct_nodes s x) else ct_nodes s x))"
proof (induction zs arbitrary: a pre s)
  case (Cons b zs)
  obtain ad where ad: "ct_nodes s a = Some ad" using Cons.prems(2) by auto
  let ?s = "s\<lparr>ct_nodes := (ct_nodes s)(a \<mapsto> ad\<lparr>tr_sibling := b\<rparr>)\<rparr>"
  have dom: "dom (ct_nodes ?s) = dom (ct_nodes s)" using ad by auto
  obtain s' where s': "tree_relink_loop ?s (map Some ((pre @ [a]) @ b # zs) @ m) (length (pre @ [a]) + 1) (length zs) = Some s'" "ct_calls s' = ct_calls ?s"
    "\<forall>x. ct_nodes s' x = (if x \<in> set (butlast (b # zs)) then map_option (\<lambda>nd. nd\<lparr>tr_sibling := next_of x (b # zs)\<rparr>) (ct_nodes ?s x) else ct_nodes ?s x)"
    using Cons.IH [of b ?s "pre @ [a]"] Cons.prems unfolding dom by auto
  have l: "ld (map Some (pre @ a # b # zs) @ m) (length pre) = Some a" "ld (map Some (pre @ a # b # zs) @ m) (length pre + 1) = Some b"
    by (auto simp: ld_def nth_append)
  have e: "tree_relink_loop s (map Some (pre @ a # b # zs) @ m) (length pre + 1) (length (b # zs)) = Some s'"
    using s'(1) l ad by simp
  have ab: "a \<notin> set (butlast (b # zs))" "a \<noteq> b" using Cons.prems(1) in_set_butlastD [of a "b # zs"] by auto
  have "ct_nodes s' x = (if x \<in> set (butlast (a # b # zs)) then map_option (\<lambda>nd. nd\<lparr>tr_sibling := next_of x (a # b # zs)\<rparr>) (ct_nodes s x) else ct_nodes s x)" for x
    using s'(3) ab ad by (cases "x = a") auto
  then show ?case using e s'(2) by auto
qed simp

lemma distinct_last_butlast: "distinct xs \<Longrightarrow> xs \<noteq> [] \<Longrightarrow> last xs \<notin> set (butlast xs) \<and> set xs = insert (last xs) (set (butlast xs))"
  by (cases xs rule: rev_cases) auto

lemma next_of_last: "distinct xs \<Longrightarrow> next_of (last xs) xs = NULL"
  using next_of_before [of "butlast xs" "last xs" "[]"] by (cases "xs = []") simp_all

text \<open>New links in the same set of children.\<close>

lemma forest_sorted:
  assumes f: "forest s K E" and t: "ct_nodes s t = Some nd" and ys: "set ys = set (K t)" "distinct ys"
    and nodes: "\<And>x. ct_nodes s' x = (if x = t then Some (nd\<lparr>tr_child := head_or_null ys, tr_rightmostChild := last_or_null ys\<rparr>)
      else if x \<in> set ys then map_option (\<lambda>nd. nd\<lparr>tr_sibling := next_of x ys\<rparr>) (ct_nodes s x) else ct_nodes s x)"
  shows "forest s' (K(t := ys)) E"
proof (rule forest_relink [OF f])
  show "t \<in> dom (ct_nodes s)" "distinct ys" using t ys by auto
  show "set ys \<subseteq> dom (ct_nodes s)" using forestD(5) [OF f, of _ t] ys(1) by fastforce
  show "\<And>x p. x \<in> set ys \<Longrightarrow> x \<in> set (K p) \<Longrightarrow> p = t" using forest_unique_parent [OF f] ys(1) by blast
  show "acyclic (tree_edges (K(t := ys)))" by (rule acyclic_fewer [OF forestD(3) [OF f]]) (simp add: ys(1))
  fix x
  show "case ct_nodes s x of None \<Rightarrow> ct_nodes s' x = None | Some nd \<Rightarrow> \<exists>nd'. ct_nodes s' x = Some nd' \<and> relinked K t ys E x nd nd'"
  proof (cases "ct_nodes s x")
    case None
    then show ?thesis using nodes [of x] t by auto
  next
    case (Some xd)
    have ok: "node_ok K E x xd" by (rule forestD(7) [OF f Some])
    have tn: "t \<notin> set (K t)" by (rule forest_not_self [OF f])
    show ?thesis
    proof (cases "x = t")
      case True
      then show ?thesis using nodes [of x] t tn Some ok ys(1) by (simp add: relinked_def node_ok_def)
    next
      case False
      then show ?thesis
      proof (cases "x \<in> set (K t)")
        case True
        then show ?thesis using nodes [of x] False Some ok ys(1) forest_parent(1) [OF f Some True] by (simp add: relinked_def node_ok_def)
      qed (use nodes [of x] False Some ok ys(1) in \<open>simp add: relinked_def node_ok_def\<close>)
    qed
  qed
qed

lemma CFTreeSortChildren_forest:
  assumes c: "comparator cmp" and f: "forest s K E" and t: "ct_nodes s t = Some nd" and small: "length (K t) < 2 ^ 31"
    and mem: "length (K t) < 128 \<or> env_alloc env (length (K t) * 8)"
  shows "\<exists>s'. CFTreeSortChildren env cmp s t = Some s' \<and> forest s' (K(t := stable_sort cmp (K t))) E \<and> ct_calls s' = ct_calls s \<and> dom (ct_nodes s') = dom (ct_nodes s)"
proof (cases "1 < length (K t)")
  case False
  have "stable_sort cmp (K t) = K t" using False by (cases "K t") auto
  then show ?thesis using False f forest_reads(1) [OF f t small] by (auto simp: CFTreeSortChildren_def)
next
  case True
  let ?n = "length (K t)" and ?ys = "stable_sort cmp (K t)"
  let ?c = "if ?n < 128 then 128 else ?n"
  have fill: "tree_fill_loop s (tr_child nd) (fresh_cells ?c) 0 = Some (map Some (K t) @ fresh_cells (?c - ?n))"
    using tree_fill_loop_forest [OF f, of t "[]" "K t" "fresh_cells ?c" "[]"] forestD(7) [OF f t] by (simp add: node_ok_def fresh_cells_def)
  have m: "mset ?ys = mset (K t)" using stably_sorted_stable_sort [OF c] by (simp add: stably_sorted_def)
  have ys: "set ?ys = set (K t)" "length ?ys = ?n" "distinct ?ys"
    using mset_eq_setD [OF m] mset_eq_length [OF m] mset_eq_imp_distinct_iff [OF m] forestD(4) [OF f] by auto
  have sort: "CFQSortArray cmp (map Some (K t) @ fresh_cells (?c - ?n)) ?n 8 = Some (map Some ?ys @ fresh_cells (?c - ?n))"
    using sort_array_works [OF c, of 0 8 "K t"] small stably_sorted_unique [OF c] by (fastforce simp: CFQSortArray_def)
  obtain a zs where az: "?ys = a # zs" using ys(2) True by (cases ?ys) auto
  have sub: "set (a # zs) \<subseteq> dom (ct_nodes s)" using forestD(5) [OF f, of _ t] ys(1) az by fastforce
  have tn: "t \<notin> set ?ys" using forest_not_self [OF f, of t] ys(1) by simp
  let ?s = "s\<lparr>ct_nodes := (ct_nodes s)(t \<mapsto> nd\<lparr>tr_child := a\<rparr>)\<rparr>"
  obtain s' where s': "tree_relink_loop ?s (map Some (a # zs) @ fresh_cells (?c - ?n)) 1 (length zs) = Some s'" "ct_calls s' = ct_calls s"
    "\<And>x. ct_nodes s' x = (if x \<in> set (butlast (a # zs)) then map_option (\<lambda>nd. nd\<lparr>tr_sibling := next_of x (a # zs)\<rparr>) (ct_nodes ?s x) else ct_nodes ?s x)"
    using tree_relink_loop_works [of a zs ?s "[]" "fresh_cells (?c - ?n)"] ys(3) az sub by auto
  let ?l = "last (a # zs)"
  obtain ld0 where l: "ct_nodes s ?l = Some ld0" using sub last_in_set [of "a # zs"] by auto
  have lt: "?l \<notin> set (butlast (a # zs))" "set (a # zs) = insert ?l (set (butlast (a # zs)))"
    using distinct_last_butlast [of "a # zs"] ys(3) unfolding az by blast+
  have tl: "?l \<noteq> t" "t \<notin> set (butlast (a # zs))" using tn lt(2) unfolding az by blast+
  have sl: "ct_nodes s' ?l = Some ld0" using s'(3) [of ?l] lt(1) tl l by (simp del: last.simps butlast.simps)
  have st: "ct_nodes s' t = Some (nd\<lparr>tr_child := a\<rparr>)" using s'(3) [of t] tl by (simp del: last.simps butlast.simps)
  let ?f = "s'\<lparr>ct_nodes := (ct_nodes s')(?l \<mapsto> ld0\<lparr>tr_sibling := NULL\<rparr>, t \<mapsto> nd\<lparr>tr_child := a, tr_rightmostChild := ?l\<rparr>)\<rparr>"
  have cells: "ld (map Some (a # zs) @ fresh_cells (?c - ?n)) 0 = Some a" "ld (map Some (a # zs) @ fresh_cells (?c - ?n)) (?n - 1) = Some ?l"
  proof -
    have "?n = Suc (length zs)" using ys(2) az by simp
    moreover have "(a # zs) ! length zs = ?l" using last_conv_nth [of "a # zs"] by simp
    ultimately show "ld (map Some (a # zs) @ fresh_cells (?c - ?n)) 0 = Some a" "ld (map Some (a # zs) @ fresh_cells (?c - ?n)) (?n - 1) = Some ?l"
      by (simp_all add: ld_def nth_append del: last.simps list.map)
  qed
  have run: "CFTreeSortChildren env cmp s t = Some ?f"
  proof -
    have "length zs = ?n - 1" using ys(2) az by simp
    then show ?thesis using True mem forest_reads(1) [OF f t small] t fill sort cells s'(1) sl st tl(1) unfolding az
      by (simp add: CFTreeSortChildren_def del: last.simps list.map)
  qed
  have nodes: "ct_nodes ?f x = (if x = t then Some (nd\<lparr>tr_child := head_or_null ?ys, tr_rightmostChild := last_or_null ?ys\<rparr>)
      else if x \<in> set ?ys then map_option (\<lambda>nd. nd\<lparr>tr_sibling := next_of x ?ys\<rparr>) (ct_nodes s x) else ct_nodes s x)" for x
  proof -
    have nl: "next_of ?l (a # zs) = NULL" using next_of_last [OF ys(3)] az by simp
    consider "x = t" | "x \<noteq> t" "x = ?l" | "x \<noteq> t" "x \<noteq> ?l" by blast
    then show ?thesis
    proof cases
      case 1
      then show ?thesis unfolding az by (simp add: last_or_null_def)
    next
      case 2
      then show ?thesis using l nl last_in_set [of "a # zs"] unfolding az by (simp del: last.simps next_of.simps set_simps)
    next
      case 3
      then show ?thesis using s'(3) [of x] lt(2) unfolding az by (simp del: last.simps butlast.simps next_of.simps)
    qed
  qed
  have "forest ?f (K(t := ?ys)) E" by (rule forest_sorted [OF f t ys(1,3) nodes])
  moreover have "dom (ct_nodes ?f) = dom (ct_nodes s)" using nodes t by (simp only: dom_def) auto
  ultimately show ?thesis using run s'(2) by auto
qed

end
