(* ===== verification/CF_TreeOps.thy ===== *)
theory CF_TreeOps
  imports CF_Tree
begin

text \<open>
  The life of trees: what the release of the last reference to a tree frees, contexts, creation, and the
  operations of a client as transitions on forests, in any order.
\<close>

section \<open>Deallocation\<close>

text \<open>
  The trees below \<open>t\<close>, and those of them that go with it: the ones that are reached through trees
  without references from outside.
\<close>

definition below :: "(ptr \<Rightarrow> ptr list) \<Rightarrow> ptr \<Rightarrow> ptr set" where
  "below K t = {x. (t, x) \<in> (tree_edges K)\<^sup>*}"

definition dead :: "(ptr \<Rightarrow> ptr list) \<Rightarrow> (ptr \<Rightarrow> nat) \<Rightarrow> ptr \<Rightarrow> ptr set" where
  "dead K E t = {x. (t, x) \<in> {(p, c). c \<in> set (K p) \<and> E c = 0}\<^sup>*}"

definition dead_list :: "(ptr \<Rightarrow> ptr list) \<Rightarrow> (ptr \<Rightarrow> nat) \<Rightarrow> ptr list \<Rightarrow> ptr set" where
  "dead_list K E cs = (\<Union>c \<in> {c \<in> set cs. E c = 0}. dead K E c)"

lemma below_self [simp]: "t \<in> below K t"
  by (simp add: below_def)

lemma below_child: "x \<in> below K t \<Longrightarrow> c \<in> set (K x) \<Longrightarrow> c \<in> below K t"
  unfolding below_def by (simp add: rtrancl.rtrancl_into_rtrancl [of t x _ c])

lemma below_first: "c \<in> set (K t) \<Longrightarrow> below K c \<subseteq> below K t"
  using converse_rtrancl_into_rtrancl [of t c "tree_edges K"] by (auto simp: below_def)

lemma dead_below: "dead K E t \<subseteq> below K t"
proof -
  have "{(p, c). c \<in> set (K p) \<and> E c = 0} \<subseteq> tree_edges K" by (auto simp: tree_edges_def)
  from rtrancl_mono [OF this] show ?thesis unfolding dead_def below_def by blast
qed

lemma dead_self [simp]: "t \<in> dead K E t"
  by (simp add: dead_def)

lemma dead_unfold: "dead K E t = insert t (dead_list K E (K t))"
proof (intro set_eqI iffI)
  fix x assume "x \<in> dead K E t"
  then have "(t, x) \<in> {(p, c). c \<in> set (K p) \<and> E c = 0}\<^sup>*" by (simp add: dead_def)
  then show "x \<in> insert t (dead_list K E (K t))" by (cases rule: converse_rtranclE) (auto simp: dead_list_def dead_def)
next
  fix x assume "x \<in> insert t (dead_list K E (K t))"
  then show "x \<in> dead K E t"
    using converse_rtrancl_into_rtrancl [of t _ "{(p, c). c \<in> set (K p) \<and> E c = 0}" x] by (auto simp: dead_list_def dead_def)
qed

lemma dead_list_simps [simp]:
  "dead_list K E [] = {}" "dead_list K E (c # cs) = (if E c = 0 then dead K E c else {}) \<union> dead_list K E cs"
  by (auto simp: dead_list_def)

lemma forest_disjoint:
  assumes f: "forest s K E" and c: "c \<in> set (K p)" "d \<in> set (K p)" "c \<noteq> d"
  shows "below K c \<inter> below K d = {}"
proof (rule ccontr)
  assume "below K c \<inter> below K d \<noteq> {}"
  then obtain x where x: "(c, x) \<in> (tree_edges K)\<^sup>*" "(d, x) \<in> (tree_edges K)\<^sup>*" by (auto simp: below_def)
  have sv: "single_valued ((tree_edges K)\<inverse>)" using forest_unique_parent [OF f] by (auto simp: single_valued_def)
  have "(c, d) \<in> (tree_edges K)\<^sup>* \<or> (d, c) \<in> (tree_edges K)\<^sup>*"
    using single_valued_confluent [OF sv, of x c d] x by (auto simp: rtrancl_converse)
  moreover have False if ab: "(a, b) \<in> (tree_edges K)\<^sup>*" "a \<in> set (K p)" "b \<in> set (K p)" "a \<noteq> b" for a b
  proof -
    obtain q where q: "(a, q) \<in> (tree_edges K)\<^sup>*" "b \<in> set (K q)" using ab(1,4) by (metis rtranclE tree_edges_iff)
    then have "q = p" using forest_unique_parent [OF f] ab(3) by blast
    then have "(p, p) \<in> (tree_edges K)\<^sup>+" using q(1) ab(2) by (meson rtrancl_into_trancl2 tree_edges_iff)
    then show False using forestD(3) [OF f] by (simp add: acyclic_def)
  qed
  ultimately show False using c by metis
qed

lemma forest_below_dom:
  assumes f: "forest s K E" and t: "t \<in> dom (ct_nodes s)"
  shows "below K t \<subseteq> dom (ct_nodes s)" "finite (below K t)" "finite (dead K E t)"
proof -
  have "x \<in> dom (ct_nodes s)" if "(t, x) \<in> (tree_edges K)\<^sup>*" for x
    using that
  proof (induction rule: rtrancl_induct)
    case (step y z)
    then show ?case using forestD(5) [OF f, of z y] by auto
  qed (rule t)
  then show "below K t \<subseteq> dom (ct_nodes s)" by (auto simp: below_def)
  then show "finite (below K t)" by (rule finite_subset [OF _ forestD(1) [OF f]])
  then show "finite (dead K E t)" by (rule finite_subset [OF dead_below])
qed

lemma forest_not_below_child:
  assumes "forest s K E" "c \<in> set (K t)"
  shows "t \<notin> below K c"
proof
  assume "t \<in> below K c"
  then have "(t, t) \<in> (tree_edges K)\<^sup>+" using assms(2) by (auto simp: below_def intro: rtrancl_into_trancl2)
  then show False using forestD(3) [OF assms(1)] by (simp add: acyclic_def)
qed

text \<open>A surviving child of a tree that is gone, and the nodes after all of that.\<close>

definition orphan :: "CFTree \<Rightarrow> CFTree" where
  "orphan nd = nd\<lparr>tr_parent := NULL, tr_sibling := NULL, tr_base := tr_base nd - RC_INCREMENT\<rparr>"

definition gone :: "(ptr \<Rightarrow> ptr list) \<Rightarrow> CFTrees \<Rightarrow> ptr set \<Rightarrow> ptr set \<Rightarrow> (ptr \<Rightarrow> CFTree option) \<Rightarrow> ptr \<Rightarrow> CFTree option" where
  "gone K s0 D C nodes x =
     (if x \<in> D then None else if x \<in> C \<or> (\<exists>p \<in> D. x \<in> set (K p)) then map_option orphan (ct_nodes s0 x) else nodes x)"

text \<open>The contexts that are released with a set of trees.\<close>

definition released_infos :: "CFTrees \<Rightarrow> ptr set \<Rightarrow> ptr multiset" where
  "released_infos s0 D = image_mset (\<lambda>x. tr_info (the (ct_nodes s0 x)))
     (mset_set {x \<in> D. \<exists>cb. CFTreeGetCallBacks (the (ct_nodes s0 x)) = Some cb \<and> tcb_release cb \<noteq> NULL})"

definition releases :: "CFTrees \<Rightarrow> ptr set \<Rightarrow> cf_call list \<Rightarrow> bool" where
  "releases s0 D l \<longleftrightarrow> retained l = [] \<and> mset (released l) = released_infos s0 D"

lemma releases_union:
  assumes "releases s0 D1 l1" "releases s0 D2 l2" "D1 \<inter> D2 = {}" "finite D1" "finite D2"
  shows "releases s0 (D1 \<union> D2) (l1 @ l2)"
proof -
  have "mset_set {x \<in> D1 \<union> D2. P x} = mset_set {x \<in> D1. P x} + mset_set {x \<in> D2. P x}" for P
  proof -
    have "{x \<in> D1 \<union> D2. P x} = {x \<in> D1. P x} \<union> {x \<in> D2. P x}" by blast
    moreover have "finite {x \<in> D1. P x}" "finite {x \<in> D2. P x}" "{x \<in> D1. P x} \<inter> {x \<in> D2. P x} = {}" using assms(3-5) by auto
    ultimately show ?thesis using mset_set_Union by metis
  qed
  then have "released_infos s0 (D1 \<union> D2) = released_infos s0 D1 + released_infos s0 D2" by (simp only: released_infos_def image_mset_union)
  then show ?thesis using assms(1,2) by (simp add: releases_def)
qed

lemma releases_empty [simp]: "releases s0 {} []"
  by (simp add: releases_def released_infos_def)

lemma gone_gone:
  "(\<And>x. x \<in> D1 \<Longrightarrow> x \<notin> C2 \<and> (\<forall>p \<in> D2. x \<notin> set (K p))) \<Longrightarrow>
   gone K s0 D2 C2 (gone K s0 D1 C1 nodes) = gone K s0 (D1 \<union> D2) (C1 \<union> C2) nodes"
  by (rule ext) (auto simp: gone_def)

text \<open>What the release of the last reference to \<open>t\<close> does, in any store that has the trees below \<open>t\<close>.\<close>

definition frees :: "(ptr \<Rightarrow> ptr list) \<Rightarrow> (ptr \<Rightarrow> nat) \<Rightarrow> CFTrees \<Rightarrow> ptr \<Rightarrow> bool" where
  "frees K E s0 t \<longleftrightarrow> (\<forall>s td0 td. ct_nodes s0 t = Some td0 \<longrightarrow> ct_nodes s t = Some td \<longrightarrow>
     (\<forall>x \<in> below K t - {t}. ct_nodes s x = ct_nodes s0 x) \<longrightarrow> tr_child td = tr_child td0 \<longrightarrow> tr_info td = tr_info td0 \<longrightarrow>
     CFTreeGetCallBacks td = CFTreeGetCallBacks td0 \<longrightarrow> counter64_ok (tr_base td) \<longrightarrow> header_rc (tr_base td) = 1 \<longrightarrow>
     (\<exists>s' N l. (\<forall>n \<ge> N. tree_release n True s t = Some s') \<and> ct_nodes s' = gone K s0 (dead K E t) {} (ct_nodes s) \<and>
        ct_calls s' = ct_calls s @ l \<and> releases s0 (dead K E t) l))"

lemma unat_one: "unat w = 1 \<longleftrightarrow> w = 1" for w :: "32 word"
  by (metis unsigned_1 unsigned_word_eqI)

text \<open>Releasing one child that has been unlinked.\<close>

lemma release_child:
  assumes f: "forest s0 K E" and c: "c \<in> set (K p)" "ct_nodes s0 c = Some cd" and same: "\<And>x. x \<in> below K c \<Longrightarrow> ct_nodes s x = ct_nodes s0 x"
    and fr: "E c = 0 \<Longrightarrow> frees K E s0 c" and s1: "s1 = s\<lparr>ct_nodes := (ct_nodes s)(c \<mapsto> cd\<lparr>tr_parent := NULL, tr_sibling := NULL\<rparr>)\<rparr>"
  shows "\<exists>s' N l. (\<forall>n \<ge> N. tree_release n True s1 c = Some s') \<and> ct_nodes s' = gone K s0 (dead_list K E [c]) {c} (ct_nodes s) \<and>
    ct_calls s' = ct_calls s @ l \<and> releases s0 (dead_list K E [c]) l"
proof -
  have ok: "counter64_ok (tr_base cd)" "unat (header_rc (tr_base cd)) = E c + 1"
    using forestD(7) [OF f c(2)] forest_parent(1,3) [OF f c(2) c(1)] by (auto simp: node_ok_def)
  show ?thesis
  proof (cases "E c = 0")
    case True
    have h: "header_rc (tr_base cd) = 1" using ok(2) True unat_one by simp
    obtain s' N l where r: "\<forall>n \<ge> N. tree_release n True s1 c = Some s'" "ct_nodes s' = gone K s0 (dead K E c) {} (ct_nodes s1)"
        "ct_calls s' = ct_calls s1 @ l" "releases s0 (dead K E c) l"
      using fr [OF True, unfolded frees_def, rule_format, OF c(2), of s1 "cd\<lparr>tr_parent := NULL, tr_sibling := NULL\<rparr>"] same ok(1) h s1 by auto
    have "gone K s0 (dead K E c) {} (ct_nodes s1) = gone K s0 (dead K E c) {c} (ct_nodes s)" by (rule ext) (auto simp: gone_def s1)
    then show ?thesis using r True s1 by (intro exI [of _ s'] exI [of _ N] exI [of _ l]) simp
  next
    case False
    have "header_rc (tr_base cd) \<noteq> 1" using ok(2) False unat_one [of "header_rc (tr_base cd)"] by simp
    then have r: "CFRelease64 CFTreeClass (tr_base cd) = Some (tr_base cd - RC_INCREMENT, False)" by (rule CFRelease64_counts [OF ok(1)])
    let ?s = "s\<lparr>ct_nodes := (ct_nodes s)(c \<mapsto> orphan cd)\<rparr>"
    have "tree_release n True s1 c = Some ?s" if "1 \<le> n" for n
      using that r s1 by (cases n) (simp_all add: orphan_def)
    moreover have "ct_nodes ?s = gone K s0 {} {c} (ct_nodes s)" using c(2) by (intro ext) (auto simp: gone_def)
    ultimately show ?thesis using False by (intro exI [of _ ?s] exI [of _ 1] exI [of _ "[]"]) simp
  qed
qed

lemma below_apart:
  assumes f: "forest s0 K E" and k: "K p = pre @ c # cs" and x: "x \<in> below K c"
  shows "x \<notin> set cs" "x \<notin> dead_list K E cs" "\<And>q. q \<in> dead_list K E cs \<Longrightarrow> x \<notin> set (K q)" "d \<in> set cs \<Longrightarrow> x \<notin> below K d"
proof -
  have d: "x \<notin> below K d" if "d \<in> set cs" for d
    using forest_disjoint [OF f, of c p d] k that forestD(4) [OF f, of p] x by auto
  then show "d \<in> set cs \<Longrightarrow> x \<notin> below K d" by blast
  show "x \<notin> set cs" using d below_self by blast
  have l: "dead_list K E cs \<subseteq> (\<Union>d \<in> set cs. below K d)" using dead_below by (fastforce simp: dead_list_def)
  show "x \<notin> dead_list K E cs" using d l by blast
  show "\<And>q. q \<in> dead_list K E cs \<Longrightarrow> x \<notin> set (K q)" using d l below_child by blast
qed

lemma gone_outside:
  assumes "x \<notin> below K c"
  shows "gone K s0 (dead_list K E [c]) {c} nodes x = nodes x"
proof -
  have "x \<notin> dead K E c" "x \<noteq> c" "\<forall>p \<in> dead K E c. x \<notin> set (K p)"
    using assms dead_below [of K E c] below_child [of _ K c x] below_self [of c K] by blast+
  then show ?thesis by (simp add: gone_def)
qed

lemma finite_dead_list:
  assumes "forest s0 K E" "set cs \<subseteq> dom (ct_nodes s0)"
  shows "finite (dead_list K E cs)"
proof -
  have "finite (dead K E c)" if "c \<in> set cs" for c using forest_below_dom(3) [OF assms(1)] assms(2) that by blast
  then show ?thesis by (auto simp: dead_list_def)
qed

text \<open>Releasing the rest of the children one by one.\<close>

lemma release_children:
  assumes f: "forest s0 K E"
  shows "K p = pre @ cs \<Longrightarrow> \<forall>c \<in> set cs. E c = 0 \<longrightarrow> frees K E s0 c \<Longrightarrow> \<forall>c \<in> set cs. \<forall>x \<in> below K c. ct_nodes s x = ct_nodes s0 x \<Longrightarrow>
    \<exists>s' N l. (\<forall>n \<ge> N. tree_release_loop n True s (head_or_null cs) = Some s') \<and> ct_nodes s' = gone K s0 (dead_list K E cs) (set cs) (ct_nodes s) \<and>
      ct_calls s' = ct_calls s @ l \<and> releases s0 (dead_list K E cs) l"
proof (induction cs arbitrary: s pre)
  case Nil
  have "gone K s0 {} {} (ct_nodes s) = ct_nodes s" by (rule ext) (simp add: gone_def)
  moreover have "tree_release_loop n True s NULL = Some s" if "1 \<le> n" for n using that by (cases n) simp_all
  ultimately show ?case by (intro exI [of _ s] exI [of _ 1] exI [of _ "[]"]) simp
next
  case (Cons c cs)
  have in_p: "c \<in> set (K p)" using Cons.prems(1) by simp
  obtain cd where cd: "ct_nodes s0 c = Some cd" "tr_sibling cd = head_or_null cs" using forest_step(1) [OF f Cons.prems(1)] by blast
  have c0: "c \<noteq> NULL" by (rule forest_step(2) [OF f Cons.prems(1)])
  have sc: "ct_nodes s c = Some cd" using Cons.prems(3) cd(1) by simp
  define s1 where "s1 = s\<lparr>ct_nodes := (ct_nodes s)(c \<mapsto> cd\<lparr>tr_parent := NULL, tr_sibling := NULL\<rparr>)\<rparr>"
  obtain s2 N1 l1 where s2: "\<forall>n \<ge> N1. tree_release n True s1 c = Some s2" "ct_nodes s2 = gone K s0 (dead_list K E [c]) {c} (ct_nodes s)"
      "ct_calls s2 = ct_calls s @ l1" "releases s0 (dead_list K E [c]) l1"
    using release_child [OF f in_p cd(1) _ _ s1_def] Cons.prems(2,3) by auto
  note apart = below_apart [OF f Cons.prems(1)]
  have "\<forall>d \<in> set cs. \<forall>x \<in> below K d. ct_nodes s2 x = ct_nodes s0 x"
    using gone_outside apart(4) Cons.prems(3) unfolding s2(2) by (metis list.set_intros(2))
  then obtain s' N2 l2 where s': "\<forall>n \<ge> N2. tree_release_loop n True s2 (head_or_null cs) = Some s'"
      "ct_nodes s' = gone K s0 (dead_list K E cs) (set cs) (ct_nodes s2)" "ct_calls s' = ct_calls s2 @ l2" "releases s0 (dead_list K E cs) l2"
    using Cons.IH [of "pre @ [c]" s2] Cons.prems(1,2) by auto
  have dl: "dead_list K E [c] \<subseteq> below K c" using dead_below by auto
  have "gone K s0 (dead_list K E cs) (set cs) (ct_nodes s2) = gone K s0 (dead_list K E [c] \<union> dead_list K E cs) ({c} \<union> set cs) (ct_nodes s)"
    unfolding s2(2) by (rule gone_gone) (use dl apart(1,3) in blast)
  then have nodes: "ct_nodes s' = gone K s0 (dead_list K E (c # cs)) (set (c # cs)) (ct_nodes s)" using s'(2) by simp
  have "tree_release_loop n True s (head_or_null (c # cs)) = Some s'" if n: "Suc (N1 + N2) \<le> n" for n
  proof -
    obtain m where m: "n = Suc m" "N1 \<le> m" "N2 \<le> m" using n by (cases n) auto
    then show ?thesis using s2(1) s'(1) sc cd(2) c0 by (simp add: s1_def)
  qed
  moreover have "releases s0 (dead_list K E (c # cs)) (l1 @ l2)"
  proof -
    have "set (c # cs) \<subseteq> dom (ct_nodes s0)" using Cons.prems(1) forestD(5) [OF f, of _ p] by fastforce
    then have "finite (dead_list K E [c])" "finite (dead_list K E cs)" using finite_dead_list [OF f, of "[c]"] finite_dead_list [OF f, of cs] by auto
    moreover have "dead_list K E [c] \<inter> dead_list K E cs = {}" using dl apart(2) by blast
    ultimately show ?thesis using releases_union [OF s2(4) s'(4)] by auto
  qed
  ultimately show ?case using nodes s2(3) s'(3) by (intro exI [of _ s'] exI [of _ "Suc (N1 + N2)"] exI [of _ "l1 @ l2"]) simp
qed

lemma not_dead_self:
  assumes f: "forest s0 K E"
  shows "t \<notin> dead_list K E (K t)" "t \<notin> set (K t)" "\<forall>p \<in> dead_list K E (K t). t \<notin> set (K p)"
proof -
  have l: "dead_list K E (K t) \<subseteq> (\<Union>d \<in> set (K t). below K d)" using dead_below by (fastforce simp: dead_list_def)
  have n: "t \<notin> below K d" if "d \<in> set (K t)" for d by (rule forest_not_below_child [OF f that])
  then show "t \<notin> dead_list K E (K t)" using l by blast
  show "t \<notin> set (K t)" by (rule forest_not_self [OF f])
  show "\<forall>p \<in> dead_list K E (K t). t \<notin> set (K p)"
  proof
    fix p assume "p \<in> dead_list K E (K t)"
    then obtain d where "d \<in> set (K t)" "p \<in> below K d" using l by blast
    then show "t \<notin> set (K p)" using n below_child by blast
  qed
qed

lemma forest_wf_down: "forest s K E \<Longrightarrow> wf ((tree_edges K)\<inverse>)"
  using finite_acyclic_wf_converse [OF forest_finite_edges forestD(3)] by blast

lemma releases_single:
  assumes "ct_nodes s0 t = Some td" "CFTreeGetCallBacks td = Some cb"
  shows "releases s0 {t} (if tcb_release cb \<noteq> NULL then [Release (tr_info td)] else [])"
proof -
  have "{x \<in> {t}. \<exists>cb. CFTreeGetCallBacks (the (ct_nodes s0 x)) = Some cb \<and> tcb_release cb \<noteq> NULL} = (if tcb_release cb \<noteq> NULL then {t} else {})"
    using assms by auto
  then show ?thesis using assms(1) by (simp add: releases_def released_infos_def)
qed

text \<open>By induction from the leaves up: the tree and all that goes with it is gone.\<close>

lemma forest_frees:
  assumes f: "forest s0 K E"
  shows "frees K E s0 t"
proof (induction t rule: wf_induct_rule [OF forest_wf_down [OF f]])
  case (1 t)
  show ?case unfolding frees_def
  proof (intro allI impI)
    fix s :: CFTrees and td0 td
    assume t0: "ct_nodes s0 t = Some td0" and t: "ct_nodes s t = Some td" and same: "\<forall>x \<in> below K t - {t}. ct_nodes s x = ct_nodes s0 x"
      and td: "tr_child td = tr_child td0" "tr_info td = tr_info td0" "CFTreeGetCallBacks td = CFTreeGetCallBacks td0"
      and h: "counter64_ok (tr_base td)" "header_rc (tr_base td) = 1"
    define s1 where "s1 = s\<lparr>ct_nodes := (ct_nodes s)(t \<mapsto> td\<lparr>tr_child := NULL, tr_rightmostChild := NULL\<rparr>)\<rparr>"
    have "\<forall>c \<in> set (K t). \<forall>x \<in> below K c. ct_nodes s1 x = ct_nodes s0 x"
      using same below_first [of _ K t] forest_not_below_child [OF f] by (auto simp: s1_def)
    then obtain s' N l where r: "\<forall>n \<ge> N. tree_release_loop n True s1 (head_or_null (K t)) = Some s'"
        "ct_nodes s' = gone K s0 (dead_list K E (K t)) (set (K t)) (ct_nodes s1)" "ct_calls s' = ct_calls s1 @ l" "releases s0 (dead_list K E (K t)) l"
      using release_children [OF f, of t "[]" "K t" s1] 1 by auto
    have k: "tr_child td = head_or_null (K t)" using forestD(7) [OF f t0] td(1) by (simp add: node_ok_def)
    have tn: "t \<notin> dead_list K E (K t)" "t \<notin> set (K t)" "\<forall>p \<in> dead_list K E (K t). t \<notin> set (K p)" by (rule not_dead_self [OF f])+
    have st: "ct_nodes s' t = Some (td\<lparr>tr_child := NULL, tr_rightmostChild := NULL\<rparr>)" using r(2) tn by (simp add: gone_def s1_def)
    obtain cb where cb: "CFTreeGetCallBacks td0 = Some cb" using forestD(7) [OF f t0] by (auto simp: node_ok_def)
    define s2 where "s2 = (if tcb_release cb \<noteq> NULL then tree_call s' (Release (tr_info td0)) else s')"
    define s3 where "s3 = s2\<lparr>ct_nodes := (ct_nodes s2)(t := None)\<rparr>"
    obtain h' where h': "CFRelease64 CFTreeClass (tr_base td) = Some (h', True)" using CFRelease64_frees [OF h] by blast
    have "tree_release n True s t = Some s3" if n: "Suc (Suc (Suc N)) \<le> n" for n
    proof -
      obtain m where m: "n = Suc (Suc (Suc m))" "N \<le> m" using n by (metis Suc_le_D Suc_le_mono)
      show ?thesis unfolding m(1) using m(2) t h' k r(1) st td(2,3) cb by (simp add: s1_def s2_def s3_def)
    qed
    moreover have "ct_nodes s3 = gone K s0 (dead K E t) {} (ct_nodes s)"
      unfolding s3_def s2_def dead_unfold [of K E t] using r(2) tn by (intro ext) (auto simp: gone_def s1_def tree_call_def)
    moreover have "ct_calls s3 = ct_calls s @ l @ (if tcb_release cb \<noteq> NULL then [Release (tr_info td0)] else [])"
      using r(3) by (simp add: s1_def s2_def s3_def tree_call_def)
    moreover have "releases s0 (dead K E t) (l @ (if tcb_release cb \<noteq> NULL then [Release (tr_info td0)] else []))"
    proof -
      have "set (K t) \<subseteq> dom (ct_nodes s0)" using forestD(5) [OF f, of _ t] by fastforce
      then have "releases s0 (dead_list K E (K t) \<union> {t}) (l @ (if tcb_release cb \<noteq> NULL then [Release (tr_info td0)] else []))"
        using releases_union [OF r(4) releases_single [of s0 t td0 cb]] t0 cb tn(1) finite_dead_list [OF f] by auto
      then show ?thesis by (simp add: dead_unfold [of K E t])
    qed
    ultimately show "\<exists>s' N l. (\<forall>n \<ge> N. tree_release n True s t = Some s') \<and> ct_nodes s' = gone K s0 (dead K E t) {} (ct_nodes s) \<and>
        ct_calls s' = ct_calls s @ l \<and> releases s0 (dead K E t) l" by blast
  qed
qed

text \<open>
  The forest that is left when the trees of \<open>D\<close> are gone: those of \<open>Z\<close> have lost their children, and
  everything in \<open>D\<close> was below a tree of \<open>D\<close> or \<open>Z\<close>.
\<close>

definition without :: "(ptr \<Rightarrow> ptr list) \<Rightarrow> ptr set \<Rightarrow> ptr \<Rightarrow> ptr list" where
  "without K D x = (if x \<in> D then [] else K x)"

definition childless :: "CFTree \<Rightarrow> CFTree" where
  "childless nd = nd\<lparr>tr_child := NULL, tr_rightmostChild := NULL\<rparr>"

lemma node_ok_orphan:
  assumes ok: "node_ok K E x nd" and p: "tr_parent nd \<noteq> NULL" and e: "1 \<le> E x" and k: "K' x = K x" "K' NULL = []"
  shows "node_ok K' E x (orphan nd)"
proof -
  have h: "counter64_ok (tr_base nd)" "unat (header_rc (tr_base nd)) = E x + 1" using ok p by (simp_all add: node_ok_def)
  have n: "header_rc (tr_base nd) \<noteq> 0" using h(2) by auto
  have u: "unat (header_rc (tr_base nd - RC_INCREMENT)) = E x" using unat_rc_down [OF n] h(2) by simp
  then have "header_rc (tr_base nd - RC_INCREMENT) \<noteq> 0" using e by auto
  then have "counter64_ok (tr_base nd - RC_INCREMENT)" using h(1) by (simp add: counter64_ok_def)
  moreover have "CFTreeGetCallBacks (orphan nd) = CFTreeGetCallBacks nd" by (simp add: orphan_def header_info_arith)
  ultimately show ?thesis using ok u k by (simp add: node_ok_def orphan_def)
qed

lemma forest_gone:
  assumes f: "forest s0 K E" and surv: "\<And>x. x \<notin> D \<Longrightarrow> (\<exists>p \<in> D \<union> Z. x \<in> set (K p)) \<Longrightarrow> 1 \<le> E x"
    and up: "\<And>d q. d \<in> D \<Longrightarrow> d \<in> set (K q) \<Longrightarrow> q \<in> D \<union> Z" and Z: "\<And>z p. z \<in> Z \<Longrightarrow> p \<in> D \<union> Z \<Longrightarrow> z \<notin> D \<and> z \<notin> set (K p)"
    and E': "\<And>x. x \<notin> D \<Longrightarrow> E' x = E x"
    and nodes: "\<And>x. ct_nodes s' x = gone K s0 D (\<Union>z \<in> Z. set (K z)) (\<lambda>x. if x \<in> Z then map_option childless (ct_nodes s0 x) else ct_nodes s0 x) x"
  shows "forest s' (without K (D \<union> Z)) E'"
proof -
  let ?K = "without K (D \<union> Z)"
  have k0: "?K NULL = []" using forestD(8) [OF f] by (simp add: without_def)
  have node: "ct_nodes s' x = (if x \<in> D then None else if \<exists>p \<in> D \<union> Z. x \<in> set (K p) then map_option orphan (ct_nodes s0 x)
      else if x \<in> Z then map_option childless (ct_nodes s0 x) else ct_nodes s0 x)" for x
    using nodes [of x] by (auto simp: gone_def)
  have sub: "set (?K x) \<subseteq> set (K x)" for x by (simp add: without_def)
  have d: "dom (ct_nodes s') \<subseteq> dom (ct_nodes s0)" using node by (auto split: if_splits)
  have child: "t \<in> dom (ct_nodes s') \<and> (\<exists>cd. ct_nodes s' c = Some cd \<and> tr_parent cd = t)" if c: "c \<in> set (?K t)" for t c
  proof -
    have t: "t \<notin> D" "t \<notin> Z" "c \<in> set (K t)" using c by (auto simp: without_def split: if_splits)
    obtain cd where cd: "ct_nodes s0 c = Some cd" "tr_parent cd = t" using forestD(5) [OF f t(3)] by blast
    have "c \<notin> D" "\<not> (\<exists>p \<in> D \<union> Z. c \<in> set (K p))" using up t forest_unique_parent [OF f t(3)] by blast+
    then show ?thesis using node [of c] node [of t] cd t forestD(6) [OF f t(3)] by (auto simp: childless_def)
  qed
  have ok: "node_ok ?K E' x nd'" if x: "ct_nodes s' x = Some nd'" for x nd'
  proof -
    have xD: "x \<notin> D" using node [of x] x by (auto split: if_splits)
    obtain nd where nd: "ct_nodes s0 x = Some nd" using d x by blast
    have o: "node_ok K E x nd" by (rule forestD(7) [OF f nd])
    show ?thesis
    proof (cases "\<exists>p \<in> D \<union> Z. x \<in> set (K p)")
      case True
      have "x \<notin> Z" using True Z by blast
      then have "node_ok ?K E x (orphan nd)" using node_ok_orphan [OF o] True surv [OF xD] forest_parent(1,3) [OF f nd] k0 xD by (auto simp: without_def)
      then show ?thesis using True node [of x] x xD nd E' by (auto simp: node_ok_def)
    next
      case False
      then have "tr_parent nd = NULL \<or> tr_parent nd \<notin> D \<union> Z" using forest_parent(2) [OF f nd] by blast
      then have "?K (tr_parent nd) = K (tr_parent nd)" using k0 forestD(8) [OF f] by (auto simp: without_def)
      then show ?thesis using False node [of x] x xD nd E' o by (cases "x \<in> Z") (auto simp: node_ok_def childless_def without_def)
    qed
  qed
  have "acyclic (tree_edges ?K)" by (rule acyclic_subset [OF forestD(3) [OF f]]) (auto simp: tree_edges_def without_def split: if_splits)
  moreover have "finite (dom (ct_nodes s'))" using d forestD(1) [OF f] finite_subset by blast
  moreover have "ct_nodes s' NULL = None" using d forestD(2) [OF f] by (auto simp: domIff dest!: subsetD [of _ _ NULL])
  moreover have "\<forall>t. distinct (?K t)" using forestD(4) [OF f] by (simp add: without_def)
  ultimately show ?thesis unfolding forest_def using child ok by blast
qed

text \<open>A surviving child has a reference from outside, and everything that goes is below.\<close>

lemma dead_facts:
  shows "x \<notin> dead K E t \<Longrightarrow> p \<in> dead K E t \<Longrightarrow> x \<in> set (K p) \<Longrightarrow> 1 \<le> E x"
    and "d \<in> dead K E t \<Longrightarrow> d = t \<or> (\<exists>q \<in> dead K E t. d \<in> set (K q))"
proof -
  let ?R = "{(p, c). c \<in> set (K p) \<and> E c = 0}"
  show "x \<notin> dead K E t \<Longrightarrow> p \<in> dead K E t \<Longrightarrow> x \<in> set (K p) \<Longrightarrow> 1 \<le> E x"
    using rtrancl.rtrancl_into_rtrancl [of t p ?R x] by (cases "E x") (auto simp: dead_def)
  assume "d \<in> dead K E t"
  then have "(t, d) \<in> ?R\<^sup>*" by (simp add: dead_def)
  then show "d = t \<or> (\<exists>q \<in> dead K E t. d \<in> set (K q))" by (cases rule: rtranclE) (auto simp: dead_def)
qed

text \<open>A change to a node that leaves the links as they are.\<close>

lemma forest_node_change:
  assumes f: "forest s K E" and t: "ct_nodes s t = Some nd" and n: "ct_nodes s' = (ct_nodes s)(t \<mapsto> nd')"
    and nd': "tr_parent nd' = tr_parent nd" "node_ok K E' t nd'" and E': "\<And>x. x \<noteq> t \<Longrightarrow> E' x = E x"
  shows "forest s' K E'"
proof -
  have t0: "t \<noteq> NULL" by (rule forest_parent(4) [OF f t])
  have "dom (ct_nodes s') = dom (ct_nodes s)" using n t by auto
  moreover have "\<exists>cd. ct_nodes s' c = Some cd \<and> tr_parent cd = p" if "c \<in> set (K p)" for c p
    using forestD(5) [OF f that] n nd'(1) t by (cases "c = t") auto
  moreover have "node_ok K E' x xd" if "ct_nodes s' x = Some xd" for x xd
    using that n nd'(2) forestD(7) [OF f, of x xd] E' by (cases "x = t") (simp_all add: node_ok_def)
  moreover have "t' \<in> dom (ct_nodes s)" if "c \<in> set (K t')" for c t' using forestD(6) [OF f that] by blast
  ultimately show ?thesis unfolding forest_def using forestD(1,2,3,4) [OF f] n t0 by (metis fun_upd_apply)
qed

text \<open>Releasing a tree in a forest: the trees that go with it, and what is left.\<close>

definition release_dead :: "(ptr \<Rightarrow> ptr list) \<Rightarrow> (ptr \<Rightarrow> nat) \<Rightarrow> ptr \<Rightarrow> ptr set" where
  "release_dead K E t = (if E t = 1 \<and> (\<forall>p. t \<notin> set (K p)) then dead K E t else {})"

lemma tree_release_forest:
  assumes f: "forest s K E" and t: "ct_nodes s t = Some nd" and e: "1 \<le> E t"
  shows "\<exists>s' N l. (\<forall>n \<ge> N. tree_release n True s t = Some s') \<and> forest s' (without K (release_dead K E t)) (E(t := E t - 1)) \<and>
    dom (ct_nodes s') = dom (ct_nodes s) - release_dead K E t \<and> ct_calls s' = ct_calls s @ l \<and> releases s (release_dead K E t) l"
proof (cases "E t = 1 \<and> (\<forall>p. t \<notin> set (K p))")
  case True
  let ?D = "dead K E t"
  have ok: "node_ok K E t nd" by (rule forestD(7) [OF f t])
  then have p: "tr_parent nd = NULL" using True by (auto simp: node_ok_def)
  then have h: "counter64_ok (tr_base nd)" "header_rc (tr_base nd) = 1" using ok True unat_one by (simp_all add: node_ok_def)
  obtain s' N l where r: "\<forall>n \<ge> N. tree_release n True s t = Some s'" "ct_nodes s' = gone K s ?D {} (ct_nodes s)" "ct_calls s' = ct_calls s @ l" "releases s ?D l"
    using forest_frees [OF f, of t, unfolded frees_def, rule_format, OF t t] h by blast
  have "forest s' (without K (?D \<union> {})) (E(t := E t - 1))"
  proof (rule forest_gone [OF f])
    show "\<And>x. x \<notin> ?D \<Longrightarrow> \<exists>p \<in> ?D \<union> {}. x \<in> set (K p) \<Longrightarrow> 1 \<le> E x" using dead_facts(1) by blast
    show "\<And>d q. d \<in> ?D \<Longrightarrow> d \<in> set (K q) \<Longrightarrow> q \<in> ?D \<union> {}" using dead_facts(2) [of _ K E t] forest_unique_parent [OF f] True by blast
    show "\<And>x. x \<notin> ?D \<Longrightarrow> (E(t := E t - 1)) x = E x" using dead_self by auto
  qed (simp_all add: r(2))
  moreover have "dom (ct_nodes s') = dom (ct_nodes s) - ?D" using forestD(5) [OF f] by (fastforce simp: r(2) gone_def dom_def split: if_splits)
  ultimately show ?thesis using r(1,3,4) True by (auto simp: release_dead_def)
next
  case False
  have ok: "node_ok K E t nd" by (rule forestD(7) [OF f t])
  have par: "tr_parent nd \<noteq> NULL \<longleftrightarrow> (\<exists>p. t \<in> set (K p))" using forest_parent(1,2,3) [OF f t] by blast
  then have n: "2 \<le> unat (header_rc (tr_base nd))" using ok False e by (auto simp: node_ok_def)
  let ?h = "tr_base nd - RC_INCREMENT"
  have h: "counter64_ok (tr_base nd)" "header_rc (tr_base nd) \<noteq> 1" "header_rc (tr_base nd) \<noteq> 0" using ok n by (auto simp: node_ok_def)
  have u: "unat (header_rc ?h) = unat (header_rc (tr_base nd)) - 1" by (rule unat_rc_down [OF h(3)])
  then have "header_rc ?h \<noteq> 0" using n by auto
  then have hok: "counter64_ok ?h" using h(1) by (simp add: counter64_ok_def)
  let ?s = "s\<lparr>ct_nodes := (ct_nodes s)(t \<mapsto> nd\<lparr>tr_base := ?h\<rparr>)\<rparr>"
  have "\<forall>n \<ge> 1. tree_release n True s t = Some ?s"
  proof (intro allI impI)
    fix n :: nat assume "1 \<le> n"
    then show "tree_release n True s t = Some ?s" using t CFRelease64_counts [OF h(1,2)] by (cases n) simp_all
  qed
  moreover have "node_ok K (E(t := E t - 1)) t (nd\<lparr>tr_base := ?h\<rparr>)" using ok u hok e by (simp add: node_ok_def header_info_arith)
  then have "forest ?s K (E(t := E t - 1))" using forest_node_change [OF f t, of ?s "nd\<lparr>tr_base := ?h\<rparr>"] by simp
  moreover have "without K {} = K" by (rule ext) (simp add: without_def)
  ultimately show ?thesis using False t by (intro exI [of _ ?s] exI [of _ 1] exI [of _ "[]"]) (auto simp: release_dead_def)
qed

lemma CFTreeRemoveAllChildren_forest:
  assumes f: "forest s K E" and t: "ct_nodes s t = Some nd"
  shows "\<exists>s' N l. (\<forall>n \<ge> N. CFTreeRemoveAllChildren n True s t = Some s') \<and> forest s' (without K (dead_list K E (K t) \<union> {t})) E \<and>
    dom (ct_nodes s') = dom (ct_nodes s) - dead_list K E (K t) \<and> ct_calls s' = ct_calls s @ l \<and> releases s (dead_list K E (K t)) l"
proof -
  let ?D = "dead_list K E (K t)"
  define s1 where "s1 = s\<lparr>ct_nodes := (ct_nodes s)(t \<mapsto> childless nd)\<rparr>"
  have "\<forall>c \<in> set (K t). \<forall>x \<in> below K c. ct_nodes s1 x = ct_nodes s x" using forest_not_below_child [OF f] by (auto simp: s1_def)
  then obtain s' N l where r: "\<forall>n \<ge> N. tree_release_loop n True s1 (head_or_null (K t)) = Some s'"
      "ct_nodes s' = gone K s ?D (set (K t)) (ct_nodes s1)" "ct_calls s' = ct_calls s1 @ l" "releases s ?D l"
    using release_children [OF f, of t "[]" "K t" s1] forest_frees [OF f] by auto
  have k: "tr_child nd = head_or_null (K t)" using forestD(7) [OF f t] by (simp add: node_ok_def)
  have run: "\<forall>n \<ge> Suc N. CFTreeRemoveAllChildren n True s t = Some s'"
  proof (intro allI impI)
    fix n assume "Suc N \<le> n"
    then obtain m where "n = Suc m" "N \<le> m" by (cases n) auto
    then show "CFTreeRemoveAllChildren n True s t = Some s'" using t k r(1) by (simp add: s1_def childless_def)
  qed
  note tn = not_dead_self [OF f, of t]
  have up: "q \<in> ?D \<union> {t}" if d: "d \<in> ?D" "d \<in> set (K q)" for d q
  proof -
    obtain c where c: "c \<in> set (K t)" "E c = 0" "d \<in> dead K E c" using d(1) by (auto simp: dead_list_def)
    then show ?thesis using dead_facts(2) [OF c(3)] forest_unique_parent [OF f d(2)] by (auto simp: dead_list_def)
  qed
  have surv: "1 \<le> E x" if "x \<notin> ?D" "\<exists>p \<in> ?D \<union> {t}. x \<in> set (K p)" for x
    using that dead_facts(1) [of x K E] dead_self [of x K E] by (cases "E x") (fastforce simp: dead_list_def)+
  have "forest s' (without K (?D \<union> {t})) E"
  proof (rule forest_gone [OF f surv up])
    fix x
    show "ct_nodes s' x = gone K s ?D (\<Union>z \<in> {t}. set (K z)) (\<lambda>x. if x \<in> {t} then map_option childless (ct_nodes s x) else ct_nodes s x) x"
      using t by (simp add: r(2) s1_def gone_def)
  qed (use tn in auto)
  moreover have "dom (ct_nodes s') = dom (ct_nodes s) - ?D"
    using forestD(5) [OF f] t by (fastforce simp: r(2) s1_def gone_def dom_def split: if_splits)
  ultimately show ?thesis using run r(3,4) by (intro exI [of _ s'] exI [of _ "Suc N"] exI [of _ l]) (auto simp: s1_def)
qed

section \<open>Contexts\<close>

lemma bit_mask_low: "bit (CFBitfieldMask (Suc 0) 0) k \<longleftrightarrow> k < 2"
  by (auto simp: CFBitfieldMask_def bit_simps)

lemma bit_three: "bit (3 :: 32 word) k \<longleftrightarrow> k < 2"
proof -
  have "(3 :: 32 word) = Bit_Operations.mask 2" by (simp add: mask_eq_exp_minus_1)
  then show ?thesis by (simp only: bit_mask_iff) auto
qed

lemma mask_low_three: "CFBitfieldMask (Suc 0) 0 = 3"
  by (rule bit_word_eqI) (simp only: bit_mask_low bit_three)

lemma get_set_type: "CFBitfieldGetValue (CFBitfieldSetValue v (Suc 0) 0 X) (Suc 0) 0 = X AND 3"
  unfolding mask_low_three [symmetric]
  by (rule bit_word_eqI) (auto simp: CFBitfieldGetValue_def CFBitfieldSetValue_def bit_mask_low bit_and_iff bit_or_iff bit_not_iff)

lemma set_type_high: "2 \<le> k \<Longrightarrow> bit (CFBitfieldSetValue v (Suc 0) 0 X) k \<longleftrightarrow> bit v k"
  using bit_imp_le_length [of v k] by (auto simp: CFBitfieldSetValue_def bit_mask_low bit_and_iff bit_or_iff bit_not_iff)

lemma set_type_header:
  assumes "h' = tr_base (CFTreeSetCallBacksType X nd)" "h = tr_base nd"
  shows "header_rc h' = header_rc h" "counter64_ok h' \<longleftrightarrow> counter64_ok h" "CFGenericTypeID h' = CFGenericTypeID h"
proof -
  have h': "h' = make_header (CFBitfieldSetValue (header_info h) (Suc 0) 0 X) (header_rc h)" using assms by (simp add: CFTreeSetCallBacksType_def)
  show rc: "header_rc h' = header_rc h" by (simp add: h' make_header_parts)
  have b: "bit h' k \<longleftrightarrow> bit h k" if "2 \<le> k" "k < 32" for k
    using that by (simp add: header_low_bits h' make_header_parts set_type_high)
  have "drop_bit 8 (header_info h') = drop_bit 8 (header_info h)"
    by (rule bit_word_eqI) (simp add: bit_drop_bit_eq h' make_header_parts set_type_high)
  then show ty: "CFGenericTypeID h' = CFGenericTypeID h" by (simp add: CFGenericTypeID_def)
  show "counter64_ok h' \<longleftrightarrow> counter64_ok h" using b [of 23] b [of 21] rc ty by (simp add: counter64_ok_def)
qed

lemma set_type_fields [simp]:
  "tr_parent (CFTreeSetCallBacksType X nd) = tr_parent nd" "tr_sibling (CFTreeSetCallBacksType X nd) = tr_sibling nd"
  "tr_child (CFTreeSetCallBacksType X nd) = tr_child nd" "tr_rightmostChild (CFTreeSetCallBacksType X nd) = tr_rightmostChild nd"
  "tr_info (CFTreeSetCallBacksType X nd) = tr_info nd" "tr_callbacks (CFTreeSetCallBacksType X nd) = tr_callbacks nd"
  "CFTreeGetCallBacksType (CFTreeSetCallBacksType X nd) = X AND 3"
  by (simp_all add: CFTreeSetCallBacksType_def CFTreeGetCallBacksType_def make_header_parts get_set_type)

lemma callbacks_info [simp]: "CFTreeGetCallBacks (nd\<lparr>tr_info := i\<rparr>) = CFTreeGetCallBacks nd"
  by (simp add: CFTreeGetCallBacks_def CFTreeGetCallBacksType_def)

text \<open>The callbacks of a context, and the node that has it.\<close>

definition context_callbacks :: "CFTreeContext \<Rightarrow> CFTreeCallBacks" where
  "context_callbacks c = \<lparr> tcb_retain = tcx_retain c, tcb_release = tcx_release c, tcb_copyDescription = tcx_copyDescription c \<rparr>"

definition context_info :: "cf_env \<Rightarrow> CFTreeContext \<Rightarrow> ptr" where
  "context_info env c = (if tcx_retain c \<noteq> NULL then env_retain env (tcx_retain c) (tcx_info c) else tcx_info c)"

lemma CFTreeSetContext_node:
  assumes t: "ct_nodes s t = Some nd" and cb: "CFTreeGetCallBacks nd = Some oldcb" and mem: "env_alloc env 24"
  shows "\<exists>nd'. CFTreeSetContext env s t (Some c) =
      Some (s\<lparr>ct_nodes := (ct_nodes s)(t \<mapsto> nd'), ct_calls := ct_calls s @ (if tcx_retain c \<noteq> NULL then [Retain (tcx_info c)] else []) @
         (if tcb_release oldcb \<noteq> NULL then [Release (tr_info nd)] else [])\<rparr>) \<and>
    CFTreeGetCallBacks nd' = Some (context_callbacks c) \<and> tr_info nd' = context_info env c \<and>
    tr_parent nd' = tr_parent nd \<and> tr_sibling nd' = tr_sibling nd \<and> tr_child nd' = tr_child nd \<and> tr_rightmostChild nd' = tr_rightmostChild nd \<and>
    header_rc (tr_base nd') = header_rc (tr_base nd) \<and> (counter64_ok (tr_base nd') \<longleftrightarrow> counter64_ok (tr_base nd))"
proof -
  define nullc where "nullc = CFTreeCallBacksMatchNull (Some c)"
  define cft where "cft = CFTreeCallBacksMatchCFType (Some c)"
  define T where "T = (if nullc then kCFTreeHasNullCallBacks else if cft then kCFTreeHasCFTypeCallBacks else kCFTreeHasCustomCallBacks)"
  define nb where "nb = (if nullc \<or> cft then nd else nd\<lparr>tr_callbacks := Some (context_callbacks c)\<rparr>)"
  define n1 where "n1 = CFTreeSetCallBacksType T nb"
  have base: "tr_base nb = tr_base nd" by (simp add: nb_def)
  have g: "CFTreeGetCallBacks n1 = Some (context_callbacks c)"
    by (auto simp: n1_def nb_def T_def CFTreeGetCallBacks_def kCFTreeHasNullCallBacks_def kCFTreeHasCFTypeCallBacks_def kCFTreeHasCustomCallBacks_def
        nullc_def cft_def CFTreeCallBacksMatchNull_def CFTreeCallBacksMatchCFType_def kCFNullTreeCallBacks_def kCFTypeTreeCallBacks_def context_callbacks_def)
  let ?n = "n1\<lparr>tr_info := context_info env c\<rparr>"
  have f: "tr_parent n1 = tr_parent nd" "tr_sibling n1 = tr_sibling nd" "tr_child n1 = tr_child nd" "tr_rightmostChild n1 = tr_rightmostChild nd"
    by (simp_all add: n1_def nb_def)
  have h: "header_rc (tr_base n1) = header_rc (tr_base nd)" "counter64_ok (tr_base n1) \<longleftrightarrow> counter64_ok (tr_base nd)"
    using set_type_header [OF refl refl, of T nb] base by (simp_all add: n1_def)
  have "CFTreeSetContext env s t (Some c) =
      Some (s\<lparr>ct_nodes := (ct_nodes s)(t \<mapsto> ?n), ct_calls := ct_calls s @ (if tcx_retain c \<noteq> NULL then [Retain (tcx_info c)] else []) @
         (if tcb_release oldcb \<noteq> NULL then [Release (tr_info nd)] else [])\<rparr>)"
  proof -
    have "CFTreeSetContext env s t (Some c) = do {
       let s = s\<lparr>ct_nodes := (ct_nodes s)(t \<mapsto> n1)\<rparr>;
       s \<leftarrow> (if tcx_retain c \<noteq> NULL
           then tree_set (tree_call s (Retain (tcx_info c))) t (\<lambda>nd. nd\<lparr>tr_info := env_retain env (tcx_retain c) (tcx_info c)\<rparr>)
           else tree_set s t (\<lambda>nd. nd\<lparr>tr_info := tcx_info c\<rparr>));
       Some (if tcb_release oldcb \<noteq> NULL then tree_call s (Release (tr_info nd)) else s) }"
      using t cb mem g
      by (auto simp: CFTreeSetContext_def nullc_def [symmetric] cft_def [symmetric] n1_def nb_def T_def context_callbacks_def)
    then show ?thesis by (auto simp: tree_call_def context_info_def)
  qed
  then show ?thesis using g f h by (intro exI [of _ ?n]) simp
qed

section \<open>Trees and their clients\<close>

text \<open>
  The operations a client calls, and what they do to the forest the client sees: the trees that exist,
  their children and the references the client holds.  The steps are those of the OS X build (\<open>mac\<close> is
  true).
\<close>

datatype tree_op =
    CreateTree ptr CFTreeContext
  | SetContext ptr CFTreeContext
  | PrependChild ptr ptr
  | AppendChild ptr ptr
  | InsertSibling ptr ptr
  | RemoveTree ptr
  | RemoveAllChildren ptr
  | SortChildren ptr
  | RetainTree ptr
  | ReleaseTree ptr

fun tree_step :: "nat \<Rightarrow> cf_env \<Rightarrow> CFRuntime \<Rightarrow> nat \<Rightarrow> (ptr \<Rightarrow> ptr \<Rightarrow> int) \<Rightarrow> tree_op \<Rightarrow> CFTrees \<Rightarrow> CFTrees option" where
  "tree_step n env rt typeID cmp (CreateTree new c) s = map_option fst (CFTreeCreate env rt typeID s new (Some c))"
| "tree_step n env rt typeID cmp (SetContext t c) s = CFTreeSetContext env s t (Some c)"
| "tree_step n env rt typeID cmp (PrependChild t c) s = CFTreePrependChild s t c"
| "tree_step n env rt typeID cmp (AppendChild t c) s = CFTreeAppendChild s t c"
| "tree_step n env rt typeID cmp (InsertSibling t c) s = CFTreeInsertSibling s t c"
| "tree_step n env rt typeID cmp (RemoveTree t) s = CFTreeRemove n True s t"
| "tree_step n env rt typeID cmp (RemoveAllChildren t) s = CFTreeRemoveAllChildren n True s t"
| "tree_step n env rt typeID cmp (SortChildren t) s = CFTreeSortChildren env cmp s t"
| "tree_step n env rt typeID cmp (RetainTree t) s = tree_retain s t"
| "tree_step n env rt typeID cmp (ReleaseTree t) s = tree_release n True s t"

fun tree_run :: "nat \<Rightarrow> cf_env \<Rightarrow> CFRuntime \<Rightarrow> nat \<Rightarrow> (ptr \<Rightarrow> ptr \<Rightarrow> int) \<Rightarrow> tree_op list \<Rightarrow> CFTrees \<Rightarrow> CFTrees option" where
  "tree_run n env rt typeID cmp [] s = Some s"
| "tree_run n env rt typeID cmp (op # ops) s = do { s \<leftarrow> tree_step n env rt typeID cmp op s; tree_run n env rt typeID cmp ops s }"

record tree_forest =
  fo_alive :: "ptr set"
  fo_kids :: "ptr \<Rightarrow> ptr list"
  fo_refs :: "ptr \<Rightarrow> nat"

definition drop_reference :: "ptr \<Rightarrow> tree_forest \<Rightarrow> tree_forest" where
  "drop_reference t a = (let D = release_dead (fo_kids a) (fo_refs a) t
     in a\<lparr>fo_alive := fo_alive a - D, fo_kids := without (fo_kids a) D, fo_refs := (fo_refs a)(t := fo_refs a t - 1)\<rparr>)"

fun tree_effect :: "(ptr \<Rightarrow> ptr \<Rightarrow> int) \<Rightarrow> tree_op \<Rightarrow> tree_forest \<Rightarrow> tree_forest" where
  "tree_effect cmp (CreateTree new c) a = a\<lparr>fo_alive := insert new (fo_alive a), fo_refs := (fo_refs a)(new := 1)\<rparr>"
| "tree_effect cmp (SetContext t c) a = a"
| "tree_effect cmp (PrependChild t c) a = a\<lparr>fo_kids := (fo_kids a)(t := c # fo_kids a t)\<rparr>"
| "tree_effect cmp (AppendChild t c) a = a\<lparr>fo_kids := (fo_kids a)(t := fo_kids a t @ [c])\<rparr>"
| "tree_effect cmp (InsertSibling x c) a = a\<lparr>fo_kids := \<lambda>t. if x \<in> set (fo_kids a t) then insert_after x c (fo_kids a t) else fo_kids a t\<rparr>"
| "tree_effect cmp (RemoveTree x) a =
     (if \<exists>t. x \<in> set (fo_kids a t)
      then drop_reference x (a\<lparr>fo_kids := \<lambda>t. remove1 x (fo_kids a t), fo_refs := (fo_refs a)(x := fo_refs a x + 1)\<rparr>)
      else a)"
| "tree_effect cmp (RemoveAllChildren t) a =
     (let D = dead_list (fo_kids a) (fo_refs a) (fo_kids a t)
      in a\<lparr>fo_alive := fo_alive a - D, fo_kids := without (fo_kids a) (D \<union> {t})\<rparr>)"
| "tree_effect cmp (SortChildren t) a = a\<lparr>fo_kids := (fo_kids a)(t := stable_sort cmp (fo_kids a t))\<rparr>"
| "tree_effect cmp (RetainTree t) a = a\<lparr>fo_refs := (fo_refs a)(t := fo_refs a t + 1)\<rparr>"
| "tree_effect cmp (ReleaseTree t) a = drop_reference t a"

text \<open>
  What the client has to observe: it uses trees that exist and releases the references it has, a new child
  has no parent and is not above its new parent, and counts stay below \<open>2 ^ 32\<close>.
\<close>

fun tree_allowed :: "tree_op \<Rightarrow> tree_forest \<Rightarrow> bool" where
  "tree_allowed (CreateTree new c) a \<longleftrightarrow> new \<noteq> NULL \<and> new \<notin> fo_alive a"
| "tree_allowed (SetContext t c) a \<longleftrightarrow> t \<in> fo_alive a"
| "tree_allowed (PrependChild t c) a \<longleftrightarrow> t \<in> fo_alive a \<and> c \<in> fo_alive a \<and> can_adopt (fo_kids a) (fo_refs a) t c"
| "tree_allowed (AppendChild t c) a \<longleftrightarrow> t \<in> fo_alive a \<and> c \<in> fo_alive a \<and> can_adopt (fo_kids a) (fo_refs a) t c"
| "tree_allowed (InsertSibling x c) a \<longleftrightarrow> c \<in> fo_alive a \<and> (\<exists>t. x \<in> set (fo_kids a t) \<and> can_adopt (fo_kids a) (fo_refs a) t c)"
| "tree_allowed (RemoveTree x) a \<longleftrightarrow> x \<in> fo_alive a"
| "tree_allowed (RemoveAllChildren t) a \<longleftrightarrow> t \<in> fo_alive a"
| "tree_allowed (SortChildren t) a \<longleftrightarrow> t \<in> fo_alive a \<and> length (fo_kids a t) < 2 ^ 31"
| "tree_allowed (RetainTree t) a \<longleftrightarrow> t \<in> fo_alive a \<and> fo_refs a t + 2 < 2 ^ 32"
| "tree_allowed (ReleaseTree t) a \<longleftrightarrow> t \<in> fo_alive a \<and> 1 \<le> fo_refs a t"

fun tree_effects :: "(ptr \<Rightarrow> ptr \<Rightarrow> int) \<Rightarrow> tree_op list \<Rightarrow> tree_forest \<Rightarrow> tree_forest" where
  "tree_effects cmp [] a = a"
| "tree_effects cmp (op # ops) a = tree_effects cmp ops (tree_effect cmp op a)"

fun tree_allows :: "(ptr \<Rightarrow> ptr \<Rightarrow> int) \<Rightarrow> tree_op list \<Rightarrow> tree_forest \<Rightarrow> bool" where
  "tree_allows cmp [] a \<longleftrightarrow> True"
| "tree_allows cmp (op # ops) a \<longleftrightarrow> tree_allowed op a \<and> tree_allows cmp ops (tree_effect cmp op a)"

definition tree_refines :: "CFTrees \<Rightarrow> tree_forest \<Rightarrow> bool" where
  "tree_refines s a \<longleftrightarrow> forest s (fo_kids a) (fo_refs a) \<and> dom (ct_nodes s) = fo_alive a"

definition tree_class_registered :: "CFRuntime \<Rightarrow> nat \<Rightarrow> bool" where
  "tree_class_registered rt typeID \<longleftrightarrow> typeID < CFRuntimeClassTableSize \<and> CFRuntimeClassTable rt typeID = Some CFTreeClass \<and>
     typeID \<noteq> kCFAllocatorTypeID_CONST"

lemma CFTreeClass_plain: "\<not> has_custom_rc CFTreeClass"
  by (simp add: has_custom_rc_def CFTreeClass_def kCFRuntimeCustomRefCount_def)

lemma CFTreeCreate_forest:
  assumes f: "forest s K E" and new: "ct_nodes s new = None" "new \<noteq> NULL" and rt: "tree_class_registered rt typeID" and mem: "\<And>n. env_alloc env n"
  shows "\<exists>s' nd. CFTreeCreate env rt typeID s new (Some c) = Some (s', new) \<and> forest s' K (E(new := 1)) \<and> dom (ct_nodes s') = insert new (dom (ct_nodes s)) \<and>
    ct_nodes s' = (ct_nodes s)(new \<mapsto> nd) \<and> CFTreeGetCallBacks nd = Some (context_callbacks c) \<and> tr_info nd = context_info env c \<and>
    ct_calls s' = ct_calls s @ (if tcx_retain c \<noteq> NULL then [Retain (tcx_info c)] else [])"
proof -
  obtain h where h: "CFRuntimeCreateInstance_header env rt typeID 48 = Some (Some h)"
    using rt mem CFTreeClass_plain by (auto simp: tree_class_registered_def CFRuntimeCreateInstance_header_def CFRuntimeCreateInstance_def Let_def)
  have "CFRuntimeClassTable rt typeID = Some CFTreeClass" using rt by (simp add: tree_class_registered_def)
  note hp = CFRuntimeCreateInstance_new [OF h this CFTreeClass_plain]
  then have ok: "counter64_ok h" using rt by (simp add: counter64_ok_def tree_class_registered_def)
  define nd0 where "nd0 = \<lparr> tr_base = h, tr_parent = NULL, tr_sibling = NULL, tr_child = NULL, tr_rightmostChild = NULL, tr_info = NULL, tr_callbacks = None \<rparr>"
  define nd1 where "nd1 = CFTreeSetCallBacksType kCFTreeHasNullCallBacks nd0"
  define s1 where "s1 = s\<lparr>ct_nodes := (ct_nodes s)(new \<mapsto> nd1)\<rparr>"
  have cb: "CFTreeGetCallBacks nd1 = Some kCFNullTreeCallBacks" by (simp add: nd1_def CFTreeGetCallBacks_def kCFTreeHasNullCallBacks_def)
  have s1: "ct_nodes s1 new = Some nd1" by (simp add: s1_def)
  obtain nd where r: "CFTreeSetContext env s1 new (Some c) =
      Some (s1\<lparr>ct_nodes := (ct_nodes s1)(new \<mapsto> nd), ct_calls := ct_calls s1 @ (if tcx_retain c \<noteq> NULL then [Retain (tcx_info c)] else [])\<rparr>)"
    "CFTreeGetCallBacks nd = Some (context_callbacks c)" "tr_info nd = context_info env c" "tr_parent nd = NULL" "tr_sibling nd = NULL" "tr_child nd = NULL" "tr_rightmostChild nd = NULL"
    "header_rc (tr_base nd) = 1" "counter64_ok (tr_base nd)"
    using CFTreeSetContext_node [OF s1 cb mem, of c] set_type_header [OF refl refl, of kCFTreeHasNullCallBacks nd0] hp(1) ok
    by (auto simp: nd1_def nd0_def kCFNullTreeCallBacks_def)
  let ?s = "s1\<lparr>ct_nodes := (ct_nodes s1)(new \<mapsto> nd), ct_calls := ct_calls s1 @ (if tcx_retain c \<noteq> NULL then [Retain (tcx_info c)] else [])\<rparr>"
  have run: "CFTreeCreate env rt typeID s new (Some c) = Some (?s, new)"
    using h r(1) by (simp add: CFTreeCreate_def nd0_def [symmetric] nd1_def [symmetric] s1_def [symmetric])
  have nodes: "ct_nodes ?s = (ct_nodes s)(new \<mapsto> nd)" by (simp add: s1_def)
  have kn: "K new = []" using forestD(6) [OF f, of _ new] new(1) by (cases "K new") auto
  have nk: "new \<notin> set (K p)" for p using forestD(5) [OF f, of new p] new(1) by auto
  have "node_ok K (E(new := 1)) new nd" using r kn forestD(8) [OF f] by (simp add: node_ok_def)
  then have "forest ?s K (E(new := 1))"
    using forestD [OF f] nk new(2) unfolding forest_def nodes by (auto simp: node_ok_def)
  then show ?thesis using run nodes r(2,3) by (intro exI [of _ ?s] exI [of _ nd]) (auto simp: s1_def)
qed

lemma kids_update:
  assumes f: "forest s K E" and x: "x \<in> set (K t)"
  shows "(\<lambda>u. if x \<in> set (K u) then g (K u) else K u) = K(t := g (K t))" "(\<lambda>u. remove1 x (K u)) = K(t := remove1 x (K t))"
proof -
  have "x \<in> set (K u) \<longleftrightarrow> u = t" for u using forest_unique_parent [OF f x] x by blast
  then show "(\<lambda>u. if x \<in> set (K u) then g (K u) else K u) = K(t := g (K t))" "(\<lambda>u. remove1 x (K u)) = K(t := remove1 x (K t))"
    by (auto simp: fun_eq_iff remove1_idem)
qed

text \<open>The operations that do not release anything.\<close>

lemma tree_step_links:
  assumes r: "tree_refines s a" and a: "tree_allowed op a" and cmp: "comparator cmp" and rt: "tree_class_registered rt typeID" and mem: "\<And>n. env_alloc env n"
    and op: "op \<in> {CreateTree t c, SetContext t c, PrependChild t x, AppendChild t x, InsertSibling t x, SortChildren t, RetainTree t}"
  shows "\<exists>s'. (\<forall>n. tree_step n env rt typeID cmp op s = Some s') \<and> tree_refines s' (tree_effect cmp op a)"
proof -
  let ?K = "fo_kids a" and ?E = "fo_refs a"
  have f: "forest s ?K ?E" and d: "dom (ct_nodes s) = fo_alive a" using r by (auto simp: tree_refines_def)
  have alive: "\<exists>nd. ct_nodes s t = Some nd" if "t \<in> fo_alive a" for t using that d by blast
  consider "op = CreateTree t c" | "op = SetContext t c" | "op = PrependChild t x" | "op = AppendChild t x" | "op = InsertSibling t x"
    | "op = SortChildren t" | "op = RetainTree t" using op by auto
  then show ?thesis
  proof cases
    case 1
    have "ct_nodes s t = None" "t \<noteq> NULL" using 1 a d by auto
    then show ?thesis using CFTreeCreate_forest [OF f _ _ rt mem, of t c] 1 d by (fastforce simp: tree_refines_def)
  next
    case 2
    obtain nd where nd: "ct_nodes s t = Some nd" using alive 2 a by auto
    have ok: "node_ok ?K ?E t nd" by (rule forestD(7) [OF f nd])
    then obtain oldcb where cb: "CFTreeGetCallBacks nd = Some oldcb" by (auto simp: node_ok_def)
    obtain nd' l where n: "CFTreeSetContext env s t (Some c) = Some (s\<lparr>ct_nodes := (ct_nodes s)(t \<mapsto> nd'), ct_calls := l\<rparr>)"
      "tr_parent nd' = tr_parent nd" "node_ok ?K ?E t nd'"
      using CFTreeSetContext_node [OF nd cb mem, of c] ok by (fastforce simp: node_ok_def)
    have "forest (s\<lparr>ct_nodes := (ct_nodes s)(t \<mapsto> nd'), ct_calls := l\<rparr>) ?K ?E" by (rule forest_node_change [OF f nd _ n(2,3)]) simp_all
    then show ?thesis using n(1) 2 d nd by (auto simp: tree_refines_def)
  next
    case 3
    obtain nd nc where n: "ct_nodes s t = Some nd" "ct_nodes s x = Some nc" using alive [of t] alive [of x] 3 a by auto
    then show ?thesis using CFTreePrependChild_forest [OF f n] 3 a d by (auto simp: tree_refines_def)
  next
    case 4
    obtain nd nc where n: "ct_nodes s t = Some nd" "ct_nodes s x = Some nc" using alive [of t] alive [of x] 4 a by auto
    then show ?thesis using CFTreeAppendChild_forest [OF f n] 4 a d by (auto simp: tree_refines_def)
  next
    case 5
    obtain p nc where n: "t \<in> set (?K p)" "ct_nodes s x = Some nc" "can_adopt ?K ?E p x" using alive [of x] 5 a by auto
    then show ?thesis using CFTreeInsertSibling_forest [OF f n] kids_update(1) [OF f n(1), of "insert_after t x"] 5 d by (auto simp: tree_refines_def)
  next
    case 6
    obtain nd where n: "ct_nodes s t = Some nd" using alive 6 a by auto
    then show ?thesis using CFTreeSortChildren_forest [OF cmp f n, of env] 6 a d mem by (auto simp: tree_refines_def)
  next
    case 7
    obtain nd where n: "ct_nodes s t = Some nd" using alive 7 a by auto
    have ok: "node_ok ?K ?E t nd" by (rule forestD(7) [OF f n])
    then have c: "counter64_ok (tr_base nd)" "unat (header_rc (tr_base nd)) + 1 < 2 ^ 32" using 7 a by (auto simp: node_ok_def)
    obtain h where h: "tree_retain s t = Some (s\<lparr>ct_nodes := (ct_nodes s)(t \<mapsto> nd\<lparr>tr_base := h\<rparr>)\<rparr>)" "retained_header (tr_base nd) h"
      using tree_retain_works [OF n c] by blast
    have "node_ok ?K (?E(t := ?E t + 1)) t (nd\<lparr>tr_base := h\<rparr>)" using ok h(2) by (simp add: node_ok_def retained_header_def)
    then have "forest (s\<lparr>ct_nodes := (ct_nodes s)(t \<mapsto> nd\<lparr>tr_base := h\<rparr>)\<rparr>) ?K (?E(t := ?E t + 1))"
      using forest_node_change [OF f n, of _ "nd\<lparr>tr_base := h\<rparr>"] by simp
    then show ?thesis using h(1) 7 d n by (auto simp: tree_refines_def)
  qed
qed

lemma tree_release_refines:
  assumes r: "tree_refines s a" and t: "t \<in> fo_alive a" "1 \<le> fo_refs a t"
  shows "\<exists>s' N. (\<forall>n \<ge> N. tree_release n True s t = Some s') \<and> tree_refines s' (drop_reference t a)"
proof -
  have f: "forest s (fo_kids a) (fo_refs a)" and d: "dom (ct_nodes s) = fo_alive a" using r by (auto simp: tree_refines_def)
  obtain nd where n: "ct_nodes s t = Some nd" using t d by blast
  show ?thesis using tree_release_forest [OF f n t(2)] d by (fastforce simp: tree_refines_def drop_reference_def Let_def)
qed

lemma tree_step_refines:
  assumes r: "tree_refines s a" and a: "tree_allowed op a" and cmp: "comparator cmp" and rt: "tree_class_registered rt typeID" and mem: "\<And>n. env_alloc env n"
  shows "\<exists>s' N. (\<forall>n \<ge> N. tree_step n env rt typeID cmp op s = Some s') \<and> tree_refines s' (tree_effect cmp op a)"
proof -
  let ?K = "fo_kids a" and ?E = "fo_refs a"
  have f: "forest s ?K ?E" and d: "dom (ct_nodes s) = fo_alive a" using r by (auto simp: tree_refines_def)
  note links = tree_step_links [OF r a cmp rt mem]
  show ?thesis
  proof (cases op)
    case (RemoveTree x)
    show ?thesis
    proof (cases "\<exists>t. x \<in> set (?K t)")
      case True
      then obtain t where x: "x \<in> set (?K t)" by blast
      obtain s' where s': "\<forall>n mac. CFTreeRemove n mac s x = tree_release n mac s' x" "forest s' (?K(t := remove1 x (?K t))) (?E(x := ?E x + 1))" "dom (ct_nodes s') = dom (ct_nodes s)"
        using CFTreeRemove_forest [OF f x] by blast
      let ?a = "a\<lparr>fo_kids := \<lambda>t. remove1 x (?K t), fo_refs := ?E(x := ?E x + 1)\<rparr>"
      have "tree_refines s' ?a" using s'(2,3) kids_update(2) [OF f x] d by (simp add: tree_refines_def)
      moreover have "x \<in> fo_alive ?a" "1 \<le> fo_refs ?a x" using RemoveTree a by simp_all
      ultimately show ?thesis using tree_release_refines [of s' ?a x] s'(1) True RemoveTree by simp
    next
      case False
      obtain nd where n: "ct_nodes s x = Some nd" using RemoveTree a d by auto
      then have "tr_parent nd = NULL" using False forest_parent(2) [OF f n] by blast
      then show ?thesis using n False RemoveTree r by (auto simp: CFTreeRemove_def)
    qed
  next
    case (RemoveAllChildren t)
    obtain nd where n: "ct_nodes s t = Some nd" using RemoveAllChildren a d by auto
    show ?thesis using CFTreeRemoveAllChildren_forest [OF f n] RemoveAllChildren d by (fastforce simp: tree_refines_def Let_def)
  next
    case (ReleaseTree t)
    then show ?thesis using tree_release_refines [OF r, of t] a by simp
  qed (use links in blast)+
qed

lemma tree_run_refines:
  assumes cmp: "comparator cmp" and rt: "tree_class_registered rt typeID" and mem: "\<And>n. env_alloc env n"
  shows "tree_refines s a \<Longrightarrow> tree_allows cmp ops a \<Longrightarrow>
    \<exists>s' N. (\<forall>n \<ge> N. tree_run n env rt typeID cmp ops s = Some s') \<and> tree_refines s' (tree_effects cmp ops a)"
proof (induction ops arbitrary: s a)
  case (Cons op ops)
  obtain s1 N1 where s1: "\<forall>n \<ge> N1. tree_step n env rt typeID cmp op s = Some s1" "tree_refines s1 (tree_effect cmp op a)"
    using tree_step_refines [OF Cons.prems(1) _ cmp rt mem, of op] Cons.prems(2) by auto
  obtain s' N2 where s': "\<forall>n \<ge> N2. tree_run n env rt typeID cmp ops s1 = Some s'" "tree_refines s' (tree_effects cmp ops (tree_effect cmp op a))"
    using Cons.IH [OF s1(2)] Cons.prems(2) by auto
  have "\<forall>n \<ge> max N1 N2. tree_run n env rt typeID cmp (op # ops) s = Some s'" using s1(1) s'(1) by simp
  then show ?case using s'(2) by (simp only: tree_effects.simps) blast
qed auto

section \<open>Properties\<close>

text \<open>
  C2. Any sequence of operations on trees in which the client uses trees that exist, releases only
  references it holds and links only trees without a parent below trees they are not above, runs without
  undefined behaviour - no node is used after it is freed - and does to the links and counts what the
  operations promise for the lists of children, with all readings.  Every recursion ends.  This is the
  OS X build, where the deallocation of a tree removes its children.
\<close>

theorem CFTree_operations_refine:
  assumes "comparator cmp" "tree_class_registered rt typeID" "\<And>n. env_alloc env n" "tree_refines s a" "tree_allows cmp ops a"
  shows "\<exists>s' N. (\<forall>n \<ge> N. tree_run n env rt typeID cmp ops s = Some s') \<and> tree_refines s' (tree_effects cmp ops a) \<and>
    (\<forall>t \<in> fo_alive (tree_effects cmp ops a).
       CFTreeApplyFunctionToChildren s' t = Some (fo_kids (tree_effects cmp ops a) t) \<and>
       CFTreeGetChildren s' t (fresh_cells (length (fo_kids (tree_effects cmp ops a) t))) = Some (map Some (fo_kids (tree_effects cmp ops a) t)) \<and>
       (\<forall>i. CFTreeGetChildAtIndex s' t (int i) =
          Some (if i < length (fo_kids (tree_effects cmp ops a) t) then fo_kids (tree_effects cmp ops a) t ! i else NULL)) \<and>
       (\<forall>c \<in> set (fo_kids (tree_effects cmp ops a) t). CFTreeGetParent s' c = Some t) \<and>
       (\<exists>r. CFTreeFindRoot s' t = Some r \<and> t \<in> below (fo_kids (tree_effects cmp ops a)) r \<and> CFTreeGetParent s' r = Some NULL))"
proof -
  obtain s' N where s': "\<forall>n \<ge> N. tree_run n env rt typeID cmp ops s = Some s'" "tree_refines s' (tree_effects cmp ops a)"
    using tree_run_refines [OF assms] by blast
  let ?K = "fo_kids (tree_effects cmp ops a)"
  have f: "forest s' ?K (fo_refs (tree_effects cmp ops a))" using s'(2) by (simp add: tree_refines_def)
  have "CFTreeApplyFunctionToChildren s' t = Some (?K t) \<and> CFTreeGetChildren s' t (fresh_cells (length (?K t))) = Some (map Some (?K t)) \<and>
       (\<forall>i. CFTreeGetChildAtIndex s' t (int i) = Some (if i < length (?K t) then ?K t ! i else NULL)) \<and>
       (\<forall>c \<in> set (?K t). CFTreeGetParent s' c = Some t) \<and>
       (\<exists>r. CFTreeFindRoot s' t = Some r \<and> t \<in> below ?K r \<and> CFTreeGetParent s' r = Some NULL)" if t: "t \<in> fo_alive (tree_effects cmp ops a)" for t
  proof -
    obtain nd where nd: "ct_nodes s' t = Some nd" using t s'(2) by (auto simp: tree_refines_def)
    have "CFTreeGetParent s' c = Some t" if "c \<in> set (?K t)" for c
      using forestD(5) [OF f that] by (auto simp: CFTreeGetParent_def)
    then show ?thesis using forest_reads [OF f nd] CFTreeFindRoot_forest [OF f nd] by (auto simp: below_def CFTreeGetParent_def)
  qed
  then show ?thesis using s' by blast
qed

definition tree_env :: cf_env where
  "tree_env = \<lparr> env_alloc = \<lambda>_. True, env_retain = \<lambda>_ p. p, env_equal = \<lambda>_ p q. p = q, env_compare = \<lambda>_ _ _ _. 0 \<rparr>"

definition tree_runtime :: CFRuntime where
  "tree_runtime = \<lparr> rt_table = [None, None, None, Some CFTreeClass], rt_count = 4 \<rparr>"

definition no_trees :: CFTrees where
  "no_trees = \<lparr> ct_nodes = \<lambda>_. None, ct_calls = [] \<rparr>"

definition no_forest :: tree_forest where
  "no_forest = \<lparr> fo_alive = {}, fo_kids = \<lambda>_. [], fo_refs = \<lambda>_. 0 \<rparr>"

definition number_context :: CFTreeContext where
  "number_context = \<lparr> tcx_version = 0, tcx_info = 7, tcx_retain = 16, tcx_release = 32, tcx_copyDescription = 48 \<rparr>"

definition same_rank :: "ptr \<Rightarrow> ptr \<Rightarrow> int" where
  "same_rank p q = 0"

lemma tree_examples:
  "comparator same_rank" "tree_class_registered tree_runtime 3" "env_alloc tree_env n" "tree_refines no_trees no_forest"
  by (simp_all add: comparator_def same_rank_def tree_class_registered_def tree_runtime_def CFRuntimeClassTableSize_def CFRuntimeClassTable_def
      kCFAllocatorTypeID_CONST_def tree_env_def tree_refines_def no_trees_def no_forest_def forest_def tree_edges_def acyclic_def)

definition tree_script :: "tree_op list" where
  "tree_script = [CreateTree 64 number_context, CreateTree 128 number_context, AppendChild 64 128, ReleaseTree 128]"

theorem CFTree_operations_refine_witness:
  "tree_allows same_rank tree_script no_forest \<and>
   (\<exists>s' N. (\<forall>n \<ge> N. tree_run n tree_env tree_runtime 3 same_rank tree_script no_trees = Some s') \<and> CFTreeGetParent s' 128 = Some 64)"
proof -
  have a: "tree_allows same_rank tree_script no_forest"
    by (simp add: tree_script_def no_forest_def can_adopt_def tree_edges_def)
  then show ?thesis
    using CFTree_operations_refine [OF tree_examples(1,2) tree_examples(3) tree_examples(4) a]
    by (auto simp: tree_script_def no_forest_def drop_reference_def release_dead_def without_def)
qed

text \<open>
  C10. Releasing the last reference to a tree without a parent frees it together with exactly those trees
  below it that are only reached through trees without references from outside.  The context of every tree
  that is freed is released once, no other is.  Children with references of their own survive as trees
  without a parent, and everything else stays as it is.  This is the OS X build; the other one leaks.
\<close>

theorem CFTree_deallocation_correct:
  assumes "forest s K E" "t \<in> dom (ct_nodes s)" "E t = 1" "\<And>p. t \<notin> set (K p)"
  shows "\<exists>s' N l. (\<forall>n \<ge> N. tree_release n True s t = Some s') \<and> forest s' (without K (dead K E t)) (E(t := 0)) \<and>
    dom (ct_nodes s') = dom (ct_nodes s) - dead K E t \<and>
    (\<forall>p \<in> dead K E t. \<forall>c \<in> set (K p). c \<notin> dead K E t \<longrightarrow> CFTreeGetParent s' c = Some NULL \<and> CFTreeApplyFunctionToChildren s' c = Some (K c)) \<and>
    ct_calls s' = ct_calls s @ l \<and> retained l = [] \<and> mset (released l) = released_infos s (dead K E t)"
proof -
  obtain nd where t: "ct_nodes s t = Some nd" using assms(2) by blast
  have D: "release_dead K E t = dead K E t" using assms(3,4) by (simp add: release_dead_def)
  obtain s' N l where r: "\<forall>n \<ge> N. tree_release n True s t = Some s'" "forest s' (without K (dead K E t)) (E(t := E t - 1))"
      "dom (ct_nodes s') = dom (ct_nodes s) - dead K E t" "ct_calls s' = ct_calls s @ l" "releases s (dead K E t) l"
    using tree_release_forest [OF assms(1) t] assms(3) unfolding D by auto
  have "CFTreeGetParent s' c = Some NULL \<and> CFTreeApplyFunctionToChildren s' c = Some (K c)"
    if c: "p \<in> dead K E t" "c \<in> set (K p)" "c \<notin> dead K E t" for p c
  proof -
    have "c \<in> dom (ct_nodes s')" using r(3) c forestD(5) [OF assms(1) c(2)] by auto
    then obtain cd where cd: "ct_nodes s' c = Some cd" by blast
    have "c \<notin> set (without K (dead K E t) q)" for q using forest_unique_parent [OF assms(1) c(2), of q] c(1) by (auto simp: without_def)
    then show ?thesis using forest_reads(5,8) [OF r(2) cd] c(3) by (simp add: without_def)
  qed
  then show ?thesis using r assms(3) by (auto simp: releases_def)
qed

definition family :: CFTrees where
  "family = \<lparr> ct_nodes = [64 \<mapsto> \<lparr> tr_base = make_header (runtime_info 0 False 3 True OR 1) 1, tr_parent = NULL, tr_sibling = NULL, tr_child = 128,
       tr_rightmostChild = 128, tr_info = 7, tr_callbacks = None \<rparr>,
     128 \<mapsto> \<lparr> tr_base = make_header (runtime_info 0 False 3 True OR 1) 1, tr_parent = 64, tr_sibling = NULL, tr_child = NULL,
       tr_rightmostChild = NULL, tr_info = 8, tr_callbacks = None \<rparr>], ct_calls = [] \<rparr>"

definition family_kids :: "ptr \<Rightarrow> ptr list" where
  "family_kids t = (if t = 64 then [128] else [])"

definition family_refs :: "ptr \<Rightarrow> nat" where
  "family_refs t = (if t = 64 then 1 else 0)"

lemma family_header:
  "counter64_ok (make_header (runtime_info 0 False 3 True OR 1) 1)" "header_rc (make_header (runtime_info 0 False 3 True OR 1) 1) = 1"
  "CFBitfieldGetValue (header_info (make_header (runtime_info 0 False 3 True OR 1) 1)) 1 0 = 1"
  by (simp_all add: counter64_ok_def header_low_bits make_header_parts runtime_info_def CFGenericTypeID_def kCFAllocatorTypeID_CONST_def
      CFBitfieldGetValue_def mask_low_three)

lemma family_forest: "forest family family_kids family_refs"
proof -
  have e: "tree_edges family_kids = {(64, 128)}" by (auto simp: tree_edges_def family_kids_def split: if_splits)
  have "acyclic (tree_edges family_kids)" unfolding e by (simp add: acyclic_insert wf_acyclic)
  then show ?thesis using family_header
    by (auto simp: forest_def family_def family_kids_def family_refs_def node_ok_def CFTreeGetCallBacks_def CFTreeGetCallBacksType_def
        kCFTreeHasNullCallBacks_def kCFTreeHasCFTypeCallBacks_def split: if_splits)
qed

theorem CFTree_deallocation_correct_witness:
  "\<exists>s' N l. (\<forall>n \<ge> N. tree_release n True family 64 = Some s') \<and> dom (ct_nodes s') = {} \<and> mset (released l) = {#7, 8#} \<and> ct_calls s' = l"
proof -
  have d: "dead family_kids family_refs 64 = {64, 128}"
    using dead_unfold [of family_kids family_refs 64] dead_unfold [of family_kids family_refs 128] by (simp add: family_kids_def family_refs_def)
  have "released_infos family {64, 128} = {#7, 8#}"
  proof -
    have "{x \<in> {64, 128}. \<exists>cb. CFTreeGetCallBacks (the (ct_nodes family x)) = Some cb \<and> tcb_release cb \<noteq> NULL} = {64, 128}"
      using family_header by (auto simp: family_def CFTreeGetCallBacks_def CFTreeGetCallBacksType_def kCFTreeHasNullCallBacks_def kCFTreeHasCFTypeCallBacks_def kCFTypeTreeCallBacks_def)
    then show ?thesis by (simp add: released_infos_def family_def)
  qed
  moreover have dom: "dom (ct_nodes family) = {64, 128}" "ct_calls family = []" by (auto simp: family_def)
  moreover have "64 \<in> dom (ct_nodes family)" "family_refs 64 = 1" "\<And>p. 64 \<notin> set (family_kids p)"
    unfolding dom by (simp_all add: family_refs_def family_kids_def)
  then obtain s' N l where "\<forall>n \<ge> N. tree_release n True family 64 = Some s'" "dom (ct_nodes s') = dom (ct_nodes family) - {64, 128}"
      "ct_calls s' = ct_calls family @ l" "mset (released l) = released_infos family {64, 128}"
    using CFTree_deallocation_correct [OF family_forest, of 64] unfolding d by blast
  ultimately show ?thesis by (intro exI [of _ s'] exI [of _ N] exI [of _ l]) simp
qed

text \<open>
  C26. A context that is set is the one that is read back, with the value its \<open>retain\<close> function returned,
  whichever of the three ways of storing the callbacks is used; the new value is retained before the old
  one is released, and neither the links nor the contexts of other trees change.
\<close>

theorem CFTree_context_round_trip:
  assumes "forest s K E" "CFTreeGetContext s t = Some old" "env_alloc env 24"
  shows "\<exists>s'. CFTreeSetContext env s t (Some c) = Some s' \<and>
    CFTreeGetContext s' t = Some (c\<lparr>tcx_version := 0, tcx_info := if tcx_retain c \<noteq> NULL then env_retain env (tcx_retain c) (tcx_info c) else tcx_info c\<rparr>) \<and>
    (\<forall>x. x \<noteq> t \<longrightarrow> CFTreeGetContext s' x = CFTreeGetContext s x) \<and> forest s' K E \<and>
    ct_calls s' = ct_calls s @ (if tcx_retain c \<noteq> NULL then [Retain (tcx_info c)] else []) @ (if tcx_release old \<noteq> NULL then [Release (tcx_info old)] else [])"
proof -
  obtain nd where nd: "ct_nodes s t = Some nd" using assms(2) by (auto simp: CFTreeGetContext_def bind_eq_Some_conv)
  obtain cb where cb: "CFTreeGetCallBacks nd = Some cb" using assms(2) nd by (auto simp: CFTreeGetContext_def bind_eq_Some_conv)
  have old: "tcx_release old = tcb_release cb" "tcx_info old = tr_info nd" using assms(2) nd cb by (auto simp: CFTreeGetContext_def)
  let ?l = "ct_calls s @ (if tcx_retain c \<noteq> NULL then [Retain (tcx_info c)] else []) @ (if tcx_release old \<noteq> NULL then [Release (tcx_info old)] else [])"
  obtain nd' where n: "CFTreeSetContext env s t (Some c) = Some (s\<lparr>ct_nodes := (ct_nodes s)(t \<mapsto> nd'), ct_calls := ?l\<rparr>)"
      "CFTreeGetCallBacks nd' = Some (context_callbacks c)" "tr_info nd' = context_info env c" "tr_parent nd' = tr_parent nd" "node_ok K E t nd'"
    using CFTreeSetContext_node [OF nd cb assms(3), of c] forestD(7) [OF assms(1) nd] unfolding old node_ok_def by force
  let ?s = "s\<lparr>ct_nodes := (ct_nodes s)(t \<mapsto> nd'), ct_calls := ?l\<rparr>"
  have "forest ?s K E" by (rule forest_node_change [OF assms(1) nd _ n(4,5)]) simp_all
  moreover have "CFTreeGetContext ?s x = CFTreeGetContext s x" if "x \<noteq> t" for x using that by (simp add: CFTreeGetContext_def)
  moreover have "CFTreeGetContext ?s t = Some (c\<lparr>tcx_version := 0, tcx_info := if tcx_retain c \<noteq> NULL then env_retain env (tcx_retain c) (tcx_info c) else tcx_info c\<rparr>)"
    using n(2,3) by (cases c) (simp add: CFTreeGetContext_def context_callbacks_def context_info_def)
  ultimately show ?thesis using n(1) by (intro exI [of _ ?s]) simp
qed

theorem CFTree_context_round_trip_witness:
  "CFTreeGetContext family 64 = Some (number_context\<lparr>tcx_info := 7\<rparr>) \<and>
   (\<exists>s'. CFTreeSetContext tree_env family 64 (Some (number_context\<lparr>tcx_info := 9\<rparr>)) = Some s' \<and>
      CFTreeGetContext s' 64 = Some (number_context\<lparr>tcx_info := 9\<rparr>) \<and> ct_calls s' = [Retain 9, Release 7])"
proof -
  have g: "CFTreeGetContext family 64 = Some (number_context\<lparr>tcx_info := 7\<rparr>)"
    using family_header(3) by (simp add: CFTreeGetContext_def family_def CFTreeGetCallBacks_def CFTreeGetCallBacksType_def
        kCFTreeHasNullCallBacks_def kCFTreeHasCFTypeCallBacks_def kCFTypeTreeCallBacks_def number_context_def)
  show ?thesis using g CFTree_context_round_trip [OF family_forest g tree_examples(3), of "number_context\<lparr>tcx_info := 9\<rparr>"]
    by (auto simp: number_context_def tree_env_def family_def)
qed

text \<open>
  C40. Where the library is not built for OS X the finalizer leaves the children alone.  The children of a
  tree that is freed keep the reference it held, so that their memory is never freed, and they keep the
  pointer to it: looking for the root of such a child reads freed memory.
\<close>

theorem CFTree_children_leak:
  assumes "forest s K E" "t \<in> dom (ct_nodes s)" "E t = 1" "\<And>p. t \<notin> set (K p)" "c \<in> set (K t)" "2 \<le> n"
  shows "\<exists>s' cd. tree_release n False s t = Some s' \<and> ct_nodes s' t = None \<and> ct_nodes s' c = Some cd \<and>
    tr_parent cd = t \<and> unat (header_rc (tr_base cd)) = E c + 1 \<and> CFTreeFindRoot s' c = None"
proof -
  obtain nd where t: "ct_nodes s t = Some nd" using assms(2) by blast
  have ok: "node_ok K E t nd" by (rule forestD(7) [OF assms(1) t])
  then have p: "tr_parent nd = NULL" using assms(4) by (auto simp: node_ok_def)
  then have h: "counter64_ok (tr_base nd)" "header_rc (tr_base nd) = 1" using ok assms(3) unat_one by (simp_all add: node_ok_def)
  obtain h' where h': "CFRelease64 CFTreeClass (tr_base nd) = Some (h', True)" using CFRelease64_frees [OF h] by blast
  obtain cb where cb: "CFTreeGetCallBacks nd = Some cb" using ok by (auto simp: node_ok_def)
  obtain cd where cd: "ct_nodes s c = Some cd" "tr_parent cd = t" using forestD(5) [OF assms(1,5)] by blast
  obtain m where m: "n = Suc (Suc m)" using le_Suc_ex [OF assms(6)] by auto
  define s1 where "s1 = (if tcb_release cb \<noteq> NULL then tree_call s (Release (tr_info nd)) else s)"
  define s' where "s' = s1\<lparr>ct_nodes := (ct_nodes s)(t := None)\<rparr>"
  have s1: "ct_nodes s1 = ct_nodes s" by (simp add: s1_def tree_call_def)
  have "tree_release n False s t = Some s'" unfolding m using t h' cb by (simp add: s'_def s1_def tree_call_def)
  moreover have ct: "c \<noteq> t" "t \<noteq> NULL" using forest_not_self [OF assms(1), of t] assms(5) forest_parent(4) [OF assms(1) t] by auto
  moreover have "CFTreeFindRoot s' t = None" by (subst CFTreeFindRoot.simps) (simp add: s'_def)
  then have "CFTreeFindRoot s' c = None" using ct cd by (subst CFTreeFindRoot.simps) (simp add: s'_def)
  ultimately show ?thesis using cd forestD(7) [OF assms(1) cd(1)] by (intro exI [of _ s'] exI [of _ cd]) (simp add: s'_def node_ok_def)
qed

theorem CFTree_children_leak_witness:
  "\<exists>s' cd. tree_release 2 False family 64 = Some s' \<and> ct_nodes s' 64 = None \<and> ct_nodes s' 128 = Some cd \<and> tr_parent cd = 64 \<and> CFTreeFindRoot s' 128 = None"
proof -
  have "64 \<in> dom (ct_nodes family)" "family_refs 64 = 1" "\<And>p. 64 \<notin> set (family_kids p)" "128 \<in> set (family_kids 64)" "(2 :: nat) \<le> 2"
    by (simp_all add: family_def family_refs_def family_kids_def)
  from CFTree_children_leak [OF family_forest this] show ?thesis by blast
qed

end
