(* ===== verification/Spec2Isabelle.thy ===== *)
theory Spec2Isabelle
  imports CF_BinaryHeap CF_SortConcurrent CF_Date CF_BigNumber CF_ArraySort CF_ArrayEdit CF_BitVectorOps CF_TreeOps
begin

text \<open>
  A verification development for CoreFoundation (\<open>src/CF-master\<close>), the C library at the bottom
  of the frameworks collected in this repository.

  \<^bold>\<open>The program.\<close>  CoreFoundation is a library of reference-counted objects.  \<open>CFRuntime.c\<close> keeps the table of
  classes, creates objects and counts references; every other part registers a class with it.  Collections
  (\<open>CFArray.c\<close>, \<open>CFBinaryHeap.c\<close>, \<open>CFBitVector.c\<close>, \<open>CFTree.c\<close>) hold pointers or bits and call the client back to
  retain, release and compare values; \<open>CFSortFunctions.c\<close> sorts for arrays and trees.  Values
  (\<open>CFNumber.c\<close>, \<open>CFBigNumber.c\<close>, \<open>CFDate.c\<close>) are immutable; \<open>CFByteOrder.h\<close> gives the bytes of numbers an order.

  \<^bold>\<open>How the code is modelled.\<close>  A struct is a record, a function of the source is a definition with its name
  (leading underscores dropped), and a loop is a recursive function beside it.  Operations that touch memory have
  an \<open>option\<close> result, where \<open>None\<close> is undefined behaviour - an access out of bounds, a read of memory that nobody
  wrote, a signed overflow - or the library's \<open>HALT\<close>; a function that may return \<open>NULL\<close> has a second
  \<open>option\<close> inside, or \<open>NULL\<close> as a pointer.  Blocks of memory are lists of optional cells.  Callbacks, allocators and
  time zones are client or system code: they are arguments (\<open>cf_env\<close>, an offset function), with what the code relies
  on as hypotheses.  Calls to \<open>retain\<close> and \<open>release\<close> are returned as a list, in their order.  Integers are words or
  checked integers where their width matters, doubles are rationals that every operation rounds to 53 bits.  Debug
  assertions are off, there is no garbage collector and no Objective-C object behind a reference.

  \<^bold>\<open>Shared theories.\<close>
  \<^item> \<open>CF_Prelude\<close>: pointers, environments, memory cells, comparison results; the locales \<open>strict_weak_order\<close> and
    \<open>comparator\<close>, the contract of a \<open>compare\<close> callback, which the heap, the sorts and the searches rely on and which
    \<open>CFDateCompare\<close> fulfils.
  \<^item> \<open>CF_Memory\<close>: slices of memory and what an operation may change; counts of references.
  \<^item> \<open>CF_Sequence\<close>: the locale \<open>replaceable_sequence\<close>, a container whose edits are replacements of a range.
  \<^item> \<open>CF_Decimal\<close>: decimal strings.  \<open>CF_Double\<close>: rounding to the nearest double with ties to even, when an operation
    is exact and how large its error is.

  \<^bold>\<open>Reference counting\<close> (\<open>CFRuntime.c\<close>: \<open>_CFRetain\<close>, \<open>_CFRelease\<close>, \<open>_CFTryRetain\<close>, \<open>CFGetRetainCount\<close>,
  \<open>__CFDoExternRefOperation\<close>; classes and instances).
  \<^item> \<open>CF_Runtime\<close>: the class table and the header word of an object.
  \<^item> \<open>CF_RefCount\<close>: retain and release on 64-bit machines as threads that make one atomic access per step, with
    finalizers that may call them again; an inductive step relation interleaves the threads.  Its invariant gives
    that the count is the number of references and that the memory is freed once, with nobody using it; a measure
    gives that all calls can return; a trace shows the race in \<open>_CFTryRetain\<close>.
  \<^item> \<open>CF_RetainCount\<close>: both widths without other threads, as instances of the locale \<open>reference_counter\<close>.  The
    32-bit table of external counts is the number of times it holds an object; its hash tables are abstracted.

  \<^bold>\<open>Sorting\<close> (\<open>CFSortFunctions.c\<close>).  \<open>CF_Sort\<close> has the merge sort and its concurrent variant on buffers with
  offsets, \<open>CF_SortConcurrent\<close> the theorems: each is a stable sort that stays inside its buffers, for every number of
  processors.  Blocks of one \<open>dispatch_apply\<close> write disjoint regions and are run in the order of their index.

  \<^bold>\<open>Arrays\<close> (\<open>CFArray.c\<close>).  \<open>CF_Array\<close> has every function on the deque of buckets, \<open>__CFArrayRepositionDequeRegions\<close>
  among them, and the lemmas on each; \<open>CF_ArrayEdit\<close> interprets \<open>replaceable_sequence\<close> and shows that any sequence of
  edits refines the same edits of a list, with balanced references, that copies are equal, and when
  \<open>_CFArraySetCapacity\<close> overruns its block; \<open>CF_ArraySort\<close> has \<open>CFArraySortValues\<close> and \<open>CFArrayBSearchValues\<close>.  Contents have up to
  \<open>2 ^ 29\<close> values in the edits and fewer than \<open>2 ^ 31\<close> in the searches, within which the capacity rounding and the
  \<open>int\<close> counters of the source do not overflow.

  \<^bold>\<open>Heaps\<close> (\<open>CFBinaryHeap.c\<close>).  \<open>CF_BinaryHeap\<close>: the sift loops keep the heap order and the multiset of values, so that
  \<open>CFBinaryHeapGetValues\<close> sorts; the capacity rounding overflows from \<open>2 ^ 30\<close> on; \<open>__CFBinaryHeapEqual\<close> reads the
  comparison the wrong way round.

  \<^bold>\<open>Bit vectors\<close> (\<open>CFBitVector.c\<close>).  \<open>CF_BitVector\<close> has the operations on bytes, with the locale \<open>bitwise_mapper\<close> for the
  functions mapped over a range, \<open>CF_BitVectorOps\<close> the refinement of edits to lists of bits, searches, copying
  out and equality.  New memory holds arbitrary bytes.

  \<^bold>\<open>Trees\<close> (\<open>CFTree.c\<close>).  \<open>CF_Tree\<close> has the nodes in a store of addresses and every function that reads or changes
  links, on the reference counts of \<open>CF_RetainCount\<close>; \<open>CF_TreeOps\<close> has what a release frees, contexts, and any
  sequence of client operations as a refinement of operations on a forest.  The refinement and the deallocation are
  those of the OS X build (\<open>DEPLOYMENT_TARGET_MACOSX\<close>); the other build leaks the children, which is a theorem too.

  \<^bold>\<open>Numbers.\<close>  \<open>CF_ByteOrder\<close> (\<open>CFByteOrder.h\<close>): the swapping functions on hosts of either order.  \<open>CF_Number\<close> (\<open>CFNumber.c\<close>):
  128-bit arithmetic and printing, creation with the cache of small integers, reading at another type and comparison
  of integer numbers; what \<open>CFNumberGetValue\<close> returns is characterised against the promise of \<open>CFNumber.h\<close>.
  \<open>CF_BigNumber\<close> (\<open>CFBigNumber.c\<close>): conversions, comparison, addition and subtraction, exactly which sums are well
  formed, and the round trips through \<open>CFNumber\<close> and through decimal strings.

  \<^bold>\<open>Dates\<close> (\<open>CFDate.c\<close>).  \<open>CF_Date\<close>: day numbers and calendar dates, absolute times and Gregorian dates, adding units and
  counting weeks, all in the arithmetic of doubles.  The theorems say under which bounds nothing is rounded: days
  within \<open>2 ^ 50\<close> of 2001, and times that are a multiple of \<open>1 / 2 ^ j\<close> seconds and fit 53 bits.  Zones are \<open>NULL\<close> or have a
  fixed offset of whole seconds in the round trip, are arbitrary in the week count, and \<open>NULL\<close> in the addition.

  \<^bold>\<open>Loops and fuel.\<close>  Loops with an evident measure are total functions.  Loops that follow links, subtract powers of
  ten or carry days are \<open>partial_function (option)\<close>, and the theorems give the value they return.  The recursive
  release of trees has a bound on its depth, and the theorems hold for all bounds from some number on (\<open>\<exists>N. \<forall>n \<ge> N\<close>),
  which exists for every forest.  The steps of \<open>CF_RefCount\<close> need no fuel: a call that runs alone returns after at
  most eleven of them.

  \<^bold>\<open>What is not modelled.\<close>  Descriptions, type registration and Objective-C dispatch of the parts above; the
  conversions of \<open>CFNumber.c\<close> from and to floating point; the clock and \<open>CFAbsoluteTimeGetDifferenceAsGregorianUnits\<close>;
  overflow, infinities and signed zeros of doubles; the Windows variants of the reference counts.  Of the rest of
  \<open>src/CF-master\<close>, hash tables (\<open>CFBasicHash.c\<close> and the collections on it), \<open>CFData.c\<close>, \<open>CFStorage.c\<close> and strings with the
  property lists, URLs and XML built on them are not part of the development; locales, calendars, time zones,
  preferences, bundles, run loops, ports and streams wrap ICU or the operating system.  The other programs under
  \<open>src\<close> (objc4, dyld, xnu, GNUstep and the Objective-C applications) are separate and not treated.
\<close>

end
